(* ===== verification/Prelude.thy ===== *)
theory Prelude
  imports Main "HOL-Library.Word"
begin

text \<open>
  What the component theories share: bytes and C strings, the C library
  functions the sources call on them, \<^verbatim>\<open>size_t\<close> arithmetic, growing of
  buffers by doubling, and list lemmas.

  Text is a \<^typ>\<open>string\<close>: a HOL \<^typ>\<open>char\<close> is one byte, and
  \<^term>\<open>of_char c :: nat\<close> is its value as an \<^verbatim>\<open>unsigned char\<close>.
  An allocation may fail: every operation that allocates takes a predicate
  \<open>alloc\<close>, and \<open>alloc n\<close> says that a request for \<open>n\<close> bytes is granted.
\<close>

unbundle bit_operations_syntax

section \<open>Bytes and C strings\<close>

type_synonym allocator = "nat \<Rightarrow> bool"

abbreviation NUL :: char where
  "NUL \<equiv> CHR 0x00"

abbreviation byte_of :: "char \<Rightarrow> nat" where
  "byte_of c \<equiv> (of_char c :: nat)"

definition is_cstr :: "string \<Rightarrow> bool" where
  "is_cstr s \<longleftrightarrow> NUL \<notin> set s"

text \<open>What a reader of the \<^verbatim>\<open>char *\<close> at the front of a buffer sees.\<close>

definition cstr :: "string \<Rightarrow> string" where
  "cstr buf = takeWhile (\<lambda>c. c \<noteq> NUL) buf"

lemma byte_of_lt: "byte_of c < 256"
  by simp

lemma byte_of_eq_iff [simp]: "byte_of c = byte_of d \<longleftrightarrow> c = d"
  by (metis char_of_char)

lemma is_cstr_simps [simp]:
  "is_cstr []"
  "is_cstr (c # s) \<longleftrightarrow> c \<noteq> NUL \<and> is_cstr s"
  "is_cstr (s @ t) \<longleftrightarrow> is_cstr s \<and> is_cstr t"
  by (auto simp: is_cstr_def)

lemma cstr_terminated [simp]: "is_cstr s \<Longrightarrow> cstr (s @ NUL # rest) = s"
  by (induction s) (auto simp: cstr_def)

lemma cstr_of_cstr [simp]: "is_cstr s \<Longrightarrow> cstr s = s"
  by (induction s) (auto simp: cstr_def)

lemma is_cstr_cstr [simp]: "is_cstr (cstr s)"
  by (induction s) (auto simp: cstr_def)

section \<open>Sizes and growing buffers\<close>

text \<open>
  \<^verbatim>\<open>while (cap < need) cap *= 2;\<close> on a \<^verbatim>\<open>size_t\<close>. The first argument bounds the
  iterations. A positive capacity reaches any need up to \<^term>\<open>2 ^ 63 :: nat\<close> in at most
  64 of them; past that the product wraps to 0 and the loop of the source never ends,
  which is the result \<^const>\<open>None\<close> here.
\<close>

fun grow_loop :: "nat \<Rightarrow> nat \<Rightarrow> nat \<Rightarrow> nat option" where
  "grow_loop 0 cap need = None"
| "grow_loop (Suc fuel) cap need =
     (if cap < need then grow_loop fuel (cap * 2 mod 2 ^ 64) need else Some cap)"

lemma grow_loop_ge: "grow_loop fuel cap need = Some c \<Longrightarrow> need \<le> c"
  by (induction fuel cap need rule: grow_loop.induct) (auto split: if_splits)

lemma grow_loop_total:
  assumes "need \<le> 2 ^ 63" and "need \<le> cap * 2 ^ fuel" and "0 < cap"
  shows "\<exists>c. grow_loop (Suc fuel) cap need = Some c"
  using assms
proof (induction fuel arbitrary: cap)
  case 0
  then show ?case by simp
next
  case (Suc fuel)
  show ?case
  proof (cases "cap < need")
    case True
    with Suc.prems have "cap * 2 mod 2 ^ 64 = cap * 2" by simp
    with Suc.IH [of "cap * 2"] Suc.prems True show ?thesis
      by (simp add: mult.assoc)
  next
    case False
    then show ?thesis by simp
  qed
qed

lemma grow_loop_64:
  assumes "0 < cap" and "need \<le> 2 ^ 63"
  shows "\<exists>c. grow_loop 64 cap need = Some c"
proof -
  have "need \<le> cap * 2 ^ 63"
    using assms by (metis One_nat_def Suc_leI le_trans mult_le_mono1 nat_mult_1)
  from grow_loop_total [OF assms(2) this assms(1)] show ?thesis
    by (simp add: eval_nat_numeral del: grow_loop.simps)
qed

section \<open>Runs of operations\<close>

text \<open>What every allowed operation keeps, every run of them keeps.\<close>

locale kept_by =
  fixes step :: "'op \<Rightarrow> 's \<Rightarrow> 's" and allowed :: "'op \<Rightarrow> bool" and good :: "'s \<Rightarrow> bool"
  assumes step_keeps: "good s \<Longrightarrow> allowed op \<Longrightarrow> good (step op s)"
begin

lemma run_keeps: "good s \<Longrightarrow> \<forall>op \<in> set ops. allowed op \<Longrightarrow> good (fold step ops s)"
  by (induction ops arbitrary: s) (auto intro: step_keeps)

end

end
