(* ===== verification/Json_Reader.thy ===== *)
theory Json_Reader
  imports Prelude
begin

text \<open>
  The reader of \<^verbatim>\<open>src/common/arpc_json.c\<close>: a recursive-descent parser that fills a flat
  array of nodes and one buffer of decoded strings, and the accessors over the result.

  A document's \<open>count\<close> is the length of \<open>d_nodes\<close> and its \<open>slen\<close> the length of
  \<open>d_sbuf\<close>. A parser position \<open>p\<close> is represented by the bytes from it to the end of the
  input. A \<^verbatim>\<open>-1\<close> return is \<^const>\<open>None\<close>; what a failed parse leaves in the document is
  never read, only freed.

  The pointer fields \<open>n_str\<close> and \<open>n_key\<close> are numbers, 0 for a null pointer. While the
  parser runs they hold offsets, as the casts of the source make them; \<open>aj_fixup\<close> turns
  them into pointers into the string buffer, and \<open>Suc k\<close> then stands for \<^verbatim>\<open>d->sbuf + k\<close>.
\<close>

section \<open>The document\<close>

datatype aj_type = AJ_NULL | AJ_BOOL | AJ_NUM | AJ_STR | AJ_ARR | AJ_OBJ

record aj_node =
  n_type :: aj_type
  n_num :: int
  n_str :: nat
  n_key :: nat
  first_child :: int
  next_sibling :: int

record aj_doc =
  d_nodes :: "aj_node list"
  d_cap :: nat
  d_sbuf :: string
  d_scap :: nat
  d_ok :: bool

abbreviation d_count :: "aj_doc \<Rightarrow> nat" where
  "d_count d \<equiv> length (d_nodes d)"

text \<open>\<^verbatim>\<open>memset(d, 0, sizeof( *d))\<close>\<close>

definition aj_doc_zero :: aj_doc where
  "aj_doc_zero = \<lparr>d_nodes = [], d_cap = 0, d_sbuf = [], d_scap = 0, d_ok = False\<rparr>"

record aj_p =
  p_rest :: string
  p_doc :: aj_doc
  p_depth :: nat

definition AJ_MAX_DEPTH :: nat where
  "AJ_MAX_DEPTH = 256"

definition sizeof_aj_node :: nat where
  "sizeof_aj_node = 40"

definition blank_node :: "aj_type \<Rightarrow> aj_node" where
  "blank_node t = \<lparr>n_type = t, n_num = 0, n_str = 0, n_key = 0,
     first_child = -1, next_sibling = -1\<rparr>"

definition node_new :: "allocator \<Rightarrow> aj_doc \<Rightarrow> aj_type \<Rightarrow> (nat \<times> aj_doc) option" where
  "node_new alloc d t =
     (let full = (d_count d = d_cap d);
          cap = (if full then (if d_cap d \<noteq> 0 then d_cap d * 2 else 32) else d_cap d)
      in if full \<and> \<not> alloc (cap * sizeof_aj_node) then None
         else Some (d_count d, d\<lparr>d_nodes := d_nodes d @ [blank_node t], d_cap := cap\<rparr>))"

definition sbuf_put :: "allocator \<Rightarrow> aj_doc \<Rightarrow> string \<Rightarrow> (nat \<times> aj_doc) option" where
  "sbuf_put alloc d s =
     (let need = length (d_sbuf d) + length s + 1;
          room = (if need > d_scap d
                  then (case grow_loop 64 (if d_scap d \<noteq> 0 then d_scap d * 2 else 256) need of
                          None \<Rightarrow> None
                        | Some cap \<Rightarrow> if alloc cap then Some cap else None)
                  else Some (d_scap d))
      in case room of
           None \<Rightarrow> None
         | Some cap \<Rightarrow> Some (length (d_sbuf d),
                             d\<lparr>d_sbuf := d_sbuf d @ s @ [NUL], d_scap := cap\<rparr>))"

definition upd_node :: "aj_doc \<Rightarrow> nat \<Rightarrow> (aj_node \<Rightarrow> aj_node) \<Rightarrow> aj_doc" where
  "upd_node d i f = d\<lparr>d_nodes := (d_nodes d)[i := f (d_nodes d ! i)]\<rparr>"

section \<open>Lexical level\<close>

definition is_ws :: "char \<Rightarrow> bool" where
  "is_ws c \<longleftrightarrow> c = CHR '' '' \<or> c = CHR 0x09 \<or> c = CHR 0x0A \<or> c = CHR 0x0D"

fun skip_ws :: "string \<Rightarrow> string" where
  "skip_ws [] = []"
| "skip_ws (c # r) = (if is_ws c then skip_ws r else c # r)"

definition p_skip :: "aj_p \<Rightarrow> aj_p" where
  "p_skip p = p\<lparr>p_rest := skip_ws (p_rest p)\<rparr>"

definition hexval :: "char \<Rightarrow> nat option" where
  "hexval ch =
     (let c = byte_of ch in
      if 48 \<le> c \<and> c \<le> 57 then Some (c - 48)
      else if 97 \<le> c \<and> c \<le> 102 then Some (c - 97 + 10)
      else if 65 \<le> c \<and> c \<le> 70 then Some (c - 65 + 10)
      else None)"

text \<open>
  \<^verbatim>\<open>hex4\<close> reads the four bytes at its argument; every call site has checked that they
  are there, so the case of a shorter input is never taken.
\<close>

fun hex_loop :: "nat \<Rightarrow> nat \<Rightarrow> string \<Rightarrow> nat option" where
  "hex_loop 0 v s = Some v"
| "hex_loop (Suc i) v [] = None"
| "hex_loop (Suc i) v (c # s) =
     (case hexval c of None \<Rightarrow> None | Some d \<Rightarrow> hex_loop i (v * 16 + d) s)"

definition hex4 :: "string \<Rightarrow> nat option" where
  "hex4 s = hex_loop 4 0 s"

definition utf8_put :: "nat \<Rightarrow> string" where
  "utf8_put cp =
     (if cp < 0x80 then [char_of cp]
      else if cp < 0x800 then
        [char_of (0xC0 OR drop_bit 6 cp), char_of (0x80 OR (cp AND 0x3F))]
      else if cp < 0x10000 then
        [char_of (0xE0 OR drop_bit 12 cp), char_of (0x80 OR (drop_bit 6 cp AND 0x3F)),
         char_of (0x80 OR (cp AND 0x3F))]
      else
        [char_of (0xF0 OR drop_bit 18 cp), char_of (0x80 OR (drop_bit 12 cp AND 0x3F)),
         char_of (0x80 OR (drop_bit 6 cp AND 0x3F)), char_of (0x80 OR (cp AND 0x3F))])"

text \<open>
  The \<^verbatim>\<open>case 'u'\<close> of the escape switch: the decoded bytes and what is left after the
  escape. A high surrogate takes the low one after it along, when there is one.
\<close>

definition unicode_escape :: "string \<Rightarrow> (string \<times> string) option" where
  "unicode_escape r =
     (if length r < 4 then None
      else case hex4 r of
        None \<Rightarrow> None
      | Some hi \<Rightarrow>
          (let r1 = drop 4 r;
               lo = (if 0xD800 \<le> hi \<and> hi \<le> 0xDBFF \<and> length r1 \<ge> 6 \<and>
                        r1 ! 0 = CHR 0x5C \<and> r1 ! 1 = CHR ''u''
                     then (case hex4 (drop 2 r1) of
                             None \<Rightarrow> None
                           | Some l \<Rightarrow> if 0xDC00 \<le> l \<and> l \<le> 0xDFFF then Some l else None)
                     else None)
           in case lo of
                None \<Rightarrow> Some (utf8_put hi, r1)
              | Some l \<Rightarrow>
                  Some (utf8_put (0x10000 + push_bit 10 (hi - 0xD800) + (l - 0xDC00)),
                        drop 6 r1)))"

definition simple_escape :: "char \<Rightarrow> char option" where
  "simple_escape c =
     (if c = CHR 0x22 then Some (CHR 0x22)
      else if c = CHR 0x5C then Some (CHR 0x5C)
      else if c = CHR ''/'' then Some (CHR ''/'')
      else if c = CHR ''b'' then Some (CHR 0x08)
      else if c = CHR ''f'' then Some (CHR 0x0C)
      else if c = CHR ''n'' then Some (CHR 0x0A)
      else if c = CHR ''r'' then Some (CHR 0x0D)
      else if c = CHR ''t'' then Some (CHR 0x09)
      else None)"

text \<open>One iteration of the loop over a string's body: the bytes it appends to \<^verbatim>\<open>tmp\<close>.\<close>

fun string_step :: "string \<Rightarrow> (string \<times> string) option" where
  "string_step [] = None"
| "string_step (c # r) =
     (if c \<noteq> CHR 0x5C then (if byte_of c < 0x20 then None else Some ([c], r))
      else case r of
        [] \<Rightarrow> None
      | e # r' \<Rightarrow>
          (case simple_escape e of
             Some x \<Rightarrow> Some ([x], r')
           | None \<Rightarrow> if e = CHR ''u'' then unicode_escape r' else None))"

lemma unicode_escape_length:
  "unicode_escape r = Some (out, r') \<Longrightarrow> length r' < length r"
  by (auto simp: unicode_escape_def Let_def split: if_splits option.splits)

lemma string_step_length: "string_step r = Some (out, r') \<Longrightarrow> length r' < length r"
  by (cases r) (auto split: if_splits list.splits option.splits dest: unicode_escape_length)

declare string_step.simps [simp del]

text \<open>
  The loop of \<^verbatim>\<open>parse_string_raw\<close>: the decoded bytes so far, the capacity of the buffer
  they are in, and the input. It stops at the closing quote, which it leaves in the input.
\<close>

function string_loop ::
  "allocator \<Rightarrow> string \<Rightarrow> nat \<Rightarrow> string \<Rightarrow> (string \<times> string) option" where
  "string_loop alloc tmp cap r =
     (case r of
        [] \<Rightarrow> None
      | c # _ \<Rightarrow>
          if c = CHR 0x22 then Some (tmp, r)
          else if length tmp + 5 > cap \<and> \<not> alloc (cap * 2) then None
          else case string_step r of
            None \<Rightarrow> None
          | Some (out, r') \<Rightarrow>
              string_loop alloc (tmp @ out)
                (if length tmp + 5 > cap then cap * 2 else cap) r')"
  by pat_completeness auto
termination
  by (relation "measure (\<lambda>(alloc, tmp, cap, r). length r)") (auto dest: string_step_length)

declare string_loop.simps [simp del]

definition parse_string_raw :: "allocator \<Rightarrow> aj_p \<Rightarrow> (nat \<times> aj_p) option" where
  "parse_string_raw alloc p =
     (case p_rest p of
        [] \<Rightarrow> None
      | c # r \<Rightarrow>
          if c \<noteq> CHR 0x22 then None
          else case string_loop alloc [] 256 r of
            None \<Rightarrow> None
          | Some (tmp, r') \<Rightarrow>
              (case sbuf_put alloc (p_doc p) tmp of
                 None \<Rightarrow> None
               | Some (off, d) \<Rightarrow> Some (off, p\<lparr>p_rest := tl r', p_doc := d\<rparr>)))"

section \<open>Numbers\<close>

definition ULLONG_MAX :: int where
  "ULLONG_MAX = 18446744073709551615"

definition LLONG_MAX :: int where
  "LLONG_MAX = 9223372036854775807"

definition is_digit :: "char \<Rightarrow> bool" where
  "is_digit c \<longleftrightarrow> 48 \<le> byte_of c \<and> byte_of c \<le> 57"

text \<open>The accumulating loop: \<^const>\<open>None\<close> when the next digit would not fit.\<close>

fun digits_loop :: "int \<Rightarrow> string \<Rightarrow> (int \<times> string) option" where
  "digits_loop u [] = Some (u, [])"
| "digits_loop u (c # r) =
     (if is_digit c
      then (let d = int (byte_of c) - 48
            in if u > (ULLONG_MAX - d) div 10 then None else digits_loop (u * 10 + d) r)
      else Some (u, c # r))"

definition parse_number :: "string \<Rightarrow> (int \<times> string) option" where
  "parse_number s =
     (let neg = (s \<noteq> [] \<and> hd s = CHR ''-'');
          s1 = (if neg then tl s else s)
      in if s1 = [] \<or> \<not> is_digit (hd s1) then None
         else case digits_loop 0 s1 of
           None \<Rightarrow> None
         | Some (u, r) \<Rightarrow>
             if r \<noteq> [] \<and> hd r \<in> {CHR ''.'', CHR ''e'', CHR ''E''} then None
             else if neg then
               (if u > LLONG_MAX + 1 then None
                else Some (if u = LLONG_MAX + 1 then - LLONG_MAX - 1 else - u, r))
             else (if u > LLONG_MAX then None else Some (u, r)))"

section \<open>Values\<close>

text \<open>A new node of the given type, after the input has been consumed up to \<open>r\<close>.\<close>

definition leaf :: "allocator \<Rightarrow> aj_p \<Rightarrow> string \<Rightarrow> aj_type \<Rightarrow> (aj_node \<Rightarrow> aj_node)
    \<Rightarrow> (nat \<times> aj_p) option" where
  "leaf alloc p r t f =
     (case node_new alloc (p_doc p) t of
        None \<Rightarrow> None
      | Some (n, d) \<Rightarrow> Some (n, p\<lparr>p_rest := r, p_doc := upd_node d n f\<rparr>))"

text \<open>The branches of \<^verbatim>\<open>parse_value\<close> that make no recursive call.\<close>

definition parse_scalar :: "allocator \<Rightarrow> aj_p \<Rightarrow> (nat \<times> aj_p) option" where
  "parse_scalar alloc p =
     (let s = p_rest p in
      if s \<noteq> [] \<and> hd s = CHR 0x22 then
        (case parse_string_raw alloc p of
           None \<Rightarrow> None
         | Some (off, p1) \<Rightarrow> leaf alloc p1 (p_rest p1) AJ_STR (\<lambda>n. n\<lparr>n_str := off\<rparr>))
      else if length s \<ge> 4 \<and> take 4 s = ''true'' then
        leaf alloc p (drop 4 s) AJ_BOOL (\<lambda>n. n\<lparr>n_num := 1\<rparr>)
      else if length s \<ge> 5 \<and> take 5 s = ''false'' then
        leaf alloc p (drop 5 s) AJ_BOOL (\<lambda>n. n\<lparr>n_num := 0\<rparr>)
      else if length s \<ge> 4 \<and> take 4 s = ''null'' then
        leaf alloc p (drop 4 s) AJ_NULL (\<lambda>n. n)
      else if s \<noteq> [] \<and> (hd s = CHR ''-'' \<or> is_digit (hd s)) then
        (case parse_number s of
           None \<Rightarrow> None
         | Some (v, r) \<Rightarrow> leaf alloc p r AJ_NUM (\<lambda>n. n\<lparr>n_num := v\<rparr>))
      else None)"

text \<open>The member name of an object's entry and its colon; the name's offset.\<close>

definition parse_key :: "allocator \<Rightarrow> aj_p \<Rightarrow> (nat \<times> aj_p) option" where
  "parse_key alloc p =
     (case parse_string_raw alloc (p_skip p) of
        None \<Rightarrow> None
      | Some (koff, p1) \<Rightarrow>
          (let p2 = p_skip p1 in
           case p_rest p2 of
             [] \<Rightarrow> None
           | c # r \<Rightarrow> if c \<noteq> CHR '':'' then None else Some (koff, p2\<lparr>p_rest := r\<rparr>)))"

definition closer :: "bool \<Rightarrow> char" where
  "closer is_obj = (if is_obj then CHR ''}'' else CHR '']'')"

text \<open>What the loop does with a parsed child: its key, and the link to it.\<close>

definition link_child :: "aj_doc \<Rightarrow> bool \<Rightarrow> nat \<Rightarrow> nat \<Rightarrow> int \<Rightarrow> nat \<Rightarrow> aj_doc" where
  "link_child d is_obj koff self prev child =
     (let d1 = (if is_obj then upd_node d child (\<lambda>n. n\<lparr>n_key := koff + 1\<rparr>) else d)
      in if prev < 0 then upd_node d1 self (\<lambda>n. n\<lparr>first_child := int child\<rparr>)
         else upd_node d1 (nat prev) (\<lambda>n. n\<lparr>next_sibling := int child\<rparr>))"

function parse_value :: "allocator \<Rightarrow> aj_p \<Rightarrow> (nat \<times> aj_p) option"
  and parse_container :: "allocator \<Rightarrow> aj_p \<Rightarrow> bool \<Rightarrow> (nat \<times> aj_p) option"
  and parse_container_body :: "allocator \<Rightarrow> aj_p \<Rightarrow> bool \<Rightarrow> (nat \<times> aj_p) option"
  and container_loop :: "allocator \<Rightarrow> aj_p \<Rightarrow> bool \<Rightarrow> nat \<Rightarrow> int \<Rightarrow> (nat \<times> aj_p) option"
where
  "parse_value alloc p0 =
     (let p = p_skip p0 in
      case p_rest p of
        [] \<Rightarrow> None
      | c # _ \<Rightarrow>
          if c = CHR ''{'' then parse_container alloc p True
          else if c = CHR ''['' then parse_container alloc p False
          else parse_scalar alloc p)"
| "parse_container alloc p is_obj =
     (if p_depth p \<ge> AJ_MAX_DEPTH then None
      else case parse_container_body alloc (p\<lparr>p_depth := p_depth p + 1\<rparr>) is_obj of
        None \<Rightarrow> None
      | Some (r, p') \<Rightarrow> Some (r, p'\<lparr>p_depth := p_depth p' - 1\<rparr>))"
| "parse_container_body alloc p is_obj =
     (case node_new alloc (p_doc p) (if is_obj then AJ_OBJ else AJ_ARR) of
        None \<Rightarrow> None
      | Some (self, d) \<Rightarrow>
          (case p_rest p of
             [] \<Rightarrow> None
           | _ # r \<Rightarrow>
               (let p1 = p_skip (p\<lparr>p_rest := r, p_doc := d\<rparr>) in
                if p_rest p1 \<noteq> [] \<and> hd (p_rest p1) = closer is_obj
                then Some (self, p1\<lparr>p_rest := tl (p_rest p1)\<rparr>)
                else container_loop alloc p1 is_obj self (- 1))))"
| "container_loop alloc p is_obj self prev =
     (case (if is_obj then parse_key alloc p else Some (0, p)) of
        None \<Rightarrow> None
      | Some (koff, p1) \<Rightarrow>
          (case parse_value alloc p1 of
             None \<Rightarrow> None
           | Some (child, p2) \<Rightarrow>
               (let p3 = p_skip (p2\<lparr>p_doc := link_child (p_doc p2) is_obj koff self prev child\<rparr>) in
                if p_rest p3 \<noteq> [] \<and> hd (p_rest p3) = CHR '',''
                then container_loop alloc (p3\<lparr>p_rest := tl (p_rest p3)\<rparr>) is_obj self (int child)
                else if p_rest p3 \<noteq> [] \<and> hd (p_rest p3) = closer is_obj
                then Some (self, p3\<lparr>p_rest := tl (p_rest p3)\<rparr>)
                else None)))"
  by pat_completeness auto

subsection \<open>No step gives input back, so the recursion ends\<close>

lemma skip_ws_length [simp]: "length (skip_ws s) \<le> length s"
  by (induction s) auto

lemma p_skip_simps [simp]:
  "p_rest (p_skip p) = skip_ws (p_rest p)"
  "p_doc (p_skip p) = p_doc p"
  "p_depth (p_skip p) = p_depth p"
  by (simp_all add: p_skip_def)

lemma string_loop_SomeE:
  assumes "string_loop alloc tmp cap r = Some (tmp', r')"
  obtains (stop) s where "r = CHR 0x22 # s" "tmp' = tmp" "r' = r"
    | (step) out r1 cap' where "string_step r = Some (out, r1)"
        "string_loop alloc (tmp @ out) cap' r1 = Some (tmp', r')"
  using assms
  by (subst (asm) string_loop.simps) (auto split: list.splits if_splits option.splits)

lemma string_loop_length:
  "string_loop alloc tmp cap r = Some (tmp', r') \<Longrightarrow> length r' \<le> length r \<and> r' \<noteq> []"
proof (induction "length r" arbitrary: tmp cap r rule: less_induct)
  case less
  from less.prems show ?case
  proof (cases rule: string_loop_SomeE)
    case (step out r1 cap')
    from step(1) have "length r1 < length r" by (rule string_step_length)
    with less.hyps [OF this step(2)] show ?thesis by simp
  qed auto
qed

lemma parse_string_raw_length:
  "parse_string_raw alloc p = Some (off, p') \<Longrightarrow> length (p_rest p') < length (p_rest p)"
  by (auto simp: parse_string_raw_def split: list.splits if_splits option.splits
      dest!: string_loop_length)

lemma digits_loop_length: "digits_loop u s = Some (v, r) \<Longrightarrow> length r \<le> length s"
  by (induction u s rule: digits_loop.induct) (auto simp: Let_def split: if_splits)

lemma parse_number_length: "parse_number s = Some (v, r) \<Longrightarrow> length r \<le> length s"
  by (auto simp: parse_number_def Let_def split: if_splits option.splits
      dest!: digits_loop_length)

lemma leaf_length: "leaf alloc p r t f = Some (n, p') \<Longrightarrow> p_rest p' = r"
  by (auto simp: leaf_def split: option.splits)

lemma parse_scalar_length:
  "parse_scalar alloc p = Some (n, p') \<Longrightarrow> length (p_rest p') \<le> length (p_rest p)"
  by (auto simp: parse_scalar_def Let_def split: if_splits option.splits
      dest!: leaf_length parse_string_raw_length parse_number_length)

lemma parse_key_length:
  "parse_key alloc p = Some (koff, p') \<Longrightarrow> length (p_rest p') < length (p_rest p)"
  using skip_ws_length [of "p_rest p"]
  by (auto simp: parse_key_def Let_def split: if_splits option.splits list.splits
      dest!: parse_string_raw_length)
    (metis (no_types, lifting) Suc_lessD length_Cons less_le_trans skip_ws_length nat_less_le)

lemma parse_rest_le:
  "parse_value_parse_container_parse_container_body_container_loop_dom (Inl (Inl (alloc, p))) \<Longrightarrow>
     parse_value alloc p = Some (n, p') \<Longrightarrow> length (p_rest p') \<le> length (p_rest p)"
  "parse_value_parse_container_parse_container_body_container_loop_dom (Inl (Inr (alloc, p, b))) \<Longrightarrow>
     parse_container alloc p b = Some (n, p') \<Longrightarrow> length (p_rest p') \<le> length (p_rest p)"
  "parse_value_parse_container_parse_container_body_container_loop_dom (Inr (Inl (alloc, p, b))) \<Longrightarrow>
     parse_container_body alloc p b = Some (n, p') \<Longrightarrow> length (p_rest p') \<le> length (p_rest p)"
  "parse_value_parse_container_parse_container_body_container_loop_dom (Inr (Inr (alloc, p, b, self, prev))) \<Longrightarrow>
     container_loop alloc p b self prev = Some (n, p') \<Longrightarrow> length (p_rest p') \<le> length (p_rest p)"
proof (induction alloc p and alloc p b and alloc p b and alloc p b self prev
    arbitrary: n p' and n p' and n p' and n p'
    rule: parse_value_parse_container_parse_container_body_container_loop.pinduct)
  case (1 alloc p0)
  have "length (p_rest p') \<le> length (skip_ws (p_rest p0))"
    using "1.prems" "1.IH"(1) [OF refl] "1.IH"(2) [OF refl] parse_scalar_length [of alloc "p_skip p0"]
    by (auto simp: parse_value.psimps [OF "1.hyps"] Let_def split: list.splits if_splits)
  then show ?case by (rule le_trans) simp
next
  case (2 alloc p is_obj)
  then show ?case
    by (fastforce simp: parse_container.psimps split: if_splits option.splits)
next
  case (3 alloc p is_obj)
  from "3.prems" obtain self d c r where new:
      "node_new alloc (p_doc p) (if is_obj then AJ_OBJ else AJ_ARR) = Some (self, d)"
      "p_rest p = c # r"
    by (auto simp: parse_container_body.psimps [OF "3.hyps"] split: option.splits list.splits)
  let ?p1 = "p_skip (p\<lparr>p_rest := r, p_doc := d\<rparr>)"
  have "length (p_rest p') \<le> length (p_rest ?p1)"
    using "3.prems" "3.IH" [OF new(1) refl new(2) refl] new
    by (auto simp: parse_container_body.psimps [OF "3.hyps"] Let_def split: if_splits)
  also have "\<dots> \<le> length r" by simp
  finally show ?case using new(2) by simp
next
  case (4 alloc p is_obj self prev)
  from "4.prems" obtain koff p1 child p2 where steps:
      "(if is_obj then parse_key alloc p else Some (0, p)) = Some (koff, p1)"
      "parse_value alloc p1 = Some (child, p2)"
    by (auto simp: container_loop.psimps [OF "4.hyps"] split: option.splits)
  let ?p3 = "p_skip (p2\<lparr>p_doc := link_child (p_doc p2) is_obj koff self prev child\<rparr>)"
  have "length (p_rest p') \<le> length (p_rest ?p3)"
    using "4.prems" "4.IH"(2) [OF steps(1) refl steps(2) refl refl] steps
    by (fastforce simp: container_loop.psimps [OF "4.hyps"] Let_def split: if_splits)
  also have "\<dots> \<le> length (p_rest p2)" by simp
  also have "\<dots> \<le> length (p_rest p1)"
    using "4.IH"(1) [OF steps(1) refl] steps(2) by blast
  also have "\<dots> \<le> length (p_rest p)"
    using steps(1) parse_key_length [of alloc p] by (auto split: if_splits dest: less_imp_le)
  finally show ?case .
qed

termination parse_value
proof (relation "measures
    [\<lambda>x. case x of
        Inl (Inl (alloc, p)) \<Rightarrow> length (p_rest p)
      | Inl (Inr (alloc, p, b)) \<Rightarrow> length (p_rest p)
      | Inr (Inl (alloc, p, b)) \<Rightarrow> length (p_rest p)
      | Inr (Inr (alloc, p, b, self, prev)) \<Rightarrow> length (p_rest p),
     \<lambda>x. case x of
        Inl (Inl _) \<Rightarrow> 2 | Inl (Inr _) \<Rightarrow> 1 | Inr (Inl _) \<Rightarrow> 0 | Inr (Inr _) \<Rightarrow> 3]", goal_cases)
  case 1
  show ?case by simp
next
  case (2 alloc p0 p c r)
  then show ?case using skip_ws_length [of "p_rest p0"] by (auto simp: le_less)
next
  case (3 alloc p0 p c r)
  then show ?case using skip_ws_length [of "p_rest p0"] by (auto simp: le_less)
next
  case (4 alloc p is_obj)
  then show ?case by simp
next
  case (5 alloc p is_obj x2 self d c r p1)
  then show ?case using skip_ws_length [of r] by (auto simp: less_Suc_eq_le)
next
  case (6 alloc p is_obj self prev x2 koff p1)
  then show ?case using parse_key_length [of alloc p koff p1] by (auto split: if_splits)
next
  case (7 alloc p is_obj self prev x2 koff p1 x2a child p2 p3)
  have "length (p_rest p3) \<le> length (p_rest p2)" using 7 by simp
  also have "\<dots> \<le> length (p_rest p1)" 
    using parse_rest_le(1) [OF 7(7), of child p2] 7(3,4) by simp
  also have "\<dots> \<le> length (p_rest p)"
    using 7 parse_key_length [of alloc p koff p1] by (auto split: if_splits)
  finally show ?case using 7 by (cases "p_rest p3") auto
qed

declare parse_value.simps [simp del] parse_container.simps [simp del]
  parse_container_body.simps [simp del] container_loop.simps [simp del]

section \<open>The entry point and the accessors\<close>

text \<open>
  The loop at the end of \<^verbatim>\<open>aj_parse\<close>: an offset \<open>k\<close> becomes \<^verbatim>\<open>d->sbuf + k\<close>, which is
  \<open>Suc k\<close>. A key was stored biased by one, so that offset 0 is not a null key.
\<close>

definition fixup_node :: "aj_node \<Rightarrow> aj_node" where
  "fixup_node n =
     (let n1 = (if n_type n = AJ_STR then n\<lparr>n_str := Suc (n_str n)\<rparr> else n)
      in if n_key n1 \<noteq> 0 then n1\<lparr>n_key := Suc (n_key n1 - 1)\<rparr> else n1)"

definition aj_fixup :: "aj_doc \<Rightarrow> aj_doc" where
  "aj_fixup d = d\<lparr>d_nodes := map fixup_node (d_nodes d)\<rparr>"

text \<open>\<^const>\<open>None\<close> is the return value 0.\<close>

definition aj_parse :: "allocator \<Rightarrow> string \<Rightarrow> aj_doc option" where
  "aj_parse alloc s =
     (case parse_value alloc \<lparr>p_rest = s, p_doc = aj_doc_zero, p_depth = 0\<rparr> of
        None \<Rightarrow> None
      | Some (root, p) \<Rightarrow>
          if root \<noteq> 0 then None
          else if p_rest (p_skip p) \<noteq> [] then None
          else Some ((aj_fixup (p_doc p))\<lparr>d_ok := True\<rparr>))"

definition aj_free :: "aj_doc \<Rightarrow> aj_doc" where
  "aj_free d = aj_doc_zero"

definition aj_at :: "aj_doc \<Rightarrow> int \<Rightarrow> aj_node option" where
  "aj_at d i = (if i < 0 \<or> i \<ge> int (d_count d) then None else Some (d_nodes d ! nat i))"

definition is_container :: "aj_node \<Rightarrow> bool" where
  "is_container n \<longleftrightarrow> n_type n = AJ_ARR \<or> n_type n = AJ_OBJ"

text \<open>The C string at a pointer into the document's string buffer.\<close>

definition str_at :: "aj_doc \<Rightarrow> nat \<Rightarrow> string" where
  "str_at d ptr = cstr (drop (ptr - 1) (d_sbuf d))"

text \<open>
  The sibling walks. Links of a parsed document only point forward, so a walk visits at
  most \<open>d_count d\<close> nodes; the first argument is that bound, and the lemmas about chains
  below show that it is never what ends a walk.
\<close>

fun member_loop :: "nat \<Rightarrow> aj_doc \<Rightarrow> string \<Rightarrow> int \<Rightarrow> int" where
  "member_loop 0 d key i = -1"
| "member_loop (Suc fuel) d key i =
     (if i < 0 then -1
      else let n = d_nodes d ! nat i in
           if n_key n \<noteq> 0 \<and> str_at d (n_key n) = key then i
           else member_loop fuel d key (next_sibling n))"

definition aj_member :: "aj_doc \<Rightarrow> int \<Rightarrow> string \<Rightarrow> int" where
  "aj_member d obj key =
     (case aj_at d obj of
        None \<Rightarrow> -1
      | Some ob \<Rightarrow> if n_type ob \<noteq> AJ_OBJ then -1
                   else member_loop (Suc (d_count d)) d key (first_child ob))"

fun elem_loop :: "nat \<Rightarrow> aj_doc \<Rightarrow> int \<Rightarrow> int" where
  "elem_loop 0 d i = i"
| "elem_loop (Suc k) d i =
     (if i < 0 then i else elem_loop k d (next_sibling (d_nodes d ! nat i)))"

definition aj_elem :: "aj_doc \<Rightarrow> int \<Rightarrow> int \<Rightarrow> int" where
  "aj_elem d arr ix =
     (case aj_at d arr of
        None \<Rightarrow> -1
      | Some a \<Rightarrow> if \<not> is_container a \<or> ix < 0 then -1
                  else elem_loop (nat ix) d (first_child a))"

definition aj_first :: "aj_doc \<Rightarrow> int \<Rightarrow> int" where
  "aj_first d c =
     (case aj_at d c of None \<Rightarrow> -1 | Some a \<Rightarrow> if \<not> is_container a then -1 else first_child a)"

definition aj_next :: "aj_doc \<Rightarrow> int \<Rightarrow> int" where
  "aj_next d i = (case aj_at d i of None \<Rightarrow> -1 | Some n \<Rightarrow> next_sibling n)"

fun count_loop :: "nat \<Rightarrow> aj_doc \<Rightarrow> int \<Rightarrow> nat" where
  "count_loop 0 d i = 0"
| "count_loop (Suc fuel) d i =
     (if i < 0 then 0 else Suc (count_loop fuel d (next_sibling (d_nodes d ! nat i))))"

definition aj_count :: "aj_doc \<Rightarrow> int \<Rightarrow> nat" where
  "aj_count d c =
     (case aj_at d c of
        None \<Rightarrow> 0
      | Some a \<Rightarrow> if \<not> is_container a then 0
                  else count_loop (Suc (d_count d)) d (first_child a))"

definition aj_i64 :: "aj_doc \<Rightarrow> int \<Rightarrow> int \<Rightarrow> int" where
  "aj_i64 d i dflt =
     (case aj_at d i of
        None \<Rightarrow> dflt
      | Some n \<Rightarrow> if n_type n = AJ_NUM \<or> n_type n = AJ_BOOL then n_num n else dflt)"

text \<open>A \<^verbatim>\<open>const char *\<close> result or default: \<^const>\<open>None\<close> is the null pointer.\<close>

definition aj_str :: "aj_doc \<Rightarrow> int \<Rightarrow> string option \<Rightarrow> string option" where
  "aj_str d i dflt =
     (case aj_at d i of
        None \<Rightarrow> dflt
      | Some n \<Rightarrow> if n_type n = AJ_STR then Some (str_at d (n_str n)) else dflt)"

definition aj_is_null :: "aj_doc \<Rightarrow> int \<Rightarrow> bool" where
  "aj_is_null d i = (case aj_at d i of None \<Rightarrow> True | Some n \<Rightarrow> n_type n = AJ_NULL)"

end
