(* ===== verification/Json_Doc.thy ===== *)
theory Json_Doc
  imports Json_Reader
begin

text \<open>
  What the parser keeps true of the document it builds, for every input: links point
  forward and inside the node array, strings lie inside the string buffer and are
  terminated there, numbers are in the range of \<^verbatim>\<open>long long\<close>, the arrays hold what they
  were allocated for, and a call changes no node that was there before it.
\<close>

definition link_ok :: "aj_doc \<Rightarrow> nat \<Rightarrow> int \<Rightarrow> bool" where
  "link_ok d i l \<longleftrightarrow> l = -1 \<or> (int i < l \<and> l < int (d_count d))"

definition node_ok :: "aj_doc \<Rightarrow> nat \<Rightarrow> bool" where
  "node_ok d i \<longleftrightarrow>
     (let n = d_nodes d ! i in
      link_ok d i (first_child n) \<and> link_ok d i (next_sibling n) \<and>
      (n_type n = AJ_STR \<longrightarrow> n_str n < length (d_sbuf d)) \<and>
      n_key n \<le> length (d_sbuf d) \<and>
      - LLONG_MAX - 1 \<le> n_num n \<and> n_num n \<le> LLONG_MAX)"

definition doc_wf :: "aj_doc \<Rightarrow> bool" where
  "doc_wf d \<longleftrightarrow>
     (\<forall>i < d_count d. node_ok d i) \<and>
     (d_sbuf d \<noteq> [] \<longrightarrow> last (d_sbuf d) = NUL) \<and>
     d_count d \<le> d_cap d \<and> length (d_sbuf d) \<le> d_scap d"

text \<open>\<open>doc_step t d d'\<close>: \<open>d'\<close> extends \<open>d\<close>, and only node \<open>t\<close> of \<open>d\<close> may differ in it.\<close>

definition doc_step :: "nat option \<Rightarrow> aj_doc \<Rightarrow> aj_doc \<Rightarrow> bool" where
  "doc_step t d d' \<longleftrightarrow>
     doc_wf d' \<and> d_count d \<le> d_count d' \<and>
     (\<forall>j < d_count d. Some j \<noteq> t \<longrightarrow> d_nodes d' ! j = d_nodes d ! j) \<and>
     (\<exists>s. d_sbuf d' = d_sbuf d @ s)"

lemma doc_wf_zero [simp]: "doc_wf aj_doc_zero"
  by (simp add: doc_wf_def aj_doc_zero_def)

lemma doc_step_refl [simp]: "doc_wf d \<Longrightarrow> doc_step None d d"
  by (simp add: doc_step_def)

lemma doc_step_wf: "doc_step t d d' \<Longrightarrow> doc_wf d'"
  by (simp add: doc_step_def)

lemma doc_step_count: "doc_step t d d' \<Longrightarrow> d_count d \<le> d_count d'"
  by (simp add: doc_step_def)

lemma doc_step_sbuf: "doc_step t d d' \<Longrightarrow> length (d_sbuf d) \<le> length (d_sbuf d')"
  by (auto simp: doc_step_def)

lemma doc_step_nth:
  "doc_step t d d' \<Longrightarrow> j < d_count d \<Longrightarrow> Some j \<noteq> t \<Longrightarrow> d_nodes d' ! j = d_nodes d ! j"
  by (simp add: doc_step_def)

lemma doc_step_trans:
  assumes "doc_step t d d1" and "doc_step u d1 d2"
    and "\<And>j. u = Some j \<Longrightarrow> d_count d \<le> j \<or> t = Some j"
  shows "doc_step t d d2"
proof -
  have "d_nodes d2 ! j = d_nodes d ! j" if "j < d_count d" "Some j \<noteq> t" for j
  proof -
    have "Some j \<noteq> u" using assms(3) [of j] that by auto
    then show ?thesis
      using doc_step_nth [OF assms(1) that] doc_step_nth [OF assms(2), of j]
        doc_step_count [OF assms(1)] that by simp
  qed
  with assms(1,2) show ?thesis by (auto simp: doc_step_def)
qed

lemma link_ok_mono: "link_ok d i l \<Longrightarrow> d_count d \<le> d_count d' \<Longrightarrow> link_ok d' i l"
  by (auto simp: link_ok_def)

lemma node_ok_mono:
  assumes "node_ok d i" and "d_nodes d' ! i = d_nodes d ! i"
    and "d_count d \<le> d_count d'" and "length (d_sbuf d) \<le> length (d_sbuf d')"
  shows "node_ok d' i"
  using assms unfolding node_ok_def Let_def
  by (auto intro: link_ok_mono dest: less_le_trans)

section \<open>The primitive operations\<close>

lemma LLONG_MAX_pos [simp]: "0 < LLONG_MAX" "0 \<le> LLONG_MAX" "- 1 \<le> LLONG_MAX" "1 \<le> LLONG_MAX"
  by (simp_all add: LLONG_MAX_def)

lemma blank_node_simps [simp]:
  "n_type (blank_node t) = t" "n_num (blank_node t) = 0" "n_str (blank_node t) = 0"
  "n_key (blank_node t) = 0" "first_child (blank_node t) = -1"
  "next_sibling (blank_node t) = -1"
  by (simp_all add: blank_node_def)

lemma upd_node_simps [simp]:
  "d_count (upd_node d i f) = d_count d" "d_sbuf (upd_node d i f) = d_sbuf d"
  "d_cap (upd_node d i f) = d_cap d" "d_scap (upd_node d i f) = d_scap d"
  by (simp_all add: upd_node_def)

lemma upd_node_nth:
  "j < d_count d \<Longrightarrow>
     d_nodes (upd_node d i f) ! j = (if j = i then f (d_nodes d ! i) else d_nodes d ! j)"
  by (auto simp: upd_node_def)

lemma node_new_SomeD:
  assumes "node_new alloc d t = Some (n, d')"
  shows "n = d_count d" "d_nodes d' = d_nodes d @ [blank_node t]" "d_sbuf d' = d_sbuf d"
    "d_scap d' = d_scap d" "d_count d \<le> d_cap d \<Longrightarrow> d_count d' \<le> d_cap d'"
  using assms by (auto simp: node_new_def Let_def split: if_splits)

lemma doc_wf_new_node:
  assumes wf: "doc_wf d"
    and d': "d_nodes d' = d_nodes d @ [n]" "d_sbuf d' = d_sbuf d" "d_scap d' = d_scap d"
      "d_count d' \<le> d_cap d'"
    and n: "first_child n = -1" "next_sibling n = -1" "n_key n = 0"
      "n_type n = AJ_STR \<longrightarrow> n_str n < length (d_sbuf d)"
      "- LLONG_MAX - 1 \<le> n_num n" "n_num n \<le> LLONG_MAX"
  shows "doc_step None d d'"
proof -
  have "node_ok d' i" if "i < d_count d'" for i
  proof (cases "i < d_count d")
    case True
    then show ?thesis
      using wf d' by (auto intro: node_ok_mono [of d] simp: doc_wf_def nth_append)
  next
    case False
    with that d' have "i = d_count d" by simp
    then show ?thesis using d' n by (simp add: node_ok_def link_ok_def)
  qed
  then show ?thesis
    using wf d' by (auto simp: doc_step_def doc_wf_def nth_append)
qed

lemma doc_wf_sbuf_put:
  assumes put: "sbuf_put alloc d s = Some (off, d')" and wf: "doc_wf d"
  shows "doc_step None d d'" "off = length (d_sbuf d)" "off < length (d_sbuf d')"
    "d_nodes d' = d_nodes d" "d_sbuf d' = d_sbuf d @ s @ [NUL]"
proof -
  from put have d': "off = length (d_sbuf d)" "d_nodes d' = d_nodes d" "d_cap d' = d_cap d"
      "d_sbuf d' = d_sbuf d @ s @ [NUL]" "length (d_sbuf d') \<le> d_scap d'"
    by (auto simp: sbuf_put_def Let_def split: if_splits option.splits dest: grow_loop_ge)
  then show "off = length (d_sbuf d)" "off < length (d_sbuf d')" "d_nodes d' = d_nodes d"
    "d_sbuf d' = d_sbuf d @ s @ [NUL]"
    by simp_all
  have "node_ok d' i" if "i < d_count d'" for i
    using that wf d' by (auto intro: node_ok_mono [of d] simp: doc_wf_def)
  then show "doc_step None d d'"
    using wf d' by (auto simp: doc_step_def doc_wf_def)
qed

lemma leaf_ok:
  assumes leaf: "leaf alloc p r t f = Some (n, p')" and wf: "doc_wf (p_doc p)"
    and f: "first_child (f (blank_node t)) = -1" "next_sibling (f (blank_node t)) = -1"
      "n_key (f (blank_node t)) = 0"
      "n_type (f (blank_node t)) = AJ_STR \<longrightarrow> n_str (f (blank_node t)) < length (d_sbuf (p_doc p))"
      "- LLONG_MAX - 1 \<le> n_num (f (blank_node t))" "n_num (f (blank_node t)) \<le> LLONG_MAX"
  shows "doc_step None (p_doc p) (p_doc p')" "n = d_count (p_doc p)"
    "d_nodes (p_doc p') = d_nodes (p_doc p) @ [f (blank_node t)]"
    "d_sbuf (p_doc p') = d_sbuf (p_doc p)" "p_depth p' = p_depth p" "p_rest p' = r"
proof -
  from leaf obtain d1 where new: "node_new alloc (p_doc p) t = Some (n, d1)"
    and p': "p' = p\<lparr>p_rest := r, p_doc := upd_node d1 n f\<rparr>"
    by (auto simp: leaf_def split: option.splits)
  note nn = node_new_SomeD [OF new]
  show n: "n = d_count (p_doc p)" by (rule nn)
  show nodes: "d_nodes (p_doc p') = d_nodes (p_doc p) @ [f (blank_node t)]"
    by (simp add: p' upd_node_def nn(1,2))
  show sb: "d_sbuf (p_doc p') = d_sbuf (p_doc p)" by (simp add: p' nn)
  show "p_depth p' = p_depth p" "p_rest p' = r" by (simp_all add: p')
  have "d_count (p_doc p') \<le> d_cap (p_doc p')"
    using nn(5) wf by (simp add: p' doc_wf_def)
  then show "doc_step None (p_doc p) (p_doc p')"
    by (intro doc_wf_new_node [OF wf nodes sb]) (use f nn(4) in \<open>simp_all add: p'\<close>)
qed

section \<open>Strings and numbers\<close>

lemma parse_string_raw_ok:
  assumes raw: "parse_string_raw alloc p = Some (off, p')" and wf: "doc_wf (p_doc p)"
  shows "doc_step None (p_doc p) (p_doc p')" "off < length (d_sbuf (p_doc p'))"
    "d_nodes (p_doc p') = d_nodes (p_doc p)" "p_depth p' = p_depth p"
proof -
  from raw obtain tmp r' where
    "sbuf_put alloc (p_doc p) tmp = Some (off, p_doc p')" "p_depth p' = p_depth p"
    by (auto simp: parse_string_raw_def split: list.splits if_splits option.splits)
  with doc_wf_sbuf_put [OF this(1) wf]
  show "doc_step None (p_doc p) (p_doc p')" "off < length (d_sbuf (p_doc p'))"
    "d_nodes (p_doc p') = d_nodes (p_doc p)" "p_depth p' = p_depth p"
    by simp_all
qed

lemma digits_loop_nonneg: "digits_loop u s = Some (v, r) \<Longrightarrow> 0 \<le> u \<Longrightarrow> 0 \<le> v"
  by (induction u s rule: digits_loop.induct) (auto simp: Let_def is_digit_def split: if_splits)

lemma parse_number_range:
  "parse_number s = Some (v, r) \<Longrightarrow> - LLONG_MAX - 1 \<le> v \<and> v \<le> LLONG_MAX"
  by (auto simp: parse_number_def Let_def LLONG_MAX_def split: if_splits option.splits
      dest!: digits_loop_nonneg)

text \<open>What every successful call that parses a value guarantees.\<close>

definition value_parsed :: "aj_p \<Rightarrow> nat \<Rightarrow> aj_p \<Rightarrow> bool" where
  "value_parsed p n p' \<longleftrightarrow>
     doc_step None (p_doc p) (p_doc p') \<and> n = d_count (p_doc p) \<and> n < d_count (p_doc p') \<and>
     next_sibling (d_nodes (p_doc p') ! n) = -1 \<and> n_key (d_nodes (p_doc p') ! n) = 0 \<and>
     p_depth p' = p_depth p"

lemma value_parsed_leaf:
  assumes "leaf alloc p r t f = Some (n, p')" and "doc_wf (p_doc p)"
    and "first_child (f (blank_node t)) = -1" "next_sibling (f (blank_node t)) = -1"
      "n_key (f (blank_node t)) = 0"
      "n_type (f (blank_node t)) = AJ_STR \<longrightarrow> n_str (f (blank_node t)) < length (d_sbuf (p_doc p))"
      "- LLONG_MAX - 1 \<le> n_num (f (blank_node t))" "n_num (f (blank_node t)) \<le> LLONG_MAX"
  shows "value_parsed p n p'"
  using leaf_ok [OF assms] assms(4,5) by (simp add: value_parsed_def)

lemma parse_scalar_ok:
  assumes "parse_scalar alloc p = Some (n, p')" and wf: "doc_wf (p_doc p)"
  shows "value_parsed p n p'"
proof -
  consider
      (str) off p1 where "parse_string_raw alloc p = Some (off, p1)"
        "leaf alloc p1 (p_rest p1) AJ_STR (\<lambda>n. n\<lparr>n_str := off\<rparr>) = Some (n, p')"
    | (bool) r b where "leaf alloc p r AJ_BOOL (\<lambda>n. n\<lparr>n_num := b\<rparr>) = Some (n, p')" "b \<in> {0, 1}"
    | (null) r where "leaf alloc p r AJ_NULL (\<lambda>n. n) = Some (n, p')"
    | (num) v r where "parse_number (p_rest p) = Some (v, r)"
        "leaf alloc p r AJ_NUM (\<lambda>n. n\<lparr>n_num := v\<rparr>) = Some (n, p')"
    using assms(1)
    by (auto simp: parse_scalar_def Let_def split: if_splits option.splits prod.splits)
  then show ?thesis
  proof cases
    case str
    note raw = parse_string_raw_ok [OF str(1) wf]
    have "value_parsed p1 n p'"
      using raw(2) by (intro value_parsed_leaf [OF str(2) doc_step_wf [OF raw(1)]]) auto
    then show ?thesis
      using raw by (auto simp: value_parsed_def intro: doc_step_trans)
  next
    case bool
    then show ?thesis by (intro value_parsed_leaf [OF bool(1) wf]) (auto simp: LLONG_MAX_def)
  next
    case null
    then show ?thesis by (intro value_parsed_leaf [OF null wf]) auto
  next
    case num
    with parse_number_range show ?thesis
      by (intro value_parsed_leaf [OF num(2) wf]) auto
  qed
qed

lemma parse_key_ok:
  assumes key: "parse_key alloc p = Some (koff, p')" and wf: "doc_wf (p_doc p)"
  shows "doc_step None (p_doc p) (p_doc p')" "koff < length (d_sbuf (p_doc p'))"
    "d_nodes (p_doc p') = d_nodes (p_doc p)" "p_depth p' = p_depth p"
proof -
  from key obtain p1 where raw: "parse_string_raw alloc (p_skip p) = Some (koff, p1)"
    and "p_doc p' = p_doc p1" "p_depth p' = p_depth p1"
    by (auto simp: parse_key_def Let_def split: option.splits list.splits if_splits)
  with parse_string_raw_ok [OF raw] wf
  show "doc_step None (p_doc p) (p_doc p')" "koff < length (d_sbuf (p_doc p'))"
    "d_nodes (p_doc p') = d_nodes (p_doc p)" "p_depth p' = p_depth p"
    by simp_all
qed

section \<open>Linking a child\<close>

text \<open>The node whose link is set next: the container at first, then the last child.\<close>

definition link_slot :: "nat \<Rightarrow> int \<Rightarrow> nat" where
  "link_slot self prev = (if prev < 0 then self else nat prev)"

definition set_link :: "int \<Rightarrow> int \<Rightarrow> aj_node \<Rightarrow> aj_node" where
  "set_link prev l n = (if prev < 0 then n\<lparr>first_child := l\<rparr> else n\<lparr>next_sibling := l\<rparr>)"

lemma set_link_simps [simp]:
  "n_type (set_link prev l n) = n_type n" "n_num (set_link prev l n) = n_num n"
  "n_str (set_link prev l n) = n_str n" "n_key (set_link prev l n) = n_key n"
  by (simp_all add: set_link_def)

lemma link_child_fields [simp]:
  "d_count (link_child d is_obj koff self prev child) = d_count d"
  "d_sbuf (link_child d is_obj koff self prev child) = d_sbuf d"
  "d_cap (link_child d is_obj koff self prev child) = d_cap d"
  "d_scap (link_child d is_obj koff self prev child) = d_scap d"
  by (simp_all add: link_child_def Let_def)

lemma link_child_nth:
  assumes "j < d_count d" and "child < d_count d" and "link_slot self prev \<noteq> child"
  shows "d_nodes (link_child d is_obj koff self prev child) ! j =
     (if j = link_slot self prev then set_link prev (int child) (d_nodes d ! j)
      else if j = child \<and> is_obj then (d_nodes d ! j)\<lparr>n_key := koff + 1\<rparr>
      else d_nodes d ! j)"
  using assms by (auto simp: link_child_def link_slot_def set_link_def Let_def upd_node_nth)

lemma link_child_step:
  assumes wf: "doc_wf d" and child: "child < d_count d" and slot: "link_slot self prev < child"
    and koff: "is_obj \<Longrightarrow> koff < length (d_sbuf d)"
  shows "doc_wf (link_child d is_obj koff self prev child)"
proof -
  let ?d = "link_child d is_obj koff self prev child"
  have "node_ok ?d i" if i: "i < d_count d" for i
  proof -
    have "node_ok d i" using wf i by (simp add: doc_wf_def)
    moreover have "link_ok ?d i l = link_ok d i l" for l by (simp add: link_ok_def)
    moreover have "link_ok d (link_slot self prev) (int child)"
      using child slot by (simp add: link_ok_def)
    ultimately show ?thesis
      using slot koff by (auto simp: node_ok_def Let_def link_child_nth [OF i child] set_link_def)
  qed
  with wf show ?thesis by (simp add: doc_wf_def)
qed

section \<open>The whole parser\<close>

lemma container_node:
  assumes new: "node_new alloc (p_doc p) t = Some (self, d)" and wf: "doc_wf (p_doc p)"
    and t: "t \<noteq> AJ_STR"
  shows "doc_step None (p_doc p) d" "self = d_count (p_doc p)" "d_count d = Suc self"
    "d_nodes d ! self = blank_node t"
  using node_new_SomeD [OF new] doc_wf_new_node [OF wf, of d "blank_node t"] wf t
  by (auto simp: doc_wf_def nth_append)

text \<open>
  The loop over a container's entries: it returns the container, changes no older node but
  the one whose link it sets, and sets that link to the first node it makes.
\<close>

definition entries_parsed :: "aj_p \<Rightarrow> nat \<Rightarrow> int \<Rightarrow> nat \<Rightarrow> aj_p \<Rightarrow> bool" where
  "entries_parsed p self prev n p' \<longleftrightarrow>
     (let d = p_doc p; d' = p_doc p'; t = link_slot self prev in
      n = self \<and> doc_step (Some t) d d' \<and> d_count d < d_count d' \<and>
      d_nodes d' ! t = set_link prev (int (d_count d)) (d_nodes d ! t) \<and>
      p_depth p' = p_depth p)"

lemma entries_parsed_wf: "entries_parsed p self prev n p' \<Longrightarrow> doc_wf (p_doc p')"
  by (auto simp: entries_parsed_def Let_def dest: doc_step_wf)

lemma entries_parsed_first:
  assumes child: "value_parsed p1 child p2"
    and key: "doc_step None (p_doc p) (p_doc p1)" "d_nodes (p_doc p1) = d_nodes (p_doc p)"
      "p_depth p1 = p_depth p" "is_obj \<Longrightarrow> koff < length (d_sbuf (p_doc p1))"
    and slot: "link_slot self prev < d_count (p_doc p)"
    and p3: "p_doc p3 = link_child (p_doc p2) is_obj koff self prev child" "p_depth p3 = p_depth p2"
  shows "entries_parsed p self prev self p3" "child = d_count (p_doc p)"
    "next_sibling (d_nodes (p_doc p3) ! child) = -1" "child < d_count (p_doc p3)"
proof -
  let ?t = "link_slot self prev"
  from child have step2: "doc_step None (p_doc p1) (p_doc p2)"
    and c: "child = d_count (p_doc p1)" "child < d_count (p_doc p2)"
      "next_sibling (d_nodes (p_doc p2) ! child) = -1" "p_depth p2 = p_depth p1"
    by (auto simp: value_parsed_def)
  show child_eq: "child = d_count (p_doc p)" using c(1) key(2) by simp
  have tc: "?t < child" using slot child_eq by simp
  have wf3: "doc_wf (p_doc p3)" unfolding p3
    using key(4) doc_step_sbuf [OF step2]
    by (intro link_child_step [OF doc_step_wf [OF step2] c(2) tc]) auto
  have step: "doc_step None (p_doc p) (p_doc p2)"
    by (rule doc_step_trans [OF key(1) step2]) simp
  have cnt: "d_count (p_doc p) \<le> d_count (p_doc p2)" by (rule doc_step_count [OF step])
  have same: "d_nodes (p_doc p3) ! j = d_nodes (p_doc p) ! j"
    if "j < d_count (p_doc p)" "j \<noteq> ?t" for j
    using that doc_step_nth [OF step, of j] cnt tc child_eq c(2)
    by (simp add: p3 link_child_nth)
  have "d_nodes (p_doc p3) ! ?t = set_link prev (int child) (d_nodes (p_doc p) ! ?t)"
    using doc_step_nth [OF step slot] cnt tc c(2) slot by (simp add: p3 link_child_nth)
  with wf3 same step c key child_eq show "entries_parsed p self prev self p3"
    by (auto simp: entries_parsed_def doc_step_def p3 Let_def)
  show "next_sibling (d_nodes (p_doc p3) ! child) = -1"
    using c tc by (simp add: p3 link_child_nth)
  show "child < d_count (p_doc p3)" using c by (simp add: p3)
qed

lemma entries_parsed_next:
  assumes first: "entries_parsed p self prev self p3" and child: "child = d_count (p_doc p)"
    and slot: "link_slot self prev < d_count (p_doc p)"
    and rest: "entries_parsed p4 self (int child) n p'"
    and p4: "p_doc p4 = p_doc p3" "p_depth p4 = p_depth p3"
  shows "entries_parsed p self prev n p'"
proof -
  have ls: "link_slot self (int child) = child" by (simp add: link_slot_def)
  from first have f: "doc_step (Some (link_slot self prev)) (p_doc p) (p_doc p3)"
    "d_count (p_doc p) < d_count (p_doc p3)" "p_depth p3 = p_depth p"
    "d_nodes (p_doc p3) ! link_slot self prev =
       set_link prev (int child) (d_nodes (p_doc p) ! link_slot self prev)"
    by (auto simp: entries_parsed_def Let_def child)
  from rest have r: "doc_step (Some child) (p_doc p3) (p_doc p')"
    "d_count (p_doc p3) < d_count (p_doc p')" "p_depth p' = p_depth p3" "n = self"
    by (auto simp: entries_parsed_def Let_def ls p4)
  have "doc_step (Some (link_slot self prev)) (p_doc p) (p_doc p')"
    by (rule doc_step_trans [OF f(1) r(1)]) (simp add: child)
  moreover have "d_nodes (p_doc p') ! link_slot self prev =
      d_nodes (p_doc p3) ! link_slot self prev"
    using doc_step_nth [OF r(1), of "link_slot self prev"] f(2) slot child by simp
  ultimately show ?thesis
    using f r by (simp add: entries_parsed_def Let_def child)
qed

theorem parser_ok:
  "parse_value alloc p = Some (n, p') \<Longrightarrow> doc_wf (p_doc p) \<Longrightarrow> value_parsed p n p'"
  "parse_container alloc p is_obj = Some (n, p') \<Longrightarrow> doc_wf (p_doc p) \<Longrightarrow> value_parsed p n p'"
  "parse_container_body alloc p is_obj = Some (n, p') \<Longrightarrow> doc_wf (p_doc p) \<Longrightarrow> value_parsed p n p'"
  "container_loop alloc p is_obj self prev = Some (n, p') \<Longrightarrow> doc_wf (p_doc p) \<Longrightarrow>
     link_slot self prev < d_count (p_doc p) \<Longrightarrow> entries_parsed p self prev n p'"
proof (induction alloc p and alloc p is_obj and alloc p is_obj and alloc p is_obj self prev
    arbitrary: n p' and n p' and n p' and n p'
    rule: parse_value_parse_container_parse_container_body_container_loop.induct)
  case (1 alloc p0)
  have "value_parsed (p_skip p0) n p'"
    using "1.prems" "1.IH"(1) [OF refl] "1.IH"(2) [OF refl] parse_scalar_ok [of alloc "p_skip p0"]
    by (auto simp: parse_value.simps [of alloc p0] Let_def split: list.splits if_splits)
  then show ?case by (auto simp: value_parsed_def)
next
  case (2 alloc p is_obj)
  from "2.prems" obtain p1 where body: "\<not> AJ_MAX_DEPTH \<le> p_depth p"
      "parse_container_body alloc (p\<lparr>p_depth := p_depth p + 1\<rparr>) is_obj = Some (n, p1)"
    and p': "p' = p1\<lparr>p_depth := p_depth p1 - 1\<rparr>"
    by (auto simp: parse_container.simps [of alloc p] split: if_splits option.splits)
  from "2.IH" [OF body] "2.prems" p' show ?case by (auto simp: value_parsed_def)
next
  case (3 alloc p is_obj)
  let ?t = "if is_obj then AJ_OBJ else AJ_ARR"
  from "3.prems" obtain self d c r where new: "node_new alloc (p_doc p) ?t = Some (self, d)"
      "p_rest p = c # r"
    by (auto simp: parse_container_body.simps [of alloc p] split: option.splits list.splits)
  have "?t \<noteq> AJ_STR" by simp
  note cn = container_node [OF new(1) "3.prems"(2) this]
  let ?p1 = "p_skip (p\<lparr>p_rest := r, p_doc := d\<rparr>)"
  show ?case
  proof (cases "p_rest ?p1 \<noteq> [] \<and> hd (p_rest ?p1) = closer is_obj")
    case True
    with "3.prems" new cn show ?thesis
      by (auto simp: parse_container_body.simps [of alloc p] value_parsed_def)
  next
    case False
    with "3.prems" new have "container_loop alloc ?p1 is_obj self (- 1) = Some (n, p')"
      by (auto simp: parse_container_body.simps [of alloc p] Let_def split: if_splits)
    from "3.IH" [OF new(1) refl new(2) refl False this] cn
    have e: "entries_parsed ?p1 self (- 1) n p'"
      by (simp add: doc_step_wf [OF cn(1)] link_slot_def)
    then have "doc_step None (p_doc p) (p_doc p')"
      using cn by (auto simp: entries_parsed_def Let_def link_slot_def intro: doc_step_trans)
    with e cn show ?thesis
      by (auto simp: entries_parsed_def value_parsed_def Let_def link_slot_def set_link_def)
  qed
next
  case (4 alloc p is_obj self prev)
  from "4.prems" obtain koff p1 child p2 where steps:
      "(if is_obj then parse_key alloc p else Some (0, p)) = Some (koff, p1)"
      "parse_value alloc p1 = Some (child, p2)"
    by (auto simp: container_loop.simps [of alloc p] split: option.splits)
  have key: "doc_step None (p_doc p) (p_doc p1)" "d_nodes (p_doc p1) = d_nodes (p_doc p)"
      "p_depth p1 = p_depth p" "is_obj \<Longrightarrow> koff < length (d_sbuf (p_doc p1))"
    using steps(1) parse_key_ok [of alloc p koff p1] "4.prems"(2) by (auto split: if_splits)
  have child: "value_parsed p1 child p2"
    by (rule "4.IH"(1) [OF steps(1) refl steps(2) doc_step_wf [OF key(1)]])
  let ?p3 = "p_skip (p2\<lparr>p_doc := link_child (p_doc p2) is_obj koff self prev child\<rparr>)"
  note first = entries_parsed_first [where ?p3.0 = ?p3 and koff = koff and is_obj = is_obj, OF child key "4.prems"(3), simplified]
  show ?case
  proof (cases "p_rest ?p3 \<noteq> [] \<and> hd (p_rest ?p3) = CHR '',''")
    case True
    let ?p4 = "?p3\<lparr>p_rest := tl (p_rest ?p3)\<rparr>"
    from True "4.prems" steps have loop: "container_loop alloc ?p4 is_obj self (int child) = Some (n, p')"
      by (auto simp: container_loop.simps [of alloc p] Let_def)
    have next4: "entries_parsed ?p4 self (int child) n p'"
      by (rule "4.IH"(2) [OF steps(1) refl steps(2) refl refl True loop])
        (use entries_parsed_wf [OF first(1)] first in \<open>simp_all add: link_slot_def\<close>)
    show ?thesis
      by (rule entries_parsed_next [OF first(1,2) "4.prems"(3) next4]) simp_all
  next
    case False
    with "4.prems" steps have "n = self" "p_doc p' = p_doc ?p3" "p_depth p' = p_depth ?p3"
      by (auto simp: container_loop.simps [of alloc p] Let_def split: if_splits)
    with first show ?thesis by (simp add: entries_parsed_def)
  qed
qed

section \<open>The finished document\<close>

lemma fixup_node_simps [simp]:
  "n_type (fixup_node n) = n_type n" "n_num (fixup_node n) = n_num n"
  "n_key (fixup_node n) = n_key n" "first_child (fixup_node n) = first_child n"
  "next_sibling (fixup_node n) = next_sibling n"
  "n_str (fixup_node n) = (if n_type n = AJ_STR then Suc (n_str n) else n_str n)"
  by (auto simp: fixup_node_def Let_def)

lemma aj_fixup_simps [simp]:
  "d_count (aj_fixup d) = d_count d" "d_sbuf (aj_fixup d) = d_sbuf d"
  "d_cap (aj_fixup d) = d_cap d" "d_scap (aj_fixup d) = d_scap d"
  "i < d_count d \<Longrightarrow> d_nodes (aj_fixup d) ! i = fixup_node (d_nodes d ! i)"
  by (simp_all add: aj_fixup_def)

text \<open>What an accessor may rely on: the pointers are good and the walks end.\<close>

definition doc_ok :: "aj_doc \<Rightarrow> bool" where
  "doc_ok d \<longleftrightarrow>
     d_ok d \<and> 0 < d_count d \<and> d_count d \<le> d_cap d \<and> length (d_sbuf d) \<le> d_scap d \<and>
     (d_sbuf d \<noteq> [] \<longrightarrow> last (d_sbuf d) = NUL) \<and>
     (\<forall>i < d_count d.
        let n = d_nodes d ! i in
        link_ok d i (first_child n) \<and> link_ok d i (next_sibling n) \<and>
        (n_type n = AJ_STR \<longrightarrow> 0 < n_str n \<and> n_str n \<le> length (d_sbuf d)) \<and>
        n_key n \<le> length (d_sbuf d) \<and>
        - LLONG_MAX - 1 \<le> n_num n \<and> n_num n \<le> LLONG_MAX)"

lemma doc_ok_fixup:
  assumes "doc_wf d" and "0 < d_count d"
  shows "doc_ok ((aj_fixup d)\<lparr>d_ok := True\<rparr>)"
  using assms by (auto simp: doc_ok_def doc_wf_def node_ok_def link_ok_def Let_def)

lemma aj_parse_SomeD:
  assumes "aj_parse alloc s = Some d"
  obtains p where "parse_value alloc \<lparr>p_rest = s, p_doc = aj_doc_zero, p_depth = 0\<rparr> = Some (0, p)"
    "skip_ws (p_rest p) = []" "d = (aj_fixup (p_doc p))\<lparr>d_ok := True\<rparr>"
  using assms by (auto simp: aj_parse_def split: option.splits if_splits)

lemma aj_parse_ok:
  assumes "aj_parse alloc s = Some d"
  shows "doc_ok d"
proof -
  from assms obtain p where p:
      "parse_value alloc \<lparr>p_rest = s, p_doc = aj_doc_zero, p_depth = 0\<rparr> = Some (0, p)"
      "d = (aj_fixup (p_doc p))\<lparr>d_ok := True\<rparr>"
    by (rule aj_parse_SomeD)
  from parser_ok(1) [OF p(1)] have "doc_wf (p_doc p)" "0 < d_count (p_doc p)"
    by (auto simp: value_parsed_def dest: doc_step_wf)
  with p(2) show ?thesis by (simp add: doc_ok_fixup)
qed

section \<open>Sibling chains\<close>

text \<open>
  The list a container's links describe, stated without a bound on its length: the
  accessors are characterised through it, which shows that their walks run to the end.
\<close>

fun chain :: "aj_doc \<Rightarrow> int \<Rightarrow> nat list \<Rightarrow> bool" where
  "chain d i [] \<longleftrightarrow> i = -1"
| "chain d i (k # ks) \<longleftrightarrow>
     i = int k \<and> k < d_count d \<and> chain d (next_sibling (d_nodes d ! k)) ks"

lemma chain_unique: "chain d i ks \<Longrightarrow> chain d i ls \<Longrightarrow> ks = ls"
proof (induction ks arbitrary: i ls)
  case Nil
  then show ?case by (cases ls) auto
next
  case (Cons k ks)
  then show ?case by (cases ls) auto
qed

lemma chain_sorted:
  assumes "doc_ok d"
  shows "chain d i ks \<Longrightarrow> sorted_wrt (<) ks \<and> set ks \<subseteq> {0..<d_count d} \<and> (\<forall>k \<in> set ks. i \<le> int k)"
proof (induction ks arbitrary: i)
  case Nil
  then show ?case by simp
next
  case (Cons k ks)
  let ?n = "next_sibling (d_nodes d ! k)"
  have "link_ok d k ?n" using assms Cons.prems by (auto simp: doc_ok_def Let_def)
  moreover have "?n = -1 \<Longrightarrow> ks = []" using Cons.prems by (cases ks) auto
  ultimately show ?case
    using Cons.IH [of ?n] Cons.prems by (cases ks) (fastforce simp: link_ok_def)+
qed

lemma chain_length:
  assumes "doc_ok d" and "chain d i ks"
  shows "length ks \<le> d_count d"
proof -
  from chain_sorted [OF assms] have "distinct ks" "set ks \<subseteq> {0..<d_count d}"
    by (auto simp: strict_sorted_iff)
  then show ?thesis
    by (metis card_atLeastLessThan card_mono diff_zero distinct_card finite_atLeastLessThan)
qed

lemma chain_exists:
  assumes "doc_ok d" and "l = -1 \<or> (0 \<le> l \<and> l < int (d_count d))"
  shows "\<exists>ks. chain d l ks"
  using assms(2)
proof (induction "d_count d - nat l" arbitrary: l rule: less_induct)
  case less
  show ?case
  proof (cases "l = -1")
    case True
    then show ?thesis by (auto intro: exI [of _ "[]"])
  next
    case False
    let ?n = "next_sibling (d_nodes d ! nat l)"
    have "link_ok d (nat l) ?n" using assms(1) less.prems False by (auto simp: doc_ok_def Let_def)
    then have "?n = -1 \<or> (\<exists>ks. chain d ?n ks)"
      using less.prems False by (auto intro!: less.hyps simp: link_ok_def)
    then have "\<exists>ks. chain d ?n ks" using chain.simps(1) [of d ?n] by blast
    then obtain ks where "chain d ?n ks" ..
    then have "chain d l (nat l # ks)" using less.prems False by auto
    then show ?thesis ..
  qed
qed

text \<open>The children of a container, in order; \<open>[]\<close> when the walk of the links is empty.\<close>

lemma children_exist:
  assumes "doc_ok d" and "c < d_count d"
  shows "\<exists>ks. chain d (first_child (d_nodes d ! c)) ks"
proof -
  have "link_ok d c (first_child (d_nodes d ! c))"
    using assms by (auto simp: doc_ok_def Let_def)
  then show ?thesis by (intro chain_exists [OF assms(1)]) (auto simp: link_ok_def)
qed

lemma count_loop_chain: "chain d i ks \<Longrightarrow> length ks < fuel \<Longrightarrow> count_loop fuel d i = length ks"
proof (induction ks arbitrary: i fuel)
  case Nil
  then show ?case by (cases fuel) auto
next
  case (Cons k ks)
  then show ?case by (cases fuel) auto
qed

lemma elem_loop_chain:
  "chain d i ks \<Longrightarrow> elem_loop m d i = (if m < length ks then int (ks ! m) else -1)"
proof (induction ks arbitrary: i m)
  case Nil
  then show ?case by (cases m) auto
next
  case (Cons k ks)
  then show ?case by (cases m) auto
qed

definition node_key :: "aj_doc \<Rightarrow> nat \<Rightarrow> string option" where
  "node_key d i =
     (if n_key (d_nodes d ! i) = 0 then None else Some (str_at d (n_key (d_nodes d ! i))))"

lemma member_loop_chain:
  "chain d i ks \<Longrightarrow> length ks < fuel \<Longrightarrow>
     member_loop fuel d key i =
       (case find (\<lambda>k. node_key d k = Some key) ks of None \<Rightarrow> -1 | Some k \<Rightarrow> int k)"
proof (induction ks arbitrary: i fuel)
  case Nil
  then show ?case by (cases fuel) auto
next
  case (Cons k ks)
  then show ?case by (cases fuel) (auto simp: Let_def node_key_def)
qed

lemma aj_at_nat [simp]: "i < d_count d \<Longrightarrow> aj_at d (int i) = Some (d_nodes d ! i)"
  by (simp add: aj_at_def)

lemma accessors_chain:
  assumes ok: "doc_ok d" and c: "c < d_count d"
    and ks: "chain d (first_child (d_nodes d ! c)) ks"
  shows "is_container (d_nodes d ! c) \<Longrightarrow> aj_count d (int c) = length ks"
    and "is_container (d_nodes d ! c) \<Longrightarrow>
      aj_elem d (int c) m = (if 0 \<le> m \<and> m < int (length ks) then int (ks ! nat m) else -1)"
    and "is_container (d_nodes d ! c) \<Longrightarrow>
      aj_first d (int c) = (case ks of [] \<Rightarrow> -1 | k # _ \<Rightarrow> int k)"
    and "n_type (d_nodes d ! c) = AJ_OBJ \<Longrightarrow> aj_member d (int c) key =
      (case find (\<lambda>k. node_key d k = Some key) ks of None \<Rightarrow> -1 | Some k \<Rightarrow> int k)"
proof -
  have len: "length ks < Suc (d_count d)" using chain_length [OF ok ks] by simp
  show "is_container (d_nodes d ! c) \<Longrightarrow> aj_count d (int c) = length ks"
    using count_loop_chain [OF ks len] c by (simp add: aj_count_def)
  show "is_container (d_nodes d ! c) \<Longrightarrow>
      aj_elem d (int c) m = (if 0 \<le> m \<and> m < int (length ks) then int (ks ! nat m) else -1)"
    using elem_loop_chain [OF ks, of "nat m"] c by (auto simp: aj_elem_def nat_less_iff)
  show "is_container (d_nodes d ! c) \<Longrightarrow>
      aj_first d (int c) = (case ks of [] \<Rightarrow> -1 | k # _ \<Rightarrow> int k)"
    using ks c by (cases ks) (auto simp: aj_first_def)
  show "n_type (d_nodes d ! c) = AJ_OBJ \<Longrightarrow> aj_member d (int c) key =
      (case find (\<lambda>k. node_key d k = Some key) ks of None \<Rightarrow> -1 | Some k \<Rightarrow> int k)"
    using member_loop_chain [OF ks len] c by (simp add: aj_member_def)
qed

end
