(* ===== verification/Json_Spec.thy ===== *)
theory Json_Spec
  imports Json_Doc
begin

text \<open>
  The abstract side of the codec: JSON values, their text as this protocol puts it on the
  wire (no white space, ASCII control bytes escaped, everything else as it is), and what it
  means for a node of a document to represent a value.
\<close>

datatype json =
    JNull
  | JBool bool
  | JNum int
  | JStr string
  | JArr "json list"
  | JObj "(string \<times> json) list"

section \<open>Text\<close>

definition hexdig :: "nat \<Rightarrow> char" where
  "hexdig n = ''0123456789abcdef'' ! n"

text \<open>The text of one byte inside a string.\<close>

definition esc_char :: "char \<Rightarrow> string" where
  "esc_char c =
     (if c = CHR 0x22 then [CHR 0x5C, CHR 0x22]
      else if c = CHR 0x5C then [CHR 0x5C, CHR 0x5C]
      else if c = CHR 0x08 then [CHR 0x5C, CHR ''b'']
      else if c = CHR 0x0C then [CHR 0x5C, CHR ''f'']
      else if c = CHR 0x0A then [CHR 0x5C, CHR ''n'']
      else if c = CHR 0x0D then [CHR 0x5C, CHR ''r'']
      else if c = CHR 0x09 then [CHR 0x5C, CHR ''t'']
      else if byte_of c < 0x20 then
        [CHR 0x5C, CHR ''u'', CHR ''0'', CHR ''0'', hexdig (byte_of c div 16),
         hexdig (byte_of c mod 16)]
      else [c])"

definition str_text :: "string \<Rightarrow> string" where
  "str_text s = CHR 0x22 # concat (map esc_char s) @ [CHR 0x22]"

text \<open>Decimal digits, least significant first.\<close>

function rev_digits :: "int \<Rightarrow> string" where
  "rev_digits u =
     char_of (48 + nat (u mod 10)) # (if u div 10 > 0 then rev_digits (u div 10) else [])"
  by pat_completeness auto
termination
  by (relation "measure nat") auto

declare rev_digits.simps [simp del]

definition int_text :: "int \<Rightarrow> string" where
  "int_text v = (if v < 0 then CHR ''-'' # rev (rev_digits (- v)) else rev (rev_digits v))"

fun join :: "string list \<Rightarrow> string" where
  "join [] = []"
| "join [s] = s"
| "join (s # t # ts) = s @ '','' @ join (t # ts)"

fun json_text :: "json \<Rightarrow> string" where
  "json_text JNull = ''null''"
| "json_text (JBool b) = (if b then ''true'' else ''false'')"
| "json_text (JNum v) = int_text v"
| "json_text (JStr s) = str_text s"
| "json_text (JArr vs) = ''['' @ join (map json_text vs) @ '']''"
| "json_text (JObj kvs) =
     ''{'' @ join (map (\<lambda>(k, v). str_text k @ '':'' @ json_text v) kvs) @ ''}''"

text \<open>
  Values the protocol can carry: strings are C strings, numbers fit \<^verbatim>\<open>long long\<close>. A
  value's depth is the number of containers open at its deepest point.
\<close>

fun json_ok :: "json \<Rightarrow> bool" where
  "json_ok (JNum v) \<longleftrightarrow> - LLONG_MAX - 1 \<le> v \<and> v \<le> LLONG_MAX"
| "json_ok (JStr s) \<longleftrightarrow> is_cstr s"
| "json_ok (JArr vs) \<longleftrightarrow> (\<forall>v \<in> set vs. json_ok v)"
| "json_ok (JObj kvs) \<longleftrightarrow> (\<forall>(k, v) \<in> set kvs. is_cstr k \<and> json_ok v)"
| "json_ok _ \<longleftrightarrow> True"

fun json_depth :: "json \<Rightarrow> nat" where
  "json_depth (JArr vs) = Suc (fold max (map json_depth vs) 0)"
| "json_depth (JObj kvs) = Suc (fold max (map (\<lambda>(k, v). json_depth v) kvs) 0)"
| "json_depth _ = 0"

section \<open>Representation\<close>

fun repr :: "aj_doc \<Rightarrow> nat \<Rightarrow> json \<Rightarrow> bool"
  and repr_elems :: "aj_doc \<Rightarrow> nat list \<Rightarrow> json list \<Rightarrow> bool"
  and repr_members :: "aj_doc \<Rightarrow> nat list \<Rightarrow> (string \<times> json) list \<Rightarrow> bool"
where
  "repr d i JNull \<longleftrightarrow> i < d_count d \<and> n_type (d_nodes d ! i) = AJ_NULL"
| "repr d i (JBool b) \<longleftrightarrow>
     i < d_count d \<and> n_type (d_nodes d ! i) = AJ_BOOL \<and> n_num (d_nodes d ! i) = of_bool b"
| "repr d i (JNum v) \<longleftrightarrow>
     i < d_count d \<and> n_type (d_nodes d ! i) = AJ_NUM \<and> n_num (d_nodes d ! i) = v"
| "repr d i (JStr s) \<longleftrightarrow>
     i < d_count d \<and> n_type (d_nodes d ! i) = AJ_STR \<and>
     n_str (d_nodes d ! i) \<le> length (d_sbuf d) \<and> str_at d (n_str (d_nodes d ! i)) = s"
| "repr d i (JArr vs) \<longleftrightarrow>
     i < d_count d \<and> n_type (d_nodes d ! i) = AJ_ARR \<and>
     (\<exists>ks. chain d (first_child (d_nodes d ! i)) ks \<and> repr_elems d ks vs)"
| "repr d i (JObj kvs) \<longleftrightarrow>
     i < d_count d \<and> n_type (d_nodes d ! i) = AJ_OBJ \<and>
     (\<exists>ks. chain d (first_child (d_nodes d ! i)) ks \<and> repr_members d ks kvs)"
| "repr_elems d ks [] \<longleftrightarrow> ks = []"
| "repr_elems d ks (v # vs) \<longleftrightarrow> (case ks of [] \<Rightarrow> False | k # ks' \<Rightarrow> repr d k v \<and> repr_elems d ks' vs)"
| "repr_members d ks [] \<longleftrightarrow> ks = []"
| "repr_members d ks (kv # kvs) \<longleftrightarrow>
     (case ks of
        [] \<Rightarrow> False
      | k # ks' \<Rightarrow> node_key d k = Some (fst kv) \<and> repr d k (snd kv) \<and> repr_members d ks' kvs)"

end
