(* ===== verification/Json_Complete.thy ===== *)
theory Json_Complete
  imports Json_Spec
begin

text \<open>
  The reader accepts the text of every value the protocol carries, and the document it
  builds represents that value.
\<close>

section \<open>Strings\<close>

lemma hexval_hexdig: "n < 16 \<Longrightarrow> hexval (hexdig n) = Some n"
  by (auto simp: numeral_eq_Suc less_Suc_eq hexdig_def hexval_def)

lemma hex4_Some:
  assumes "hexval a = Some a'" "hexval b = Some b'" "hexval c = Some c'" "hexval d = Some d'"
  shows "hex4 (a # b # c # d # r) = Some (((a' * 16 + b') * 16 + c') * 16 + d')"
  using assms by (simp add: hex4_def numeral_eq_Suc)

lemma unicode_escape_control:
  assumes "byte_of c < 0x20"
  shows "unicode_escape
           (CHR ''0'' # CHR ''0'' # hexdig (byte_of c div 16) # hexdig (byte_of c mod 16) # r) =
         Some ([c], r)"
proof -
  have h: "hexval (hexdig (byte_of c div 16)) = Some (byte_of c div 16)"
    "hexval (hexdig (byte_of c mod 16)) = Some (byte_of c mod 16)"
    using assms by (simp_all add: hexval_hexdig)
  have z: "hexval (CHR ''0'') = Some 0" by (simp add: hexval_def)
  have "hex4 (CHR ''0'' # CHR ''0'' # hexdig (byte_of c div 16) #
      hexdig (byte_of c mod 16) # r) = Some (byte_of c)"
    using hex4_Some [OF z z h, of r] by (simp add: div_mult_mod_eq)
  moreover have "utf8_put (byte_of c) = [c]" using assms by (simp add: utf8_put_def)
  ultimately show ?thesis
    using assms by (simp add: unicode_escape_def Let_def drop_Cons')
qed

lemma esc_char_control:
  assumes "byte_of c < 0x20" and "c \<notin> {CHR 0x08, CHR 0x0C, CHR 0x0A, CHR 0x0D, CHR 0x09}"
  shows "esc_char c = [CHR 0x5C, CHR ''u'', CHR ''0'', CHR ''0'', hexdig (byte_of c div 16),
         hexdig (byte_of c mod 16)]"
proof -
  have "c \<noteq> CHR 0x22" "c \<noteq> CHR 0x5C" using assms(1) by auto
  with assms show ?thesis unfolding esc_char_def by (simp only: if_False if_True simp_thms insert_iff empty_iff de_Morgan_disj)
qed

lemma string_step_esc: "string_step (esc_char c @ r) = Some ([c], r)"
proof (cases "byte_of c < 0x20 \<and> c \<notin> {CHR 0x08, CHR 0x0C, CHR 0x0A, CHR 0x0D, CHR 0x09}")
  case True
  then have "esc_char c = [CHR 0x5C, CHR ''u'', CHR ''0'', CHR ''0'', hexdig (byte_of c div 16),
         hexdig (byte_of c mod 16)]" using esc_char_control by blast
  moreover have "simple_escape (CHR ''u'') = None" by (simp add: simple_escape_def)
  ultimately show ?thesis
    using unicode_escape_control [of c r] True by (simp add: string_step.simps)
next
  case False
  then consider "c = CHR 0x22" | "c = CHR 0x5C" | "c = CHR 0x08" | "c = CHR 0x0C" | "c = CHR 0x0A" | "c = CHR 0x0D"
     | "c = CHR 0x09" | "\<not> byte_of c < 0x20" "c \<noteq> CHR 0x22" "c \<noteq> CHR 0x5C" by auto
  then show ?thesis
  proof cases
    case 8
    then have "esc_char c = [c]" by (auto simp: esc_char_def)
    with 8 show ?thesis by (simp add: string_step.simps)
  qed (simp_all add: esc_char_def string_step.simps simple_escape_def)
qed

lemma esc_char_hd: "\<exists>x xs. esc_char c = x # xs \<and> x \<noteq> CHR 0x22"
  by (simp add: esc_char_def)

lemma string_loop_text:
  assumes alloc: "\<And>n. alloc n"
  shows "string_loop alloc tmp cap (concat (map esc_char s) @ CHR 0x22 # r) =
     Some (tmp @ s, CHR 0x22 # r)"
proof (induction s arbitrary: tmp cap)
  case Nil
  then show ?case by (simp add: string_loop.simps)
next
  case (Cons c s)
  obtain x xs where x: "esc_char c = x # xs" "x \<noteq> CHR 0x22" using esc_char_hd by blast
  have "string_step (x # xs @ concat (map esc_char s) @ CHR 0x22 # r) =
      Some ([c], concat (map esc_char s) @ CHR 0x22 # r)"
    using string_step_esc [of c "concat (map esc_char s) @ CHR 0x22 # r"] x by simp
  moreover have "alloc (cap * 2)" by (rule alloc)
  ultimately show ?case
    using Cons.IH [of "tmp @ [c]"] x by (subst string_loop.simps) simp
qed

lemma esc_char_length: "1 \<le> length (esc_char c)"
  by (simp add: esc_char_def)

lemma esc_text_length: "length s \<le> length (concat (map esc_char s))"
proof (induction s)
  case (Cons c s)
  then show ?case using esc_char_length [of c] by simp
qed simp

lemma str_text_length: "length s + 2 \<le> length (str_text s)"
  using esc_text_length [of s] by (simp add: str_text_def)

text \<open>
  Buffer growth cannot fail for want of arithmetic while the decoded strings and the input
  left are this small together; decoding never makes their sum larger.
\<close>

definition p_size :: "aj_p \<Rightarrow> nat" where
  "p_size p = length (d_sbuf (p_doc p)) + length (p_rest p)"

lemma sbuf_put_total:
  assumes "\<And>n. alloc n" and "length (d_sbuf d) + length s + 1 \<le> 2 ^ 63"
  shows "\<exists>d'. sbuf_put alloc d s = Some (length (d_sbuf d), d')"
proof -
  let ?need = "length (d_sbuf d) + length s + 1"
  have "0 < (if d_scap d \<noteq> 0 then d_scap d * 2 else 256)" by simp
  from grow_loop_64 [OF this assms(2)] show ?thesis
    using assms(1) by (auto simp: sbuf_put_def Let_def)
qed

lemma parse_string_raw_text:
  assumes alloc: "\<And>n. alloc n" and wf: "doc_wf (p_doc p)" and size: "p_size p \<le> 2 ^ 63"
    and rest: "p_rest p = str_text s @ r"
  shows "\<exists>p'. parse_string_raw alloc p = Some (length (d_sbuf (p_doc p)), p') \<and>
     p_rest p' = r \<and> d_sbuf (p_doc p') = d_sbuf (p_doc p) @ s @ [NUL] \<and> p_size p' \<le> p_size p"
proof -
  have len: "length (p_rest p) = length (str_text s) + length r" by (simp add: rest)
  then have "length (d_sbuf (p_doc p)) + length s + 1 \<le> 2 ^ 63"
    using str_text_length [of s] size by (simp add: p_size_def)
  from sbuf_put_total [where alloc = alloc, OF alloc this] obtain d' where
    put: "sbuf_put alloc (p_doc p) s = Some (length (d_sbuf (p_doc p)), d')" by blast
  let ?p' = "p\<lparr>p_rest := r, p_doc := d'\<rparr>"
  have "parse_string_raw alloc p = Some (length (d_sbuf (p_doc p)), ?p')"
    by (simp add: parse_string_raw_def rest str_text_def string_loop_text [OF alloc] put)
  moreover note doc_wf_sbuf_put(5) [OF put wf]
  moreover from this have "p_size ?p' \<le> p_size p"
    using len str_text_length [of s] by (simp add: p_size_def)
  ultimately show ?thesis by (intro exI [of _ ?p']) simp
qed

section \<open>Numbers\<close>

text \<open>The input after a number: nothing that would continue it.\<close>

definition num_end :: "string \<Rightarrow> bool" where
  "num_end r \<longleftrightarrow> r = [] \<or> (\<not> is_digit (hd r) \<and> hd r \<notin> {CHR ''.'', CHR ''e'', CHR ''E''})"

lemma digit_char:
  assumes "0 \<le> m" and "m < 10"
  shows "is_digit (char_of (48 + nat m))" "int (byte_of (char_of (48 + nat m))) - 48 = m"
  using assms by (simp_all add: is_digit_def)

lemma digits_loop_text:
  "0 \<le> u \<Longrightarrow> u \<le> ULLONG_MAX \<Longrightarrow>
     digits_loop 0 (rev (rev_digits u) @ r) = digits_loop u r"
proof (induction u arbitrary: r rule: rev_digits.induct)
  case (1 u)
  let ?m = "u mod 10" and ?q = "u div 10"
  have m: "0 \<le> ?m" "?m < 10" by simp_all
  have step: "digits_loop ?q (char_of (48 + nat ?m) # r) = digits_loop u r"
  proof -
    have "?q * 10 \<le> ULLONG_MAX - ?m" using "1.prems"(2) mult_div_mod_eq [of 10 u] by linarith
    then have "?q \<le> (ULLONG_MAX - ?m) div 10" using zdiv_mono1 [of "?q * 10" _ 10] by simp
    then show ?thesis using digit_char [OF m] by (simp add: Let_def)
  qed
  show ?case
  proof (cases "?q > 0")
    case True
    then have "?q \<le> ULLONG_MAX" using "1.prems" by (simp add: ULLONG_MAX_def)
    with "1.IH" True step show ?thesis by (simp add: rev_digits.simps [of u])
  next
    case False
    then have "?q = 0" using "1.prems" by (simp add: order_antisym_conv pos_imp_zdiv_nonneg_iff)
    with step show ?thesis by (simp add: rev_digits.simps [of u])
  qed
qed

lemma rev_digits_hd: "0 \<le> u \<Longrightarrow> rev_digits u \<noteq> [] \<and> (\<forall>c \<in> set (rev_digits u). is_digit c)"
proof (induction u rule: rev_digits.induct)
  case (1 u)
  then show ?case
    by (simp add: rev_digits.simps [of u] digit_char)
qed

lemma hd_rev_digits: "0 \<le> u \<Longrightarrow> is_digit (hd (rev (rev_digits u) @ r))"
  using rev_digits_hd [of u] by (simp add: hd_append hd_rev)

lemma is_digit_not_minus: "is_digit c \<Longrightarrow> c \<noteq> CHR ''-''"
  by (auto simp: is_digit_def)

lemma digits_loop_end: "num_end r \<Longrightarrow> digits_loop u r = Some (u, r)"
  by (cases r) (auto simp: num_end_def)

lemma parse_number_text:
  assumes range: "- LLONG_MAX - 1 \<le> v" "v \<le> LLONG_MAX" and r: "num_end r"
  shows "parse_number (int_text v @ r) = Some (v, r)"
proof (cases "v < 0")
  case True
  have hd: "is_digit (hd (rev (rev_digits (- v)) @ r))" using True by (simp add: hd_rev_digits)
  have ne: "rev (rev_digits (- v)) @ r \<noteq> []" using rev_digits_hd [of "- v"] True by simp
  have "digits_loop 0 (rev (rev_digits (- v)) @ r) = Some (- v, r)"
    using True range r by (simp add: digits_loop_text digits_loop_end ULLONG_MAX_def LLONG_MAX_def)
  with True hd ne range r show ?thesis
    by (auto simp: parse_number_def int_text_def Let_def num_end_def)
next
  case False
  have hd: "is_digit (hd (rev (rev_digits v) @ r))" using False by (simp add: hd_rev_digits)
  have ne: "rev (rev_digits v) @ r \<noteq> []" using rev_digits_hd [of v] False by simp
  have "digits_loop 0 (rev (rev_digits v) @ r) = Some (v, r)"
    using False range r by (simp add: digits_loop_text digits_loop_end ULLONG_MAX_def LLONG_MAX_def)
  with False hd ne range r is_digit_not_minus [OF hd] show ?thesis
    by (auto simp: parse_number_def int_text_def Let_def num_end_def)
qed

section \<open>What later steps of the parser leave represented\<close>

text \<open>The document \<open>aj_parse\<close> returns when the parser stops at \<open>d\<close>.\<close>

definition finished :: "aj_doc \<Rightarrow> aj_doc" where
  "finished d = (aj_fixup d)\<lparr>d_ok := True\<rparr>"

lemma finished_simps [simp]:
  "d_count (finished d) = d_count d" "d_sbuf (finished d) = d_sbuf d"
  "i < d_count d \<Longrightarrow> d_nodes (finished d) ! i = fixup_node (d_nodes d ! i)"
  by (simp_all add: finished_def)

lemma str_at_append:
  assumes "s \<noteq> [] \<longrightarrow> last s = NUL" and "0 < ptr" and "ptr \<le> length s"
    and "d_sbuf d = s" and "d_sbuf d' = s @ t"
  shows "str_at d' ptr = str_at d ptr"
proof -
  from assms have "NUL \<in> set (drop (ptr - 1) s)"
    by (metis Suc_diff_1 Suc_le_lessD drop_eq_Nil2 last_drop last_in_set leD list.size(3) not_less0)
  then show ?thesis
    using assms by (auto simp: str_at_def cstr_def)
qed

text \<open>
  \<open>frame l d d'\<close>: from \<open>d\<close> to \<open>d'\<close> the buffer and the nodes only grow, and the nodes
  after \<open>l\<close> stay as they are.
\<close>

definition frame :: "nat \<Rightarrow> aj_doc \<Rightarrow> aj_doc \<Rightarrow> bool" where
  "frame l d d' \<longleftrightarrow>
     doc_ok d \<and> d_count d \<le> d_count d' \<and> (\<exists>t. d_sbuf d' = d_sbuf d @ t) \<and>
     (\<forall>j. l < j \<longrightarrow> j < d_count d \<longrightarrow> d_nodes d' ! j = d_nodes d ! j)"

definition same_value :: "aj_node \<Rightarrow> aj_node \<Rightarrow> bool" where
  "same_value n m \<longleftrightarrow> n_type n = n_type m \<and> n_num n = n_num m \<and> n_str n = n_str m \<and>
     first_child n = first_child m"

lemma frame_mono: "frame l d d' \<Longrightarrow> l \<le> m \<Longrightarrow> frame m d d'"
  by (auto simp: frame_def)

lemma frame_str_at:
  assumes "frame l d d'" and "0 < ptr" and "ptr \<le> length (d_sbuf d)"
  shows "str_at d' ptr = str_at d ptr"
proof -
  from assms(1) obtain t where "d_sbuf d' = d_sbuf d @ t" "d_sbuf d \<noteq> [] \<longrightarrow> last (d_sbuf d) = NUL"
    by (auto simp: frame_def doc_ok_def)
  then show ?thesis using str_at_append [OF _ assms(2,3) refl] by blast
qed

lemma frame_chain:
  assumes "frame l d d'"
  shows "chain d i ks \<Longrightarrow> \<forall>k \<in> set ks. l < k \<Longrightarrow> chain d' i ks"
  using assms by (induction ks arbitrary: i) (auto simp: frame_def)

lemma frame_node_key:
  assumes "frame l d d'" and "l < k" and "k < d_count d"
  shows "node_key d' k = node_key d k"
proof -
  have "n_key (d_nodes d ! k) \<le> length (d_sbuf d)"
    using assms by (auto simp: frame_def doc_ok_def Let_def)
  then show ?thesis
    using assms frame_str_at [OF assms(1), of "n_key (d_nodes d ! k)"]
    by (auto simp: node_key_def frame_def)
qed

lemma children_above:
  assumes "frame l d d'" and "i < d_count d" and "chain d (first_child (d_nodes d ! i)) ks"
  shows "\<forall>k \<in> set ks. i < k"
proof -
  from assms have ok: "doc_ok d" by (simp add: frame_def)
  then have link: "link_ok d i (first_child (d_nodes d ! i))"
    using assms(2) by (auto simp: doc_ok_def Let_def)
  have "\<forall>k \<in> set ks. first_child (d_nodes d ! i) \<le> int k" using chain_sorted [OF ok assms(3)] by blast
  moreover have "ks \<noteq> [] \<Longrightarrow> first_child (d_nodes d ! i) \<noteq> -1" using assms(3) by (cases ks) auto
  ultimately show ?thesis using link by (cases ks) (fastforce simp: link_ok_def)+
qed

lemma repr_count: "repr d i v \<Longrightarrow> i < d_count d"
  by (cases v) auto

lemma repr_frame:
  "repr d i v \<Longrightarrow> frame i d d' \<Longrightarrow> same_value (d_nodes d' ! i) (d_nodes d ! i) \<Longrightarrow> repr d' i v"
  "repr_elems d ks vs \<Longrightarrow> frame l d d' \<Longrightarrow> \<forall>k \<in> set ks. l < k \<Longrightarrow> repr_elems d' ks vs"
  "repr_members d ks kvs \<Longrightarrow> frame l d d' \<Longrightarrow> \<forall>k \<in> set ks. l < k \<Longrightarrow> repr_members d' ks kvs"
proof (induction d i v and d ks vs and d ks kvs arbitrary: and l and l
    rule: repr_repr_elems_repr_members.induct)
  case (4 d i s)
  then have i: "i < d_count d" "n_type (d_nodes d ! i) = AJ_STR" by auto
  then have "0 < n_str (d_nodes d ! i)" "n_str (d_nodes d ! i) \<le> length (d_sbuf d)"
    using "4.prems"(2) by (auto simp: frame_def doc_ok_def Let_def)
  with frame_str_at [OF "4.prems"(2)] "4.prems" i show ?case
    by (auto simp: frame_def same_value_def)
next
  case (5 d i vs)
  then obtain ks where ks: "chain d (first_child (d_nodes d ! i)) ks" "repr_elems d ks vs" by auto
  have i: "i < d_count d" using 5 by auto
  note up = children_above [OF "5.prems"(2) i ks(1)]
  from frame_chain [OF "5.prems"(2) ks(1) up] "5.IH" [OF ks(2) "5.prems"(2) up] "5.prems" i
  show ?case by (auto simp: frame_def same_value_def)
next
  case (6 d i kvs)
  then obtain ks where ks: "chain d (first_child (d_nodes d ! i)) ks" "repr_members d ks kvs" by auto
  have i: "i < d_count d" using 6 by auto
  note up = children_above [OF "6.prems"(2) i ks(1)]
  from frame_chain [OF "6.prems"(2) ks(1) up] "6.IH" [OF ks(2) "6.prems"(2) up] "6.prems" i
  show ?case by (auto simp: frame_def same_value_def)
next
  case (8 d ks v vs)
  then obtain k ks' where ks: "ks = k # ks'" "repr d k v" "repr_elems d ks' vs" "l < k"
    by (cases ks) auto
  have "frame k d d'" "same_value (d_nodes d' ! k) (d_nodes d ! k)"
    using "8.prems"(2) frame_mono [OF "8.prems"(2), of k] ks(4) repr_count [OF ks(2)]
    by (auto simp: frame_def same_value_def)
  with "8.IH" ks "8.prems" show ?case by auto
next
  case (10 d ks kv kvs)
  then obtain k ks' where ks: "ks = k # ks'" "repr d k (snd kv)" "repr_members d ks' kvs" "l < k"
      "node_key d k = Some (fst kv)"
    by (cases ks) auto
  have "frame k d d'" "same_value (d_nodes d' ! k) (d_nodes d ! k)"
    using "10.prems"(2) frame_mono [OF "10.prems"(2), of k] ks(4) repr_count [OF ks(2)]
    by (auto simp: frame_def same_value_def)
  with "10.IH" ks "10.prems" frame_node_key [OF "10.prems"(2) ks(4) repr_count [OF ks(2)]]
  show ?case by auto
qed (auto simp: frame_def same_value_def)

lemma finished_ok: "doc_wf d \<Longrightarrow> i < d_count d \<Longrightarrow> doc_ok (finished d)"
  unfolding finished_def by (rule doc_ok_fixup) auto

lemma step_frame:
  assumes "doc_step t d d'" and "doc_wf d" and "0 < d_count d"
    and "\<And>j. t = Some j \<Longrightarrow> j \<le> l"
  shows "frame l (finished d) (finished d')"
proof -
  have "d_nodes d' ! j = d_nodes d ! j" if "l < j" "j < d_count d" for j
    using assms(4) that by (intro doc_step_nth [OF assms(1)]) auto
  then show ?thesis
    using assms finished_ok [OF assms(2,3)] doc_step_count [OF assms(1)]
    by (auto simp: frame_def doc_step_def)
qed

section \<open>Scalars\<close>

text \<open>
  The statement proved by induction on the value: with memory to be had, parsing consumes
  exactly the value's text and the new node represents the value.
\<close>

definition parses :: "allocator \<Rightarrow> json \<Rightarrow> bool" where
  "parses alloc v \<longleftrightarrow>
     (\<forall>p r. doc_wf (p_doc p) \<longrightarrow> p_size p \<le> 2 ^ 63 \<longrightarrow> p_rest p = json_text v @ r \<longrightarrow>
        num_end r \<longrightarrow> p_depth p + json_depth v \<le> AJ_MAX_DEPTH \<longrightarrow>
        (\<exists>n p'. parse_value alloc p = Some (n, p') \<and> p_rest p' = r \<and>
           repr (finished (p_doc p')) n v \<and> p_size p' \<le> p_size p))"

lemma parsesD:
  assumes "parses alloc v" and "doc_wf (p_doc p)" and "p_size p \<le> 2 ^ 63"
    and "p_rest p = json_text v @ r" and "num_end r" and "p_depth p + json_depth v \<le> AJ_MAX_DEPTH"
  obtains n p' where "parse_value alloc p = Some (n, p')" "p_rest p' = r"
    "repr (finished (p_doc p')) n v" "p_size p' \<le> p_size p"
  using assms unfolding parses_def by blast

lemma leaf_total:
  assumes "\<And>n. alloc n"
  shows "\<exists>p'. leaf alloc p r t f = Some (d_count (p_doc p), p') \<and> p_rest p' = r \<and>
     d_nodes (p_doc p') = d_nodes (p_doc p) @ [f (blank_node t)] \<and>
     d_sbuf (p_doc p') = d_sbuf (p_doc p)"
proof -
  have "node_new alloc (p_doc p) t \<noteq> None" using assms by (simp add: node_new_def Let_def)
  then obtain n d where new: "node_new alloc (p_doc p) t = Some (n, d)" by auto
  from node_new_SomeD [OF new] new show ?thesis
    by (simp add: leaf_def upd_node_def)
qed

lemma skip_ws_id [simp]: "s = [] \<or> \<not> is_ws (hd s) \<Longrightarrow> skip_ws s = s"
  by (cases s) auto

lemma is_ws_simps [simp]:
  "\<not> is_ws (CHR 0x22)" "\<not> is_ws (CHR ''{'')" "\<not> is_ws (CHR ''['')" "\<not> is_ws (CHR '','')"
  "\<not> is_ws (CHR '':'')" "\<not> is_ws (CHR ''}'')" "\<not> is_ws (CHR '']'')" "\<not> is_ws (CHR ''-'')"
  "\<not> is_ws (CHR ''n'')" "\<not> is_ws (CHR ''t'')" "\<not> is_ws (CHR ''f'')" "\<not> is_ws (closer b)"
  by (simp_all add: is_ws_def closer_def)

lemma is_digit_facts:
  "is_digit c \<Longrightarrow> \<not> is_ws c \<and> c \<noteq> CHR ''{'' \<and> c \<noteq> CHR ''['' \<and> c \<noteq> CHR 0x22 \<and> c \<noteq> CHR ''t'' \<and>
     c \<noteq> CHR ''f'' \<and> c \<noteq> CHR ''n''"
  by (auto simp: is_digit_def is_ws_def)

lemma int_text_hd:
  "int_text v \<noteq> [] \<and> (hd (int_text v) = CHR ''-'' \<or> is_digit (hd (int_text v)))"
  using rev_digits_hd [of v] rev_digits_hd [of "- v"]
  by (auto simp: int_text_def hd_rev)

lemma json_text_hd: "json_text v \<noteq> [] \<and> \<not> is_ws (hd (json_text v))"
proof (cases v)
  case (JNum n)
  then show ?thesis using int_text_hd [of n] by (auto dest: is_digit_facts)
qed (auto simp: str_text_def)

lemma parse_value_scalar:
  assumes "p_rest p \<noteq> []" and "\<not> is_ws (hd (p_rest p))"
    and "hd (p_rest p) \<noteq> CHR ''{''" and "hd (p_rest p) \<noteq> CHR ''[''"
  shows "parse_value alloc p = parse_scalar alloc p"
proof -
  have skip: "p_skip p = p" using assms by (simp add: p_skip_def)
  show ?thesis
    by (subst parse_value.simps, unfold skip Let_def) (use assms in \<open>auto split: list.split\<close>)
qed

lemma parses_leaf:
  assumes alloc: "\<And>n. alloc n"
    and tx: "json_text v \<noteq> []" "hd (json_text v) \<noteq> CHR ''{''" "hd (json_text v) \<noteq> CHR ''[''"
    and leaf: "\<And>(p::aj_p) r. num_end r \<Longrightarrow> p_rest p = json_text v @ r \<Longrightarrow>
      parse_scalar alloc p = leaf alloc p r t f"
    and repr: "\<And>d i. i < d_count d \<Longrightarrow> d_nodes d ! i = fixup_node (f (blank_node t)) \<Longrightarrow> repr d i v"
  shows "parses alloc v"
  unfolding parses_def
proof (intro allI impI)
  fix p :: aj_p and r
  assume a: "p_rest p = json_text v @ r" "num_end r"
  have "parse_value alloc p = leaf alloc p r t f"
    using parse_value_scalar [of p alloc] leaf [OF a(2,1)] json_text_hd [of v] tx a(1) by simp
  moreover obtain p' where p': "leaf alloc p r t f = Some (d_count (p_doc p), p')" "p_rest p' = r"
      "d_nodes (p_doc p') = d_nodes (p_doc p) @ [f (blank_node t)]" "d_sbuf (p_doc p') = d_sbuf (p_doc p)"
    using leaf_total [where alloc = alloc, OF alloc] by blast
  moreover have "repr (finished (p_doc p')) (d_count (p_doc p)) v"
    by (rule repr) (simp_all add: p'(3))
  ultimately show "\<exists>n p'. parse_value alloc p = Some (n, p') \<and> p_rest p' = r \<and>
      repr (finished (p_doc p')) n v \<and> p_size p' \<le> p_size p"
    using a by (simp add: p_size_def)
qed

lemma parses_null: "(\<And>n. alloc n) \<Longrightarrow> parses alloc JNull"
  by (rule parses_leaf [where t = AJ_NULL and f = "\<lambda>n. n"])
    (auto simp: parse_scalar_def)

lemma parses_bool: "(\<And>n. alloc n) \<Longrightarrow> parses alloc (JBool b)"
  by (rule parses_leaf [where t = AJ_BOOL and f = "\<lambda>n. n\<lparr>n_num := of_bool b\<rparr>"])
    (auto simp: parse_scalar_def)

lemma parses_num:
  assumes "\<And>n. alloc n" and "json_ok (JNum v)"
  shows "parses alloc (JNum v)"
proof (rule parses_leaf [where t = AJ_NUM and f = "\<lambda>n. n\<lparr>n_num := v\<rparr>"])
  fix p :: aj_p and r
  assume r: "num_end r" "p_rest p = json_text (JNum v) @ r"
  have "parse_number (int_text v @ r) = Some (v, r)"
    using assms(2) r(1) by (auto intro: parse_number_text)
  moreover obtain c s where c: "int_text v = c # s" "c = CHR ''-'' \<or> is_digit c"
    using int_text_hd [of v] by (cases "int_text v") auto
  moreover from c(2) have "c \<noteq> CHR 0x22" "c \<noteq> CHR ''t''" "c \<noteq> CHR ''f''" "c \<noteq> CHR ''n''"
    by (auto dest: is_digit_facts)
  ultimately show "parse_scalar alloc p = leaf alloc p r AJ_NUM (\<lambda>n. n\<lparr>n_num := v\<rparr>)"
    using r(2) by (simp add: parse_scalar_def Let_def)
qed (use assms int_text_hd [of v] in \<open>auto dest: is_digit_facts\<close>)

lemma parses_str:
  assumes alloc: "\<And>n. alloc n" and "is_cstr s"
  shows "parses alloc (JStr s)"
  unfolding parses_def
proof (intro allI impI)
  fix p r
  assume a: "doc_wf (p_doc p)" "p_size p \<le> 2 ^ 63" "p_rest p = json_text (JStr s) @ r"
  from a(3) have "p_rest p = str_text s @ r" by simp
  from parse_string_raw_text [where alloc = alloc, OF alloc a(1,2) this]
  obtain p1 where raw: "parse_string_raw alloc p = Some (length (d_sbuf (p_doc p)), p1)"
      "p_rest p1 = r" "d_sbuf (p_doc p1) = d_sbuf (p_doc p) @ s @ [NUL]" "p_size p1 \<le> p_size p"
    by blast
  let ?f = "\<lambda>n. n\<lparr>n_str := length (d_sbuf (p_doc p))\<rparr>"
  obtain p' where p': "leaf alloc p1 r AJ_STR ?f = Some (d_count (p_doc p1), p')" "p_rest p' = r"
      "d_nodes (p_doc p') = d_nodes (p_doc p1) @ [?f (blank_node AJ_STR)]"
      "d_sbuf (p_doc p') = d_sbuf (p_doc p1)"
    using leaf_total [where alloc = alloc, OF alloc] by blast
  have "parse_value alloc p = parse_scalar alloc p"
    using a(3) by (intro parse_value_scalar) (auto simp: str_text_def)
  also have "\<dots> = leaf alloc p1 r AJ_STR ?f"
    using raw a(3) by (simp add: parse_scalar_def str_text_def)
  finally have "parse_value alloc p = Some (d_count (p_doc p1), p')" using p'(1) by simp
  moreover have "repr (finished (p_doc p')) (d_count (p_doc p1)) (JStr s)"
    using assms(2) by (simp add: p' raw str_at_def)
  moreover have "p_size p' \<le> p_size p" using raw p' by (simp add: p_size_def)
  ultimately show "\<exists>n p'. parse_value alloc p = Some (n, p') \<and> p_rest p' = r \<and>
      repr (finished (p_doc p')) n (JStr s) \<and> p_size p' \<le> p_size p"
    using p'(2) by blast
qed

section \<open>Containers\<close>

text \<open>Arrays and objects at once: an array's entries are members whose name is not used.\<close>

definition entry_text :: "bool \<Rightarrow> string \<times> json \<Rightarrow> string" where
  "entry_text b kv = (if b then str_text (fst kv) @ '':'' else []) @ json_text (snd kv)"

definition repr_entry :: "bool \<Rightarrow> aj_doc \<Rightarrow> nat \<Rightarrow> string \<times> json \<Rightarrow> bool" where
  "repr_entry b d k kv \<longleftrightarrow> (b \<longrightarrow> node_key d k = Some (fst kv)) \<and> repr d k (snd kv)"

lemma repr_elems_all2: "repr_elems d ks vs \<longleftrightarrow> list_all2 (\<lambda>k v. repr d k v) ks vs"
  by (induction vs arbitrary: ks) (auto simp: list_all2_Cons2 split: list.splits)

lemma repr_members_all2: "repr_members d ks kvs \<longleftrightarrow> list_all2 (repr_entry True d) ks kvs"
  by (induction kvs arbitrary: ks) (auto simp: list_all2_Cons2 repr_entry_def split: list.splits)

text \<open>The part of an entry before its value.\<close>

lemma entry_key:
  assumes alloc: "\<And>n. alloc n" and wf: "doc_wf (p_doc p)" and size: "p_size p \<le> 2 ^ 63"
    and rest: "p_rest p = entry_text b (k, v) @ r" and k: "is_cstr k"
  obtains koff p1 where "(if b then parse_key alloc p else Some (0, p)) = Some (koff, p1)"
    "p_rest p1 = json_text v @ r" "p_size p1 \<le> p_size p"
    "doc_step None (p_doc p) (p_doc p1)" "d_nodes (p_doc p1) = d_nodes (p_doc p)"
    "p_depth p1 = p_depth p"
    "b \<longrightarrow> koff < length (d_sbuf (p_doc p1)) \<and> cstr (drop koff (d_sbuf (p_doc p1))) = k"
proof (cases b)
  case True
  let ?r = "'':'' @ json_text v @ r"
  have "p_rest (p_skip p) = str_text k @ ?r"
    using rest True by (simp add: entry_text_def str_text_def)
  from parse_string_raw_text [where alloc = alloc, OF alloc _ _ this] wf size
  obtain p1 where raw: "parse_string_raw alloc (p_skip p) = Some (length (d_sbuf (p_doc p)), p1)"
      "p_rest p1 = ?r" "d_sbuf (p_doc p1) = d_sbuf (p_doc p) @ k @ [NUL]"
      "p_size p1 \<le> p_size (p_skip p)"
    by (auto simp: p_size_def rest entry_text_def str_text_def True)
  let ?p1 = "(p_skip p1)\<lparr>p_rest := json_text v @ r\<rparr>"
  have key: "parse_key alloc p = Some (length (d_sbuf (p_doc p)), ?p1)"
    by (simp add: parse_key_def raw)
  note ok = parse_key_ok [OF key wf]
  have "p_size ?p1 \<le> p_size p"
    using raw(2,4) skip_ws_length [of "p_rest p"] by (simp add: p_size_def del: skip_ws_length)
  with that [of _ ?p1] key ok raw k True show ?thesis by auto
next
  case False
  with that [of 0 p] rest wf show ?thesis by (simp add: entry_text_def)
qed

lemma link_child_value:
  assumes "child < d_count d" and "link_slot self prev < child"
  shows "same_value (d_nodes (link_child d b koff self prev child) ! child) (d_nodes d ! child)"
  using link_child_nth [OF assms(1,1), of self prev b koff] assms(2) by (auto simp: same_value_def)

lemma same_value_fixup: "same_value n m \<Longrightarrow> same_value (fixup_node n) (fixup_node m)"
  by (auto simp: same_value_def)

text \<open>One entry: the child represents its value once it is linked, and is named by its key.\<close>

lemma entry_linked:
  assumes val: "value_parsed p1 child p2" and rep: "repr (finished (p_doc p2)) child v"
    and slot: "link_slot self prev < child"
    and key: "b \<Longrightarrow> koff < length (d_sbuf (p_doc p1)) \<and> cstr (drop koff (d_sbuf (p_doc p1))) = k"
    and wf1: "doc_wf (p_doc p1)"
  shows "repr_entry b (finished (link_child (p_doc p2) b koff self prev child)) child (k, v)"
proof -
  let ?d = "p_doc p2" and ?d' = "link_child (p_doc p2) b koff self prev child"
  from val have c: "child < d_count ?d" "doc_step None (p_doc p1) ?d" "doc_wf ?d"
    by (auto simp: value_parsed_def dest: doc_step_wf)
  have nth: "d_nodes ?d' ! j = d_nodes ?d ! j" if "child < j" "j < d_count ?d" for j
    using link_child_nth [OF that(2) c(1), of self prev b koff] slot that by simp
  have "frame child (finished ?d) (finished ?d')"
    using finished_ok [OF c(3,1)] c(1) by (auto simp: frame_def nth)
  then have "repr (finished ?d') child v"
    using rep same_value_fixup [OF link_child_value [OF c(1) slot, of b koff]] c(1)
    by (auto intro: repr_frame(1))
  moreover have "node_key (finished ?d') child = Some k" if b
  proof -
    from c(2) obtain t where t: "d_sbuf ?d = d_sbuf (p_doc p1) @ t" by (auto simp: doc_step_def)
    have "n_key (d_nodes ?d' ! child) = Suc koff"
      using link_child_nth [OF c(1) c(1), of self prev b koff] slot that by simp
    moreover have "str_at ?d' (Suc koff) = str_at (p_doc p1) (Suc koff)"
      using wf1 key [OF that] t by (intro str_at_append [OF _ _ _ refl]) (auto simp: doc_wf_def)
    ultimately show ?thesis
      using key [OF that] c(1) by (simp add: node_key_def str_at_def)
  qed
  ultimately show ?thesis by (simp add: repr_entry_def)
qed

text \<open>The entries after it leave that so.\<close>

lemma entry_kept:
  assumes rep: "repr_entry b (finished (p_doc p)) child kv" and wf: "doc_wf (p_doc p)"
    and rest: "entries_parsed p self (int child) n p'"
  shows "repr_entry b (finished (p_doc p')) child kv"
    "next_sibling (d_nodes (finished (p_doc p')) ! child) = int (d_count (p_doc p))"
    "child < d_count (p_doc p')"
proof -
  have c: "child < d_count (p_doc p)" using rep repr_count by (fastforce simp: repr_entry_def)
  have ls: "link_slot self (int child) = child" by (simp add: link_slot_def)
  from rest have r: "doc_step (Some child) (p_doc p) (p_doc p')"
      "d_nodes (p_doc p') ! child = (d_nodes (p_doc p) ! child)\<lparr>next_sibling := int (d_count (p_doc p))\<rparr>"
    by (auto simp: entries_parsed_def Let_def ls set_link_def)
  show c': "child < d_count (p_doc p')" using doc_step_count [OF r(1)] c by simp
  show "next_sibling (d_nodes (finished (p_doc p')) ! child) = int (d_count (p_doc p))"
    using c' r(2) by simp
  have fr: "frame child (finished (p_doc p)) (finished (p_doc p'))"
    using c by (intro step_frame [OF r(1) wf]) auto
  have ok: "doc_ok (finished (p_doc p))" by (rule finished_ok [OF wf c])
  have "n_key (d_nodes (finished (p_doc p)) ! child) \<le> length (d_sbuf (p_doc p))"
    using ok c by (auto simp: doc_ok_def Let_def)
  then have "node_key (finished (p_doc p')) child = node_key (finished (p_doc p)) child"
    using frame_str_at [OF fr, of "n_key (d_nodes (finished (p_doc p)) ! child)"] c c' r(2)
    by (simp add: node_key_def)
  moreover have "same_value (d_nodes (finished (p_doc p')) ! child) (d_nodes (finished (p_doc p)) ! child)"
    using c c' r(2) by (simp add: same_value_def)
  ultimately show "repr_entry b (finished (p_doc p')) child kv"
    using rep repr_frame(1) [OF _ fr] by (auto simp: repr_entry_def)
qed

lemma num_end_simps [simp]: "num_end (CHR '','' # r)" "num_end (closer b # r)" "num_end []"
  by (simp_all add: num_end_def is_digit_def closer_def)

lemma closer_neq_comma [simp]: "closer b \<noteq> CHR '',''"
  by (simp add: closer_def)

lemma join_Cons: "join (s # ss) = s @ (if ss = [] then [] else CHR '','' # join ss)"
  by (cases ss) auto

text \<open>The loop over a container's entries, from any point of it.\<close>

lemma container_loop_text:
  assumes alloc: "\<And>n. alloc n"
  shows "kvs \<noteq> [] \<Longrightarrow>
    \<forall>(k, v) \<in> set kvs. is_cstr k \<and> parses alloc v \<and> p_depth p + json_depth v \<le> AJ_MAX_DEPTH \<Longrightarrow>
    doc_wf (p_doc p) \<Longrightarrow> p_size p \<le> 2 ^ 63 \<Longrightarrow> link_slot self prev < d_count (p_doc p) \<Longrightarrow>
    p_rest p = join (map (entry_text b) kvs) @ closer b # r \<Longrightarrow>
    \<exists>p' ks. container_loop alloc p b self prev = Some (self, p') \<and> p_rest p' = r \<and>
      p_size p' \<le> p_size p \<and> chain (finished (p_doc p')) (int (d_count (p_doc p))) ks \<and>
      list_all2 (repr_entry b (finished (p_doc p'))) ks kvs"
proof (induction kvs arbitrary: p prev)
  case Nil
  then show ?case by simp
next
  case (Cons kv kvs)
  obtain k v where kv: "kv = (k, v)" by (cases kv)
  let ?tail = "if kvs = [] then closer b # r
    else CHR '','' # join (map (entry_text b) kvs) @ closer b # r"
  have rest: "p_rest p = entry_text b (k, v) @ ?tail"
    using Cons.prems(6) kv by (simp add: join_Cons del: join.simps)
  have tail: "skip_ws ?tail = ?tail" "num_end ?tail" by simp_all
  from kv Cons.prems(2) have k: "is_cstr k" and v: "parses alloc v"
    and dep: "p_depth p + json_depth v \<le> AJ_MAX_DEPTH" by auto
  obtain koff p1 where key: "(if b then parse_key alloc p else Some (0, p)) = Some (koff, p1)"
      "p_rest p1 = json_text v @ ?tail" "p_size p1 \<le> p_size p"
      "doc_step None (p_doc p) (p_doc p1)" "d_nodes (p_doc p1) = d_nodes (p_doc p)"
      "p_depth p1 = p_depth p"
      "b \<longrightarrow> koff < length (d_sbuf (p_doc p1)) \<and> cstr (drop koff (d_sbuf (p_doc p1))) = k"
    by (rule entry_key [where alloc = alloc, OF alloc Cons.prems(3,4) rest k])
  note wf1 = doc_step_wf [OF key(4)]
  have size1: "p_size p1 \<le> 2 ^ 63" and dep1: "p_depth p1 + json_depth v \<le> AJ_MAX_DEPTH"
    using key(3,6) Cons.prems(4) dep by simp_all
  obtain child p2 where val: "parse_value alloc p1 = Some (child, p2)" "p_rest p2 = ?tail"
      "repr (finished (p_doc p2)) child v" "p_size p2 \<le> p_size p1"
    by (rule parsesD [OF v wf1 size1 key(2) tail(2) dep1])
  note vp = parser_ok(1) [OF val(1) wf1]
  let ?p3 = "p_skip (p2\<lparr>p_doc := link_child (p_doc p2) b koff self prev child\<rparr>)"
  have koff: "b \<Longrightarrow> koff < length (d_sbuf (p_doc p1))" using key(7) by blast
  note first = entries_parsed_first [where ?p3.0 = ?p3, OF vp key(4,5,6) koff Cons.prems(5), simplified]
  have slot: "link_slot self prev < child" using Cons.prems(5) first(2) by simp
  note linked = entry_linked [OF vp val(3) slot key(7) [rule_format] wf1]
  have p3: "p_rest ?p3 = ?tail" "p_doc ?p3 = link_child (p_doc p2) b koff self prev child"
      "p_depth ?p3 = p_depth p"
    using val(2) tail(1) first(1) by (simp_all add: entries_parsed_def Let_def)
  have size3: "p_size ?p3 \<le> p_size p" using val(2,4) key(3) tail(1) by (simp add: p_size_def)
  note loop = container_loop.simps [of alloc p b self prev, unfolded key(1) option.case prod.case val(1) Let_def]
  show ?case
  proof (cases "kvs = []")
    case True
    let ?p' = "?p3\<lparr>p_rest := r\<rparr>"
    have "container_loop alloc p b self prev = Some (self, ?p')"
      using loop p3(1) True by simp
    moreover have "chain (finished (p_doc ?p')) (int (d_count (p_doc p))) [child]"
      using first by simp
    moreover have "p_size ?p' \<le> p_size p" using size3 p3(1) True by (simp add: p_size_def)
    ultimately show ?thesis using linked True kv first(3)
      by (intro exI [of _ ?p'] exI [of _ "[child]"]) simp
  next
    case False
    let ?p4 = "?p3\<lparr>p_rest := join (map (entry_text b) kvs) @ closer b # r\<rparr>"
    have step: "container_loop alloc p b self prev = container_loop alloc ?p4 b self (int child)"
      using loop p3(1) False by simp
    have wf4: "doc_wf (p_doc ?p4)" using entries_parsed_wf [OF first(1)] by simp
    have size4: "p_size ?p4 \<le> p_size p" using size3 p3(1) False by (simp add: p_size_def)
    have slot4: "link_slot self (int child) < d_count (p_doc ?p4)"
      using first(4) by (simp add: link_slot_def)
    have all: "\<forall>(k, v) \<in> set kvs. is_cstr k \<and> parses alloc v \<and>
        p_depth ?p4 + json_depth v \<le> AJ_MAX_DEPTH"
      using Cons.prems(2) p3(3) by auto
    from Cons.IH [OF False all wf4 _ slot4] size4 Cons.prems(4) obtain p' ks where IH:
        "container_loop alloc ?p4 b self (int child) = Some (self, p')" "p_rest p' = r"
        "p_size p' \<le> p_size ?p4"
        "chain (finished (p_doc p')) (int (d_count (p_doc ?p4))) ks"
        "list_all2 (repr_entry b (finished (p_doc p'))) ks kvs"
      by auto
    have "repr_entry b (finished (p_doc ?p4)) child kv" using linked kv by simp
    note kept = entry_kept [OF this wf4 parser_ok(4) [OF IH(1) wf4 slot4]]
    have "chain (finished (p_doc p')) (int (d_count (p_doc p))) (child # ks)"
      using IH(4) kept(2,3) first(2) by simp
    with IH kept(1) step size4 show ?thesis
      by (intro exI [of _ p'] exI [of _ "child # ks"]) auto
  qed
qed

lemma json_text_not_closer: "hd (json_text v) \<noteq> closer b"
proof (cases v)
  case (JNum n)
  have "\<not> is_digit (closer b)" "closer b \<noteq> CHR ''-''" by (simp_all add: is_digit_def closer_def)
  then show ?thesis using JNum int_text_hd [of n] by auto
qed (auto simp: str_text_def closer_def)

text \<open>A whole container, from its opening bracket.\<close>

lemma parse_container_text:
  assumes alloc: "\<And>n. alloc n" and wf: "doc_wf (p_doc p)" and size: "p_size p \<le> 2 ^ 63"
    and kvs: "\<forall>(k, v) \<in> set kvs. is_cstr k \<and> parses alloc v \<and>
      p_depth p + Suc (json_depth v) \<le> AJ_MAX_DEPTH"
    and dep: "p_depth p < AJ_MAX_DEPTH"
    and rest: "p_rest p = c # join (map (entry_text b) kvs) @ closer b # r"
  shows "\<exists>n p' ks. parse_container alloc p b = Some (n, p') \<and> p_rest p' = r \<and>
     p_size p' \<le> p_size p \<and> n < d_count (p_doc p') \<and>
     n_type (d_nodes (p_doc p') ! n) = (if b then AJ_OBJ else AJ_ARR) \<and>
     chain (finished (p_doc p')) (first_child (d_nodes (p_doc p') ! n)) ks \<and>
     list_all2 (repr_entry b (finished (p_doc p'))) ks kvs"
proof -
  let ?t = "if b then AJ_OBJ else AJ_ARR" and ?p = "p\<lparr>p_depth := p_depth p + 1\<rparr>"
  have "node_new alloc (p_doc p) ?t \<noteq> None" using alloc by (simp add: node_new_def Let_def)
  then obtain self d where new: "node_new alloc (p_doc p) ?t = Some (self, d)" by auto
  have "?t \<noteq> AJ_STR" by simp
  note cn = container_node [OF new wf this]
  let ?body = "join (map (entry_text b) kvs) @ closer b # r"
  let ?p1 = "?p\<lparr>p_doc := d, p_rest := ?body\<rparr>"
  have ws: "skip_ws ?body = ?body" and hd: "hd ?body = closer b \<longleftrightarrow> kvs = []"
  proof -
    have "hd ?body \<noteq> closer b \<and> \<not> is_ws (hd ?body)" if "kvs \<noteq> []"
    proof -
      from that obtain kv and t :: string where "join (map (entry_text b) kvs) = entry_text b kv @ t"
        by (cases kvs) (auto simp: join_Cons simp del: join.simps)
      then show ?thesis
        using json_text_hd [of "snd kv"] json_text_not_closer [of "snd kv" b]
        by (auto simp: entry_text_def str_text_def closer_def)
    qed
    then show "skip_ws ?body = ?body" "hd ?body = closer b \<longleftrightarrow> kvs = []"
      by (cases "kvs = []"; simp)+
  qed
  have sb: "d_sbuf d = d_sbuf (p_doc p)" by (rule node_new_SomeD [OF new])
  have size1: "p_size ?p1 \<le> p_size p" using rest by (simp add: p_size_def sb)
  have body: "parse_container_body alloc ?p b =
      (if kvs = [] then Some (self, ?p1\<lparr>p_rest := r\<rparr>) else container_loop alloc ?p1 b self (- 1))"
    using new rest hd ws by (subst parse_container_body.simps) (auto simp: Let_def p_skip_def)
  show ?thesis
  proof (cases "kvs = []")
    case True
    then show ?thesis
      using body dep cn size1
      by (subst parse_container.simps) (auto intro!: exI [of _ "[]"] simp: p_size_def)
  next
    case False
    have "\<exists>p' ks. container_loop alloc ?p1 b self (- 1) = Some (self, p') \<and> p_rest p' = r \<and>
      p_size p' \<le> p_size ?p1 \<and> chain (finished (p_doc p')) (int (d_count (p_doc ?p1))) ks \<and>
      list_all2 (repr_entry b (finished (p_doc p'))) ks kvs"
      by (rule container_loop_text [where alloc = alloc, OF alloc False])
        (use kvs cn doc_step_wf [OF cn(1)] size size1 in \<open>auto simp: link_slot_def\<close>)
    then obtain p' ks where p': "container_loop alloc ?p1 b self (- 1) = Some (self, p')"
      "p_rest p' = r" "p_size p' \<le> p_size ?p1"
      "chain (finished (p_doc p')) (int (d_count (p_doc ?p1))) ks"
      "list_all2 (repr_entry b (finished (p_doc p'))) ks kvs" by blast
    have "entries_parsed ?p1 self (- 1) self p'"
      using p'(1) cn doc_step_wf [OF cn(1)] by (intro parser_ok(4)) (auto simp: link_slot_def)
    then have "self < d_count (p_doc p')" "n_type (d_nodes (p_doc p') ! self) = ?t"
      "first_child (d_nodes (p_doc p') ! self) = int (d_count (p_doc ?p1))"
      using cn by (auto simp: entries_parsed_def Let_def link_slot_def set_link_def)
    with p' body dep False size1 show ?thesis
      by (subst parse_container.simps) (auto simp: p_size_def intro!: exI [of _ ks])
  qed
qed

lemma parse_value_container:
  assumes "p_rest p = (if b then CHR ''{'' else CHR ''['') # s"
  shows "parse_value alloc p = parse_container alloc p b"
proof -
  have skip: "p_skip p = p" using assms by (simp add: p_skip_def)
  show ?thesis
    by (subst parse_value.simps, unfold skip Let_def) (use assms in \<open>simp split: list.split\<close>)
qed

lemma fold_max_ge: "x \<in> set xs \<Longrightarrow> x \<le> fold max xs (0::nat)"
  using Max_ge [of "set (0 # xs)" x] by (simp only: Max.set_eq_fold) simp

lemma parses_container:
  assumes alloc: "\<And>n. alloc n"
    and kvs: "\<forall>(k, v) \<in> set kvs. is_cstr k \<and> parses alloc v \<and> json_depth v < json_depth w"
    and w: "0 < json_depth w"
      "json_text w = (if b then CHR ''{'' else CHR ''['') # join (map (entry_text b) kvs) @ [closer b]"
    and repr: "\<And>d n ks. n < d_count d \<Longrightarrow> n_type (d_nodes d ! n) = (if b then AJ_OBJ else AJ_ARR) \<Longrightarrow>
      chain d (first_child (d_nodes d ! n)) ks \<Longrightarrow> list_all2 (repr_entry b d) ks kvs \<Longrightarrow> repr d n w"
  shows "parses alloc w"
  unfolding parses_def
proof (intro allI impI)
  fix p r
  assume a: "doc_wf (p_doc p)" "p_size p \<le> 2 ^ 63" "p_rest p = json_text w @ r"
    "p_depth p + json_depth w \<le> AJ_MAX_DEPTH"
  have "\<forall>(k, v) \<in> set kvs. is_cstr k \<and> parses alloc v \<and> p_depth p + Suc (json_depth v) \<le> AJ_MAX_DEPTH"
    using kvs a(4) by fastforce
  from parse_container_text [where alloc = alloc, OF alloc a(1,2) this _ a(3) [unfolded w append.simps append_assoc]] a(4) w(1)
  obtain n p' ks where p': "parse_container alloc p b = Some (n, p')" "p_rest p' = r"
     "p_size p' \<le> p_size p" "n < d_count (p_doc p')"
     "n_type (d_nodes (p_doc p') ! n) = (if b then AJ_OBJ else AJ_ARR)"
     "chain (finished (p_doc p')) (first_child (d_nodes (p_doc p') ! n)) ks"
     "list_all2 (repr_entry b (finished (p_doc p'))) ks kvs"
    by auto
  have "parse_value alloc p = Some (n, p')"
    using parse_value_container [of p b] a(3) w p'(1) by simp
  moreover have "repr (finished (p_doc p')) n w" by (rule repr [of _ _ ks]) (use p' in simp_all)
  ultimately show "\<exists>n p'. parse_value alloc p = Some (n, p') \<and> p_rest p' = r \<and>
      repr (finished (p_doc p')) n w \<and> p_size p' \<le> p_size p"
    using p' by blast
qed

lemma parses_json:
  assumes alloc: "\<And>n. alloc n"
  shows "json_ok v \<Longrightarrow> parses alloc v"
proof (induction v)
  case (JArr vs)
  let ?kvs = "map (Pair []) vs"
  have "entry_text False \<circ> Pair [] = json_text" by (simp add: entry_text_def fun_eq_iff)
  moreover have "list_all2 (repr_entry False d) ks ?kvs = repr_elems d ks vs" for d ks
    by (simp add: repr_elems_all2 repr_entry_def list_all2_map2)
  ultimately show ?case
    using JArr fold_max_ge [of _ "map json_depth vs"]
    by (intro parses_container [where alloc = alloc and kvs = ?kvs and b = False, OF alloc])
      (auto simp: closer_def less_Suc_eq_le)
next
  case (JObj kvs)
  have "entry_text True = (\<lambda>(k, v). str_text k @ '':'' @ json_text v)"
    by (auto simp: entry_text_def fun_eq_iff)
  moreover have "json_depth v \<le> fold max (map (\<lambda>(k, v). json_depth v) kvs) 0" if "(k, v) \<in> set kvs" for k v
    using that by (intro fold_max_ge) force
  ultimately show ?case
    using JObj
    by (intro parses_container [where alloc = alloc and kvs = kvs and b = True, OF alloc])
      (fastforce simp: closer_def less_Suc_eq_le repr_members_all2)+
qed (use alloc in \<open>auto intro: parses_null parses_bool parses_num parses_str\<close>)

theorem aj_parse_text:
  assumes alloc: "\<And>n. alloc n" and v: "json_ok v" "json_depth v \<le> AJ_MAX_DEPTH"
    and len: "length (json_text v) \<le> 2 ^ 63"
  shows "\<exists>d. aj_parse alloc (json_text v) = Some d \<and> repr d 0 v"
proof -
  let ?p = "\<lparr>p_rest = json_text v, p_doc = aj_doc_zero, p_depth = 0\<rparr>"
  have "p_size ?p \<le> 2 ^ 63" using len by (simp add: p_size_def aj_doc_zero_def)
  with v(2) obtain n p' where p': "parse_value alloc ?p = Some (n, p')" "p_rest p' = []"
      "repr (finished (p_doc p')) n v"
    by (auto intro: parsesD [OF parses_json [where alloc = alloc, OF alloc v(1)], of ?p "[]"])
  have "value_parsed ?p n p'" by (rule parser_ok(1) [OF p'(1)]) simp
  then have "n = d_count aj_doc_zero" by (simp add: value_parsed_def)
  then have "n = 0" by (simp add: aj_doc_zero_def)
  with p' show ?thesis by (simp add: aj_parse_def finished_def)
qed

end
