(* ===== verification/Json_Writer.thy ===== *)
theory Json_Writer
  imports Json_Complete
begin

text \<open>
  The writer of \<^verbatim>\<open>src/common/arpc_json.c\<close>: every operation appends to a growing buffer, puts
  a comma first when one is due, and does nothing any more once an allocation has failed.

  \<open>w_buf\<close> holds the bytes written to the allocation so far, the terminating NUL included;
  \<open>w_cap\<close> is its size, 0 while the pointer is null. The operations that write without
  checking record a write past \<open>w_cap\<close> in \<open>w_oob\<close>, which the source does not have: that it
  is never set is the memory safety of the writer.
\<close>

record aj_w =
  w_buf :: string
  w_len :: nat
  w_cap :: nat
  w_err :: bool
  need_comma :: bool
  w_oob :: bool

section \<open>Growing and raw writes\<close>

text \<open>
  The loop of \<^verbatim>\<open>wgrow\<close>. The outer \<^const>\<open>None\<close> is running out of the bound on iterations,
  which never happens for a positive capacity and 65 of them; \<^term>\<open>Some None\<close> is the
  overflow the source tests for.
\<close>

fun wgrow_loop :: "nat \<Rightarrow> nat \<Rightarrow> nat \<Rightarrow> nat option option" where
  "wgrow_loop 0 cap need = None"
| "wgrow_loop (Suc fuel) cap need =
     (if cap < need
      then (let nxt = cap * 2 mod 2 ^ 64
            in if nxt < cap then Some None else wgrow_loop fuel nxt need)
      else Some (Some cap))"

definition wgrow :: "allocator \<Rightarrow> aj_w \<Rightarrow> nat \<Rightarrow> bool \<times> aj_w" where
  "wgrow alloc w need =
     (if w_err w then (False, w)
      else let total = (w_len w + need + 1) mod 2 ^ 64 in
        if total \<le> w_cap w then (True, w)
        else case wgrow_loop 65 (if w_cap w \<noteq> 0 then w_cap w else 256) total of
          Some (Some cap) \<Rightarrow>
            if alloc cap then (True, w\<lparr>w_cap := cap\<rparr>) else (False, w\<lparr>w_err := True\<rparr>)
        | _ \<Rightarrow> (False, w\<lparr>w_err := True\<rparr>))"

definition ajw_reserve :: "allocator \<Rightarrow> aj_w \<Rightarrow> nat \<Rightarrow> bool \<times> aj_w" where
  "ajw_reserve alloc w bytes = wgrow alloc w bytes"

definition wraw_unchecked :: "aj_w \<Rightarrow> string \<Rightarrow> aj_w" where
  "wraw_unchecked w s =
     w\<lparr>w_buf := take (w_len w) (w_buf w) @ s @ [NUL], w_len := w_len w + length s,
       w_oob := w_oob w \<or> w_cap w < w_len w + length s + 1\<rparr>"

definition wputc_unchecked :: "aj_w \<Rightarrow> char \<Rightarrow> aj_w" where
  "wputc_unchecked w c =
     w\<lparr>w_buf := take (w_len w) (w_buf w) @ [c] @ [NUL], w_len := w_len w + 1,
       w_oob := w_oob w \<or> w_cap w < w_len w + 1 + 1\<rparr>"

definition wput :: "allocator \<Rightarrow> aj_w \<Rightarrow> string \<Rightarrow> aj_w" where
  "wput alloc w s =
     (let (room, w1) = wgrow alloc w (length s) in if room then wraw_unchecked w1 s else w1)"

definition ajw_raw :: "allocator \<Rightarrow> aj_w \<Rightarrow> string \<Rightarrow> aj_w" where
  "ajw_raw alloc w s =
     (let (room, w1) = wgrow alloc w (length s);
          w2 = (if room then wraw_unchecked w1 s else w1)
      in w2\<lparr>need_comma := True\<rparr>)"

definition wsep :: "allocator \<Rightarrow> aj_w \<Rightarrow> aj_w" where
  "wsep alloc w =
     (if need_comma w
      then (let (room, w1) = wgrow alloc w 1
            in if room then (wputc_unchecked w1 CHR '','')\<lparr>need_comma := True\<rparr> else w1)
      else w\<lparr>need_comma := True\<rparr>)"

definition ajw_init :: aj_w where
  "ajw_init = \<lparr>w_buf = [], w_len = 0, w_cap = 0, w_err = False, need_comma = False, w_oob = False\<rparr>"

definition ajw_free :: "aj_w \<Rightarrow> aj_w" where
  "ajw_free w = ajw_init\<lparr>w_oob := w_oob w\<rparr>"

section \<open>Containers, strings, numbers\<close>

definition wopen :: "allocator \<Rightarrow> aj_w \<Rightarrow> char \<Rightarrow> aj_w" where
  "wopen alloc w c =
     (let (room, w1) = wgrow alloc (wsep alloc w) 1
      in if room then (wputc_unchecked w1 c)\<lparr>need_comma := False\<rparr> else w1)"

definition wclose :: "allocator \<Rightarrow> aj_w \<Rightarrow> char \<Rightarrow> aj_w" where
  "wclose alloc w c =
     (let (room, w1) = wgrow alloc w 1
      in if room then (wputc_unchecked w1 c)\<lparr>need_comma := True\<rparr> else w1)"

definition ajw_obj_begin :: "allocator \<Rightarrow> aj_w \<Rightarrow> aj_w" where
  "ajw_obj_begin alloc w = wopen alloc w CHR ''{''"

definition ajw_obj_end :: "allocator \<Rightarrow> aj_w \<Rightarrow> aj_w" where
  "ajw_obj_end alloc w = wclose alloc w CHR ''}''"

definition ajw_arr_begin :: "allocator \<Rightarrow> aj_w \<Rightarrow> aj_w" where
  "ajw_arr_begin alloc w = wopen alloc w CHR ''[''"

definition ajw_arr_end :: "allocator \<Rightarrow> aj_w \<Rightarrow> aj_w" where
  "ajw_arr_end alloc w = wclose alloc w CHR '']''"

definition HEXDIG :: string where
  "HEXDIG = ''0123456789abcdef''"

text \<open>The \<^verbatim>\<open>switch\<close> on a byte that cannot stand for itself.\<close>

definition escape_of :: "char \<Rightarrow> string" where
  "escape_of c =
     (if c = CHR 0x22 then [CHR 0x5C, CHR 0x22]
      else if c = CHR 0x5C then [CHR 0x5C, CHR 0x5C]
      else if c = CHR 0x08 then [CHR 0x5C, CHR ''b'']
      else if c = CHR 0x0C then [CHR 0x5C, CHR ''f'']
      else if c = CHR 0x0A then [CHR 0x5C, CHR ''n'']
      else if c = CHR 0x0D then [CHR 0x5C, CHR ''r'']
      else if c = CHR 0x09 then [CHR 0x5C, CHR ''t'']
      else [CHR 0x5C, CHR ''u'', CHR ''0'', CHR ''0'',
            HEXDIG ! drop_bit 4 (byte_of c), HEXDIG ! (byte_of c AND 0xF)])"

definition plain :: "char \<Rightarrow> bool" where
  "plain c \<longleftrightarrow> byte_of c \<ge> 0x20 \<and> c \<noteq> CHR 0x22 \<and> c \<noteq> CHR 0x5C"

text \<open>Copying the run before the byte at hand: \<^const>\<open>False\<close> is the early return.\<close>

definition flush_run :: "allocator \<Rightarrow> aj_w \<Rightarrow> string \<Rightarrow> bool \<times> aj_w" where
  "flush_run alloc w run =
     (if run \<noteq> []
      then (let (room, w1) = wgrow alloc w (length run)
            in if room then (True, wraw_unchecked w1 run) else (False, w1))
      else (True, w))"

fun esc_loop :: "allocator \<Rightarrow> aj_w \<Rightarrow> string \<Rightarrow> string \<Rightarrow> bool \<times> aj_w" where
  "esc_loop alloc w run [] = flush_run alloc w run"
| "esc_loop alloc w run (c # p) =
     (if plain c then esc_loop alloc w (run @ [c]) p
      else let (going, w1) = flush_run alloc w run in
        if \<not> going then (False, w1)
        else let (room, w2) = wgrow alloc w1 6 in
          if \<not> room then (False, w2)
          else esc_loop alloc (wraw_unchecked w2 (escape_of c)) [] p)"

text \<open>The argument is read as a C string, up to its first NUL.\<close>

definition wstr_escaped :: "allocator \<Rightarrow> aj_w \<Rightarrow> string \<Rightarrow> aj_w" where
  "wstr_escaped alloc w s =
     (let (room, w1) = wgrow alloc w (length (cstr s) + 2) in
      if \<not> room then w1
      else let (going, w2) = esc_loop alloc (wputc_unchecked w1 CHR 0x22) [] (cstr s) in
        if \<not> going then w2
        else let (room3, w3) = wgrow alloc w2 1 in
          if room3 then wputc_unchecked w3 CHR 0x22 else w3)"

definition ajw_key :: "allocator \<Rightarrow> aj_w \<Rightarrow> string \<Rightarrow> aj_w" where
  "ajw_key alloc w key =
     (let (room, w1) = wgrow alloc (wstr_escaped alloc (wsep alloc w) key) 1
      in if room then (wputc_unchecked w1 CHR '':'')\<lparr>need_comma := False\<rparr> else w1)"

definition ajw_null :: "allocator \<Rightarrow> aj_w \<Rightarrow> aj_w" where
  "ajw_null alloc w = wput alloc (wsep alloc w) ''null''"

definition ajw_str :: "allocator \<Rightarrow> aj_w \<Rightarrow> string option \<Rightarrow> aj_w" where
  "ajw_str alloc w so =
     (case so of
        None \<Rightarrow> ajw_null alloc w
      | Some s \<Rightarrow> wstr_escaped alloc (wsep alloc w) s)"

text \<open>
  The digit loop fills \<^verbatim>\<open>tmp\<close> from the least significant digit; its argument is never
  negative, so that \<^verbatim>\<open>while (u)\<close> is a test for a positive number. The digits are then
  copied out backwards.
\<close>

function i64_loop :: "string \<Rightarrow> int \<Rightarrow> string" where
  "i64_loop tmp u =
     (let tmp1 = tmp @ [char_of (48 + nat (u mod 10))]; u1 = u div 10
      in if u1 > 0 then i64_loop tmp1 u1 else tmp1)"
  by pat_completeness auto
termination
  by (relation "measure (\<lambda>(tmp, u). nat u)") auto

declare i64_loop.simps [simp del]

definition ajw_i64 :: "allocator \<Rightarrow> aj_w \<Rightarrow> int \<Rightarrow> aj_w" where
  "ajw_i64 alloc w v =
     (let (room, w1) = wgrow alloc (wsep alloc w) 24 in
      if \<not> room then w1
      else let u = (if v < 0 then (- (v + 1) + 1) mod (ULLONG_MAX + 1) else v);
               out = (if v < 0 then ''-'' else []) @ rev (i64_loop [] u)
           in wraw_unchecked w1 out)"

section \<open>The writer's invariant\<close>

definition w_text :: "aj_w \<Rightarrow> string" where
  "w_text w = take (w_len w) (w_buf w)"

text \<open>
  Nothing was written outside the allocation, and the buffer is the text followed by a NUL
  (or was not written to yet); an allocation has at least 256 bytes.
\<close>

definition w_inv :: "aj_w \<Rightarrow> bool" where
  "w_inv w \<longleftrightarrow>
     \<not> w_oob w \<and> (w_buf w = [] \<and> w_len w = 0 \<or>
       w_buf w = w_text w @ [NUL] \<and> length (w_text w) = w_len w \<and> w_len w + 1 \<le> w_cap w) \<and>
     (w_cap w = 0 \<or> 256 \<le> w_cap w)"

lemma w_inv_length: "w_inv w \<Longrightarrow> length (w_text w) = w_len w"
  by (auto simp: w_inv_def w_text_def)

lemma w_text_simps [simp]:
  "w_text (w\<lparr>w_cap := c\<rparr>) = w_text w" "w_text (w\<lparr>w_err := e\<rparr>) = w_text w"
  "w_text (w\<lparr>need_comma := m\<rparr>) = w_text w"
  "w_inv (w\<lparr>w_err := e\<rparr>) = w_inv w" "w_inv (w\<lparr>need_comma := m\<rparr>) = w_inv w"
  by (simp_all add: w_text_def w_inv_def)

lemma w_inv_init [simp]: "w_inv ajw_init" "w_text ajw_init = []" "\<not> w_err ajw_init"
    "\<not> need_comma ajw_init" "w_len ajw_init = 0"
  by (simp_all add: ajw_init_def w_inv_def w_text_def)

lemma wgrow_loop_ends:
  assumes "0 < cap" and "2 ^ 64 \<le> cap * 2 ^ fuel"
  shows "wgrow_loop (Suc fuel) cap need \<noteq> None"
  using assms
proof (induction fuel arbitrary: cap)
  case 0
  have "cap * 2 mod 2 ^ 64 < 2 ^ 64" by (rule mod_less_divisor) simp
  with 0 have "cap * 2 mod 2 ^ 64 < cap" by simp
  then show ?case by (simp add: Let_def)
next
  case (Suc fuel)
  show ?case
  proof (cases "cap < need \<and> cap * 2 < 2 ^ 64")
    case True
    then have "cap * 2 mod 2 ^ 64 = cap * 2" by simp
    with Suc.IH [of "cap * 2"] Suc.prems True show ?thesis
      by (simp add: Let_def mult.assoc)
  next
    case False
    have "cap * 2 mod 2 ^ 64 < cap" if "2 ^ 64 \<le> cap * 2"
    proof (cases "cap < 2 ^ 64")
      case True
      with that have "cap * 2 mod 2 ^ 64 = cap * 2 - 2 ^ 64"
        by (simp add: le_mod_geq)
      with True that show ?thesis using Suc.prems by simp
    next
      case False
      then show ?thesis by (meson less_le_trans mod_less_divisor not_less zero_less_numeral zero_less_power)
    qed
    with False show ?thesis by (auto simp: Let_def)
  qed
qed

lemma wgrow_loop_ge: "wgrow_loop fuel cap need = Some (Some c) \<Longrightarrow> need \<le> c"
  by (induction fuel cap need rule: wgrow_loop.induct) (auto simp: Let_def split: if_splits)

lemma wgrow_loop_keeps: "wgrow_loop fuel cap need = Some (Some c) \<Longrightarrow> cap \<le> c"
  by (induction fuel cap need rule: wgrow_loop.induct) (auto simp: Let_def split: if_splits)

lemma wgrow_loop_total:
  assumes "need \<le> 2 ^ 63" and "need \<le> cap * 2 ^ fuel" and "0 < cap"
  shows "\<exists>c. wgrow_loop (Suc fuel) cap need = Some (Some c)"
  using assms
proof (induction fuel arbitrary: cap)
  case 0
  then show ?case by simp
next
  case (Suc fuel)
  show ?case
  proof (cases "cap < need")
    case True
    with Suc.prems have "cap * 2 mod 2 ^ 64 = cap * 2" by simp
    with Suc.IH [of "cap * 2"] Suc.prems True show ?thesis by (simp add: Let_def mult.assoc)
  next
    case False
    then show ?thesis by simp
  qed
qed

lemma wgrow_loop_65:
  assumes "0 < cap" and "need \<le> 2 ^ 63"
  shows "\<exists>c. wgrow_loop 65 cap need = Some (Some c)"
proof -
  have "need \<le> 1 * 2 ^ 64" using assms(2) by simp
  also have "\<dots> \<le> cap * 2 ^ 64" using assms(1) by (intro mult_le_mono1) simp
  finally have "\<exists>c. wgrow_loop (Suc 64) cap need = Some (Some c)"
    by (intro wgrow_loop_total [OF assms(2) _ assms(1)])
  moreover have "Suc 64 = 65" by simp
  ultimately show ?thesis by (simp only:)
qed

text \<open>
  What reserving room gives: the text is kept; when room is granted the capacity has it;
  and it is granted unless an allocation fails or failed before.
\<close>

lemma wgrow_spec:
  assumes "wgrow alloc w need = (room, w')" and "w_inv w" and "w_len w + need + 1 \<le> 2 ^ 63"
  shows "w_inv w'" "w_text w' = w_text w" "w_len w' = w_len w" "need_comma w' = need_comma w"
    "w_err w' = (\<not> room)"
    "w_err w \<Longrightarrow> w_err w'"
    "room \<Longrightarrow> w_len w + need + 1 \<le> w_cap w'"
    "\<forall>n \<ge> 256. alloc n \<Longrightarrow> \<not> w_err w \<Longrightarrow> room"
proof -
  let ?cap = "if w_cap w \<noteq> 0 then w_cap w else 256"
  have tot: "(w_len w + need + 1) mod 2 ^ 64 = w_len w + need + 1" using assms(3) by simp
  have "0 < ?cap" by simp
  from wgrow_loop_65 [OF this assms(3)] obtain c where
    c: "wgrow_loop 65 ?cap (w_len w + need + 1) = Some (Some c)" by blast
  note ge = wgrow_loop_ge [OF c] wgrow_loop_keeps [OF c]
  have "256 \<le> ?cap" using assms(2) by (auto simp: w_inv_def)
  with ge(2) have c256: "256 \<le> c" by linarith
  have g: "(room, w') =
     (if w_err w then (False, w)
      else if w_len w + need + 1 \<le> w_cap w then (True, w)
      else if alloc c then (True, w\<lparr>w_cap := c\<rparr>) else (False, w\<lparr>w_err := True\<rparr>))"
    using assms(1) unfolding wgrow_def Let_def tot c option.case by (rule sym)
  show "w_inv w'" "w_text w' = w_text w" "w_len w' = w_len w" "need_comma w' = need_comma w"
    "w_err w' = (\<not> room)" "w_err w \<Longrightarrow> w_err w'" "room \<Longrightarrow> w_len w + need + 1 \<le> w_cap w'"
    using g ge c256 assms(2) by (auto simp: w_inv_def split: if_splits)
  show "\<forall>n \<ge> 256. alloc n \<Longrightarrow> \<not> w_err w \<Longrightarrow> room"
    using g c256 by (auto split: if_splits)
qed

lemma wputc_is_wraw: "wputc_unchecked w c = wraw_unchecked w [c]"
  by (simp add: wputc_unchecked_def wraw_unchecked_def)

lemma wraw_spec:
  assumes "w_inv w" and "w_len w + length s + 1 \<le> w_cap w"
  shows "w_inv (wraw_unchecked w s)" "w_text (wraw_unchecked w s) = w_text w @ s"
    "w_len (wraw_unchecked w s) = w_len w + length s"
    "w_err (wraw_unchecked w s) = w_err w" "need_comma (wraw_unchecked w s) = need_comma w"
    "w_cap (wraw_unchecked w s) = w_cap w"
  using assms by (auto simp: wraw_unchecked_def w_inv_def w_text_def)

section \<open>What the operations append\<close>

text \<open>
  \<open>adds alloc w t w'\<close>: going from \<open>w\<close> to \<open>w'\<close> is safe and appends \<open>t\<close>, unless an error is
  flagged; none is where allocations of 256 bytes and more succeed, which is all the writer asks for.
  Texts stay below half the address space.
\<close>

definition adds :: "allocator \<Rightarrow> aj_w \<Rightarrow> string \<Rightarrow> aj_w \<Rightarrow> bool" where
  "adds alloc w t w' \<longleftrightarrow>
     (w_inv w \<and> w_len w + length t + 32 \<le> 2 ^ 63 \<longrightarrow>
        w_inv w' \<and> w_len w' \<le> w_len w + length t \<and>
        (\<not> w_err w' \<longrightarrow> \<not> w_err w \<and> w_text w' = w_text w @ t) \<and>
        ((\<forall>n \<ge> 256. alloc n) \<longrightarrow> \<not> w_err w \<longrightarrow> \<not> w_err w'))"

lemma adds_refl [simp]: "adds alloc w [] w"
  by (simp add: adds_def)

lemma adds_trans:
  assumes "adds alloc w t w1" and "adds alloc w1 u w2"
  shows "adds alloc w (t @ u) w2"
  using assms unfolding adds_def by fastforce

lemma adds_comma [simp]: "adds alloc w t (w'\<lparr>need_comma := b\<rparr>) = adds alloc w t w'"
  "adds alloc (w\<lparr>need_comma := b\<rparr>) t w' = adds alloc w t w'"
  by (simp_all add: adds_def)

text \<open>Reserving at least what is then written, with at most 31 bytes of slack.\<close>

lemma adds_reserve:
  assumes g: "wgrow alloc w need = (True, w1)" and s: "length s \<le> need" "need \<le> length s + 31"
  shows "adds alloc w s (wraw_unchecked w1 s)"
  unfolding adds_def
proof (intro impI)
  assume a: "w_inv w \<and> w_len w + length s + 32 \<le> 2 ^ 63"
  then have "w_len w + need + 1 \<le> 2 ^ 63" using s(2) by linarith
  note g = wgrow_spec [OF g _ this]
  have "w_inv w1" "w_len w1 + length s + 1 \<le> w_cap w1" using g(1,3,7) a s(1) by simp_all
  note r = wraw_spec [OF this]
  show "w_inv (wraw_unchecked w1 s) \<and> w_len (wraw_unchecked w1 s) \<le> w_len w + length s \<and>
      (\<not> w_err (wraw_unchecked w1 s) \<longrightarrow> \<not> w_err w \<and> w_text (wraw_unchecked w1 s) = w_text w @ s) \<and>
      ((\<forall>n \<ge> 256. alloc n) \<longrightarrow> \<not> w_err w \<longrightarrow> \<not> w_err (wraw_unchecked w1 s))"
    using g a r by auto
qed

lemma adds_refused:
  assumes g: "wgrow alloc w need = (False, w1)" and t: "need \<le> length t + 31"
  shows "adds alloc w t w1" "w_inv w \<Longrightarrow> w_len w + length t + 32 \<le> 2 ^ 63 \<Longrightarrow> w_err w1"
proof -
  have r: "w_len w + need + 1 \<le> 2 ^ 63" if "w_len w + length t + 32 \<le> 2 ^ 63"
    using that t by linarith
  show "adds alloc w t w1"
    unfolding adds_def
  proof (intro impI)
    assume a: "w_inv w \<and> w_len w + length t + 32 \<le> 2 ^ 63"
    note g = wgrow_spec [OF g _ r]
    show "w_inv w1 \<and> w_len w1 \<le> w_len w + length t \<and>
      (\<not> w_err w1 \<longrightarrow> \<not> w_err w \<and> w_text w1 = w_text w @ t) \<and>
      ((\<forall>n \<ge> 256. alloc n) \<longrightarrow> \<not> w_err w \<longrightarrow> \<not> w_err w1)"
      using g a by auto
  qed
  show "w_err w1" if "w_inv w" "w_len w + length t + 32 \<le> 2 ^ 63"
    using wgrow_spec(5) [OF g that(1) r] that by simp
qed

lemma adds_err: "w_err w \<Longrightarrow> adds alloc w t w"
  by (simp add: adds_def)

lemma adds_more: "adds alloc w t w' \<Longrightarrow> w_err w' \<Longrightarrow> adds alloc w (t @ u) w'"
  by (auto simp: adds_def)

lemma wgrow_False_err: "wgrow alloc w need = (False, w1) \<Longrightarrow> w_err w1"
  by (auto simp: wgrow_def Let_def split: if_splits option.splits)

lemma wgrow_fields: "wgrow alloc w need = (room, w1) \<Longrightarrow> need_comma w1 = need_comma w"
  by (auto simp: wgrow_def Let_def split: if_splits option.splits)

text \<open>
  \<open>emits alloc b t c f\<close>: called where a comma is due exactly if \<open>b\<close>, the operation \<open>f\<close>
  appends \<open>t\<close> and leaves a comma due exactly if \<open>c\<close>. In a writer with an error flagged the
  operation has no effect on the text.
\<close>

definition emits :: "allocator \<Rightarrow> bool \<Rightarrow> string \<Rightarrow> bool \<Rightarrow> (aj_w \<Rightarrow> aj_w) \<Rightarrow> bool" where
  "emits alloc b t c f \<longleftrightarrow>
     (\<forall>w. w_err w \<or> need_comma w = b \<longrightarrow>
        adds alloc w t (f w) \<and> (\<not> w_err (f w) \<longrightarrow> need_comma (f w) = c))"

named_theorems emits_intros \<open>what the writer's operations append\<close>

lemma emitsI:
  assumes "\<And>w. w_err w \<or> need_comma w = b \<Longrightarrow>
    adds alloc w t (f w) \<and> (w_err (f w) \<or> need_comma (f w) = c)"
  shows "emits alloc b t c f"
  using assms unfolding emits_def by blast

lemma emitsD:
  assumes "emits alloc b t c f" and "w_err w \<or> need_comma w = b"
  shows "adds alloc w t (f w)" "w_err (f w) \<or> need_comma (f w) = c"
  using assms unfolding emits_def by blast+

lemma emits_comp:
  assumes "emits alloc b t c f" and "emits alloc c u d g"
  shows "emits alloc b (t @ u) d (\<lambda>w. g (f w))"
  using assms unfolding emits_def by (blast intro: adds_trans)

text \<open>Reserve, then write: the shape of every operation.\<close>

definition reserve_put :: "allocator \<Rightarrow> nat \<Rightarrow> string \<Rightarrow> aj_w \<Rightarrow> aj_w" where
  "reserve_put alloc need s w =
     (let (room, w1) = wgrow alloc w need in if room then wraw_unchecked w1 s else w1)"

lemma reserve_put_adds:
  assumes "length s \<le> need" and "need \<le> length s + 31"
  shows "adds alloc w s (reserve_put alloc need s w)"
proof -
  obtain room w1 where g: "wgrow alloc w need = (room, w1)" by fastforce
  then show ?thesis
    using adds_reserve [of alloc w need w1 s] adds_refused(1) [of alloc w need w1 s] assms
    by (cases room) (simp_all add: reserve_put_def)
qed

lemma reserve_put_comma: "need_comma (reserve_put alloc need s w) = need_comma w"
  by (auto simp: reserve_put_def wraw_unchecked_def split: prod.split dest: wgrow_fields)

lemma reserve_put_sticky: "w_err w \<Longrightarrow> reserve_put alloc need s w = w"
  by (simp add: reserve_put_def wgrow_def)

lemma emits_put_same:
  assumes "length s \<le> need" and "need \<le> length s + 31"
  shows "emits alloc b s b (reserve_put alloc need s)"
  by (rule emitsI) (auto simp: reserve_put_adds assms reserve_put_comma reserve_put_sticky)

lemma emits_put:
  assumes "length s \<le> need" and "need \<le> length s + 31"
  shows "emits alloc b s c (\<lambda>w. let (room, w1) = wgrow alloc w need
            in if room then (wraw_unchecked w1 s)\<lparr>need_comma := c\<rparr> else w1)" (is "emits alloc b s c ?f")
proof (rule emitsI)
  fix w :: aj_w
  obtain room w1 where g: "wgrow alloc w need = (room, w1)" by fastforce
  have "?f w = (if room then (reserve_put alloc need s w)\<lparr>need_comma := c\<rparr> else reserve_put alloc need s w)"
    using g by (simp add: reserve_put_def)
  moreover have "\<not> room \<Longrightarrow> w_err (?f w)" using wgrow_False_err [of alloc w need w1] g by simp
  ultimately show "adds alloc w s (?f w) \<and> (w_err (?f w) \<or> need_comma (?f w) = c)"
    using reserve_put_adds [OF assms, of alloc w] by (cases room) simp_all
qed

definition sep_text :: "bool \<Rightarrow> string" where
  "sep_text b = (if b then '','' else [])"

lemma emits_wsep: "emits alloc b (sep_text b) True (wsep alloc)"
proof (rule emitsI)
  fix w :: aj_w
  assume b: "w_err w \<or> need_comma w = b"
  have put: "emits alloc True '','' True (\<lambda>w. let (room, w1) = wgrow alloc w 1
      in if room then (wraw_unchecked w1 '','')\<lparr>need_comma := True\<rparr> else w1)"
    by (rule emits_put) simp_all
  consider "w_err w" | "\<not> w_err w" "b" "need_comma w" | "\<not> w_err w" "\<not> b" "\<not> need_comma w"
    using b by blast
  then show "adds alloc w (sep_text b) (wsep alloc w) \<and>
      (w_err (wsep alloc w) \<or> need_comma (wsep alloc w) = True)"
  proof cases
    case 1
    then have "wsep alloc w = w\<lparr>need_comma := True\<rparr> \<or> wsep alloc w = w"
      by (simp add: wsep_def wgrow_def)
    with 1 show ?thesis by (auto simp: adds_err)
  next
    case 2
    with emitsD [OF put, of w] show ?thesis
      unfolding wsep_def sep_text_def wputc_is_wraw by simp
  next
    case 3
    then show ?thesis by (simp add: wsep_def sep_text_def)
  qed
qed

lemma emits_after_sep:
  assumes "emits alloc True t c f"
  shows "emits alloc b (sep_text b @ t) c (\<lambda>w. f (wsep alloc w))"
  by (rule emits_comp [OF emits_wsep assms])

lemma emits_wopen: "emits alloc b (sep_text b @ [ch]) False (\<lambda>w. wopen alloc w ch)"
  unfolding wopen_def wputc_is_wraw by (rule emits_after_sep, rule emits_put) simp_all

lemma emits_wclose: "emits alloc b [ch] True (\<lambda>w. wclose alloc w ch)"
  unfolding wclose_def wputc_is_wraw by (rule emits_put) simp_all

lemma emits_brackets [emits_intros]:
  "emits alloc b (sep_text b @ ''{'') False (ajw_obj_begin alloc)"
  "emits alloc b (sep_text b @ ''['') False (ajw_arr_begin alloc)"
  "emits alloc b ''}'' True (ajw_obj_end alloc)" "emits alloc b '']'' True (ajw_arr_end alloc)"
  using emits_wopen emits_wclose
  unfolding ajw_obj_begin_def ajw_arr_begin_def ajw_obj_end_def ajw_arr_end_def emits_def
  by blast+

lemma emits_null [emits_intros]: "emits alloc b (sep_text b @ ''null'') True (ajw_null alloc)"
proof -
  have "emits alloc True ''null'' True (\<lambda>w. wput alloc w ''null'')"
    unfolding wput_def reserve_put_def [symmetric] by (rule emits_put_same) simp_all
  from emits_after_sep [OF this] show ?thesis
    unfolding ajw_null_def emits_def by blast
qed

lemma emits_raw [emits_intros]: "emits alloc b s True (\<lambda>w. ajw_raw alloc w s)"
proof (rule emitsI)
  fix w
  have "ajw_raw alloc w s = (reserve_put alloc (length s) s w)\<lparr>need_comma := True\<rparr>"
    by (simp add: ajw_raw_def reserve_put_def Let_def split: prod.split)
  then show "adds alloc w s (ajw_raw alloc w s) \<and>
      (w_err (ajw_raw alloc w s) \<or> need_comma (ajw_raw alloc w s) = True)"
    using reserve_put_adds [of s "length s" alloc w] by simp
qed

subsection \<open>Strings\<close>

lemma esc_char_plain: "plain c \<Longrightarrow> esc_char c = [c]"
  by (auto simp: plain_def esc_char_def)

lemma and_15: "(x::nat) AND 15 = x mod 16"
  using take_bit_eq_mask [of 4 x] by (simp add: take_bit_eq_mod mask_eq_exp_minus_1)

lemma escape_of_esc_char:
  assumes "\<not> plain c"
  shows "escape_of c = esc_char c"
proof -
  have h: "HEXDIG ! drop_bit 4 (byte_of c) = hexdig (byte_of c div 16)"
    "HEXDIG ! (byte_of c AND 0xF) = hexdig (byte_of c mod 16)"
    by (simp_all add: HEXDIG_def hexdig_def and_15 drop_bit_eq_div)
  consider "c = CHR 0x22" | "c = CHR 0x5C" | "byte_of c < 0x20"
    using assms by (auto simp: plain_def)
  then show ?thesis
    unfolding escape_of_def esc_char_def h by cases (simp, simp, simp only: if_True)
qed

lemma escape_of_length: "length (escape_of c) \<le> 6"
  by (simp add: escape_of_def)

lemma flush_run_adds:
  assumes "flush_run alloc w run = (going, w')"
  shows "adds alloc w run w'" "\<not> going \<Longrightarrow> w_err w'" "need_comma w' = need_comma w"
proof -
  have run: "run = [] \<or> w' = reserve_put alloc (length run) run w"
    using assms by (auto simp: flush_run_def reserve_put_def split: if_splits prod.splits)
  then show "adds alloc w run w'"
    using assms reserve_put_adds [of run "length run" alloc w] by (auto simp: flush_run_def)
  show "need_comma w' = need_comma w"
    using assms run by (auto simp: flush_run_def reserve_put_comma)
  show "\<not> going \<Longrightarrow> w_err w'"
    using assms by (auto simp: flush_run_def split: if_splits prod.splits dest: wgrow_False_err)
qed

lemma esc_loop_adds:
  "esc_loop alloc w run p = (going, w') \<Longrightarrow>
     adds alloc w (run @ concat (map esc_char p)) w' \<and> (\<not> going \<longrightarrow> w_err w') \<and>
     need_comma w' = need_comma w"
proof (induction p arbitrary: w run)
  case Nil
  then show ?case using flush_run_adds [of alloc w run going w'] by auto
next
  case (Cons c p)
  let ?rest = "concat (map esc_char p)"
  show ?case
  proof (cases "plain c")
    case True
    with Cons.IH [of w "run @ [c]"] Cons.prems show ?thesis by (simp add: esc_char_plain)
  next
    case False
    note e = escape_of_esc_char [OF False]
    obtain g1 w1 where f: "flush_run alloc w run = (g1, w1)" by fastforce
    note fl = flush_run_adds [OF f]
    obtain room w2 where g: "wgrow alloc w1 6 = (room, w2)" by fastforce
    consider "\<not> g1" | "g1" "\<not> room" | "g1" "room" by blast
    then show ?thesis
    proof cases
      case 1
      with Cons.prems False f fl show ?thesis by (auto intro: adds_more)
    next
      case 2
      with g have refused: "wgrow alloc w1 6 = (False, w2)" by simp
      have "adds alloc w1 (esc_char c @ ?rest) w2"
        using adds_refused(1) [OF refused] by simp
      from adds_trans [OF fl(1) this] show ?thesis
        using 2 Cons.prems False f fl wgrow_False_err [OF refused] wgrow_fields [OF g] g by simp
    next
      case 3
      with g have granted: "wgrow alloc w1 6 = (True, w2)" by simp
      have "adds alloc w1 (esc_char c) (wraw_unchecked w2 (escape_of c))"
        unfolding e [symmetric] using escape_of_length [of c]
        by (intro adds_reserve [OF granted]) simp_all
      moreover have "esc_loop alloc (wraw_unchecked w2 (escape_of c)) [] p = (going, w')"
        using 3 Cons.prems False f g by simp
      from Cons.IH [OF this] have "adds alloc (wraw_unchecked w2 (escape_of c)) ?rest w'"
          "\<not> going \<longrightarrow> w_err w'" "need_comma w' = need_comma w2"
        by (auto simp: wraw_unchecked_def)
      ultimately show ?thesis
        using adds_trans [OF fl(1) adds_trans] fl(3) wgrow_fields [OF g] by simp
    qed
  qed
qed

lemma wstr_escaped_adds: "adds alloc w (str_text (cstr s)) (wstr_escaped alloc w s)"
  unfolding adds_def
proof (intro impI)
  let ?n = "length (cstr s)" and ?w = "wstr_escaped alloc w s"
  assume a: "w_inv w \<and> w_len w + length (str_text (cstr s)) + 32 \<le> 2 ^ 63"
  obtain room w1 where g: "wgrow alloc w (?n + 2) = (room, w1)" by fastforce
  have "w_len w + (?n + 2) + 1 \<le> 2 ^ 63" using a str_text_length [of "cstr s"] by linarith
  note gs = wgrow_spec [OF g _ this]
  show "w_inv ?w \<and> w_len ?w \<le> w_len w + length (str_text (cstr s)) \<and>
      (\<not> w_err ?w \<longrightarrow> \<not> w_err w \<and> w_text ?w = w_text w @ str_text (cstr s)) \<and>
      ((\<forall>n \<ge> 256. alloc n) \<longrightarrow> \<not> w_err w \<longrightarrow> \<not> w_err ?w)"
  proof (cases room)
    case False
    then show ?thesis using gs a g by (auto simp: wstr_escaped_def)
  next
    case True
    let ?q = "wraw_unchecked w1 [CHR 0x22]" and ?t = "concat (map esc_char (cstr s))"
    have "w_inv w1" "w_len w1 + length [CHR 0x22] + 1 \<le> w_cap w1" using gs True a by auto
    note q = wraw_spec [OF this]
    obtain going w2 where l: "esc_loop alloc ?q [] (cstr s) = (going, w2)" by fastforce
    note la = esc_loop_adds [OF l, simplified]
    have w: "?w = (if going then reserve_put alloc 1 [CHR 0x22] w2 else w2)"
      using g True l by (simp add: wstr_escaped_def reserve_put_def wputc_is_wraw Let_def split: prod.split)
    have "adds alloc w2 [CHR 0x22] (reserve_put alloc 1 [CHR 0x22] w2)"
      by (rule reserve_put_adds) simp_all
    moreover have "adds alloc w2 [CHR 0x22] w2" if "\<not> going" using that la adds_err by blast
    ultimately have "adds alloc w2 [CHR 0x22] ?w" using w by (cases going) simp_all
    with la have "adds alloc ?q (?t @ [CHR 0x22]) ?w" by (blast intro: adds_trans)
    moreover have "w_len ?q + length (?t @ [CHR 0x22]) = w_len w + length (str_text (cstr s))"
      using q gs a by (simp add: str_text_def)
    ultimately have "w_inv ?w \<and> w_len ?w \<le> w_len w + length (str_text (cstr s)) \<and>
        (\<not> w_err ?w \<longrightarrow> \<not> w_err ?q \<and> w_text ?w = w_text ?q @ ?t @ [CHR 0x22]) \<and>
        ((\<forall>n \<ge> 256. alloc n) \<longrightarrow> \<not> w_err ?q \<longrightarrow> \<not> w_err ?w)"
      using a q(1) unfolding adds_def by (metis)
    then show ?thesis using q gs a True by (auto simp: str_text_def)
  qed
qed

lemma wstr_escaped_comma: "need_comma (wstr_escaped alloc w s) = need_comma w"
  using esc_loop_adds
  by (auto simp: wstr_escaped_def Let_def wputc_unchecked_def split: prod.splits dest!: wgrow_fields)

lemma emits_wstr: "emits alloc b (str_text (cstr s)) b (\<lambda>w. wstr_escaped alloc w s)"
proof (rule emitsI)
  fix w :: aj_w
  assume b: "w_err w \<or> need_comma w = b"
  have "wstr_escaped alloc w s = w" if "w_err w"
    using that by (simp add: wstr_escaped_def wgrow_def)
  with b show "adds alloc w (str_text (cstr s)) (wstr_escaped alloc w s) \<and>
      (w_err (wstr_escaped alloc w s) \<or> need_comma (wstr_escaped alloc w s) = b)"
    by (auto simp: wstr_escaped_adds wstr_escaped_comma)
qed

lemma emits_key [emits_intros]:
  "emits alloc b (sep_text b @ str_text (cstr k) @ '':'') False (\<lambda>w. ajw_key alloc w k)"
  unfolding ajw_key_def wputc_is_wraw
  by (rule emits_after_sep, rule emits_comp [OF emits_wstr], rule emits_put) simp_all

lemma emits_str [emits_intros]:
  "emits alloc b (sep_text b @ str_text (cstr s)) True (\<lambda>w. ajw_str alloc w (Some s))"
  "emits alloc b (sep_text b @ ''null'') True (\<lambda>w. ajw_str alloc w None)"
  unfolding ajw_str_def option.case by (rule emits_after_sep, rule emits_wstr) (rule emits_null)

subsection \<open>Numbers\<close>

lemma i64_loop_digits: "i64_loop tmp u = tmp @ rev_digits u"
proof (induction tmp u rule: i64_loop.induct)
  case (1 tmp u)
  then show ?case
    by (subst i64_loop.simps, subst rev_digits.simps) (simp add: Let_def)
qed

lemma rev_digits_length: "u < 10 ^ Suc n \<Longrightarrow> length (rev_digits u) \<le> Suc n"
proof (induction n arbitrary: u)
  case 0
  then have "\<not> 0 < u div 10" by simp
  then show ?case by (subst rev_digits.simps) simp
next
  case (Suc n)
  have "u div 10 < 10 ^ Suc n" using Suc.prems by (simp add: div_less_iff_less_mult mult.commute)
  then show ?case using Suc.IH [of "u div 10"] by (subst rev_digits.simps) simp
qed

lemma emits_i64 [emits_intros]:
  assumes v: "- LLONG_MAX - 1 \<le> v" "v \<le> LLONG_MAX"
  shows "emits alloc b (sep_text b @ int_text v) True (\<lambda>w. ajw_i64 alloc w v)"
proof -
  have len: "length (rev_digits u) \<le> 19" if "u \<le> LLONG_MAX + 1" for u
    using rev_digits_length [of u 18] that by (simp add: LLONG_MAX_def)
  have "length (rev_digits v) \<le> 19" "length (rev_digits (- v)) \<le> 19"
    by (rule len, use v in linarith)+
  then have "length (int_text v) \<le> 20" by (simp add: int_text_def)
  then have put: "emits alloc True (int_text v) True (reserve_put alloc 24 (int_text v))"
    by (intro emits_put_same) simp_all
  have u: "(- (v + 1) + 1) mod (ULLONG_MAX + 1) = - v" if "v < 0"
    using that v by (simp add: ULLONG_MAX_def LLONG_MAX_def mod_pos_pos_trivial)
  have "ajw_i64 alloc w v = reserve_put alloc 24 (int_text v) (wsep alloc w)" for w
    using u by (simp add: ajw_i64_def reserve_put_def int_text_def i64_loop_digits Let_def
        split: prod.split)
  then show ?thesis using emits_after_sep [OF put, of b] by (simp add: emits_def)
qed

section \<open>Writing a value\<close>

text \<open>
  The calls that write a JSON value, in the order the sources make them: there is no
  operation for a boolean, which the protocol sends as a number.
\<close>

fun write_json :: "allocator \<Rightarrow> aj_w \<Rightarrow> json \<Rightarrow> aj_w" where
  "write_json alloc w JNull = ajw_null alloc w"
| "write_json alloc w (JBool b) = ajw_i64 alloc w (of_bool b)"
| "write_json alloc w (JNum v) = ajw_i64 alloc w v"
| "write_json alloc w (JStr s) = ajw_str alloc w (Some s)"
| "write_json alloc w (JArr vs) =
     ajw_arr_end alloc (fold (\<lambda>v w. write_json alloc w v) vs (ajw_arr_begin alloc w))"
| "write_json alloc w (JObj kvs) =
     ajw_obj_end alloc (fold (\<lambda>kv w. write_json alloc (ajw_key alloc w (fst kv)) (snd kv)) kvs
       (ajw_obj_begin alloc w))"

fun no_bool :: "json \<Rightarrow> bool" where
  "no_bool (JBool b) \<longleftrightarrow> False"
| "no_bool (JArr vs) \<longleftrightarrow> (\<forall>v \<in> set vs. no_bool v)"
| "no_bool (JObj kvs) \<longleftrightarrow> (\<forall>kv \<in> set kvs. no_bool (snd kv))"
| "no_bool _ \<longleftrightarrow> True"

text \<open>Entries written one after the other are joined by commas.\<close>

lemma emits_fold:
  assumes "\<And>x b. x \<in> set xs \<Longrightarrow> emits alloc b (sep_text b @ t x) True (\<lambda>w. f x w)"
  shows "\<exists>c. emits alloc False (join (map t xs)) c (fold f xs)"
    "xs \<noteq> [] \<Longrightarrow> emits alloc b (sep_text b @ join (map t xs)) True (fold f xs)"
proof -
  have ne: "emits alloc b (sep_text b @ join (map t xs)) True (fold f xs)"
    if "xs \<noteq> []" "\<And>x b. x \<in> set xs \<Longrightarrow> emits alloc b (sep_text b @ t x) True (\<lambda>w. f x w)" for b xs
    using that
  proof (induction xs arbitrary: b)
    case (Cons x xs)
    show ?case
    proof (cases "xs = []")
      case True
      then show ?thesis using Cons.prems(2) [of x b] by (simp add: id_def comp_def)
    next
      case False
      have "emits alloc True (sep_text True @ join (map t xs)) True (fold f xs)"
        by (rule Cons.IH [OF False]) (simp add: Cons.prems(2))
      from emits_comp [OF Cons.prems(2) [of x b] this] False show ?thesis
        by (simp add: sep_text_def join_Cons comp_def del: join.simps(2,3))
    qed
  qed simp
  show "xs \<noteq> [] \<Longrightarrow> emits alloc b (sep_text b @ join (map t xs)) True (fold f xs)"
    by (rule ne [OF _ assms])
  show "\<exists>c. emits alloc False (join (map t xs)) c (fold f xs)"
  proof (cases "xs = []")
    case True
    then have "emits alloc False (join (map t xs)) False (fold f xs)"
      by (auto intro: emitsI)
    then show ?thesis ..
  next
    case False
    then show ?thesis using ne [OF False assms, of False] by (auto simp: sep_text_def)
  qed
qed

lemma emits_write_json:
  "json_ok v \<Longrightarrow> no_bool v \<Longrightarrow> emits alloc b (sep_text b @ json_text v) True (\<lambda>w. write_json alloc w v)"
proof (induction v arbitrary: b)
  case JNull
  then show ?case using emits_null by (simp add: emits_def)
next
  case (JStr s)
  then show ?case using emits_str(1) [of alloc b s] by simp
next
  case (JArr vs)
  obtain c where "emits alloc False (join (map json_text vs)) c (fold (\<lambda>v w. write_json alloc w v) vs)"
    using emits_fold(1) [of vs alloc json_text "\<lambda>v w. write_json alloc w v"] JArr by auto
  from emits_comp [OF emits_comp [OF emits_brackets(2) this] emits_brackets(4)]
  show ?case by simp
next
  case (JObj kvs)
  let ?t = "\<lambda>(k, v). str_text k @ '':'' @ json_text v"
  let ?f = "\<lambda>kv w. write_json alloc (ajw_key alloc w (fst kv)) (snd kv)"
  have "emits alloc b (sep_text b @ ?t kv) True (?f kv)" if kv: "kv \<in> set kvs" for kv b
  proof -
    obtain k v where [simp]: "kv = (k, v)" by (cases kv)
    have "emits alloc False (sep_text False @ json_text v) True (\<lambda>w. write_json alloc w v)"
      using kv JObj.prems by (intro JObj.IH [of "(k, v)"]) auto
    from emits_comp [OF emits_key [of alloc b k] this] show ?thesis
      using JObj.prems(1) kv by (auto simp: sep_text_def)
  qed
  then obtain c where "emits alloc False (join (map ?t kvs)) c (fold ?f kvs)"
    using emits_fold(1) [of kvs alloc ?t ?f] by blast
  from emits_comp [OF emits_comp [OF emits_brackets(1) this] emits_brackets(3)]
  show ?case by simp
qed (auto intro: emits_i64)

section \<open>Writing and reading back\<close>

lemma write_json_init:
  assumes v: "json_ok v" "no_bool v" and len: "length (json_text v) + 32 \<le> 2 ^ 63"
  shows "w_inv (write_json alloc ajw_init v)"
    "\<not> w_err (write_json alloc ajw_init v) \<Longrightarrow> w_text (write_json alloc ajw_init v) = json_text v"
    "(\<And>n. alloc n) \<Longrightarrow> \<not> w_err (write_json alloc ajw_init v)"
proof -
  have "adds alloc ajw_init (json_text v) (write_json alloc ajw_init v)"
    using emitsD(1) [OF emits_write_json [OF v, of alloc False], of ajw_init]
    by (simp add: sep_text_def)
  with len show "w_inv (write_json alloc ajw_init v)"
    "\<not> w_err (write_json alloc ajw_init v) \<Longrightarrow> w_text (write_json alloc ajw_init v) = json_text v"
    "(\<And>n. alloc n) \<Longrightarrow> \<not> w_err (write_json alloc ajw_init v)"
    by (auto simp: adds_def)
qed

lemma repr_unique:
  "repr d i v \<Longrightarrow> repr d i v' \<Longrightarrow> v = v'"
  "repr_elems d ks vs \<Longrightarrow> repr_elems d ks vs' \<Longrightarrow> vs = vs'"
  "repr_members d ks kvs \<Longrightarrow> repr_members d ks kvs' \<Longrightarrow> kvs = kvs'"
proof (induction d i v and d ks vs and d ks kvs arbitrary: v' and vs' and kvs'
    rule: repr_repr_elems_repr_members.induct)
  case (5 d i vs)
  then show ?case by (cases v') (auto dest: chain_unique)
next
  case (6 d i kvs)
  then show ?case by (cases v') (auto dest: chain_unique)
next
  case (8 d ks v vs)
  then show ?case by (cases vs'; cases ks) auto
next
  case (10 d ks kv kvs)
  then show ?case by (cases kvs'; cases ks) (auto simp: prod_eq_iff)
next
  case (1 d i) then show ?case by (cases v') auto
next
  case (2 d i b) then show ?case by (cases v') auto
next
  case (3 d i n) then show ?case by (cases v') auto
next
  case (4 d i s) then show ?case by (cases v') auto
next
  case (7 d ks) then show ?case by (cases vs') auto
next
  case (9 d ks) then show ?case by (cases kvs') auto
qed

end
