(* ===== verification/Base64.thy ===== *)
theory Base64
  imports Prelude
begin

text \<open>
  \<^verbatim>\<open>src/common/arpc_b64.c\<close>: the encoding of bytes that a JSON string cannot carry. Bytes are
  8-bit words and the accumulators 32-bit words, as in the source; text is a \<^typ>\<open>string\<close>.
\<close>

definition B64 :: string where
  "B64 = ''ABCDEFGHIJKLMNOPQRSTUVWXYZabcdefghijklmnopqrstuvwxyz0123456789+/''"

type_synonym byte = "8 word"

section \<open>Encoding\<close>

text \<open>\<^verbatim>\<open>B64[(v >> k) & 63]\<close>\<close>

definition b64_digit :: "32 word \<Rightarrow> nat \<Rightarrow> char" where
  "b64_digit v k = B64 ! unat (drop_bit k v AND 63)"

text \<open>The loop over whole groups, and the group the remainder makes.\<close>

fun b64_encode_loop :: "byte list \<Rightarrow> string" where
  "b64_encode_loop (b0 # b1 # b2 # r) =
     (let v = push_bit 16 (ucast b0) OR push_bit 8 (ucast b1) OR ucast b2
      in [b64_digit v 18, b64_digit v 12, b64_digit v 6, b64_digit v 0] @ b64_encode_loop r)"
| "b64_encode_loop [b0, b1] =
     (let v = push_bit 16 (ucast b0) OR push_bit 8 (ucast b1)
      in [b64_digit v 18, b64_digit v 12, b64_digit v 6, CHR ''=''])"
| "b64_encode_loop [b0] =
     (let v = push_bit 16 (ucast b0)
      in [b64_digit v 18, b64_digit v 12, CHR ''='', CHR ''=''])"
| "b64_encode_loop [] = []"

definition arpc_b64_encode :: "allocator \<Rightarrow> byte list \<Rightarrow> string option" where
  "arpc_b64_encode alloc src =
     (let out_len = (length src + 2) div 3 * 4
      in if alloc (out_len + 1) then Some (b64_encode_loop src) else None)"

section \<open>Decoding\<close>

text \<open>The result \<^verbatim>\<open>-1\<close> is \<^const>\<open>None\<close>.\<close>

definition b64val :: "char \<Rightarrow> nat option" where
  "b64val ch =
     (let c = byte_of ch in
      if 65 \<le> c \<and> c \<le> 90 then Some (c - 65)
      else if 97 \<le> c \<and> c \<le> 122 then Some (c - 97 + 26)
      else if 48 \<le> c \<and> c \<le> 57 then Some (c - 48 + 52)
      else if ch = CHR ''+'' then Some 62
      else if ch = CHR ''/'' then Some 63
      else None)"

text \<open>Character \<open>k\<close> of a group; padding counts as 0 where it is allowed.\<close>

definition b64_char :: "bool \<Rightarrow> nat \<Rightarrow> char \<Rightarrow> nat option" where
  "b64_char is_last k c = (if is_last \<and> k \<ge> 2 \<and> c = CHR ''='' then Some 0 else b64val c)"

definition b64_group :: "bool \<Rightarrow> char \<Rightarrow> char \<Rightarrow> char \<Rightarrow> char \<Rightarrow> (32 word) option" where
  "b64_group is_last c0 c1 c2 c3 =
     (case b64_char is_last 0 c0 of None \<Rightarrow> None | Some v0 \<Rightarrow>
      case b64_char is_last 1 c1 of None \<Rightarrow> None | Some v1 \<Rightarrow>
      case b64_char is_last 2 c2 of None \<Rightarrow> None | Some v2 \<Rightarrow>
      case b64_char is_last 3 c3 of None \<Rightarrow> None | Some v3 \<Rightarrow>
        Some (push_bit 18 (of_nat v0) OR push_bit 12 (of_nat v1) OR push_bit 6 (of_nat v2) OR of_nat v3))"

text \<open>\<^verbatim>\<open>if (o < out_len) out[o++] = ...\<close>\<close>

definition put_byte :: "nat \<Rightarrow> byte list \<Rightarrow> byte \<Rightarrow> byte list" where
  "put_byte out_len out b = (if length out < out_len then out @ [b] else out)"

text \<open>The last equation is for a length that is no multiple of 4, which was refused before.\<close>

fun b64_decode_loop :: "nat \<Rightarrow> byte list \<Rightarrow> string \<Rightarrow> byte list option" where
  "b64_decode_loop out_len out [] = Some out"
| "b64_decode_loop out_len out (c0 # c1 # c2 # c3 # r) =
     (case b64_group (r = []) c0 c1 c2 c3 of
        None \<Rightarrow> None
      | Some w \<Rightarrow>
          b64_decode_loop out_len
            (put_byte out_len (put_byte out_len (put_byte out_len out
               (ucast (drop_bit 16 w AND 0xFF))) (ucast (drop_bit 8 w AND 0xFF))) (ucast (w AND 0xFF)))
            r)"
| "b64_decode_loop out_len out r = None"

text \<open>The number of padding characters, or \<^const>\<open>None\<close> for padding before the end.\<close>

definition b64_pad :: "string \<Rightarrow> nat option" where
  "b64_pad s =
     (let len = length s in
      if len \<noteq> 0 then
        (if s ! (len - 1) = CHR ''='' then Some (if s ! (len - 2) = CHR ''='' then 2 else 1)
         else if s ! (len - 2) = CHR ''='' then None
         else Some 0)
      else Some 0)"

text \<open>The buffer and \<^verbatim>\<open>*n\<close>; \<^const>\<open>None\<close> is the null pointer with \<^verbatim>\<open>*n\<close> 0.\<close>

definition arpc_b64_decode :: "allocator \<Rightarrow> string option \<Rightarrow> (byte list \<times> nat) option" where
  "arpc_b64_decode alloc src =
     (case src of
        None \<Rightarrow> None
      | Some buf \<Rightarrow>
          (let s = cstr buf; len = length s in
           if len mod 4 \<noteq> 0 then None
           else case b64_pad s of
             None \<Rightarrow> None
           | Some pad \<Rightarrow>
               (let out_len = len div 4 * 3 - pad in
                if \<not> alloc (if out_len \<noteq> 0 then out_len else 1) then None
                else case b64_decode_loop out_len [] s of
                  None \<Rightarrow> None
                | Some out \<Rightarrow> Some (out, out_len))))"

section \<open>Digits\<close>

lemma b64val_digit: "k < 64 \<Longrightarrow> b64val (B64 ! k) = Some k"
  by (auto simp: numeral_eq_Suc less_Suc_eq B64_def b64val_def)

lemma b64val_B64: "b64val c = Some k \<Longrightarrow> k < 64"
  by (auto simp: b64val_def Let_def split: if_splits)

lemma and_63: "(x :: 32 word) AND 63 = take_bit 6 x"
  by (simp add: take_bit_eq_mask mask_eq_exp_minus_1)

lemma and_FF: "(x :: 32 word) AND 0xFF = take_bit 8 x"
  by (simp add: take_bit_eq_mask mask_eq_exp_minus_1)

lemma unat_and_63: "unat ((x :: 32 word) AND 63) < 64"
  unfolding and_63 unsigned_take_bit_eq by (simp add: take_bit_eq_mod)

text \<open>The four digits of a 24-bit value put back together.\<close>

lemma digits_join:
  assumes "\<And>n. bit v n \<Longrightarrow> n < 24"
  shows "push_bit 18 (drop_bit 18 v AND 63) OR push_bit 12 (drop_bit 12 v AND 63) OR
     push_bit 6 (drop_bit 6 v AND 63) OR (v AND 63) = (v :: 32 word)"
proof (rule bit_word_eqI)
  fix n assume n: "n < LENGTH(32)"
  consider "n < 6" | "6 \<le> n" "n < 12" | "12 \<le> n" "n < 18" | "18 \<le> n" "n < 24" | "24 \<le> n" by linarith
  then show "bit (push_bit 18 (drop_bit 18 v AND 63) OR push_bit 12 (drop_bit 12 v AND 63) OR
     push_bit 6 (drop_bit 6 v AND 63) OR (v AND 63)) n = bit v n"
    unfolding and_63 bit_or_iff bit_push_bit_iff bit_take_bit_iff bit_drop_bit_eq o_def
    using assms [of n] n by cases (auto simp: not_le)
qed

text \<open>The three bytes of a group as one value; missing ones are 0.\<close>

definition b64_join :: "byte \<Rightarrow> byte \<Rightarrow> byte \<Rightarrow> 32 word" where
  "b64_join b0 b1 b2 = push_bit 16 (ucast b0) OR push_bit 8 (ucast b1) OR ucast b2"

lemma bit_join:
  "bit (b64_join b0 b1 b2) n \<longleftrightarrow>
     16 \<le> n \<and> n < 24 \<and> bit b0 (n - 16) \<or> 8 \<le> n \<and> n < 16 \<and> bit b1 (n - 8) \<or> n < 8 \<and> bit b2 n"
proof -
  have b: "bit b m \<longrightarrow> m < 8" for b :: byte and m using bit_imp_le_length [of b m] by simp
  show ?thesis
    unfolding b64_join_def bit_or_iff bit_push_bit_iff bit_ucast_iff possible_bit_def
    using b [of b0 "n - 16"] b [of b1 "n - 8"] b [of b2 n] by auto
qed

lemma join_bytes:
  "ucast (drop_bit 16 (b64_join b0 b1 b2) AND 0xFF) = b0"
  "ucast (drop_bit 8 (b64_join b0 b1 b2) AND 0xFF) = b1"
  "ucast (b64_join b0 b1 b2 AND 0xFF) = b2"
  unfolding and_FF
  by (rule bit_word_eqI,
      simp add: bit_ucast_iff bit_take_bit_iff bit_drop_bit_eq bit_join possible_bit_def)+

lemma join_low_zero:
  "b64_join b0 b1 0 AND 63 = 0" "drop_bit 6 (b64_join b0 0 0) AND 63 = 0"
  unfolding and_63
  by (rule bit_word_eqI, simp add: bit_take_bit_iff bit_drop_bit_eq bit_join)+

lemma join_digits:
  "push_bit 18 (drop_bit 18 (b64_join b0 b1 b2) AND 63) OR
   push_bit 12 (drop_bit 12 (b64_join b0 b1 b2) AND 63) OR
   push_bit 6 (drop_bit 6 (b64_join b0 b1 b2) AND 63) OR (b64_join b0 b1 b2 AND 63) =
   b64_join b0 b1 b2"
  by (rule digits_join) (auto simp: bit_join)

lemma b64_digit_neq: "b64_digit v k \<noteq> CHR ''=''"
proof -
  have "b64val (b64_digit v k) \<noteq> None" by (simp add: b64_digit_def b64val_digit unat_and_63)
  then show ?thesis by (auto simp: b64val_def)
qed

lemma b64_char_digit: "b64_char is_last k (b64_digit v j) = Some (unat (drop_bit j v AND 63))"
  using b64_digit_neq [of v j] by (simp add: b64_char_def b64_digit_def b64val_digit unat_and_63)

lemma b64_char_pad: "2 \<le> k \<Longrightarrow> b64_char True k (CHR ''='') = Some 0"
  by (simp add: b64_char_def)

lemma b64_group_join:
  fixes b0 b1 b2 :: byte
  defines "v \<equiv> b64_join b0 b1 b2"
  shows "b64_group is_last (b64_digit v 18) (b64_digit v 12) (b64_digit v 6) (b64_digit v 0) = Some v"
    and "b2 = 0 \<Longrightarrow>
      b64_group True (b64_digit v 18) (b64_digit v 12) (b64_digit v 6) (CHR ''='') = Some v"
    and "b1 = 0 \<Longrightarrow> b2 = 0 \<Longrightarrow>
      b64_group True (b64_digit v 18) (b64_digit v 12) (CHR ''='') (CHR ''='') = Some v"
  using join_digits [of b0 b1 b2] join_low_zero
  by (simp_all add: b64_group_def b64_char_digit b64_char_pad v_def)

section \<open>Round trip\<close>

lemma encode_loop_join:
  "b64_encode_loop (b0 # b1 # b2 # r) =
     (let v = b64_join b0 b1 b2
      in [b64_digit v 18, b64_digit v 12, b64_digit v 6, b64_digit v 0] @ b64_encode_loop r)"
  "b64_encode_loop [b0, b1] =
     (let v = b64_join b0 b1 0 in [b64_digit v 18, b64_digit v 12, b64_digit v 6, CHR ''=''])"
  "b64_encode_loop [b0] =
     (let v = b64_join b0 0 0 in [b64_digit v 18, b64_digit v 12, CHR ''='', CHR ''=''])"
  by (simp_all add: b64_join_def)

lemma encode_loop_length: "length (b64_encode_loop src) = (length src + 2) div 3 * 4"
proof (induction src rule: b64_encode_loop.induct)
  case (1 b0 b1 b2 r)
  have "(length r + 5) div 3 = Suc ((length r + 2) div 3)" by arith
  with 1 show ?case by (simp add: Let_def add.commute)
qed (simp_all add: Let_def)

lemma encode_loop_Nil [simp]: "b64_encode_loop src = [] \<longleftrightarrow> src = []"
  by (induction src rule: b64_encode_loop.induct) (simp_all add: Let_def)

lemma decode_encode_loop:
  "length out + length src \<le> out_len \<Longrightarrow> out_len \<le> length out + length src \<Longrightarrow>
     b64_decode_loop out_len out (b64_encode_loop src) = Some (out @ src)"
proof (induction src arbitrary: out rule: b64_encode_loop.induct)
  case (1 b0 b1 b2 r)
  then show ?case
    using 1(1) [OF refl, of "out @ [b0, b1, b2]"]
    by (simp add: encode_loop_join b64_group_join join_bytes put_byte_def Let_def del: b64_encode_loop.simps)
qed (simp_all add: encode_loop_join b64_group_join join_bytes put_byte_def Let_def del: b64_encode_loop.simps(1-3))

lemma b64_pad_append:
  assumes "2 \<le> length s"
  shows "b64_pad (t @ s) = b64_pad s"
proof -
  have "(t @ s) ! (length t + length s - k) = s ! (length s - k)" if "k \<le> 2" "0 < k" for k
  proof -
    have "length t + length s - k = length t + (length s - k)" using assms that by simp
    then show ?thesis by (simp only: nth_append_length_plus)
  qed
  from this [of 1] this [of 2] assms show ?thesis
    by (auto simp: b64_pad_def Let_def)
qed

definition pad_count :: "nat \<Rightarrow> nat" where
  "pad_count n = (if n mod 3 = 0 then 0 else 3 - n mod 3)"

lemma b64_pad_encode: "b64_pad (b64_encode_loop src) = Some (pad_count (length src))"
proof (induction src rule: b64_encode_loop.induct)
  case (1 b0 b1 b2 r)
  have len: "pad_count (length (b0 # b1 # b2 # r)) = pad_count (length r)"
    by (simp add: pad_count_def)
  show ?case
  proof (cases "r = []")
    case True
    then show ?thesis by (simp add: Let_def b64_pad_def b64_digit_neq pad_count_def)
  next
    case False
    then have "2 \<le> length (b64_encode_loop r)"
      unfolding encode_loop_length by (cases r) auto
    from b64_pad_append [OF this] 1 len show ?thesis by (simp add: Let_def del: append.simps)
  qed
qed (simp_all add: Let_def b64_pad_def b64_digit_neq pad_count_def)

lemma B64_not_NUL: "k < 64 \<Longrightarrow> B64 ! k \<noteq> NUL"
  using b64val_digit [of k] by (auto simp: b64val_def)

lemma encode_is_cstr: "is_cstr (b64_encode_loop src)"
  by (induction src rule: b64_encode_loop.induct)
    (simp_all add: Let_def b64_digit_def B64_not_NUL unat_and_63)

lemma pad_count_length: "(n + 2) div 3 * 3 - pad_count n = n"
proof -
  have "n = 3 * (n div 3) \<or> n = 3 * (n div 3) + 1 \<or> n = 3 * (n div 3) + 2" by presburger
  then obtain q where "n = 3 * q \<or> n = 3 * q + 1 \<or> n = 3 * q + 2" by blast
  then show ?thesis unfolding pad_count_def by (elim disjE; simp; presburger)
qed

lemma b64_round_trip:
  assumes "arpc_b64_encode alloc src = Some s" and "alloc' (if src \<noteq> [] then length src else 1)"
  shows "arpc_b64_decode alloc' (Some s) = Some (src, length src)"
proof -
  have s: "s = b64_encode_loop src" using assms(1) by (auto simp: arpc_b64_encode_def Let_def split: if_splits)
  have "length (b64_encode_loop src) div 4 * 3 - pad_count (length src) = length src"
    using pad_count_length [of "length src"] by (simp add: encode_loop_length)
  then show ?thesis
    using assms(2) decode_encode_loop [of "[]" src "length src"]
    by (simp add: arpc_b64_decode_def s encode_is_cstr b64_pad_encode encode_loop_length Let_def)
qed

section \<open>What the decoder accepts\<close>

definition b64_wf :: "string \<Rightarrow> nat \<Rightarrow> bool" where
  "b64_wf s p \<longleftrightarrow>
     length s mod 4 = 0 \<and> p \<le> 2 \<and>
     (\<exists>body. s = body @ replicate p (CHR ''='') \<and> (\<forall>c \<in> set body. b64val c \<noteq> None))"

lemma b64val_pad [simp]: "b64val (CHR ''='') = None"
  by (simp add: b64val_def)

lemma b64_group_None:
  "b64_group is_last c0 c1 c2 c3 \<noteq> None \<longleftrightarrow>
     b64val c0 \<noteq> None \<and> b64val c1 \<noteq> None \<and>
     (b64val c2 \<noteq> None \<or> is_last \<and> c2 = CHR ''='') \<and> (b64val c3 \<noteq> None \<or> is_last \<and> c3 = CHR ''='')"
  by (auto simp: b64_group_def b64_char_def split: option.splits)

lemma decode_loop_defined:
  "length s mod 4 = 0 \<Longrightarrow> s \<noteq> [] \<Longrightarrow>
     b64_decode_loop n out s \<noteq> None \<longleftrightarrow>
       (\<forall>c \<in> set (butlast (butlast s)). b64val c \<noteq> None) \<and>
       (\<forall>c \<in> {s ! (length s - 2), s ! (length s - 1)}. b64val c \<noteq> None \<or> c = CHR ''='')"
proof (induction n out s rule: b64_decode_loop.induct)
  case (2 n out c0 c1 c2 c3 r)
  show ?case
  proof (cases "r = []")
    case True
    then show ?thesis
      using b64_group_None [of True c0 c1 c2 c3] by (auto simp: numeral_eq_Suc split: option.splits)
  next
    case False
    have r: "length r mod 4 = 0" using "2.prems"(1) by simp
    then have len: "4 \<le> length r" using False by (metis dvd_imp_le length_greater_0_conv mod_0_imp_dvd)
    then have nth: "(c0 # c1 # c2 # c3 # r) ! (length (c0 # c1 # c2 # c3 # r) - k) = r ! (length r - k)"
      if "k \<le> 2" "0 < k" for k
      using that by (simp add: nth_Cons' numeral_eq_Suc)
    have bl: "butlast (butlast (c0 # c1 # c2 # c3 # r)) = c0 # c1 # c2 # c3 # butlast (butlast r)"
      using len False by (cases r rule: rev_cases) auto
    show ?thesis
      using "2.IH" [OF _ r False] b64_group_None [of False c0 c1 c2 c3] nth [of 1] nth [of 2] False
      unfolding bl by (auto split: option.splits)
  qed
qed auto

lemma decode_loop_length:
  "b64_decode_loop n out s = Some res \<Longrightarrow> length out \<le> n \<Longrightarrow>
     length res = min n (length out + length s div 4 * 3)"
proof (induction n out s rule: b64_decode_loop.induct)
  case (2 n out c0 c1 c2 c3 r)
  have "length (c0 # c1 # c2 # c3 # r) div 4 = Suc (length r div 4)" by simp
  with 2 show ?case by (auto simp: put_byte_def simp del: list.size split: option.splits if_splits) (simp_all add: min_def)
qed auto

lemma b64_wf_split:
  "b64_wf (t @ [a, b]) p \<longleftrightarrow>
     length (t @ [a, b]) mod 4 = 0 \<and> (\<forall>c \<in> set t. b64val c \<noteq> None) \<and>
     (p = 0 \<and> b64val a \<noteq> None \<and> b64val b \<noteq> None \<or> p = 1 \<and> b64val a \<noteq> None \<and> b = CHR ''='' \<or>
      p = 2 \<and> a = CHR ''='' \<and> b = CHR ''='')"
proof -
  consider "p = 0" | "p = 1" | "p = 2" | "p > 2" by linarith
  then show ?thesis
  proof cases
    case 1
    then show ?thesis unfolding b64_wf_def by simp blast
  next
    case 2
    have "t @ [a, b] = body @ [CHR ''=''] \<longleftrightarrow> body = t @ [a] \<and> b = CHR ''=''" for body
      by (cases body rule: rev_cases) auto
    with 2 show ?thesis unfolding b64_wf_def by simp blast
  next
    case 3
    then have "replicate p (CHR ''='') = ''==''" by (simp add: numeral_2_eq_2)
    with 3 show ?thesis unfolding b64_wf_def by simp blast
  next
    case 4
    then show ?thesis unfolding b64_wf_def by simp
  qed
qed

lemma two_last:
  assumes "s \<noteq> []" and "length s mod 4 = 0"
  obtains t a b where "s = t @ [a, b]"
proof -
  have "4 \<le> length s" using assms by (metis dvd_imp_le length_greater_0_conv mod_0_imp_dvd)
  then show ?thesis
    using that by (cases s rule: rev_cases; cases "butlast s" rule: rev_cases) auto
qed

lemma b64_accepts:
  assumes "length s mod 4 = 0"
  shows "b64_wf s p \<longleftrightarrow> b64_pad s = Some p \<and> b64_decode_loop n [] s \<noteq> None"
proof (cases "s = []")
  case True
  then show ?thesis by (auto simp: b64_wf_def b64_pad_def)
next
  case False
  from two_last [OF this assms] obtain t a b where s: "s = t @ [a, b]" .
  have "b64_pad s = (if b = CHR ''='' then Some (if a = CHR ''='' then 2 else 1)
      else if a = CHR ''='' then None else Some 0)"
    unfolding s using b64_pad_append [of "[a, b]" t] by (simp add: b64_pad_def)
  then show ?thesis
    using decode_loop_defined [OF assms False, of n "[]"] assms
    unfolding s b64_wf_split by (auto simp: butlast_append nth_append)
qed

lemma decode_accepts:
  assumes "is_cstr s" and "\<And>n. alloc n"
  shows "(\<exists>out. arpc_b64_decode alloc (Some s) = Some (out, n)) \<longleftrightarrow>
     (\<exists>p. b64_wf s p \<and> n = length s div 4 * 3 - p)"
proof (cases "length s mod 4 = 0")
  case True
  let ?n = "\<lambda>p. length s div 4 * 3 - p"
  have "arpc_b64_decode alloc (Some s) = (case b64_pad s of None \<Rightarrow> None
      | Some p \<Rightarrow> map_option (\<lambda>out. (out, ?n p)) (b64_decode_loop (?n p) [] s))"
    using assms by (simp add: arpc_b64_decode_def True Let_def split: option.split)
  moreover have "b64_pad s = Some q \<Longrightarrow> b64_wf s p \<longleftrightarrow> p = q \<and> b64_decode_loop (?n q) [] s \<noteq> None" for p q
    using b64_accepts [OF True, of p "?n q"] by auto
  moreover have "b64_pad s = None \<Longrightarrow> \<not> b64_wf s p" for p using b64_accepts [OF True, of p 0] by simp
  ultimately show ?thesis by (cases "b64_pad s") auto
next
  case False
  then show ?thesis using assms by (auto simp: arpc_b64_decode_def b64_wf_def Let_def)
qed

lemma decode_length:
  assumes "arpc_b64_decode alloc (Some s) = Some (out, n)"
  shows "length out = n"
proof -
  from assms obtain p where "b64_decode_loop n [] (cstr s) = Some out"
      "n = length (cstr s) div 4 * 3 - p"
    by (auto simp: arpc_b64_decode_def Let_def split: if_splits option.splits)
  with decode_loop_length [OF this(1)] show ?thesis by simp
qed

end
