(* ===== verification/Codec.thy ===== *)
theory Codec
  imports Json_Writer Base64
begin

text \<open>
  The contract two ends of the wire rely on: what one encodes, the other decodes to something
  that stands for it and for nothing else. It is stated once, for any encoding, and holds of
  the JSON writer and reader and of the base64 encoder and decoder.
\<close>

locale codec =
  fixes enc :: "'a \<Rightarrow> 'b" and dec :: "'b \<Rightarrow> 'c option" and stands_for :: "'c \<Rightarrow> 'a \<Rightarrow> bool"
    and valid :: "'a \<Rightarrow> bool"
  assumes round_trip: "valid a \<Longrightarrow> \<exists>c. dec (enc a) = Some c \<and> stands_for c a"
    and stands_for_unique: "stands_for c a \<Longrightarrow> stands_for c b \<Longrightarrow> a = b"
begin

lemma enc_inj:
  assumes "valid a" and "valid b" and "enc a = enc b"
  shows "a = b"
proof -
  obtain c where c: "dec (enc a) = Some c" "stands_for c a" using round_trip [OF assms(1)] by blast
  obtain d where "dec (enc b) = Some d" "stands_for d b" using round_trip [OF assms(2)] by blast
  with c assms(3) show ?thesis using stands_for_unique by auto
qed

text \<open>A relay that decodes and encodes again changes nothing.\<close>

lemma relay:
  assumes "valid a" and "dec (enc a) = Some c" and "stands_for c b"
  shows "enc b = enc a"
proof -
  have "stands_for c a" using round_trip [OF assms(1)] assms(2) by auto
  with assms(3) stands_for_unique show ?thesis by blast
qed

end

section \<open>JSON\<close>

text \<open>A value both sides can handle: what the writer can write and the reader nest.\<close>

definition wire_value :: "json \<Rightarrow> bool" where
  "wire_value v \<longleftrightarrow> json_ok v \<and> no_bool v \<and> json_depth v \<le> AJ_MAX_DEPTH \<and>
     length (json_text v) + 32 \<le> 2 ^ 63"

definition json_enc :: "allocator \<Rightarrow> json \<Rightarrow> string" where
  "json_enc alloc v = w_text (write_json alloc ajw_init v)"

lemma json_round_trip:
  assumes "wire_value v" and "\<And>n. alloc n" and "\<And>n. alloc' n"
  shows "\<not> w_err (write_json alloc ajw_init v)"
    "\<exists>d. aj_parse alloc' (json_enc alloc v) = Some d \<and> doc_ok d \<and> repr d 0 v"
proof -
  have v: "json_ok v" "no_bool v" "json_depth v \<le> AJ_MAX_DEPTH" "length (json_text v) + 32 \<le> 2 ^ 63"
    using assms(1) by (simp_all add: wire_value_def)
  show noerr: "\<not> w_err (write_json alloc ajw_init v)"
    by (rule write_json_init(3) [OF v(1,2,4)]) (rule assms(2))
  have enc: "json_enc alloc v = json_text v"
    unfolding json_enc_def by (rule write_json_init(2) [OF v(1,2,4) noerr])
  have len: "length (json_text v) \<le> 2 ^ 63" using v(4) by simp
  from aj_parse_text [where alloc = alloc', OF assms(3) v(1,3) len]
  show "\<exists>d. aj_parse alloc' (json_enc alloc v) = Some d \<and> doc_ok d \<and> repr d 0 v"
    unfolding enc by (auto intro: aj_parse_ok)
qed

interpretation json: codec "json_enc (\<lambda>_. True)" "aj_parse (\<lambda>_. True)" "\<lambda>d. repr d 0" wire_value
proof unfold_locales
  fix v
  assume "wire_value v"
  from json_round_trip(2) [OF this, of "\<lambda>_. True" "\<lambda>_. True"]
  show "\<exists>d. aj_parse (\<lambda>_. True) (json_enc (\<lambda>_. True) v) = Some d \<and> repr d 0 v" by simp blast
qed (rule repr_unique(1))

section \<open>Base64\<close>

definition b64_enc :: "byte list \<Rightarrow> string" where
  "b64_enc src = (case arpc_b64_encode (\<lambda>_. True) src of Some s \<Rightarrow> s | None \<Rightarrow> [])"

interpretation b64: codec b64_enc "\<lambda>s. arpc_b64_decode (\<lambda>_. True) (Some s)"
    "\<lambda>r src. r = (src, length src)" "\<lambda>_. True"
proof unfold_locales
  fix a :: "byte list"
  obtain s where s: "arpc_b64_encode (\<lambda>_. True) a = Some s" by (simp add: arpc_b64_encode_def Let_def)
  from b64_round_trip [OF this, of "\<lambda>_. True"] s
  show "\<exists>c. arpc_b64_decode (\<lambda>_. True) (Some (b64_enc a)) = Some c \<and> c = (a, length a)"
    by (simp add: b64_enc_def)
qed auto

end
