(* ===== verification/Json_Access.thy ===== *)
theory Json_Access
  imports Json_Writer
begin

text \<open>
  Two views of the JSON code that its callers take: reading a value back out of a document
  with the accessors, and writing with an arbitrary sequence of calls.
\<close>

section \<open>Reading a represented value\<close>

lemma repr_members_keys:
  "repr_members d ks kvs \<Longrightarrow>
     (case find (\<lambda>k. node_key d k = Some key) ks of
        None \<Rightarrow> map_of kvs key = None
      | Some k \<Rightarrow> \<exists>v. map_of kvs key = Some v \<and> repr d k v)"
proof (induction kvs arbitrary: ks)
  case (Cons kv kvs)
  then obtain k ks' where ks: "ks = k # ks'" "node_key d k = Some (fst kv)" "repr d k (snd kv)"
      "repr_members d ks' kvs" by (cases ks) auto
  with Cons.IH [OF ks(4)] show ?case by (cases kv) (auto split: option.splits)
qed simp

lemma member_of_object:
  assumes "doc_ok d" and "repr d i (JObj kvs)"
  shows "case map_of kvs key of
      None \<Rightarrow> aj_member d (int i) key = -1
    | Some v \<Rightarrow> \<exists>k. aj_member d (int i) key = int k \<and> repr d k v"
proof -
  from assms(2) obtain ks where ks: "i < d_count d" "n_type (d_nodes d ! i) = AJ_OBJ"
      "chain d (first_child (d_nodes d ! i)) ks" "repr_members d ks kvs" by auto
  from accessors_chain(4) [OF assms(1) ks(1,3,2), of key] repr_members_keys [OF ks(4), of key]
  show ?thesis by (auto split: option.splits)
qed

lemma repr_elems_nth:
  "repr_elems d ks vs \<Longrightarrow> length ks = length vs \<and> (\<forall>m < length vs. repr d (ks ! m) (vs ! m))"
proof (induction vs arbitrary: ks)
  case (Cons v vs)
  then obtain k ks' where "ks = k # ks'" "repr d k v" "repr_elems d ks' vs" by (cases ks) auto
  with Cons.IH show ?case by (auto simp: less_Suc_eq_0_disj)
qed simp

lemma elem_of_array:
  assumes "doc_ok d" and "repr d i (JArr vs)"
  shows "aj_count d (int i) = length vs"
    and "m < length vs \<Longrightarrow> \<exists>k. aj_elem d (int i) (int m) = int k \<and> repr d k (vs ! m)"
    and "length vs \<le> m \<Longrightarrow> aj_elem d (int i) (int m) = -1"
proof -
  from assms(2) obtain ks where ks: "i < d_count d" "n_type (d_nodes d ! i) = AJ_ARR"
      "chain d (first_child (d_nodes d ! i)) ks" "repr_elems d ks vs" by auto
  have c: "is_container (d_nodes d ! i)" using ks(2) by (simp add: is_container_def)
  note n = repr_elems_nth [OF ks(4)]
  show "aj_count d (int i) = length vs"
    using accessors_chain(1) [OF assms(1) ks(1,3) c] n by simp
  show "m < length vs \<Longrightarrow> \<exists>k. aj_elem d (int i) (int m) = int k \<and> repr d k (vs ! m)"
    using accessors_chain(2) [OF assms(1) ks(1,3) c, of "int m"] n by auto
  show "length vs \<le> m \<Longrightarrow> aj_elem d (int i) (int m) = -1"
    using accessors_chain(2) [OF assms(1) ks(1,3) c, of "int m"] n by auto
qed

lemma scalar_access:
  assumes "repr d i v"
  shows "aj_i64 d (int i) dflt = (case v of JNum n \<Rightarrow> n | JBool b \<Rightarrow> of_bool b | _ \<Rightarrow> dflt)"
    and "aj_str d (int i) sdflt = (case v of JStr s \<Rightarrow> Some s | _ \<Rightarrow> sdflt)"
    and "aj_is_null d (int i) \<longleftrightarrow> v = JNull"
  using assms repr_count [OF assms]
  by (cases v; simp add: aj_i64_def aj_str_def aj_is_null_def)+

section \<open>Writing with any sequence of calls\<close>

datatype w_call =
    WObjBegin | WObjEnd | WArrBegin | WArrEnd | WKey string | WStr "string option"
  | WI64 int | WNull | WRaw string

fun run_call :: "allocator \<Rightarrow> w_call \<Rightarrow> aj_w \<Rightarrow> aj_w" where
  "run_call alloc WObjBegin w = ajw_obj_begin alloc w"
| "run_call alloc WObjEnd w = ajw_obj_end alloc w"
| "run_call alloc WArrBegin w = ajw_arr_begin alloc w"
| "run_call alloc WArrEnd w = ajw_arr_end alloc w"
| "run_call alloc (WKey k) w = ajw_key alloc w k"
| "run_call alloc (WStr s) w = ajw_str alloc w s"
| "run_call alloc (WI64 v) w = ajw_i64 alloc w v"
| "run_call alloc WNull w = ajw_null alloc w"
| "run_call alloc (WRaw s) w = ajw_raw alloc w s"

text \<open>What a call contributes, given whether a comma is due, and whether one is due after it.\<close>

fun call_text :: "bool \<Rightarrow> w_call \<Rightarrow> string" where
  "call_text b WObjBegin = sep_text b @ ''{''"
| "call_text b WObjEnd = ''}''"
| "call_text b WArrBegin = sep_text b @ ''[''"
| "call_text b WArrEnd = '']''"
| "call_text b (WKey k) = sep_text b @ str_text (cstr k) @ '':''"
| "call_text b (WStr None) = sep_text b @ ''null''"
| "call_text b (WStr (Some s)) = sep_text b @ str_text (cstr s)"
| "call_text b (WI64 v) = sep_text b @ int_text v"
| "call_text b WNull = sep_text b @ ''null''"
| "call_text b (WRaw s) = s"

fun comma_after :: "w_call \<Rightarrow> bool" where
  "comma_after WObjBegin = False"
| "comma_after WArrBegin = False"
| "comma_after (WKey k) = False"
| "comma_after _ = True"

fun calls_text :: "bool \<Rightarrow> w_call list \<Rightarrow> string" where
  "calls_text b [] = []"
| "calls_text b (c # cs) = call_text b c @ calls_text (comma_after c) cs"

definition call_ok :: "w_call \<Rightarrow> bool" where
  "call_ok c \<longleftrightarrow> (case c of WI64 v \<Rightarrow> - LLONG_MAX - 1 \<le> v \<and> v \<le> LLONG_MAX | _ \<Rightarrow> True)"

lemma emits_call: "call_ok c \<Longrightarrow> emits alloc b (call_text b c) (comma_after c) (run_call alloc c)"
proof (cases c)
  case (WStr so)
  then show ?thesis using emits_str [of alloc b] by (cases so) (simp_all add: emits_def)
qed (use emits_brackets emits_key emits_i64 emits_null emits_raw in
    \<open>auto simp: emits_def call_ok_def\<close>)

lemma emits_calls:
  "\<forall>c \<in> set cs. call_ok c \<Longrightarrow>
     \<exists>b'. emits alloc b (calls_text b cs) b' (fold (run_call alloc) cs)"
proof (induction cs arbitrary: b)
  case Nil
  have "emits alloc b [] b (fold (run_call alloc) [])" by (auto intro: emitsI)
  then show ?case by (intro exI [of _ b]) (simp only: calls_text.simps)
next
  case (Cons c cs)
  from Cons obtain b' where "emits alloc (comma_after c) (calls_text (comma_after c) cs) b' (fold (run_call alloc) cs)"
    by auto
  with emits_comp [OF emits_call [of c alloc b] this] Cons.prems show ?case by (auto simp: comp_def)
qed

lemma calls_from_init:
  fixes alloc :: allocator
  assumes "\<forall>c \<in> set cs. call_ok c" and "length (calls_text False cs) + 32 \<le> 2 ^ 63"
  defines "w \<equiv> fold (run_call alloc) cs ajw_init"
  shows "w_inv w" and "\<not> w_err w \<Longrightarrow> w_text w = calls_text False cs" and "(\<And>n. alloc n) \<Longrightarrow> \<not> w_err w"
proof -
  obtain b' where "emits alloc False (calls_text False cs) b' (fold (run_call alloc) cs)"
    using emits_calls [OF assms(1)] by blast
  from emitsD(1) [OF this, of ajw_init] have "adds alloc ajw_init (calls_text False cs) w"
    by (simp add: w_def)
  with assms(2) show "w_inv w" "\<not> w_err w \<Longrightarrow> w_text w = calls_text False cs"
    "(\<And>n. alloc n) \<Longrightarrow> \<not> w_err w"
    by (auto simp: adds_def)
qed

end
