(* ===== verification/Json_Depth.thy ===== *)
theory Json_Depth
  imports Json_Doc
begin

text \<open>
  How deep the text of an accepted document nests, whatever it nests: lists and objects are
  counted by a scan of the text alone, which knows strings and their escapes and nothing else of
  the grammar, and compared with the depth the parser keeps.
\<close>

section \<open>The nesting of a text\<close>

text \<open>
  The greatest number of brackets open at once in a text that starts with \<open>k\<close> of them open; the
  flag says that it starts inside a string.
\<close>

fun nesting :: "bool \<Rightarrow> nat \<Rightarrow> string \<Rightarrow> nat" where
  "nesting quoted k [] = k"
| "nesting True k (c # s) =
     (if c = CHR 0x5C then (case s of [] \<Rightarrow> k | _ # s' \<Rightarrow> nesting True k s')
      else nesting (c \<noteq> CHR 0x22) k s)"
| "nesting False k (c # s) =
     (if c = CHR 0x22 then nesting True k s
      else if c \<in> {CHR ''['', CHR ''{''} then nesting False (k + 1) s
      else if c \<in> {CHR '']'', CHR ''}''} then max k (nesting False (k - 1) s)
      else nesting False k s)"

definition bracket :: "char \<Rightarrow> bool" where
  "bracket c \<longleftrightarrow> c \<in> {CHR 0x22, CHR ''['', CHR ''{'', CHR '']'', CHR ''}''}"

lemma nesting_plain: "\<not> bracket c \<Longrightarrow> nesting False k (c # s) = nesting False k s"
  by (auto simp: bracket_def)

lemma nesting_plains: "\<forall>c \<in> set t. \<not> bracket c \<Longrightarrow> nesting False k (t @ s) = nesting False k s"
  by (induction t) (auto simp: nesting_plain simp del: nesting.simps)

lemma nesting_in_string: "\<forall>c \<in> set t. c \<noteq> CHR 0x22 \<and> c \<noteq> CHR 0x5C \<Longrightarrow> nesting True k (t @ s) = nesting True k s"
  by (induction t) auto

lemma nesting_skip [simp]: "nesting False k (skip_ws s) = nesting False k s"
  by (induction s) (auto simp: is_ws_def)

section \<open>Strings, numbers and names\<close>

lemma hexval_quoted: "hexval c = Some v \<Longrightarrow> nesting True k (c # s) = nesting True k s"
proof -
  assume "hexval c = Some v"
  then have "c \<noteq> CHR 0x22" "c \<noteq> CHR 0x5C" by (auto simp: hexval_def)
  then show ?thesis by simp
qed

lemma hex_nesting: "hex_loop n v s = Some w \<Longrightarrow> nesting True k (drop n s) = nesting True k s"
proof (induction n v s rule: hex_loop.induct)
  case (3 i v c s)
  then obtain d where "hexval c = Some d" "hex_loop i (v * 16 + d) s = Some w" by (auto split: option.splits)
  with 3 hexval_quoted show ?case by simp
qed simp_all

lemma escape_nesting:
  assumes "unicode_escape r = Some (out, r')"
  shows "nesting True k r' = nesting True k r"
proof -
  obtain hi where h: "hex4 r = Some hi" using assms by (auto simp: unicode_escape_def split: if_splits option.splits)
  then have n: "nesting True k (drop 4 r) = nesting True k r" using hex_nesting by (simp add: hex4_def)
  have "r' = drop 4 r \<or> (\<exists>s. drop 4 r = CHR 0x5C # CHR ''u'' # s \<and> (\<exists>l. hex4 s = Some l) \<and> r' = drop 4 s)"
  proof (cases "r' = drop 4 r")
    case False
    let ?r1 = "drop 4 r"
    have "6 \<le> length ?r1 \<and> ?r1 ! 0 = CHR 0x5C \<and> ?r1 ! 1 = CHR ''u'' \<and> (\<exists>l. hex4 (drop 2 ?r1) = Some l) \<and> r' = drop 6 ?r1"
      using assms h False by (auto simp: unicode_escape_def Let_def split: if_splits option.splits)
    moreover from this obtain a b s where "?r1 = a # b # s" by (cases ?r1; cases "tl ?r1") auto
    ultimately show ?thesis by auto
  qed simp
  then show ?thesis
  proof
    assume "\<exists>s. drop 4 r = CHR 0x5C # CHR ''u'' # s \<and> (\<exists>l. hex4 s = Some l) \<and> r' = drop 4 s"
    then obtain s l where s: "drop 4 r = CHR 0x5C # CHR ''u'' # s" "hex4 s = Some l" "r' = drop 4 s" by blast
    then have "nesting True k r' = nesting True k s" using hex_nesting by (simp add: hex4_def)
    with s(1) n show ?thesis by simp
  qed (use n in simp)
qed

lemma step_nesting:
  assumes "string_step r = Some (out, r')" and "hd r \<noteq> CHR 0x22"
  shows "nesting True k r' = nesting True k r"
proof (cases r)
  case (Cons c s)
  show ?thesis
  proof (cases "c = CHR 0x5C")
    case True
    with assms Cons obtain e s' where s: "s = e # s'" by (auto simp: string_step.simps split: list.splits)
    with assms Cons True have "r' = s' \<or> unicode_escape s' = Some (out, r')"
      by (auto simp: string_step.simps split: option.splits if_splits)
    with Cons True s escape_nesting show ?thesis by auto
  qed (use assms Cons in \<open>auto simp: string_step.simps split: if_splits\<close>)
qed (use assms in \<open>simp add: string_step.simps\<close>)

lemma string_nesting:
  "string_loop alloc tmp cap r = Some (tmp', r') \<Longrightarrow> nesting True k r = nesting False k (tl r') \<and> r' \<noteq> []"
proof (induction "length r" arbitrary: tmp cap r rule: less_induct)
  case less
  show ?case
  proof (cases "r = [] \<or> hd r = CHR 0x22")
    case True
    with less.prems show ?thesis by (subst (asm) string_loop.simps) (cases r; auto)
  next
    case False
    from less.prems show ?thesis
    proof (cases rule: string_loop_SomeE)
      case (step out r1 cap')
      with less.hyps [OF string_step_length [OF step(1)] step(2)] step_nesting [OF step(1)] False show ?thesis by simp
    qed (use False in simp)
  qed
qed

lemma raw_nesting:
  "parse_string_raw alloc p = Some (off, p') \<Longrightarrow> nesting False k (p_rest p) = nesting False k (p_rest p') \<and> p_depth p' = p_depth p"
  by (auto simp: parse_string_raw_def split: list.splits if_splits option.splits dest!: string_nesting)

lemma key_nesting:
  assumes "parse_key alloc p = Some (koff, p')"
  shows "nesting False k (p_rest p) = nesting False k (p_rest p') \<and> p_depth p' = p_depth p"
proof -
  obtain p1 r where p1: "parse_string_raw alloc (p_skip p) = Some (koff, p1)" "skip_ws (p_rest p1) = CHR '':'' # r"
      "p' = (p_skip p1)\<lparr>p_rest := r\<rparr>"
    using assms by (auto simp: parse_key_def Let_def split: option.splits list.splits if_splits)
  have "nesting False k (p_rest p1) = nesting False k r"
    using nesting_skip [of k "p_rest p1"] nesting_plain [of "CHR '':''" k r] by (simp add: p1(2) bracket_def)
  with raw_nesting [OF p1(1), of k] p1(3) show ?thesis by simp
qed

lemma digit_bracket: "is_digit c \<Longrightarrow> \<not> bracket c"
  by (auto simp: is_digit_def bracket_def)

lemma digits_nesting: "digits_loop u s = Some (v, r) \<Longrightarrow> nesting False k s = nesting False k r"
proof (induction u s rule: digits_loop.induct)
  case (2 u c s)
  then show ?case by (cases "is_digit c") (auto simp: Let_def digit_bracket nesting_plain simp del: nesting.simps split: if_splits)
qed simp

lemma number_nesting:
  assumes "parse_number s = Some (v, r)"
  shows "nesting False k s = nesting False k r"
proof -
  let ?s = "if s \<noteq> [] \<and> hd s = CHR ''-'' then tl s else s"
  obtain u where "digits_loop 0 ?s = Some (u, r)"
    using assms unfolding parse_number_def Let_def by (auto split: if_splits option.splits)
  then have "nesting False k ?s = nesting False k r" by (rule digits_nesting)
  moreover have "nesting False k ?s = nesting False k s"
    using nesting_plain [of "CHR ''-''" k "tl s"] by (cases s) (auto simp: bracket_def)
  ultimately show ?thesis by simp
qed

lemma word_nesting: "take n s = w \<Longrightarrow> \<forall>c \<in> set w. \<not> bracket c \<Longrightarrow> nesting False k s = nesting False k (drop n s)"
  by (metis append_take_drop_id nesting_plains)

lemma leaf_keeps: "leaf alloc p r t f = Some (n, p') \<Longrightarrow> p_rest p' = r \<and> p_depth p' = p_depth p"
  by (auto simp: leaf_def split: option.splits)

lemma scalar_nesting:
  assumes "parse_scalar alloc p = Some (n, p')"
  shows "nesting False k (p_rest p) = nesting False k (p_rest p') \<and> p_depth p' = p_depth p"
proof -
  let ?s = "p_rest p"
  consider off p1 f where "parse_string_raw alloc p = Some (off, p1)" "leaf alloc p1 (p_rest p1) AJ_STR f = Some (n, p')"
    | m w t f where "take m ?s = w" "\<forall>c \<in> set w. \<not> bracket c" "leaf alloc p (drop m ?s) t f = Some (n, p')"
    | v r t f where "parse_number ?s = Some (v, r)" "leaf alloc p r t f = Some (n, p')"
  proof -
    have plain: "\<forall>c \<in> set ''true''. \<not> bracket c" "\<forall>c \<in> set ''false''. \<not> bracket c" "\<forall>c \<in> set ''null''. \<not> bracket c"
      by (simp_all add: bracket_def)
    consider "?s \<noteq> [] \<and> hd ?s = CHR 0x22" | "\<not> (?s \<noteq> [] \<and> hd ?s = CHR 0x22)" by blast
    then show ?thesis
    proof cases
      case 1
      with assms that(1) show ?thesis unfolding parse_scalar_def Let_def by (auto split: option.splits)
    next
      case 2
      have "parse_scalar alloc p =
          (if length ?s \<ge> 4 \<and> take 4 ?s = ''true'' then leaf alloc p (drop 4 ?s) AJ_BOOL (\<lambda>n. n\<lparr>n_num := 1\<rparr>)
           else if length ?s \<ge> 5 \<and> take 5 ?s = ''false'' then leaf alloc p (drop 5 ?s) AJ_BOOL (\<lambda>n. n\<lparr>n_num := 0\<rparr>)
           else if length ?s \<ge> 4 \<and> take 4 ?s = ''null'' then leaf alloc p (drop 4 ?s) AJ_NULL (\<lambda>n. n)
           else if ?s \<noteq> [] \<and> (hd ?s = CHR ''-'' \<or> is_digit (hd ?s))
           then (case parse_number ?s of None \<Rightarrow> None | Some (v, r) \<Rightarrow> leaf alloc p r AJ_NUM (\<lambda>n. n\<lparr>n_num := v\<rparr>))
           else None)"
        unfolding parse_scalar_def Let_def by (simp only: if_not_P [OF 2])
      with assms show ?thesis
        using that(2) [OF _ plain(1)] that(2) [OF _ plain(2)] that(2) [OF _ plain(3)] that(3)
        by (simp split: if_splits option.splits prod.splits)
    qed
  qed
  then show ?thesis
  proof cases
    case 1
    with raw_nesting [OF 1(1), of k] leaf_keeps [OF 1(2)] show ?thesis by simp
  next
    case 2
    with word_nesting [OF 2(1,2), of k] leaf_keeps [OF 2(3)] show ?thesis by simp
  next
    case 3
    with number_nesting [OF 3(1), of k] leaf_keeps [OF 3(2)] show ?thesis by simp
  qed
qed

section \<open>Lists and objects\<close>

text \<open>
  A value leaves the parser at the depth it found it at; what it nests is within the limit, or
  comes after it. The scan of what is left starts at the parser's own depth.
\<close>

definition deepest :: "aj_p \<Rightarrow> nat" where
  "deepest p = nesting False (p_depth p) (p_rest p)"

lemma nesting_ge: "k \<le> nesting q k s"
  by (induction q k s rule: nesting.induct) (auto split: list.splits)

lemma open_nesting: "c = CHR ''['' \<or> c = CHR ''{'' \<Longrightarrow> nesting False k (c # s) = nesting False (k + 1) s"
  by auto

lemma close_nesting: "nesting False k (closer b # s) = max k (nesting False (k - 1) s)"
  by (simp add: closer_def)

theorem parser_depth:
  "parse_value alloc p = Some (n, p') \<Longrightarrow> p_depth p \<le> AJ_MAX_DEPTH \<Longrightarrow>
     p_depth p' = p_depth p \<and> deepest p \<le> max AJ_MAX_DEPTH (deepest p')"
  "parse_container alloc p is_obj = Some (n, p') \<Longrightarrow> p_depth p \<le> AJ_MAX_DEPTH \<Longrightarrow>
     p_rest p \<noteq> [] \<and> (hd (p_rest p) = CHR ''['' \<or> hd (p_rest p) = CHR ''{'') \<Longrightarrow>
     p_depth p' = p_depth p \<and> deepest p \<le> max AJ_MAX_DEPTH (deepest p')"
  "parse_container_body alloc p is_obj = Some (n, p') \<Longrightarrow> p_depth p \<le> AJ_MAX_DEPTH \<Longrightarrow>
     p_depth p' = p_depth p \<and>
     nesting False (p_depth p) (tl (p_rest p)) \<le> max AJ_MAX_DEPTH (nesting False (p_depth p - 1) (p_rest p'))"
  "container_loop alloc p is_obj self prev = Some (n, p') \<Longrightarrow> p_depth p \<le> AJ_MAX_DEPTH \<Longrightarrow>
     p_depth p' = p_depth p \<and> deepest p \<le> max AJ_MAX_DEPTH (nesting False (p_depth p - 1) (p_rest p'))"
proof (induction alloc p and alloc p is_obj and alloc p is_obj and alloc p is_obj self prev
    arbitrary: n p' and n p' and n p' and n p'
    rule: parse_value_parse_container_parse_container_body_container_loop.induct)
  case (1 alloc p0)
  let ?p = "p_skip p0"
  have sk: "deepest ?p = deepest p0" "p_depth ?p = p_depth p0" by (simp_all add: deepest_def)
  consider b where "parse_container alloc ?p b = Some (n, p')" "p_rest ?p = (if b then CHR ''{'' else CHR ''['') # tl (p_rest ?p)"
    | "parse_scalar alloc ?p = Some (n, p')"
    using "1.prems"(1) by (cases "p_rest ?p") (auto simp: parse_value.simps [of alloc p0] Let_def split: if_splits)
  then show ?case
  proof cases
    case 1
    then show ?thesis using "1.IH"(1) [OF refl] "1.IH"(2) [OF refl] "1.prems"(2) sk
      by (cases b) (auto simp: neq_Nil_conv)
  next
    case 2
    from scalar_nesting [OF 2] sk show ?thesis by (simp add: deepest_def)
  qed
next
  case (2 alloc p is_obj)
  from "2.prems" obtain p1 where body: "\<not> AJ_MAX_DEPTH \<le> p_depth p"
      "parse_container_body alloc (p\<lparr>p_depth := p_depth p + 1\<rparr>) is_obj = Some (n, p1)"
    and p': "p' = p1\<lparr>p_depth := p_depth p1 - 1\<rparr>"
    by (auto simp: parse_container.simps [of alloc p] split: if_splits option.splits)
  have "deepest p = nesting False (p_depth p + 1) (tl (p_rest p))"
    using "2.prems"(3) open_nesting by (cases "p_rest p") (auto simp: deepest_def simp del: nesting.simps)
  with "2.IH" [OF body] body(1) p' show ?case by (simp add: deepest_def)
next
  case (3 alloc p is_obj)
  from "3.prems" obtain self d c r where new: "node_new alloc (p_doc p) (if is_obj then AJ_OBJ else AJ_ARR) = Some (self, d)"
      "p_rest p = c # r"
    by (auto simp: parse_container_body.simps [of alloc p] split: option.splits list.splits)
  let ?p1 = "p_skip (p\<lparr>p_rest := r, p_doc := d\<rparr>)"
  have n: "deepest ?p1 = nesting False (p_depth p) (tl (p_rest p))" using new(2) by (simp add: deepest_def)
  show ?case
  proof (cases "p_rest ?p1 \<noteq> [] \<and> hd (p_rest ?p1) = closer is_obj")
    case True
    then obtain s where s: "p_rest ?p1 = closer is_obj # s" by (metis list.exhaust_sel)
    with "3.prems" new have "p' = ?p1\<lparr>p_rest := s\<rparr>"
      by (auto simp: parse_container_body.simps [of alloc p])
    moreover have "nesting False (p_depth p) (tl (p_rest p)) = nesting False (p_depth p) (closer is_obj # s)"
      using nesting_skip [of "p_depth p" r] s new(2) by (simp del: nesting.simps nesting_skip)
    ultimately show ?thesis using "3.prems"(2) by (simp add: close_nesting del: nesting.simps)
  next
    case False
    with "3.prems" new have "container_loop alloc ?p1 is_obj self (- 1) = Some (n, p')"
      by (auto simp: parse_container_body.simps [of alloc p] Let_def split: if_splits)
    from "3.IH" [OF new(1) refl new(2) refl False this] "3.prems"(2) n show ?thesis by simp
  qed
next
  case (4 alloc p is_obj self prev)
  from "4.prems" obtain koff p1 child p2 where steps:
      "(if is_obj then parse_key alloc p else Some (0, p)) = Some (koff, p1)"
      "parse_value alloc p1 = Some (child, p2)"
    by (auto simp: container_loop.simps [of alloc p] split: option.splits)
  have key: "deepest p1 = deepest p" "p_depth p1 = p_depth p"
    using steps(1) key_nesting [of alloc p koff p1 "p_depth p"] by (auto simp: deepest_def split: if_splits)
  have child: "p_depth p2 = p_depth p" "deepest p \<le> max AJ_MAX_DEPTH (deepest p2)"
    using "4.IH"(1) [OF steps(1) refl steps(2)] key "4.prems"(2) by simp_all
  let ?p3 = "p_skip (p2\<lparr>p_doc := link_child (p_doc p2) is_obj koff self prev child\<rparr>)"
  have p3: "deepest ?p3 = deepest p2" "p_depth ?p3 = p_depth p" using child(1) by (simp_all add: deepest_def)
  show ?case
  proof (cases "p_rest ?p3 \<noteq> [] \<and> hd (p_rest ?p3) = CHR '',''")
    case True
    let ?p4 = "?p3\<lparr>p_rest := tl (p_rest ?p3)\<rparr>"
    from True "4.prems" steps have loop: "container_loop alloc ?p4 is_obj self (int child) = Some (n, p')"
      by (auto simp: container_loop.simps [of alloc p] Let_def)
    have "p_rest ?p3 = CHR '','' # tl (p_rest ?p3)" using True by (metis list.collapse)
    then have "deepest ?p4 = deepest ?p3"
      using nesting_plain [of "CHR '',''" "p_depth ?p3" "tl (p_rest ?p3)"] by (simp add: deepest_def bracket_def del: nesting.simps p_skip_simps)
    with "4.IH"(2) [OF steps(1) refl steps(2) refl refl True loop] p3 child "4.prems"(2) show ?thesis
      by (auto simp: le_max_iff_disj)
  next
    case False
    with "4.prems" steps have c: "p_rest ?p3 \<noteq> [] \<and> hd (p_rest ?p3) = closer is_obj" "p' = ?p3\<lparr>p_rest := tl (p_rest ?p3)\<rparr>"
      by (auto simp: container_loop.simps [of alloc p] Let_def split: if_splits)
    then have "p_rest ?p3 = closer is_obj # tl (p_rest ?p3)" by (metis list.collapse)
    then have "deepest ?p3 = max (p_depth p) (nesting False (p_depth p - 1) (p_rest p'))"
      using c(2) close_nesting [of "p_depth p" is_obj "tl (p_rest ?p3)"] p3(2) by (simp add: deepest_def del: nesting.simps)
    with p3 child c(2) "4.prems"(2) show ?thesis by simp
  qed
qed

theorem accepted_depth:
  assumes "aj_parse alloc s = Some d"
  shows "nesting False 0 s \<le> AJ_MAX_DEPTH"
proof -
  obtain p where p: "parse_value alloc \<lparr>p_rest = s, p_doc = aj_doc_zero, p_depth = 0\<rparr> = Some (0, p)" "skip_ws (p_rest p) = []"
    using aj_parse_SomeD [OF assms] by metis
  have "nesting False (p_depth p) (p_rest p) = p_depth p"
    using nesting_skip [of "p_depth p" "p_rest p"] p(2) by simp
  with parser_depth(1) [OF p(1)] show ?thesis by (auto simp: deepest_def)
qed

end
