(* ===== verification/Wire.thy ===== *)
theory Wire
  imports Prelude
begin

text \<open>
  \<^verbatim>\<open>src/common/arpc_wire.c\<close>: who a process is, the name of the endpoint two processes meet at,
  and the framing of messages. What the operating system answers is a parameter: a record of
  functions for tokens and processes (\<open>win_id\<close>) and one for reading and writing a handle
  (\<open>win_io\<close>).
\<close>

section \<open>The endpoint hash\<close>

definition ARPC_PROTO_VERSION :: nat where
  "ARPC_PROTO_VERSION = 4"

definition fnv_prime :: "64 word" where
  "fnv_prime = 1099511628211"

definition fnv_basis :: "64 word" where
  "fnv_basis = 14695981039346656037"

fun fnv1a :: "64 word \<Rightarrow> char list \<Rightarrow> 64 word" where
  "fnv1a h [] = h"
| "fnv1a h (c # b) = fnv1a ((h XOR of_nat (byte_of c)) * fnv_prime) b"

text \<open>The four bytes of an \<^verbatim>\<open>unsigned\<close> in memory, least significant first.\<close>

definition u32_bytes :: "32 word \<Rightarrow> char list" where
  "u32_bytes w =
     [char_of (unat (w AND 0xFF)), char_of (unat (drop_bit 8 w AND 0xFF)),
      char_of (unat (drop_bit 16 w AND 0xFF)), char_of (unat (drop_bit 24 w AND 0xFF))]"

section \<open>Identity\<close>

record arpc_identity =
  sid :: string
  integrity :: "32 word"

definition sizeof_sid :: nat where
  "sizeof_sid = 256"

text \<open>
  What Windows is asked. \<open>token_user\<close> is the user of a token as a string SID, when both
  \<^verbatim>\<open>token_info\<close> and the conversion succeed; \<open>token_label\<close> is the sub-authorities of its
  integrity label.
\<close>

record ('proc, 'tok, 'pipe) win_id =
  current_process :: 'proc
  open_process_token :: "'proc \<Rightarrow> 'tok option"
  token_user :: "'tok \<Rightarrow> string option"
  token_label :: "'tok \<Rightarrow> (32 word) list option"
  pipe_client_pid :: "'pipe \<Rightarrow> nat option"
  pipe_server_pid :: "'pipe \<Rightarrow> nat option"
  open_process :: "nat \<Rightarrow> 'proc option"

definition arpc_process_identity ::
    "('proc, 'tok, 'pipe) win_id \<Rightarrow> 'proc option \<Rightarrow> arpc_identity option" where
  "arpc_process_identity win process =
     (case open_process_token win (case process of Some p \<Rightarrow> p | None \<Rightarrow> current_process win) of
        None \<Rightarrow> None
      | Some tok \<Rightarrow>
          (case token_user win tok of
             None \<Rightarrow> None
           | Some s \<Rightarrow>
               if length s < sizeof_sid
               then (case token_label win tok of
                       None \<Rightarrow> None
                     | Some subs \<Rightarrow> Some \<lparr>sid = s, integrity = subs ! (length subs - 1)\<rparr>)
               else None))"

definition arpc_peer_is ::
    "('proc, 'tok, 'pipe) win_id \<Rightarrow> 'pipe \<Rightarrow> bool \<Rightarrow> arpc_identity \<Rightarrow> bool" where
  "arpc_peer_is win pipe server_side ours =
     (case (if server_side then pipe_client_pid win pipe else pipe_server_pid win pipe) of
        None \<Rightarrow> False
      | Some pid \<Rightarrow>
          (case open_process win pid of
             None \<Rightarrow> False
           | Some proc \<Rightarrow>
               (case arpc_process_identity win (Some proc) of
                  None \<Rightarrow> False
                | Some theirs \<Rightarrow> sid theirs = sid ours \<and> integrity theirs = integrity ours)))"

section \<open>The endpoint name\<close>

text \<open>A character of the root path as it is hashed: either separator, either case.\<close>

definition norm_char :: "char \<Rightarrow> char" where
  "norm_char c0 =
     (let c = (if c0 = CHR ''/'' then CHR 0x5C else c0)
      in if 65 \<le> byte_of c \<and> byte_of c \<le> 90 then char_of (byte_of c - 65 + 97) else c)"

fun hash_root :: "64 word \<Rightarrow> string \<Rightarrow> 64 word" where
  "hash_root h [] = h"
| "hash_root h (c # p) = hash_root (fnv1a h [norm_char c]) p"

definition endpoint_hash :: "string \<Rightarrow> nat \<Rightarrow> arpc_identity \<Rightarrow> 64 word" where
  "endpoint_hash root ver me =
     (let h1 = hash_root fnv_basis root;
          h2 = fnv1a h1 ''|'';
          h3 = fnv1a h2 (u32_bytes (of_nat ver));
          h4 = fnv1a h3 ''|'';
          h5 = fnv1a h4 (sid me);
          h6 = fnv1a h5 ''|''
      in fnv1a h6 (u32_bytes (integrity me)))"

text \<open>\<^verbatim>\<open>%016llx\<close>\<close>

definition hex_digit :: "nat \<Rightarrow> char" where
  "hex_digit n = ''0123456789abcdef'' ! n"

definition hex16 :: "64 word \<Rightarrow> string" where
  "hex16 h = map (\<lambda>i. hex_digit (unat (drop_bit (60 - 4 * i) h AND 0xF))) [0..<16]"

definition pipe_prefix :: string where
  "pipe_prefix = [CHR 0x5C, CHR 0x5C, CHR ''.'', CHR 0x5C] @ ''pipe'' @ [CHR 0x5C] @ ''alpmrpc.''"

text \<open>The name, or \<^const>\<open>None\<close> for the result 0; the root and the output buffer may be null.\<close>

definition arpc_pipe_name ::
    "('proc, 'tok, 'pipe) win_id \<Rightarrow> string option \<Rightarrow> nat option \<Rightarrow> string option" where
  "arpc_pipe_name win msys_root out =
     (case (msys_root, out) of
        (Some root, Some outsz) \<Rightarrow>
          (case arpc_process_identity win None of
             None \<Rightarrow> None
           | Some me \<Rightarrow>
               (let name = pipe_prefix @ ''4.'' @ hex16 (endpoint_hash root ARPC_PROTO_VERSION me)
                in if length name < outsz then Some name else None))
      | _ \<Rightarrow> None)"

section \<open>Cutting path components\<close>

definition is_sep :: "char \<Rightarrow> bool" where
  "is_sep c \<longleftrightarrow> c = CHR ''/'' \<or> c = CHR 0x5C"

text \<open>The position of the last occurrence, as \<^verbatim>\<open>strrchr\<close> finds it.\<close>

fun strrchr_at :: "nat \<Rightarrow> nat option \<Rightarrow> string \<Rightarrow> char \<Rightarrow> nat option" where
  "strrchr_at i found [] c = found"
| "strrchr_at i found (x # s) c = strrchr_at (Suc i) (if x = c then Some i else found) s c"

text \<open>The later of two pointers, a null pointer being before every other.\<close>

definition later :: "nat option \<Rightarrow> nat option \<Rightarrow> nat option" where
  "later a b =
     (case (a, b) of
        (Some i, Some j) \<Rightarrow> if j > i then b else a
      | (None, Some j) \<Rightarrow> b
      | _ \<Rightarrow> a)"

fun arpc_strip_dirs :: "string \<Rightarrow> nat \<Rightarrow> bool \<times> string" where
  "arpc_strip_dirs path 0 = (True, path)"
| "arpc_strip_dirs path (Suc n) =
     (case later (strrchr_at 0 None path CHR 0x5C) (strrchr_at 0 None path CHR ''/'') of
        None \<Rightarrow> (False, path)
      | Some a \<Rightarrow> arpc_strip_dirs (take a path) n)"

section \<open>Framing\<close>

definition ARPC_MAX_FRAME :: nat where
  "ARPC_MAX_FRAME = 64 * 1024 * 1024"

text \<open>
  Reading and writing a handle. A synchronous call says whether it worked and what it
  moved; an overlapped one is started first (the result says that it failed with something
  else than \<^verbatim>\<open>ERROR_IO_PENDING\<close>) and its outcome is asked for afterwards.
\<close>

record 'io win_io =
  write_sync :: "'io \<Rightarrow> string \<Rightarrow> bool \<times> nat \<times> 'io"
  read_sync :: "'io \<Rightarrow> nat \<Rightarrow> bool \<times> string \<times> 'io"
  write_start :: "'io \<Rightarrow> string \<Rightarrow> bool \<times> 'io"
  read_start :: "'io \<Rightarrow> nat \<Rightarrow> bool \<times> 'io"
  write_result :: "'io \<Rightarrow> bool \<times> nat \<times> 'io"
  read_result :: "'io \<Rightarrow> bool \<times> string \<times> 'io"

text \<open>
  One iteration of \<^verbatim>\<open>io_exact\<close>: what was moved, nothing when it gives up, and the state
  after it either way.
\<close>

definition write_some :: "'io win_io \<Rightarrow> bool \<Rightarrow> 'io \<Rightarrow> string \<Rightarrow> nat \<times> 'io" where
  "write_some io ev st p =
     (if ev
      then (let (started, st1) = write_start io st p in
            if \<not> started then (0, st1)
            else let (ok, did, st2) = write_result io st1 in (if ok then did else 0, st2))
      else (let (ok, did, st1) = write_sync io st p in (if ok then did else 0, st1)))"

definition read_some :: "'io win_io \<Rightarrow> bool \<Rightarrow> 'io \<Rightarrow> nat \<Rightarrow> string \<times> 'io" where
  "read_some io ev st n =
     (if ev
      then (let (started, st1) = read_start io st n in
            if \<not> started then ([], st1)
            else let (ok, got, st2) = read_result io st1 in (if ok then got else [], st2))
      else (let (ok, got, st1) = read_sync io st n in (if ok then got else [], st1)))"

text \<open>
  \<^verbatim>\<open>io_exact\<close> writing the bytes \<open>p\<close>, and reading \<open>n\<close> more after the bytes \<open>p\<close>. An I/O moves
  no more than it was asked to. The result is \<^const>\<open>False\<close> and \<^const>\<open>None\<close> for 0.
\<close>

function write_exact :: "'io win_io \<Rightarrow> bool \<Rightarrow> 'io \<Rightarrow> string \<Rightarrow> bool \<times> 'io" where
  "write_exact io ev st p =
     (if p = [] then (True, st)
      else let (did, st1) = write_some io ev st p in
        if did = 0 then (False, st1) else write_exact io ev st1 (drop did p))"
  by pat_completeness auto
termination
  by (relation "measure (\<lambda>(io, ev, st, p). length p)") auto

function read_exact :: "'io win_io \<Rightarrow> bool \<Rightarrow> 'io \<Rightarrow> string \<Rightarrow> nat \<Rightarrow> string option \<times> 'io" where
  "read_exact io ev st p n =
     (if n = 0 then (Some p, st)
      else let (got, st1) = read_some io ev st n in
        if got = [] then (None, st1) else read_exact io ev st1 (p @ got) (n - length got))"
  by pat_completeness auto
termination
  by (relation "measure (\<lambda>(io, ev, st, p, n). n)") auto

declare write_exact.simps [simp del] read_exact.simps [simp del]

definition frame_header :: "nat \<Rightarrow> string" where
  "frame_header len =
     [char_of (len AND 0xFF), char_of (drop_bit 8 len AND 0xFF),
      char_of (drop_bit 16 len AND 0xFF), char_of (drop_bit 24 len AND 0xFF)]"

text \<open>The length is cut to an \<^verbatim>\<open>unsigned\<close>, in the header as in the second write.\<close>

definition arpc_send_frame :: "'io win_io \<Rightarrow> bool \<Rightarrow> 'io \<Rightarrow> string \<Rightarrow> bool \<times> 'io" where
  "arpc_send_frame io ev st buf =
     (let (ok, st1) = write_exact io ev st (frame_header (length buf)) in
      if \<not> ok then (False, st1) else write_exact io ev st1 (take (length buf mod 2 ^ 32) buf))"

definition header_length :: "string \<Rightarrow> nat" where
  "header_length hdr =
     byte_of (hdr ! 0) OR push_bit 8 (byte_of (hdr ! 1)) OR
     push_bit 16 (byte_of (hdr ! 2)) OR push_bit 24 (byte_of (hdr ! 3))"

text \<open>The frame, \<^verbatim>\<open>*len_out\<close> and the handle's new state.\<close>

definition arpc_recv_frame ::
    "allocator \<Rightarrow> 'io win_io \<Rightarrow> bool \<Rightarrow> 'io \<Rightarrow> string option \<times> nat \<times> 'io" where
  "arpc_recv_frame alloc io ev st =
     (case read_exact io ev st [] 4 of
        (None, st1) \<Rightarrow> (None, 0, st1)
      | (Some hdr, st1) \<Rightarrow>
          (let len = header_length hdr in
           if len = 0 \<or> len > ARPC_MAX_FRAME then (None, len, st1)
           else if \<not> alloc (len + 1) then (None, 0, st1)
           else case read_exact io ev st1 [] len of
             (None, st2) \<Rightarrow> (None, 0, st2)
           | (Some buf, st2) \<Rightarrow> (Some buf, len, st2)))"

section \<open>Endpoint names\<close>

lemma fnv_prime_inverse: "fnv_prime * 14886173955864302971 = 1"
  by (simp add: fnv_prime_def)

lemma fnv_step_inj: "(h * fnv_prime = g * fnv_prime) \<longleftrightarrow> h = g"
proof
  assume "h * fnv_prime = g * fnv_prime"
  then have "h * fnv_prime * 14886173955864302971 = g * fnv_prime * 14886173955864302971" by (rule arg_cong)
  then show "h = g" by (simp only: mult.assoc fnv_prime_inverse mult_1_right)
qed (rule arg_cong)

lemma xor_cancel: "((h :: 64 word) XOR b = g XOR b) \<longleftrightarrow> h = g"
proof
  assume "h XOR b = g XOR b"
  then have "(h XOR b) XOR b = (g XOR b) XOR b" by (rule arg_cong)
  then show "h = g" by (simp only: xor.assoc xor_self_eq xor.right_neutral)
qed (rule arg_cong)

lemma fnv1a_append: "fnv1a h (s @ t) = fnv1a (fnv1a h s) t"
  by (induction s arbitrary: h) auto

lemma fnv1a_inj: "(fnv1a h s = fnv1a g s) \<longleftrightarrow> h = g"
  by (induction s arbitrary: h g) (auto simp: fnv_step_inj xor_cancel)

lemma of_nat_byte_inj: "((of_nat (byte_of c) :: 64 word) = of_nat (byte_of d)) \<longleftrightarrow> c = d"
proof -
  have "byte_of c < 2 ^ LENGTH(64)" "byte_of d < 2 ^ LENGTH(64)"
    by (rule less_trans [OF byte_of_lt], simp)+
  then have "unat (of_nat (byte_of c) :: 64 word) = byte_of c" "unat (of_nat (byte_of d) :: 64 word) = byte_of d"
    by (simp_all only: unat_of_nat mod_less)
  then show ?thesis by (metis byte_of_eq_iff)
qed

text \<open>Inputs that differ in one byte have different hashes.\<close>

lemma fnv1a_one_byte:
  assumes "c \<noteq> d"
  shows "fnv1a h (s @ [c] @ t) \<noteq> fnv1a h (s @ [d] @ t)"
proof -
  let ?h = "fnv1a h s"
  have "?h XOR of_nat (byte_of c) \<noteq> ?h XOR of_nat (byte_of d)"
    using assms of_nat_byte_inj xor_cancel by (metis xor.commute)
  then show ?thesis by (simp add: fnv1a_append fnv1a_inj fnv_step_inj)
qed

lemma hash_root_norm: "hash_root h s = fnv1a h (map norm_char s)"
  by (induction s arbitrary: h) auto

lemma unat_and_lt: "unat ((x :: 64 word) AND 0xF) < 16"
proof -
  have "x AND 0xF = take_bit 4 x" by (simp add: take_bit_eq_mask mask_eq_exp_minus_1)
  then show ?thesis unfolding \<open>x AND 0xF = take_bit 4 x\<close> unsigned_take_bit_eq by (simp add: take_bit_eq_mod)
qed

lemma hex_digit_inj: "m < 16 \<Longrightarrow> n < 16 \<Longrightarrow> hex_digit m = hex_digit n \<longleftrightarrow> m = n"
  unfolding hex_digit_def by (rule nth_eq_iff_index_eq) auto

lemma hex16_inj: "hex16 g = hex16 h \<longleftrightarrow> g = h"
proof
  assume eq: "hex16 g = hex16 h"
  have digit: "drop_bit (60 - 4 * i) g AND 0xF = drop_bit (60 - 4 * i) h AND 0xF" if "i < 16" for i
  proof -
    have "hex16 g ! i = hex16 h ! i" by (simp add: eq)
    then show ?thesis
      using that by (simp add: hex16_def hex_digit_inj unat_and_lt word_unat_eq_iff)
  qed
  show "g = h"
  proof (rule bit_word_eqI)
    fix n assume n: "n < LENGTH(64)"
    let ?i = "15 - n div 4"
    have i: "60 - 4 * ?i = 4 * (n div 4)" using n by simp
    have f: "(x :: 64 word) AND 0xF = take_bit 4 x" for x
      by (simp add: take_bit_eq_mask mask_eq_exp_minus_1)
    have "bit (drop_bit (4 * (n div 4)) g AND 0xF) (n mod 4) =
        bit (drop_bit (4 * (n div 4)) h AND 0xF) (n mod 4)"
      using digit [of ?i] i by simp
    then show "bit g n = bit h n"
      unfolding f bit_take_bit_iff bit_drop_bit_eq o_def by simp
  qed
qed simp

lemma hex16_length: "length (hex16 h) = 16"
  by (simp add: hex16_def)

text \<open>The bytes of two labels that agree outside their second byte.\<close>

lemma u32_bytes_second:
  assumes "i AND 0xFFFF00FF = j AND 0xFFFF00FF" and "i \<noteq> j"
  shows "\<exists>a b c d e. a \<noteq> b \<and> u32_bytes i = [c] @ [a] @ [d, e] \<and> u32_bytes j = [c] @ [b] @ [d, e]"
proof -
  have t: "(x :: 32 word) AND 0xFF = take_bit 8 x" for x
    by (simp add: take_bit_eq_mask mask_eq_exp_minus_1)
  have b: "bit i n = bit j n" if "n < 8 \<or> 16 \<le> n" for n
  proof (cases "n < 32")
    case True
    have m: "bit (0xFFFF00FF :: 32 word) n"
    proof -
      have "\<forall>n < 32. n < 8 \<or> 16 \<le> n \<longrightarrow> bit (0xFFFF00FF :: 32 word) n" by code_simp
      with True that show ?thesis by blast
    qed
    have "bit (i AND 0xFFFF00FF) n = bit (j AND 0xFFFF00FF) n" by (simp only: assms(1))
    with m show ?thesis by (simp add: bit_and_iff)
  next
    case False
    then show ?thesis using bit_imp_le_length [of i n] bit_imp_le_length [of j n] by auto
  qed
  have eq: "i AND 0xFF = j AND 0xFF" "drop_bit 16 i AND 0xFF = drop_bit 16 j AND 0xFF"
    "drop_bit 24 i AND 0xFF = drop_bit 24 j AND 0xFF"
    unfolding t by (rule bit_word_eqI, use b in \<open>auto simp: bit_take_bit_iff bit_drop_bit_eq\<close>)+
  have "drop_bit 8 i AND 0xFF \<noteq> drop_bit 8 j AND 0xFF"
  proof
    assume e: "drop_bit 8 i AND 0xFF = drop_bit 8 j AND 0xFF"
    have "bit i n = bit j n" if "8 \<le> n" "n < 16" for n
    proof -
      have "bit (drop_bit 8 i AND 0xFF) (n - 8) = bit (drop_bit 8 j AND 0xFF) (n - 8)" by (simp only: e)
      moreover have "n - 8 < 8" using that by linarith
      ultimately show ?thesis using that unfolding t by (simp add: bit_take_bit_iff bit_drop_bit_eq)
    qed
    then have "i = j" using b by (intro bit_word_eqI) (meson not_less)
    with assms(2) show False ..
  qed
  moreover have "unat (x AND 0xFF) < 256" for x :: "32 word"
    unfolding t unsigned_take_bit_eq by (simp add: take_bit_eq_mod)
  ultimately have "char_of (unat (drop_bit 8 i AND 0xFF)) \<noteq> (char_of (unat (drop_bit 8 j AND 0xFF)) :: char)"
    by (metis of_char_of word_unat_eq_iff mod_less)
  then show ?thesis by (fastforce simp: u32_bytes_def eq)
qed

lemma pipe_name_hash:
  assumes "arpc_pipe_name win (Some r) (Some n) = Some s"
    and "arpc_pipe_name win' (Some r') (Some n') = Some s'"
    and "arpc_process_identity win None = Some me" and "arpc_process_identity win' None = Some me'"
  shows "s = s' \<longleftrightarrow>
     endpoint_hash r ARPC_PROTO_VERSION me = endpoint_hash r' ARPC_PROTO_VERSION me'"
  using assms by (auto simp: arpc_pipe_name_def Let_def hex16_inj split: if_splits)

text \<open>Two characters that spell the same path: equal, both separators, or one letter.\<close>

definition same_path_char :: "char \<Rightarrow> char \<Rightarrow> bool" where
  "same_path_char a b \<longleftrightarrow>
     a = b \<or> is_sep a \<and> is_sep b \<or>
     65 \<le> byte_of a \<and> byte_of a \<le> 90 \<and> byte_of b = byte_of a + 32 \<or>
     65 \<le> byte_of b \<and> byte_of b \<le> 90 \<and> byte_of a = byte_of b + 32"

lemma norm_char_upper:
  assumes "65 \<le> byte_of a" and "byte_of a \<le> 90" and "byte_of b = byte_of a + 32"
  shows "norm_char a = norm_char b"
proof -
  have "byte_of a - 65 + 97 = byte_of b" using assms by linarith
  then have "char_of (byte_of a - 65 + 97) = b" by (simp only: char_of_char)
  moreover have "a \<noteq> CHR ''/''" "b \<noteq> CHR ''/''" using assms by auto
  moreover have "\<not> byte_of b \<le> 90" using assms by linarith
  ultimately show ?thesis using assms(1,2) unfolding norm_char_def Let_def by simp
qed

lemma norm_char_same:
  assumes "same_path_char a b"
  shows "norm_char a = norm_char b"
proof -
  consider "a = b" | "is_sep a" "is_sep b"
    | "65 \<le> byte_of a" "byte_of a \<le> 90" "byte_of b = byte_of a + 32"
    | "65 \<le> byte_of b" "byte_of b \<le> 90" "byte_of a = byte_of b + 32"
    using assms unfolding same_path_char_def by blast
  then show ?thesis
  proof cases
    case 2
    then show ?thesis by (auto simp: is_sep_def norm_char_def)
  next
    case 3
    then show ?thesis by (rule norm_char_upper)
  next
    case 4
    then show ?thesis by (rule norm_char_upper [symmetric])
  qed simp
qed

lemma endpoint_hash_same_root:
  assumes "list_all2 same_path_char r r'"
  shows "endpoint_hash r ver me = endpoint_hash r' ver me"
proof -
  have "map norm_char r = map norm_char r'"
    using assms by (induction rule: list_all2_induct) (simp_all add: norm_char_same)
  then show ?thesis by (simp add: endpoint_hash_def hash_root_norm)
qed

section \<open>Path components\<close>

lemma strrchr_at_append:
  "strrchr_at i f (s @ t) c = strrchr_at (i + length s) (strrchr_at i f s c) t c"
  by (induction s arbitrary: i f) auto

lemma strrchr_at_none: "c \<notin> set s \<Longrightarrow> strrchr_at i f s c = f"
  by (induction s arbitrary: i f) auto

lemma strrchr_at_bound:
  "strrchr_at i f s c = Some j \<Longrightarrow> (f = Some j \<or> i \<le> j \<and> j < i + length s)"
  by (induction s arbitrary: i f) (force split: if_splits)+

lemma strip_one:
  assumes "is_sep c" and "\<forall>x \<in> set s. \<not> is_sep x"
  shows "arpc_strip_dirs (root @ c # s) (Suc n) = arpc_strip_dirs root n"
proof -
  have no: "CHR 0x5C \<notin> set s" "CHR ''/'' \<notin> set s" using assms(2) by (auto simp: is_sep_def)
  have last: "strrchr_at 0 None (root @ c # s) x =
      (if x = c then Some (length root) else strrchr_at 0 None root x)" if "is_sep x" for x
    using that no by (auto simp: strrchr_at_append strrchr_at_none is_sep_def)
  have "\<And>x j. strrchr_at 0 None root x = Some j \<Longrightarrow> j < length root"
    using strrchr_at_bound [of 0 None root] by auto
  then have "later (strrchr_at 0 None (root @ c # s) CHR 0x5C)
      (strrchr_at 0 None (root @ c # s) CHR ''/'') = Some (length root)"
    using assms(1) by (auto simp: last is_sep_def later_def split: option.split dest: less_not_sym)
  then show ?thesis by simp
qed

lemma strip_none:
  assumes "\<forall>x \<in> set s. \<not> is_sep x"
  shows "arpc_strip_dirs s (Suc n) = (False, s)"
proof -
  have "CHR 0x5C \<notin> set s" "CHR ''/'' \<notin> set s" using assms by (auto simp: is_sep_def)
  then show ?thesis by (simp add: strrchr_at_none later_def)
qed

text \<open>A path below \<open>root\<close>, component by component, each with the separator before it.\<close>

definition path_below :: "string \<Rightarrow> (char \<times> string) list \<Rightarrow> string" where
  "path_below root cs = root @ concat (map (\<lambda>(c, s). c # s) cs)"

definition components_ok :: "(char \<times> string) list \<Rightarrow> bool" where
  "components_ok cs \<longleftrightarrow> (\<forall>(c, s) \<in> set cs. is_sep c \<and> (\<forall>x \<in> set s. \<not> is_sep x))"

lemma strip_components:
  "components_ok cs \<Longrightarrow> arpc_strip_dirs (path_below root cs) (length cs + n) = arpc_strip_dirs root n"
proof (induction cs rule: rev_induct)
  case Nil
  then show ?case by (simp add: path_below_def)
next
  case (snoc x cs)
  obtain c s where x: "x = (c, s)" by (cases x)
  have "path_below root (cs @ [x]) = path_below root cs @ c # s" by (simp add: path_below_def x)
  with snoc strip_one [of c s "path_below root cs" "length cs + n"] show ?case
    by (simp add: components_ok_def x)
qed

section \<open>Frames\<close>

lemma or_shift: "a < 2 ^ k \<Longrightarrow> (a :: nat) OR push_bit k b = a + 2 ^ k * b"
proof -
  assume a: "a < 2 ^ k"
  have "bit a n \<Longrightarrow> n < k" for n
    using a by (metis bit_take_bit_iff take_bit_nat_eq_self)
  then have "a + push_bit k b = a OR push_bit k b"
    by (intro disjunctive_add_eq_or bit_eqI) (auto simp: bit_and_iff bit_push_bit_iff dest: leD)
  then show ?thesis by (simp add: push_bit_eq_mult mult.commute)
qed

lemma header_round_trip: "header_length (frame_header n) = n mod 2 ^ 32"
proof -
  have m: "(x :: nat) AND 0xFF = x mod 256" for x
    using take_bit_eq_mask [of 8 x] by (simp add: take_bit_eq_mod mask_eq_exp_minus_1)
  let ?a = "n mod 256" and ?b = "n div 256 mod 256" and ?c = "n div 65536 mod 256"
    and ?d = "n div 16777216 mod 256"
  have lt: "?a < 256" "?b < 256" "?c < 256" by simp_all
  have "header_length (frame_header n) =
      ?a OR push_bit 8 ?b OR push_bit 16 ?c OR push_bit 24 ?d"
    by (simp add: header_length_def frame_header_def m drop_bit_eq_div)
  also have "\<dots> = ((?a OR push_bit 8 ?b) OR push_bit 16 ?c) OR push_bit 24 ?d"
    by (simp only: or.assoc)
  also have "?a OR push_bit 8 ?b = ?a + 2 ^ 8 * ?b" by (rule or_shift) simp
  also have "(?a + 2 ^ 8 * ?b) OR push_bit 16 ?c = ?a + 2 ^ 8 * ?b + 2 ^ 16 * ?c"
    by (rule or_shift) (use lt in simp)
  also have "(?a + 2 ^ 8 * ?b + 2 ^ 16 * ?c) OR push_bit 24 ?d =
      ?a + 2 ^ 8 * ?b + 2 ^ 16 * ?c + 2 ^ 24 * ?d"
    by (rule or_shift) (use lt in simp)
  also have "\<dots> = n mod 2 ^ 32"
    using mod_mult2_eq [of n 256 16777216] mod_mult2_eq [of "n div 256" 256 65536]
      mod_mult2_eq [of "n div 65536" 256 256] by (simp flip: div_mult2_eq)
  finally show ?thesis .
qed

text \<open>
  What the framing relies on: a write moves at least one byte of what it was given to the end
  of the stream, a read of a stream that is not empty takes at least one byte from its front,
  and neither moves more than asked. \<open>keep\<close> is what the transfer leaves alone, the other
  direction of the pipe for one.
\<close>

definition write_ok :: "'io win_io \<Rightarrow> bool \<Rightarrow> ('io \<Rightarrow> string) \<Rightarrow> ('io \<Rightarrow> 'k) \<Rightarrow> bool" where
  "write_ok io ev content keep \<longleftrightarrow>
     (\<forall>st p. p \<noteq> [] \<longrightarrow>
        (\<exists>did st'. write_some io ev st p = (did, st') \<and> 0 < did \<and> did \<le> length p \<and>
           content st' = content st @ take did p \<and> keep st' = keep st))"

definition read_ok :: "'io win_io \<Rightarrow> bool \<Rightarrow> ('io \<Rightarrow> string) \<Rightarrow> ('io \<Rightarrow> 'k) \<Rightarrow> bool" where
  "read_ok io ev content keep \<longleftrightarrow>
     (\<forall>st n. 0 < n \<longrightarrow> content st \<noteq> [] \<longrightarrow>
        (\<exists>got st'. read_some io ev st n = (got, st') \<and> got \<noteq> [] \<and> length got \<le> n \<and>
           content st = got @ content st' \<and> keep st' = keep st))"

definition pipe_ok :: "'io win_io \<Rightarrow> bool \<Rightarrow> ('io \<Rightarrow> string) \<Rightarrow> bool" where
  "pipe_ok io ev content \<longleftrightarrow> write_ok io ev content (\<lambda>_. ()) \<and> read_ok io ev content (\<lambda>_. ())"

lemma pipe_write: "pipe_ok io ev content \<Longrightarrow> write_ok io ev content (\<lambda>_. ())"
  and pipe_read: "pipe_ok io ev content \<Longrightarrow> read_ok io ev content (\<lambda>_. ())"
  by (simp_all add: pipe_ok_def)

lemma write_exact_ok:
  assumes ok: "write_ok io ev content keep"
  shows "\<exists>st'. write_exact io ev st p = (True, st') \<and> content st' = content st @ p \<and> keep st' = keep st"
proof (induction "length p" arbitrary: st p rule: less_induct)
  case less
  show ?case
  proof (cases "p = []")
    case True
    then show ?thesis by (simp add: write_exact.simps)
  next
    case False
    with ok obtain did st1 where w: "write_some io ev st p = (did, st1)" "0 < did"
        "content st1 = content st @ take did p" "keep st1 = keep st"
      unfolding write_ok_def by blast
    have "length (drop did p) < length p" using w(2) False by (cases p) auto
    from less.hyps [OF this, of st1] obtain st' where
      "write_exact io ev st1 (drop did p) = (True, st')" "content st' = content st1 @ drop did p" "keep st' = keep st1"
      by blast
    with w False show ?thesis by (subst write_exact.simps) simp
  qed
qed

lemma read_exact_ok:
  assumes ok: "read_ok io ev content keep"
  shows "content st = q @ rest \<Longrightarrow>
    \<exists>st'. read_exact io ev st p (length q) = (Some (p @ q), st') \<and> content st' = rest \<and> keep st' = keep st"
proof (induction "length q" arbitrary: st p q rule: less_induct)
  case less
  show ?case
  proof (cases "q = []")
    case True
    with less.prems show ?thesis by (simp add: read_exact.simps)
  next
    case False
    with ok less.prems obtain got st1 where r: "read_some io ev st (length q) = (got, st1)" "got \<noteq> []"
        "length got \<le> length q" "q @ rest = got @ content st1" "keep st1 = keep st"
      unfolding read_ok_def by (metis Nil_is_append_conv length_greater_0_conv)
    then obtain q' where q: "q = got @ q'" "content st1 = q' @ rest"
      by (auto simp: append_eq_append_conv2)
    have "length q' < length q" using r(2) q(1) by simp
    from less.hyps [OF this q(2), of "p @ got"] obtain st' where
      "read_exact io ev st1 (p @ got) (length q') = (Some ((p @ got) @ q'), st')" "content st' = rest" "keep st' = keep st1"
      by blast
    with r(1,2,5) q show ?thesis by (subst read_exact.simps) auto
  qed
qed

definition frame_ok :: "string \<Rightarrow> bool" where
  "frame_ok buf \<longleftrightarrow> buf \<noteq> [] \<and> length buf \<le> ARPC_MAX_FRAME"

lemma frame_ok_mod: "frame_ok buf \<Longrightarrow> length buf mod 2 ^ 32 = length buf"
  by (simp add: frame_ok_def ARPC_MAX_FRAME_def)

text \<open>A frame of any size as it is sent: the length is cut to 32 bits, and so is the text.\<close>

definition sent_text :: "string \<Rightarrow> string" where
  "sent_text b = frame_header (length b) @ take (length b mod 2 ^ 32) b"

lemma send_frame_text:
  assumes "write_ok io ev content keep"
  shows "\<exists>st'. arpc_send_frame io ev st b = (True, st') \<and> content st' = content st @ sent_text b \<and> keep st' = keep st"
proof -
  obtain st1 where s1: "write_exact io ev st (frame_header (length b)) = (True, st1)"
      "content st1 = content st @ frame_header (length b)" "keep st1 = keep st"
    using write_exact_ok [OF assms] by blast
  obtain st2 where "write_exact io ev st1 (take (length b mod 2 ^ 32) b) = (True, st2)"
      "content st2 = content st1 @ take (length b mod 2 ^ 32) b" "keep st2 = keep st1"
    using write_exact_ok [OF assms] by blast
  with s1 show ?thesis by (simp add: arpc_send_frame_def sent_text_def)
qed

lemma sent_text_ok: "frame_ok b \<Longrightarrow> sent_text b = frame_header (length b) @ b"
  unfolding sent_text_def frame_ok_mod by simp

lemma send_frame_ok:
  assumes "write_ok io ev content keep" and "frame_ok buf"
  shows "\<exists>st'. arpc_send_frame io ev st buf = (True, st') \<and>
     content st' = content st @ frame_header (length buf) @ buf \<and> keep st' = keep st"
  using send_frame_text [OF assms(1)] sent_text_ok [OF assms(2)] by metis

lemma recv_header:
  assumes "read_ok io ev content keep" and "content st = frame_header n @ rest"
  shows "\<exists>st1. read_exact io ev st [] 4 = (Some (frame_header n), st1) \<and> content st1 = rest \<and> keep st1 = keep st"
proof -
  have "length (frame_header n) = 4" by (simp add: frame_header_def)
  then show ?thesis using read_exact_ok [OF assms, of "[]"] by simp
qed

lemma recv_frame_ok:
  assumes pipe: "read_ok io ev content keep" and buf: "frame_ok buf" and alloc: "alloc (length buf + 1)"
    and st: "content st = frame_header (length buf) @ buf @ rest"
  shows "\<exists>st'. arpc_recv_frame alloc io ev st = (Some buf, length buf, st') \<and> content st' = rest \<and> keep st' = keep st"
proof -
  obtain st1 where st1: "read_exact io ev st [] 4 = (Some (frame_header (length buf)), st1)"
      "content st1 = buf @ rest" "keep st1 = keep st"
    using recv_header [OF pipe st] by blast
  obtain st2 where "read_exact io ev st1 [] (length buf) = (Some buf, st2)" "content st2 = rest" "keep st2 = keep st1"
    using read_exact_ok [OF pipe st1(2), of "[]"] by auto
  moreover have "header_length (frame_header (length buf)) = length buf"
    unfolding header_round_trip by (rule frame_ok_mod [OF buf])
  moreover have "\<not> (length buf = 0 \<or> ARPC_MAX_FRAME < length buf)" using buf by (simp add: frame_ok_def)
  ultimately show ?thesis using st1(1,3) alloc unfolding arpc_recv_frame_def by simp
qed

text \<open>A frame of a refused size: its header is consumed and the size reported.\<close>

lemma recv_frame_refused:
  assumes pipe: "pipe_ok io ev content" and len: "len = 0 \<or> ARPC_MAX_FRAME < len" "len < 2 ^ 32"
    and st: "content st = frame_header len @ rest"
  shows "\<exists>st'. arpc_recv_frame alloc io ev st = (None, len, st') \<and> content st' = rest"
proof -
  have "len mod 2 ^ 32 = len" using len(2) by simp
  with recv_header [OF pipe_read [OF pipe] st] len show ?thesis
    by (auto simp: arpc_recv_frame_def header_round_trip Let_def simp del: power_numeral)
qed

text \<open>A session: frames sent one after the other, then as many received.\<close>

fun send_frames :: "'io win_io \<Rightarrow> bool \<Rightarrow> 'io \<Rightarrow> string list \<Rightarrow> bool \<times> 'io" where
  "send_frames io ev st [] = (True, st)"
| "send_frames io ev st (b # bs) =
     (let (ok, st1) = arpc_send_frame io ev st b in if ok then send_frames io ev st1 bs else (False, st1))"

fun recv_frames :: "allocator \<Rightarrow> 'io win_io \<Rightarrow> bool \<Rightarrow> 'io \<Rightarrow> nat \<Rightarrow> string list \<times> 'io" where
  "recv_frames alloc io ev st 0 = ([], st)"
| "recv_frames alloc io ev st (Suc n) =
     (case arpc_recv_frame alloc io ev st of
        (Some b, _, st1) \<Rightarrow> (let (bs, st2) = recv_frames alloc io ev st1 n in (b # bs, st2))
      | (None, _, st1) \<Rightarrow> ([], st1))"

definition frames_text :: "string list \<Rightarrow> string" where
  "frames_text bs = concat (map (\<lambda>b. frame_header (length b) @ b) bs)"

lemma send_frames_ok:
  assumes "pipe_ok io ev content"
  shows "\<forall>b \<in> set bs. frame_ok b \<Longrightarrow>
    \<exists>st'. send_frames io ev st bs = (True, st') \<and> content st' = content st @ frames_text bs"
proof (induction bs arbitrary: st)
  case (Cons b bs)
  then obtain st1 where "arpc_send_frame io ev st b = (True, st1)"
      "content st1 = content st @ frame_header (length b) @ b"
    using send_frame_ok [OF pipe_write [OF assms], of b st] by auto
  with Cons.IH [of st1] Cons.prems show ?case by (auto simp: frames_text_def)
qed (simp add: frames_text_def)

lemma recv_frames_ok:
  assumes "pipe_ok io ev content" and "\<And>n. n \<le> ARPC_MAX_FRAME + 1 \<Longrightarrow> alloc n"
  shows "\<forall>b \<in> set bs. frame_ok b \<Longrightarrow> content st = frames_text bs @ rest \<Longrightarrow>
    \<exists>st'. recv_frames alloc io ev st (length bs) = (bs, st') \<and> content st' = rest"
proof (induction bs arbitrary: st)
  case (Cons b bs)
  have "alloc (length b + 1)" using Cons.prems(1) assms(2) by (simp add: frame_ok_def)
  with Cons.prems obtain st1 where "arpc_recv_frame alloc io ev st = (Some b, length b, st1)"
      "content st1 = frames_text bs @ rest"
    using recv_frame_ok [OF pipe_read [OF assms(1)], of b alloc st "frames_text bs @ rest"] by (auto simp: frames_text_def)
  with Cons.IH [of st1] Cons.prems show ?case by auto
qed (simp add: frames_text_def)

end
