(* ===== verification/Open_Addressing.thy ===== *)
theory Open_Addressing
  imports Prelude
begin

text \<open>
  Linear probing in a table whose size is a power of two, as the two indexes of the handle
  table do it. The probing itself is the model of the source's loops; what it finds, and what
  storing a key at the place it finds does to the other keys, is proved once, in a locale over
  the hash function, for any kind of key.
\<close>

text \<open>
  \<^verbatim>\<open>while (!stop(i)) i = (i + 1) & mask;\<close> A table with a free place stops every search within
  one round; a full one need not, which is the result \<^const>\<open>None\<close>.
\<close>

fun probe_from :: "(nat \<Rightarrow> bool) \<Rightarrow> nat \<Rightarrow> nat \<Rightarrow> nat \<Rightarrow> nat option" where
  "probe_from stop msk 0 i = None"
| "probe_from stop msk (Suc fuel) i =
     (if stop i then Some i else probe_from stop msk fuel ((i + 1) AND msk))"

definition pow2 :: "nat \<Rightarrow> bool" where
  "pow2 cap \<longleftrightarrow> (\<exists>k. cap = 2 ^ k)"

lemma pow2_pos: "pow2 cap \<Longrightarrow> 0 < cap"
  by (auto simp: pow2_def)

lemma pow2_double: "pow2 cap \<Longrightarrow> pow2 (cap * 2)"
  by (auto simp: pow2_def intro: exI [of _ "Suc k" for k])

lemma and_mask_mod:
  assumes "pow2 cap"
  shows "i AND (cap - 1) = i mod cap"
proof -
  obtain k where "cap = 2 ^ k" using assms by (auto simp: pow2_def)
  then show ?thesis
    using take_bit_eq_mask [of k i] by (simp only: take_bit_eq_mod mask_eq_exp_minus_1)
qed

lemma and_le: "(x :: nat) AND m \<le> m"
proof -
  have "int (x AND m) \<le> int m" unfolding of_nat_and_eq by (rule AND_upper2) simp
  then show ?thesis by simp
qed

lemma probe_from_iff:
  assumes cap: "pow2 cap"
  shows "i < cap \<Longrightarrow> probe_from stop (cap - 1) fuel i = Some j \<longleftrightarrow>
     (\<exists>t < fuel. j = (i + t) mod cap \<and> stop j \<and> (\<forall>s < t. \<not> stop ((i + s) mod cap)))"
proof (induction fuel arbitrary: i)
  case 0
  then show ?case by simp
next
  case (Suc fuel)
  let ?n = "(i + 1) AND (cap - 1)"
  have n: "?n = (i + 1) mod cap" by (rule and_mask_mod [OF cap])
  have nx: "(?n + t) mod cap = (i + Suc t) mod cap" for t unfolding n by (simp add: mod_simps)
  have "?n < cap" unfolding n using pow2_pos [OF cap] by simp
  note IH = Suc.IH [OF this, unfolded nx]
  show ?case
  proof (cases "stop i")
    case True
    with Suc.prems show ?thesis
      by (auto intro: exI [of _ 0] dest!: spec [of _ 0])
  next
    case False
    have "(\<exists>t < Suc fuel. j = (i + t) mod cap \<and> stop j \<and> (\<forall>s < t. \<not> stop ((i + s) mod cap))) \<longleftrightarrow>
        (\<exists>t < fuel. j = (i + Suc t) mod cap \<and> stop j \<and> (\<forall>s < t. \<not> stop ((i + Suc s) mod cap)))"
    proof
      assume "\<exists>t < Suc fuel. j = (i + t) mod cap \<and> stop j \<and> (\<forall>s < t. \<not> stop ((i + s) mod cap))"
      then obtain t where t: "t < Suc fuel" "j = (i + t) mod cap" "stop j" "\<forall>s < t. \<not> stop ((i + s) mod cap)"
        by blast
      with False Suc.prems obtain u where "t = Suc u" by (cases t) auto
      with t show "\<exists>t < fuel. j = (i + Suc t) mod cap \<and> stop j \<and> (\<forall>s < t. \<not> stop ((i + Suc s) mod cap))"
        by (intro exI [of _ u]) auto
    next
      assume "\<exists>t < fuel. j = (i + Suc t) mod cap \<and> stop j \<and> (\<forall>s < t. \<not> stop ((i + Suc s) mod cap))"
      then obtain t where t: "t < fuel" "j = (i + Suc t) mod cap" "stop j" "\<forall>s < t. \<not> stop ((i + Suc s) mod cap)"
        by blast
      have "\<not> stop ((i + s) mod cap)" if "s < Suc t" for s
        using that t(4) False Suc.prems by (cases s) auto
      with t show "\<exists>t < Suc fuel. j = (i + t) mod cap \<and> stop j \<and> (\<forall>s < t. \<not> stop ((i + s) mod cap))"
        by (intro exI [of _ "Suc t"]) auto
    qed
    with False IH show ?thesis by simp
  qed
qed

lemma mod_round:
  assumes "i < cap" and "j < (cap :: nat)"
  shows "\<exists>t < cap. (i + t) mod cap = j"
proof (cases "i \<le> j")
  case True
  with assms show ?thesis by (intro exI [of _ "j - i"]) auto
next
  case False
  with assms have "i + (cap - i + j) = cap + j" by simp
  with False assms show ?thesis by (intro exI [of _ "cap - i + j"]) (auto simp del: add_diff_assoc)
qed

text \<open>A stopping place anywhere is enough for the search to end.\<close>

lemma probe_from_total:
  assumes "pow2 cap" and "i < cap" and "stop k" and "k < cap"
  shows "\<exists>j < cap. probe_from stop (cap - 1) cap i = Some j \<and> stop j"
proof -
  let ?P = "\<lambda>t. stop ((i + t) mod cap)"
  obtain t where t: "t < cap" "(i + t) mod cap = k" using mod_round [OF assms(2,4)] by blast
  then have ex: "?P t" using assms(3) by simp
  let ?t = "LEAST t. ?P t"
  have "?P ?t" "?t \<le> t" using ex by (auto intro: LeastI Least_le)
  moreover have "\<forall>s < ?t. \<not> ?P s" using not_less_Least by blast
  ultimately have "probe_from stop (cap - 1) cap i = Some ((i + ?t) mod cap)"
    using t(1) by (subst probe_from_iff [OF assms(1,2)]) (auto intro!: exI [of _ ?t])
  with \<open>?P ?t\<close> pow2_pos [OF assms(1)] show ?thesis by (intro exI [of _ "(i + ?t) mod cap"]) simp
qed

section \<open>Keys in a table\<close>

text \<open>
  \<open>occ i\<close> is the key at place \<open>i\<close>. A search for \<open>k\<close> starts at \<open>start cap k\<close> and stops at \<open>k\<close> or
  at a free place; a table is good when every key in it is found where it is.
\<close>

definition key_find :: "(nat \<Rightarrow> 'k \<Rightarrow> nat) \<Rightarrow> nat \<Rightarrow> (nat \<Rightarrow> 'k option) \<Rightarrow> 'k \<Rightarrow> nat option" where
  "key_find start cap occ k =
     probe_from (\<lambda>i. occ i = None \<or> occ i = Some k) (cap - 1) cap (start cap k)"

definition key_table :: "(nat \<Rightarrow> 'k \<Rightarrow> nat) \<Rightarrow> nat \<Rightarrow> (nat \<Rightarrow> 'k option) \<Rightarrow> bool" where
  "key_table start cap occ \<longleftrightarrow>
     (\<forall>i < cap. \<forall>k. occ i = Some k \<longrightarrow> key_find start cap occ k = Some i)"

definition has_free :: "nat \<Rightarrow> (nat \<Rightarrow> 'k option) \<Rightarrow> bool" where
  "has_free cap occ \<longleftrightarrow> (\<exists>i < cap. occ i = None)"

locale open_addressing =
  fixes start :: "nat \<Rightarrow> 'k \<Rightarrow> nat"
  assumes start_less: "0 < cap \<Longrightarrow> start cap k < cap"
begin

lemma find_iff:
  assumes "pow2 cap"
  shows "key_find start cap occ k = Some j \<longleftrightarrow>
     (\<exists>t < cap. j = (start cap k + t) mod cap \<and> (occ j = None \<or> occ j = Some k) \<and>
        (\<forall>s < t. occ ((start cap k + s) mod cap) \<notin> {None, Some k}))"
  unfolding key_find_def
  by (subst probe_from_iff [OF assms start_less [OF pow2_pos [OF assms]]]) auto

lemma find_total:
  assumes "pow2 cap" and "has_free cap occ"
  shows "\<exists>j < cap. key_find start cap occ k = Some j \<and> (occ j = None \<or> occ j = Some k)"
proof -
  obtain f where "f < cap" "occ f = None" using assms(2) by (auto simp: has_free_def)
  with probe_from_total [OF assms(1) start_less [OF pow2_pos [OF assms(1)]],
      of "\<lambda>i. occ i = None \<or> occ i = Some k" f k]
  show ?thesis by (auto simp: key_find_def)
qed

text \<open>In a good table the search tells whether the key is there.\<close>

lemma find_present:
  assumes "key_table start cap occ" and "i < cap" and "occ i = Some k"
  shows "key_find start cap occ k = Some i"
  using assms by (simp add: key_table_def)

lemma find_absent:
  assumes "pow2 cap" and "has_free cap occ" and "\<And>i. i < cap \<Longrightarrow> occ i \<noteq> Some k"
  shows "\<exists>j < cap. key_find start cap occ k = Some j \<and> occ j = None"
  using find_total [OF assms(1,2), of k] assms(3) by blast

lemma keys_distinct:
  assumes "key_table start cap occ" and "i < cap" and "j < cap"
    and "occ i = Some k" and "occ j = Some k"
  shows "i = j"
  using find_present [OF assms(1,2,4)] find_present [OF assms(1,3,5)] by simp

text \<open>Storing a new key at the free place its search ends at keeps the table good.\<close>

lemma find_insert:
  assumes "pow2 cap" and "key_find start cap occ k = Some i" and "occ i = None"
  shows "key_find start cap (occ(i := Some k)) k = Some i"
  using assms(2,3) unfolding find_iff [OF assms(1)] by fastforce

lemma find_other:
  assumes "pow2 cap" and "occ i = None" and "j \<noteq> i" and "occ j = Some k'"
    and "key_find start cap occ k' = Some j"
  shows "key_find start cap (occ(i := Some k)) k' = Some j"
proof -
  from assms(5) obtain t where t: "t < cap" "j = (start cap k' + t) mod cap"
      "\<forall>s < t. occ ((start cap k' + s) mod cap) \<notin> {None, Some k'}"
    unfolding find_iff [OF assms(1)] by blast
  then have "\<forall>s < t. (occ(i := Some k)) ((start cap k' + s) mod cap) \<notin> {None, Some k'}"
    using assms(2) by (metis fun_upd_apply insertI1)
  with t(1,2) assms(3,4) show ?thesis
    unfolding find_iff [OF assms(1)] by (intro exI [of _ t] conjI) simp_all
qed

lemma key_table_insert:
  assumes "pow2 cap" and "key_table start cap occ" and "key_find start cap occ k = Some i"
    and "occ i = None"
  shows "key_table start cap (occ(i := Some k))"
  unfolding key_table_def
proof (intro allI impI)
  fix j k'
  assume j: "j < cap" "(occ(i := Some k)) j = Some k'"
  show "key_find start cap (occ(i := Some k)) k' = Some j"
  proof (cases "j = i")
    case True
    with j find_insert [OF assms(1,3,4)] show ?thesis by simp
  next
    case False
    with j have "occ j = Some k'" by simp
    with find_other [OF assms(1,4) False this] find_present [OF assms(2) j(1) this] show ?thesis by simp
  qed
qed

end

end
