(* ===== verification/Handles.thy ===== *)
theory Handles
  imports Open_Addressing "HOL-Library.Monad_Syntax"
begin

text \<open>
  The handle table of \<^verbatim>\<open>src/server/arpc_server.c\<close>: the ids by which the wire refers to the
  objects libalpm hands out. Two indexes over one array of slots, both open-addressed; objects
  form a tree by their owners, and dropping one drops what is under it.

  Ids and pointers are 64-bit words. A call to a slot's \<open>release\<close> function is recorded in
  \<open>h_freed\<close>. An operation that probes has the result \<^const>\<open>None\<close> when a probing loop would
  never end; that it does end is part of what is proved.
\<close>

section \<open>Slots and tables\<close>

record slot =
  s_id :: "64 word"
  s_ptr :: "64 word"
  s_owner :: "64 word"
  s_tag :: nat
  s_release :: "nat option"

definition empty_slot :: slot where
  "empty_slot = \<lparr>s_id = 0, s_ptr = 0, s_owner = 0, s_tag = 0, s_release = None\<rparr>"

record htab =
  h_tab :: "slot list"
  h_byptr :: "nat list"
  h_cap :: nat
  h_used :: nat
  h_next_seq :: "64 word"
  h_next_root :: "64 word"
  h_freed :: "(nat \<times> 64 word) list"

definition htab_init :: htab where
  "htab_init = \<lparr>h_tab = [], h_byptr = [], h_cap = 0, h_used = 0, h_next_seq = 1,
     h_next_root = 1, h_freed = []\<rparr>"

definition ARPC_ROOT_SHIFT :: nat where
  "ARPC_ROOT_SHIFT = 40"

definition ARPC_ROOT :: "64 word \<Rightarrow> 64 word" where
  "ARPC_ROOT hid = drop_bit ARPC_ROOT_SHIFT hid"

definition ARPC_H_NONE :: nat where
  "ARPC_H_NONE = 0"

definition mix :: "64 word \<Rightarrow> nat \<Rightarrow> nat" where
  "mix x msk = unat (drop_bit 32 (x * 11400714819323198485)) AND msk"

definition slot_for :: "slot list \<Rightarrow> nat \<Rightarrow> 64 word \<Rightarrow> nat option" where
  "slot_for tab cap hid =
     probe_from (\<lambda>i. s_id (tab ! i) = 0 \<or> s_id (tab ! i) = hid) (cap - 1) cap (mix hid (cap - 1))"

definition ptr_key :: "64 word \<times> nat \<Rightarrow> 64 word" where
  "ptr_key k = fst k XOR push_bit 56 (of_nat (snd k))"

definition ptr_for :: "slot list \<Rightarrow> nat list \<Rightarrow> nat \<Rightarrow> 64 word \<Rightarrow> nat \<Rightarrow> nat option" where
  "ptr_for tab byptr cap p tag =
     probe_from
       (\<lambda>i. byptr ! i = 0 \<or>
          s_ptr (tab ! (byptr ! i - 1)) = p \<and> s_tag (tab ! (byptr ! i - 1)) = tag)
       (cap - 1) cap (mix (ptr_key (p, tag)) (cap - 1))"

definition index_ptr :: "slot list \<Rightarrow> nat list \<Rightarrow> nat \<Rightarrow> nat \<Rightarrow> nat list option" where
  "index_ptr tab byptr cap si =
     do { j \<leftarrow> ptr_for tab byptr cap (s_ptr (tab ! si)) (s_tag (tab ! si));
          Some (byptr[j := si + 1]) }"

definition sizeof_slot :: nat where
  "sizeof_slot = 40"

text \<open>What freeing a slot's object adds to the record of releases.\<close>

definition released :: "slot \<Rightarrow> (nat \<times> 64 word) list" where
  "released s = (case s_release s of None \<Rightarrow> [] | Some f \<Rightarrow> [(f, s_ptr s)])"

text \<open>
  The loop of \<^verbatim>\<open>rebuild\<close> over the old slots: the new table and index, how many slots are in
  use, and the releases so far.
\<close>

fun rebuild_loop ::
    "(slot \<Rightarrow> bool option) \<Rightarrow> nat \<Rightarrow> slot list \<Rightarrow> slot list \<Rightarrow> nat list \<Rightarrow> nat \<Rightarrow>
     (nat \<times> 64 word) list \<Rightarrow> (slot list \<times> nat list \<times> nat \<times> (nat \<times> 64 word) list) option" where
  "rebuild_loop keep ncap [] nt np used freed = Some (nt, np, used, freed)"
| "rebuild_loop keep ncap (s # ss) nt np used freed =
     (if s_id s = 0 then rebuild_loop keep ncap ss nt np used freed
      else do {
        k \<leftarrow> keep s;
        if \<not> k then rebuild_loop keep ncap ss nt np used (freed @ released s)
        else do {
          si \<leftarrow> slot_for nt ncap (s_id s);
          np1 \<leftarrow> index_ptr (nt[si := s]) np ncap si;
          rebuild_loop keep ncap ss (nt[si := s]) np1 (used + 1) freed } })"

definition rebuild :: "allocator \<Rightarrow> htab \<Rightarrow> nat \<Rightarrow> (slot \<Rightarrow> bool option) \<Rightarrow> (bool \<times> htab) option" where
  "rebuild alloc h ncap keep =
     (if \<not> alloc (ncap * sizeof_slot) \<or> \<not> alloc (ncap * 8) then Some (False, h)
      else do {
        (nt, np, used, freed) \<leftarrow>
          rebuild_loop keep ncap (h_tab h) (replicate ncap empty_slot) (replicate ncap 0) 0 (h_freed h);
        Some (True, h\<lparr>h_tab := nt, h_byptr := np, h_cap := ncap, h_used := used, h_freed := freed\<rparr>) })"

text \<open>A pointer to a slot is the slot's index; the inner \<^const>\<open>None\<close> is the null pointer.\<close>

definition hfind :: "htab \<Rightarrow> 64 word \<Rightarrow> nat option option" where
  "hfind h hid =
     (if hid = 0 \<or> h_cap h = 0 then Some None
      else do {
        i \<leftarrow> slot_for (h_tab h) (h_cap h) hid;
        Some (if s_id (h_tab h ! i) = hid then Some i else None) })"

definition hfind_ptr :: "htab \<Rightarrow> 64 word \<Rightarrow> nat \<Rightarrow> nat option option" where
  "hfind_ptr h p tag =
     (if p = 0 \<or> h_cap h = 0 then Some None
      else do {
        i \<leftarrow> ptr_for (h_tab h) (h_byptr h) (h_cap h) p tag;
        Some (if h_byptr h ! i \<noteq> 0 then Some (h_byptr h ! i - 1) else None) })"

text \<open>The first argument is the number of iterations left, at most 8.\<close>

fun under_loop :: "nat \<Rightarrow> htab \<Rightarrow> 64 word \<Rightarrow> 64 word \<Rightarrow> bool option" where
  "under_loop 0 h hid o' = Some False"
| "under_loop (Suc d) h hid o' =
     (if hid = 0 then Some False
      else if hid = o' then Some True
      else do {
        s \<leftarrow> hfind h hid;
        under_loop d h (case s of None \<Rightarrow> 0 | Some i \<Rightarrow> s_owner (h_tab h ! i)) o' })"

definition under :: "htab \<Rightarrow> 64 word \<Rightarrow> 64 word \<Rightarrow> bool option" where
  "under h hid o' = under_loop 8 h hid o'"

section \<open>Operations\<close>

text \<open>
  Filing an object not seen before, once there is room; \<open>th\<close> is the value of the generated
  constant \<^verbatim>\<open>ARPC_H_HANDLE\<close>.
\<close>

definition put_new :: "nat \<Rightarrow> htab \<Rightarrow> 64 word \<Rightarrow> nat \<Rightarrow> 64 word \<Rightarrow> (64 word \<times> htab) option" where
  "put_new th h ptr tag owner =
     (let root = (if owner \<noteq> 0 then ARPC_ROOT owner else if tag = th then h_next_root h else 0);
          h1 = (if owner = 0 \<and> tag = th then h\<lparr>h_next_root := h_next_root h + 1\<rparr> else h);
          hid = push_bit ARPC_ROOT_SHIFT root OR h_next_seq h;
          h2 = h1\<lparr>h_next_seq := h_next_seq h + 1\<rparr>
      in do {
        i \<leftarrow> slot_for (h_tab h) (h_cap h) hid;
        let tab = (h_tab h)[i := \<lparr>s_id = hid, s_ptr = ptr, s_owner = owner, s_tag = tag, s_release = None\<rparr>];
        byptr \<leftarrow> index_ptr tab (h_byptr h) (h_cap h) i;
        Some (hid, h2\<lparr>h_tab := tab, h_byptr := byptr, h_used := h_used h + 1\<rparr>) })"

definition arpc_handle_put ::
    "allocator \<Rightarrow> nat \<Rightarrow> htab \<Rightarrow> 64 word \<Rightarrow> nat \<Rightarrow> 64 word \<Rightarrow> (64 word \<times> htab) option" where
  "arpc_handle_put alloc th h ptr tag owner =
     (if ptr = 0 then Some (0, h)
      else do {
        found \<leftarrow> hfind_ptr h ptr tag;
        case found of
          Some i \<Rightarrow> do {
            let s = h_tab h ! i;
            refile \<leftarrow> (if owner \<noteq> 0 \<and> owner \<noteq> s_owner s then under h owner (s_owner s) else Some False);
            Some (s_id s, if refile then h\<lparr>h_tab := (h_tab h)[i := s\<lparr>s_owner := owner\<rparr>]\<rparr> else h) }
        | None \<Rightarrow> do {
            (ok, h1) \<leftarrow> (if (h_used h + 1) * 4 \<ge> h_cap h * 3
                        then rebuild alloc h (if h_cap h \<noteq> 0 then h_cap h * 2 else 256) (\<lambda>_. Some True)
                        else Some (True, h));
            if \<not> ok then Some (0, h1) else put_new th h1 ptr tag owner } })"

definition arpc_handle_adopt ::
    "allocator \<Rightarrow> nat \<Rightarrow> htab \<Rightarrow> 64 word \<Rightarrow> 64 word \<Rightarrow> nat \<Rightarrow> (64 word \<times> htab) option" where
  "arpc_handle_adopt alloc th h ptr owner release =
     do {
       (hid, h1) \<leftarrow> arpc_handle_put alloc th h ptr ARPC_H_NONE owner;
       s \<leftarrow> hfind h1 hid;
       Some (hid, case s of
         None \<Rightarrow> h1
       | Some i \<Rightarrow> h1\<lparr>h_tab := (h_tab h1)[i := (h_tab h1 ! i)\<lparr>s_release := Some release\<rparr>]\<rparr>) }"

text \<open>The pointer, 0 for null.\<close>

definition arpc_handle_get :: "htab \<Rightarrow> 64 word \<Rightarrow> nat \<Rightarrow> (64 word) option" where
  "arpc_handle_get h hid tag =
     do {
       s \<leftarrow> hfind h hid;
       Some (case s of
         None \<Rightarrow> 0
       | Some i \<Rightarrow> if s_tag (h_tab h ! i) = tag then s_ptr (h_tab h ! i) else 0) }"

fun ancestor_loop :: "nat \<Rightarrow> htab \<Rightarrow> 64 word \<Rightarrow> 64 word \<Rightarrow> nat \<Rightarrow> (64 word) option" where
  "ancestor_loop 0 h tp hid tag = Some tp"
| "ancestor_loop (Suc d) h tp hid tag =
     (if hid = 0 then Some tp
      else do {
        s \<leftarrow> hfind h hid;
        case s of
          None \<Rightarrow> Some tp
        | Some i \<Rightarrow>
            if tag \<noteq> ARPC_H_NONE \<and> s_tag (h_tab h ! i) = tag then Some hid
            else ancestor_loop d h hid (s_owner (h_tab h ! i)) tag })"

definition arpc_ancestor :: "htab \<Rightarrow> 64 word \<Rightarrow> nat \<Rightarrow> (64 word) option" where
  "arpc_ancestor h hid tag = ancestor_loop 8 h hid hid tag"

definition keep_not :: "64 word \<Rightarrow> slot \<Rightarrow> bool option" where
  "keep_not o' s = Some (s_id s \<noteq> o')"

definition keep_outside :: "htab \<Rightarrow> 64 word \<Rightarrow> slot \<Rightarrow> bool option" where
  "keep_outside h o' s = do { u \<leftarrow> under h (s_id s) o'; Some (\<not> u) }"

definition keep_outside_or_self :: "htab \<Rightarrow> 64 word \<Rightarrow> slot \<Rightarrow> bool option" where
  "keep_outside_or_self h o' s =
     (if s_id s = o' then Some True else do { u \<leftarrow> under h (s_id s) o'; Some (\<not> u) })"

text \<open>The result of \<^verbatim>\<open>rebuild\<close> is not looked at: without memory nothing is dropped.\<close>

definition drop_matching :: "allocator \<Rightarrow> htab \<Rightarrow> (slot \<Rightarrow> bool option) \<Rightarrow> htab option" where
  "drop_matching alloc h keep =
     (if h_cap h \<noteq> 0 then do { (ok, h1) \<leftarrow> rebuild alloc h (h_cap h) keep; Some h1 } else Some h)"

definition arpc_handle_drop :: "allocator \<Rightarrow> htab \<Rightarrow> 64 word \<Rightarrow> htab option" where
  "arpc_handle_drop alloc h hid =
     do {
       s \<leftarrow> hfind h hid;
       if s \<noteq> None then drop_matching alloc h (keep_not hid) else Some h }"

definition arpc_handle_drop_under :: "allocator \<Rightarrow> htab \<Rightarrow> 64 word \<Rightarrow> htab option" where
  "arpc_handle_drop_under alloc h owner =
     (if owner \<noteq> 0 then drop_matching alloc h (keep_outside_or_self h owner) else Some h)"

definition arpc_handle_reset :: "htab \<Rightarrow> htab" where
  "arpc_handle_reset h =
     h\<lparr>h_freed := h_freed h @ concat (map (\<lambda>s. if s_id s \<noteq> 0 then released s else []) (h_tab h)),
       h_tab := [], h_byptr := [], h_cap := 0, h_used := 0\<rparr>"

definition arpc_handle_live :: "htab \<Rightarrow> nat" where
  "arpc_handle_live h = h_used h mod 2 ^ 32"

section \<open>Callback registrations\<close>

text \<open>
  \<^verbatim>\<open>src/server/arpc_callbacks.c\<close> keeps, per handle, the kinds of callback the client asked
  for. Dropping a handle purges its registrations, so the two states are dropped together.
\<close>

record cbreg =
  r_handle :: "64 word"
  r_enabled :: "32 word"

definition arpc_cb_purge :: "cbreg list \<Rightarrow> 64 word \<Rightarrow> cbreg list" where
  "arpc_cb_purge regs handle = filter (\<lambda>r. r_handle r \<noteq> handle) regs"

definition arpc_handle_drop_owner ::
    "allocator \<Rightarrow> htab \<times> cbreg list \<Rightarrow> 64 word \<Rightarrow> (htab \<times> cbreg list) option" where
  "arpc_handle_drop_owner alloc st owner =
     (if owner \<noteq> 0
      then do {
        h1 \<leftarrow> drop_matching alloc (fst st) (keep_outside (fst st) owner);
        Some (h1, arpc_cb_purge (snd st) owner) }
      else Some st)"

definition arpc_handle_drop_ptr ::
    "allocator \<Rightarrow> htab \<times> cbreg list \<Rightarrow> 64 word \<Rightarrow> nat \<Rightarrow> (htab \<times> cbreg list) option" where
  "arpc_handle_drop_ptr alloc st ptr tag =
     do {
       s \<leftarrow> hfind_ptr (fst st) ptr tag;
       case s of
         None \<Rightarrow> Some st
       | Some i \<Rightarrow> arpc_handle_drop_owner alloc st (s_id (h_tab (fst st) ! i)) }"

end
