(* ===== verification/Handle_Inv.thy ===== *)
theory Handle_Inv
  imports Handles
begin

text \<open>
  What the handle table keeps true: both indexes find what is in the table, there is always a
  free place, so that every search ends, and every id was made from a sequence number already
  used. The table is then a map from ids to slots, and the operations are described on it.
\<close>

section \<open>The two indexes as open-addressed tables\<close>

definition start_id :: "nat \<Rightarrow> 64 word \<Rightarrow> nat" where
  "start_id cap hid = mix hid (cap - 1)"

definition start_ptr :: "nat \<Rightarrow> 64 word \<times> nat \<Rightarrow> nat" where
  "start_ptr cap k = mix (ptr_key k) (cap - 1)"

lemma mix_less: "0 < cap \<Longrightarrow> mix x (cap - 1) < cap"
  using and_le [of "unat (drop_bit 32 (x * 11400714819323198485))" "cap - 1"] by (simp add: mix_def)

interpretation byid: open_addressing start_id
  by unfold_locales (unfold start_id_def, rule mix_less)

interpretation byptr: open_addressing start_ptr
  by unfold_locales (unfold start_ptr_def, rule mix_less)

definition occ_id :: "slot list \<Rightarrow> nat \<Rightarrow> (64 word) option" where
  "occ_id tab i = (if i < length tab \<and> s_id (tab ! i) \<noteq> 0 then Some (s_id (tab ! i)) else None)"

definition slot_key :: "slot \<Rightarrow> 64 word \<times> nat" where
  "slot_key s = (s_ptr s, s_tag s)"

definition occ_ptr :: "slot list \<Rightarrow> nat list \<Rightarrow> nat \<Rightarrow> (64 word \<times> nat) option" where
  "occ_ptr tab np j =
     (if j < length np \<and> np ! j \<noteq> 0 then Some (slot_key (tab ! (np ! j - 1))) else None)"

lemma probe_from_cong:
  assumes cap: "pow2 cap" and eq: "\<And>j. j < cap \<Longrightarrow> stop j = stop' j"
  shows "i < cap \<Longrightarrow> probe_from stop (cap - 1) fuel i = probe_from stop' (cap - 1) fuel i"
proof (induction fuel arbitrary: i)
  case (Suc fuel)
  have "(i + 1) AND (cap - 1) < cap"
    unfolding and_mask_mod [OF cap] using pow2_pos [OF cap] by simp
  with Suc eq show ?case by simp
qed simp

lemma slot_for_key:
  assumes "pow2 cap" and "length tab = cap" and "hid \<noteq> 0"
  shows "slot_for tab cap hid = key_find start_id cap (occ_id tab) hid"
  unfolding slot_for_def key_find_def start_id_def
proof (rule probe_from_cong [OF assms(1)])
  show "mix hid (cap - 1) < cap" by (rule mix_less [OF pow2_pos [OF assms(1)]])
qed (use assms in \<open>auto simp: occ_id_def\<close>)

lemma ptr_for_key:
  assumes "pow2 cap" and "length np = cap"
  shows "ptr_for tab np cap p tag = key_find start_ptr cap (occ_ptr tab np) (p, tag)"
  unfolding ptr_for_def key_find_def start_ptr_def
proof (rule probe_from_cong [OF assms(1)])
  show "mix (ptr_key (p, tag)) (cap - 1) < cap" by (rule mix_less [OF pow2_pos [OF assms(1)]])
qed (use assms in \<open>auto simp: occ_ptr_def slot_key_def\<close>)

section \<open>Good tables\<close>

definition live :: "slot list \<Rightarrow> slot set" where
  "live tab = {s \<in> set tab. s_id s \<noteq> 0}"

definition count_if :: "('a \<Rightarrow> bool) \<Rightarrow> 'a list \<Rightarrow> nat" where
  "count_if P xs = length (filter P xs)"

text \<open>The index by pointer points exactly at the slots in use.\<close>

definition indexed :: "slot list \<Rightarrow> nat list \<Rightarrow> bool" where
  "indexed tab np \<longleftrightarrow>
     (\<forall>j < length np. np ! j \<noteq> 0 \<longrightarrow> np ! j - 1 < length tab \<and> s_id (tab ! (np ! j - 1)) \<noteq> 0) \<and>
     (\<forall>i < length tab. s_id (tab ! i) \<noteq> 0 \<longrightarrow> (\<exists>j < length np. np ! j = Suc i))"

definition tabs_ok :: "nat \<Rightarrow> slot list \<Rightarrow> nat list \<Rightarrow> nat \<Rightarrow> bool" where
  "tabs_ok cap tab np used \<longleftrightarrow>
     pow2 cap \<and> length tab = cap \<and> length np = cap \<and>
     key_table start_id cap (occ_id tab) \<and> key_table start_ptr cap (occ_ptr tab np) \<and>
     indexed tab np \<and>
     count_if (\<lambda>s. s_id s \<noteq> 0) tab = used \<and> count_if (\<lambda>x. x \<noteq> 0) np = used"

lemma count_if_update:
  "i < length xs \<Longrightarrow> \<not> P (xs ! i) \<Longrightarrow> P x \<Longrightarrow> count_if P (xs[i := x]) = Suc (count_if P xs)"
proof (induction xs arbitrary: i)
  case (Cons y xs)
  then show ?case by (cases i) (auto simp: count_if_def)
qed simp

lemma count_if_same:
  "i < length xs \<Longrightarrow> P (xs ! i) = P x \<Longrightarrow> count_if P (xs[i := x]) = count_if P xs"
proof (induction xs arbitrary: i)
  case (Cons y xs)
  then show ?case by (cases i) (auto simp: count_if_def)
qed simp

lemma count_if_free: "count_if P xs < length xs \<Longrightarrow> \<exists>i < length xs. \<not> P (xs ! i)"
  unfolding count_if_def by (metis filter_id_conv in_set_conv_nth less_irrefl)

lemma tabs_free:
  assumes "tabs_ok cap tab np used" and "used < cap"
  shows "has_free cap (occ_id tab)" "has_free cap (occ_ptr tab np)"
  using assms count_if_free [of "\<lambda>s. s_id s \<noteq> 0" tab] count_if_free [of "\<lambda>x. x \<noteq> 0" np]
  by (auto simp: tabs_ok_def has_free_def occ_id_def occ_ptr_def)

lemma occ_id_update:
  "i < length tab \<Longrightarrow> s_id s \<noteq> 0 \<Longrightarrow> occ_id (tab[i := s]) = (occ_id tab)(i := Some (s_id s))"
  by (auto simp: occ_id_def fun_eq_iff nth_list_update)

text \<open>Filling a free slot does not move anything the other index points at.\<close>

lemma occ_ptr_fill:
  assumes "indexed tab np" and "s_id (tab ! i) = 0"
  shows "occ_ptr (tab[i := s]) np = occ_ptr tab np"
proof
  fix j
  show "occ_ptr (tab[i := s]) np j = occ_ptr tab np j"
  proof (cases "j < length np \<and> np ! j \<noteq> 0")
    case True
    then have "np ! j - 1 \<noteq> i" using assms by (auto simp: indexed_def)
    then show ?thesis by (simp add: occ_ptr_def)
  qed (simp add: occ_ptr_def)
qed

lemma occ_ptr_update:
  "j < length np \<Longrightarrow> occ_ptr tab (np[j := Suc i]) = (occ_ptr tab np)(j := Some (slot_key (tab ! i)))"
  by (auto simp: occ_ptr_def fun_eq_iff nth_list_update)

lemma live_fill:
  assumes "i < length tab" and "s_id (tab ! i) = 0" and "s_id s \<noteq> 0"
  shows "live (tab[i := s]) = insert s (live tab)"
proof (rule set_eqI)
  fix x
  show "x \<in> live (tab[i := s]) \<longleftrightarrow> x \<in> insert s (live tab)"
    using assms unfolding live_def mem_Collect_eq insert_iff in_set_conv_nth length_list_update
    by (metis nth_list_update)
qed

lemma indexed_fill:
  assumes "indexed tab np" and "i < length tab" and "j < length np" and "s_id s \<noteq> 0" and "np ! j = 0"
  shows "indexed (tab[i := s]) (np[j := Suc i])"
  unfolding indexed_def length_list_update
proof (intro conjI allI impI)
  fix k assume k: "k < length np" "np[j := Suc i] ! k \<noteq> 0"
  show "np[j := Suc i] ! k - 1 < length tab" "s_id (tab[i := s] ! (np[j := Suc i] ! k - 1)) \<noteq> 0"
    using assms k unfolding indexed_def by (cases "k = j"; auto simp: nth_list_update)+
next
  fix m assume m: "m < length tab" "s_id (tab[i := s] ! m) \<noteq> 0"
  show "\<exists>k < length np. np[j := Suc i] ! k = Suc m"
  proof (cases "m = i")
    case True
    with assms show ?thesis by (intro exI [of _ j]) simp
  next
    case False
    with assms(1) m obtain k where k: "k < length np" "np ! k = Suc m" by (auto simp: indexed_def)
    with assms(5) have "k \<noteq> j" by auto
    with k show ?thesis by (intro exI [of _ k]) simp
  qed
qed

text \<open>Storing a slot whose id and whose object are not in the table yet.\<close>

lemma insert_slot:
  assumes ok: "tabs_ok cap tab np used" and free: "used < cap" and hid: "s_id s \<noteq> 0"
    and new: "\<And>x. x \<in> live tab \<Longrightarrow> s_id x \<noteq> s_id s \<and> slot_key x \<noteq> slot_key s"
  shows "\<exists>si np'. slot_for tab cap (s_id s) = Some si \<and>
     index_ptr (tab[si := s]) np cap si = Some np' \<and>
     tabs_ok cap (tab[si := s]) np' (Suc used) \<and> live (tab[si := s]) = insert s (live tab) \<and>
     si < cap"
proof -
  from ok have t: "pow2 cap" "length tab = cap" "length np = cap"
      "key_table start_id cap (occ_id tab)" "key_table start_ptr cap (occ_ptr tab np)" "indexed tab np"
      "count_if (\<lambda>s. s_id s \<noteq> 0) tab = used" "count_if (\<lambda>x. x \<noteq> 0) np = used"
    by (auto simp: tabs_ok_def)
  note fr = tabs_free [OF ok free]
  have "occ_id tab i \<noteq> Some (s_id s)" if "i < cap" for i
    using new [of "tab ! i"] that t(2) by (auto simp: occ_id_def live_def)
  from byid.find_absent [OF t(1) fr(1) this] obtain si where
    si: "si < cap" "key_find start_id cap (occ_id tab) (s_id s) = Some si" "occ_id tab si = None" by blast
  let ?tab = "tab[si := s]"
  have empty: "s_id (tab ! si) = 0" using si t(2) by (auto simp: occ_id_def split: if_splits)
  have slot: "slot_for tab cap (s_id s) = Some si" using slot_for_key [OF t(1,2) hid] si(2) by simp
  have occp: "occ_ptr ?tab np = occ_ptr tab np" by (rule occ_ptr_fill [OF t(6) empty])
  have "occ_ptr tab np j \<noteq> Some (slot_key s)" if "j < cap" for j
  proof
    assume a: "occ_ptr tab np j = Some (slot_key s)"
    then have j: "np ! j \<noteq> 0" "slot_key (tab ! (np ! j - 1)) = slot_key s" by (auto simp: occ_ptr_def split: if_splits)
    then have "tab ! (np ! j - 1) \<in> live tab" using t(3,6) that by (auto simp: indexed_def live_def)
    with new j(2) show False by blast
  qed
  from byptr.find_absent [OF t(1) fr(2) this] obtain j where
    j: "j < cap" "key_find start_ptr cap (occ_ptr tab np) (slot_key s) = Some j" "occ_ptr tab np j = None" by blast
  let ?np = "np[j := Suc si]"
  have nz: "np ! j = 0" using j t(3) by (auto simp: occ_ptr_def split: if_splits)
  have ix: "index_ptr ?tab np cap si = Some ?np"
    using j(2) ptr_for_key [OF t(1,3), of ?tab] occp si(1) t(2)
    by (simp add: index_ptr_def slot_key_def)
  have "indexed ?tab ?np"
    using t(2,3) si(1) j(1) by (intro indexed_fill [OF t(6) _ _ hid nz]) simp_all
  moreover have "key_table start_id cap (occ_id ?tab)"
    using byid.key_table_insert [OF t(1,4) si(2,3)] si(1) t(2) hid by (simp add: occ_id_update)
  moreover have "key_table start_ptr cap (occ_ptr ?tab ?np)"
    using byptr.key_table_insert [OF t(1,5) j(2,3)] j(1) t(2,3) si(1) by (simp add: occ_ptr_update occp)
  ultimately have "tabs_ok cap ?tab ?np (Suc used)"
    using t si(1) j(1) empty nz hid by (simp add: tabs_ok_def count_if_update)
  with slot ix live_fill [OF _ empty hid] si(1) t(2) show ?thesis by auto
qed

section \<open>Rebuilding\<close>

lemma distinct_by_index:
  "(\<And>i j. i < length xs \<Longrightarrow> j < length xs \<Longrightarrow> P (xs ! i) \<Longrightarrow> P (xs ! j) \<Longrightarrow> f (xs ! i) = f (xs ! j) \<Longrightarrow> i = j)
     \<Longrightarrow> distinct (map f (filter P xs))"
proof (induction xs)
  case (Cons x xs)
  have "distinct (map f (filter P xs))"
    by (rule Cons.IH) (use Cons.prems [of "Suc _" "Suc _"] in auto)
  moreover have "f x \<notin> f ` {y \<in> set xs. P y}" if "P x"
  proof
    assume "f x \<in> f ` {y \<in> set xs. P y}"
    then obtain i where "i < length xs" "P (xs ! i)" "f (xs ! i) = f x"
      by (auto simp: in_set_conv_nth)
    with Cons.prems [of 0 "Suc i"] that show False by auto
  qed
  ultimately show ?case by auto
qed simp

abbreviation live_list :: "slot list \<Rightarrow> slot list" where
  "live_list tab \<equiv> filter (\<lambda>s. s_id s \<noteq> 0) tab"

lemma set_live_list: "set (live_list tab) = live tab"
  by (auto simp: live_def)

lemma ids_at:
  assumes "tabs_ok cap tab np used" and "i < cap" and "j < cap" and "s_id (tab ! i) \<noteq> 0"
    and "s_id (tab ! i) = s_id (tab ! j)"
  shows "i = j"
  using assms byid.keys_distinct [of cap "occ_id tab" i j "s_id (tab ! i)"]
  by (auto simp: tabs_ok_def occ_id_def)

lemma keys_at:
  assumes ok: "tabs_ok cap tab np used" and i: "i < cap" "s_id (tab ! i) \<noteq> 0"
    and j: "j < cap" "s_id (tab ! j) \<noteq> 0" and eq: "slot_key (tab ! i) = slot_key (tab ! j)"
  shows "i = j"
proof -
  from ok i j obtain k l where k: "k < cap" "np ! k = Suc i" and l: "l < cap" "np ! l = Suc j"
    unfolding tabs_ok_def indexed_def by metis
  then have "occ_ptr tab np k = Some (slot_key (tab ! i))" "occ_ptr tab np l = Some (slot_key (tab ! i))"
    using ok eq by (auto simp: occ_ptr_def tabs_ok_def)
  with ok k l byptr.keys_distinct [of cap "occ_ptr tab np" k l] have "k = l" by (auto simp: tabs_ok_def)
  with k l show ?thesis by simp
qed

lemma tabs_distinct:
  assumes "tabs_ok cap tab np used"
  shows "distinct (map s_id (live_list tab))" "distinct (map slot_key (live_list tab))"
  by (rule distinct_by_index, use assms ids_at [OF assms] keys_at [OF assms] in \<open>auto simp: tabs_ok_def\<close>)+

lemma tabs_ok_empty: "pow2 cap \<Longrightarrow> tabs_ok cap (replicate cap empty_slot) (replicate cap 0) 0"
  by (auto simp: tabs_ok_def key_table_def occ_id_def occ_ptr_def indexed_def count_if_def empty_slot_def)

lemma live_empty [simp]: "live (replicate cap empty_slot) = {}"
  by (auto simp: live_def empty_slot_def)

lemma rebuild_loop_ok:
  assumes "tabs_ok ncap nt np used" and "\<And>s. s \<in> live ss \<Longrightarrow> keep s = Some (K s)"
    and "distinct (map s_id (live_list ss))" and "distinct (map slot_key (live_list ss))"
    and "\<And>s x. s \<in> live ss \<Longrightarrow> x \<in> live nt \<Longrightarrow> s_id x \<noteq> s_id s \<and> slot_key x \<noteq> slot_key s"
    and "used + length (filter K (live_list ss)) \<le> ncap"
  shows "\<exists>nt' np'. rebuild_loop keep ncap ss nt np used freed =
       Some (nt', np', used + length (filter K (live_list ss)),
         freed @ concat (map released (filter (\<lambda>s. \<not> K s) (live_list ss)))) \<and>
     tabs_ok ncap nt' np' (used + length (filter K (live_list ss))) \<and>
     live nt' = live nt \<union> {s \<in> live ss. K s}"
  using assms
proof (induction ss arbitrary: nt np used freed)
  case Nil
  then show ?case by (simp add: live_def)
next
  case (Cons s ss)
  have live_Cons: "live (s # ss) = (if s_id s \<noteq> 0 then insert s (live ss) else live ss)"
    by (auto simp: live_def)
  consider "s_id s = 0" | "s_id s \<noteq> 0" "\<not> K s" | "s_id s \<noteq> 0" "K s" by blast
  then show ?case
  proof cases
    case 1
    have "\<exists>nt' np'. rebuild_loop keep ncap ss nt np used freed =
       Some (nt', np', used + length (filter K (live_list ss)),
         freed @ concat (map released (filter (\<lambda>s. \<not> K s) (live_list ss)))) \<and>
     tabs_ok ncap nt' np' (used + length (filter K (live_list ss))) \<and>
     live nt' = live nt \<union> {s \<in> live ss. K s}"
      by (rule Cons.IH) (use Cons.prems 1 live_Cons in auto)
    with 1 live_Cons show ?thesis by simp
  next
    case 2
    have keep: "keep s = Some False" using Cons.prems(2) 2 live_Cons by auto
    have "\<exists>nt' np'. rebuild_loop keep ncap ss nt np used (freed @ released s) =
       Some (nt', np', used + length (filter K (live_list ss)),
         (freed @ released s) @ concat (map released (filter (\<lambda>s. \<not> K s) (live_list ss)))) \<and>
     tabs_ok ncap nt' np' (used + length (filter K (live_list ss))) \<and>
     live nt' = live nt \<union> {s \<in> live ss. K s}"
      by (rule Cons.IH) (use Cons.prems 2 live_Cons in auto)
    with 2 live_Cons keep show ?thesis by auto
  next
    case 3
    have keep: "keep s = Some True" using Cons.prems(2) 3 live_Cons by auto
    have "used < ncap" using Cons.prems(6) 3 by simp
    from insert_slot [OF Cons.prems(1) this 3(1)] Cons.prems(5) 3 live_Cons
    obtain si np1 where ins: "slot_for nt ncap (s_id s) = Some si"
        "index_ptr (nt[si := s]) np ncap si = Some np1" "tabs_ok ncap (nt[si := s]) np1 (Suc used)"
        "live (nt[si := s]) = insert s (live nt)"
      by auto
    have fresh: "s_id x \<noteq> s_id y \<and> slot_key x \<noteq> slot_key y"
      if "y \<in> live ss" "x \<in> live (nt[si := s])" for x y
    proof -
      have ne: "s_id s \<notin> s_id ` live ss" "slot_key s \<notin> slot_key ` live ss"
        using Cons.prems(3,4) 3 by (auto simp: live_def)
      have "x = s \<or> x \<in> live nt" using that(2) by (simp add: ins(4))
      then show ?thesis
        using ne that(1) Cons.prems(5) [of y x] live_Cons 3 by (auto intro: image_eqI)
    qed
    have "\<exists>nt' np'. rebuild_loop keep ncap ss (nt[si := s]) np1 (Suc used) freed =
       Some (nt', np', Suc used + length (filter K (live_list ss)),
         freed @ concat (map released (filter (\<lambda>s. \<not> K s) (live_list ss)))) \<and>
     tabs_ok ncap nt' np' (Suc used + length (filter K (live_list ss))) \<and>
     live nt' = live (nt[si := s]) \<union> {s \<in> live ss. K s}"
      by (rule Cons.IH [OF ins(3) _ _ _ fresh]) (use Cons.prems 3 live_Cons in auto)
    with 3 live_Cons keep ins show ?thesis by auto
  qed
qed

section \<open>The invariant and the view as a map\<close>

text \<open>The sequence number an id was made from.\<close>

definition seq_of :: "64 word \<Rightarrow> nat" where
  "seq_of hid = unat (take_bit ARPC_ROOT_SHIFT hid)"

definition hinv :: "htab \<Rightarrow> bool" where
  "hinv h \<longleftrightarrow>
     (h_cap h = 0 \<and> h_tab h = [] \<and> h_byptr h = [] \<and> h_used h = 0 \<or>
      tabs_ok (h_cap h) (h_tab h) (h_byptr h) (h_used h) \<and> h_used h < h_cap h) \<and>
     0 < unat (h_next_seq h) \<and>
     (\<forall>s \<in> live (h_tab h). s_ptr s \<noteq> 0 \<and> seq_of (s_id s) < unat (h_next_seq h))"

definition hview :: "htab \<Rightarrow> 64 word \<rightharpoonup> slot" where
  "hview h hid = (if hid = 0 then None else find (\<lambda>s. s_id s = hid) (h_tab h))"

lemma hinv_init: "hinv htab_init"
  by (simp add: hinv_def htab_init_def live_def)

lemma hinv_tabs:
  assumes "hinv h" and "h_cap h \<noteq> 0"
  shows "tabs_ok (h_cap h) (h_tab h) (h_byptr h) (h_used h)" "h_used h < h_cap h"
  using assms by (auto simp: hinv_def)

lemma hinv_unique:
  assumes "hinv h" and "s \<in> live (h_tab h)" and "x \<in> live (h_tab h)"
  shows "s_id s = s_id x \<Longrightarrow> s = x" "slot_key s = slot_key x \<Longrightarrow> s = x"
proof -
  have "h_cap h \<noteq> 0" using assms by (auto simp: hinv_def live_def)
  note d = tabs_distinct [OF hinv_tabs(1) [OF assms(1) this]]
  show "s_id s = s_id x \<Longrightarrow> s = x" "slot_key s = slot_key x \<Longrightarrow> s = x"
    using d assms(2,3) unfolding distinct_map set_live_list by (auto dest: inj_onD)
qed

lemma hview_iff:
  assumes "hinv h"
  shows "hview h hid = Some s \<longleftrightarrow> s \<in> live (h_tab h) \<and> s_id s = hid"
proof
  assume "hview h hid = Some s"
  then show "s \<in> live (h_tab h) \<and> s_id s = hid"
    by (auto simp: hview_def live_def find_Some_iff split: if_splits)
next
  assume a: "s \<in> live (h_tab h) \<and> s_id s = hid"
  then have "hid \<noteq> 0" by (auto simp: live_def)
  have "find (\<lambda>s. s_id s = hid) (h_tab h) \<noteq> None" using a by (auto simp: find_None_iff live_def)
  then obtain x where x: "find (\<lambda>s. s_id s = hid) (h_tab h) = Some x" by auto
  then have "x \<in> live (h_tab h)" "s_id x = hid" using \<open>hid \<noteq> 0\<close>
    by (auto simp: find_Some_iff live_def)
  with a hinv_unique(1) [OF assms] x \<open>hid \<noteq> 0\<close> show "hview h hid = Some s" by (auto simp: hview_def)
qed

lemma hview_None:
  assumes "hinv h"
  shows "hview h hid = None \<longleftrightarrow> (\<forall>s \<in> live (h_tab h). s_id s \<noteq> hid)"
proof (cases "hview h hid")
  case None
  then have "\<not> (s \<in> live (h_tab h) \<and> s_id s = hid)" for s
    using hview_iff [OF assms, of hid s] by simp
  with None show ?thesis by blast
next
  case (Some s)
  then show ?thesis using hview_iff [OF assms, of hid s] by auto
qed

text \<open>The searches end and agree with the map.\<close>

lemma hfind_view:
  assumes "hinv h"
  shows "\<exists>r. hfind h hid = Some r \<and>
     (case r of None \<Rightarrow> hview h hid = None
      | Some i \<Rightarrow> i < length (h_tab h) \<and> hview h hid = Some (h_tab h ! i))"
proof (cases "hid = 0 \<or> h_cap h = 0")
  case True
  then have "hview h hid = None" using assms by (auto simp: hview_def hinv_def)
  with True show ?thesis by (simp add: hfind_def)
next
  case False
  note t = hinv_tabs [OF assms]
  have tk: "pow2 (h_cap h)" "length (h_tab h) = h_cap h" "key_table start_id (h_cap h) (occ_id (h_tab h))"
    using t False by (auto simp: tabs_ok_def)
  have fr: "has_free (h_cap h) (occ_id (h_tab h))" using tabs_free(1) t False by blast
  obtain i where i: "i < h_cap h" "slot_for (h_tab h) (h_cap h) hid = Some i"
      "occ_id (h_tab h) i = None \<or> occ_id (h_tab h) i = Some hid"
    using byid.find_total [OF tk(1) fr, of hid] slot_for_key [OF tk(1,2)] False by auto
  have f: "hfind h hid = Some (if s_id (h_tab h ! i) = hid then Some i else None)"
    using False i(2) by (simp add: hfind_def)
  show ?thesis
  proof (cases "s_id (h_tab h ! i) = hid")
    case True
    then have "h_tab h ! i \<in> live (h_tab h)" using i(1) tk(2) False by (auto simp: live_def)
    with True f i(1) tk(2) hview_iff [OF assms] show ?thesis by auto
  next
    case nf: False
    have "hview h hid = None" unfolding hview_None [OF assms]
    proof
      fix s assume "s \<in> live (h_tab h)"
      then obtain j where j: "j < h_cap h" "h_tab h ! j = s" using tk(2) by (auto simp: live_def in_set_conv_nth)
      show "s_id s \<noteq> hid"
      proof
        assume "s_id s = hid"
        then have "occ_id (h_tab h) j = Some hid" using j False tk(2) by (auto simp: occ_id_def)
        from byid.find_present [OF tk(3) j(1) this] have "i = j"
          using i(2) slot_for_key [OF tk(1,2)] False by simp
        with j nf \<open>s_id s = hid\<close> show False by simp
      qed
    qed
    with f nf show ?thesis by simp
  qed
qed

lemma hfind_ptr_view:
  assumes "hinv h" and p: "p \<noteq> 0"
  shows "\<exists>r. hfind_ptr h p tag = Some r \<and>
     (case r of None \<Rightarrow> \<forall>s \<in> live (h_tab h). slot_key s \<noteq> (p, tag)
      | Some i \<Rightarrow> i < length (h_tab h) \<and> h_tab h ! i \<in> live (h_tab h) \<and> slot_key (h_tab h ! i) = (p, tag))"
proof (cases "h_cap h = 0")
  case True
  then have "h_tab h = []" using assms by (auto simp: hinv_def tabs_ok_def)
  with True p show ?thesis by (simp add: hfind_ptr_def live_def)
next
  case False
  note t = hinv_tabs [OF assms(1) False]
  let ?np = "h_byptr h" and ?tab = "h_tab h" and ?cap = "h_cap h"
  have tk: "pow2 ?cap" "length ?np = ?cap" "key_table start_ptr ?cap (occ_ptr ?tab ?np)" "length ?tab = ?cap"
      "indexed ?tab ?np"
    using t by (auto simp: tabs_ok_def)
  obtain j where j: "j < ?cap" "ptr_for ?tab ?np ?cap p tag = Some j"
      "occ_ptr ?tab ?np j = None \<or> occ_ptr ?tab ?np j = Some (p, tag)"
    using byptr.find_total [OF tk(1) tabs_free(2) [OF t], of "(p, tag)"] ptr_for_key [OF tk(1,2)] by auto
  have f: "hfind_ptr h p tag = Some (if ?np ! j \<noteq> 0 then Some (?np ! j - 1) else None)"
    using False j(2) p by (simp add: hfind_ptr_def)
  show ?thesis
  proof (cases "?np ! j = 0")
    case nz: False
    with j tk have "slot_key (?tab ! (?np ! j - 1)) = (p, tag)" by (auto simp: occ_ptr_def)
    moreover have "?np ! j - 1 < length ?tab" "?tab ! (?np ! j - 1) \<in> live ?tab"
      using tk(2,5) j(1) nz by (auto simp: indexed_def live_def)
    ultimately show ?thesis using f nz by simp
  next
    case True
    have "slot_key s \<noteq> (p, tag)" if "s \<in> live ?tab" for s
    proof
      assume key: "slot_key s = (p, tag)"
      from that obtain i where i: "i < length ?tab" "?tab ! i = s" "s_id s \<noteq> 0"
        by (auto simp: live_def in_set_conv_nth)
      with tk(2,5) obtain k where k: "k < ?cap" "?np ! k = Suc i" by (auto simp: indexed_def)
      then have "occ_ptr ?tab ?np k = Some (p, tag)" using i key tk(2) by (simp add: occ_ptr_def)
      from byptr.find_present [OF tk(3) k(1) this] have "k = j" using j(2) ptr_for_key [OF tk(1,2)] by simp
      with k True show False by simp
    qed
    with f True show ?thesis by simp
  qed
qed

section \<open>Chains of owners\<close>

text \<open>\<^verbatim>\<open>under\<close> and \<^verbatim>\<open>arpc_ancestor\<close> on the map.\<close>

definition owner_in :: "(64 word \<rightharpoonup> slot) \<Rightarrow> 64 word \<Rightarrow> 64 word" where
  "owner_in v hid = (case v hid of None \<Rightarrow> 0 | Some s \<Rightarrow> s_owner s)"

fun under_in :: "nat \<Rightarrow> (64 word \<rightharpoonup> slot) \<Rightarrow> 64 word \<Rightarrow> 64 word \<Rightarrow> bool" where
  "under_in 0 v hid o' \<longleftrightarrow> False"
| "under_in (Suc d) v hid o' \<longleftrightarrow> hid \<noteq> 0 \<and> (hid = o' \<or> under_in d v (owner_in v hid) o')"

lemma under_loop_view:
  assumes "hinv h"
  shows "under_loop d h hid o' = Some (under_in d (hview h) hid o')"
proof (induction d arbitrary: hid)
  case (Suc d)
  from hfind_view [OF assms, of hid] obtain r where "hfind h hid = Some r"
      "case r of None \<Rightarrow> hview h hid = None
       | Some i \<Rightarrow> i < length (h_tab h) \<and> hview h hid = Some (h_tab h ! i)" by blast
  with Suc show ?case by (cases r) (simp_all add: owner_in_def)
qed simp

lemma under_view: "hinv h \<Longrightarrow> under h hid o' = Some (under_in 8 (hview h) hid o')"
  by (simp add: under_def under_loop_view)

section \<open>Operations on the map\<close>

lemma rebuild_view:
  assumes inv: "hinv h" and cap: "pow2 ncap" and keep: "\<And>s. s \<in> live (h_tab h) \<Longrightarrow> keep s = Some (K s)"
    and room: "h_used h < ncap"
  shows "rebuild alloc h ncap keep = Some (False, h) \<or>
    (\<exists>h'. rebuild alloc h ncap keep = Some (True, h') \<and> hinv h' \<and> h_cap h' = ncap \<and>
       h_used h' \<le> h_used h \<and> h_next_seq h' = h_next_seq h \<and> h_next_root h' = h_next_root h \<and>
       live (h_tab h') = {s \<in> live (h_tab h). K s} \<and>
       h_freed h' = h_freed h @ concat (map released (filter (\<lambda>s. \<not> K s) (live_list (h_tab h)))))"
    and "(\<And>n. alloc n) \<Longrightarrow> rebuild alloc h ncap keep \<noteq> Some (False, h)"
proof -
  have d: "distinct (map s_id (live_list (h_tab h)))" "distinct (map slot_key (live_list (h_tab h)))"
    and n: "length (live_list (h_tab h)) = h_used h"
    using inv tabs_distinct [of "h_cap h" "h_tab h" "h_byptr h" "h_used h"]
    by (auto simp: hinv_def tabs_ok_def count_if_def)
  have len: "length (filter K (live_list (h_tab h))) \<le> h_used h" using n by (metis length_filter_le)
  have "0 + length (filter K (live_list (h_tab h))) \<le> ncap" using len room by simp
  from rebuild_loop_ok [where ss = "h_tab h" and nt = "replicate ncap empty_slot" and np = "replicate ncap 0"
      and used = 0 and freed = "h_freed h", OF tabs_ok_empty [OF cap] keep d _ this]
  obtain nt np where loop: "rebuild_loop keep ncap (h_tab h) (replicate ncap empty_slot) (replicate ncap 0) 0 (h_freed h) =
      Some (nt, np, length (filter K (live_list (h_tab h))),
        h_freed h @ concat (map released (filter (\<lambda>s. \<not> K s) (live_list (h_tab h)))))"
    "tabs_ok ncap nt np (length (filter K (live_list (h_tab h))))"
    "live nt = {s \<in> live (h_tab h). K s}"
    by auto
  let ?h = "h\<lparr>h_tab := nt, h_byptr := np, h_cap := ncap, h_used := length (filter K (live_list (h_tab h))),
    h_freed := h_freed h @ concat (map released (filter (\<lambda>s. \<not> K s) (live_list (h_tab h))))\<rparr>"
  have r: "rebuild alloc h ncap keep =
      (if \<not> alloc (ncap * sizeof_slot) \<or> \<not> alloc (ncap * 8) then Some (False, h) else Some (True, ?h))"
    using loop(1) by (simp add: rebuild_def)
  have "hinv ?h" using inv loop(2,3) len room by (auto simp: hinv_def)
  with r loop(3) len show "rebuild alloc h ncap keep = Some (False, h) \<or>
    (\<exists>h'. rebuild alloc h ncap keep = Some (True, h') \<and> hinv h' \<and> h_cap h' = ncap \<and>
       h_used h' \<le> h_used h \<and> h_next_seq h' = h_next_seq h \<and> h_next_root h' = h_next_root h \<and>
       live (h_tab h') = {s \<in> live (h_tab h). K s} \<and>
       h_freed h' = h_freed h @ concat (map released (filter (\<lambda>s. \<not> K s) (live_list (h_tab h)))))"
    by (cases "\<not> alloc (ncap * sizeof_slot) \<or> \<not> alloc (ncap * 8)") auto
  show "(\<And>n. alloc n) \<Longrightarrow> rebuild alloc h ncap keep \<noteq> Some (False, h)" using r by simp
qed

text \<open>Two tables with the same live slots are the same map.\<close>

lemma hview_live:
  assumes "hinv h" and "hinv h'" and "live (h_tab h') = {s \<in> live (h_tab h). K s}"
  shows "hview h' hid = (case hview h hid of None \<Rightarrow> None | Some s \<Rightarrow> if K s then Some s else None)"
proof (cases "hview h hid")
  case None
  then have "hview h' hid = None"
    unfolding hview_None [OF assms(2)] assms(3) using hview_None [OF assms(1), of hid] by blast
  with None show ?thesis by simp
next
  case (Some s)
  then have s: "s \<in> live (h_tab h)" "s_id s = hid" using hview_iff [OF assms(1)] by auto
  show ?thesis
  proof (cases "K s")
    case True
    then have "hview h' hid = Some s" using hview_iff [OF assms(2)] s assms(3) by auto
    with Some True show ?thesis by simp
  next
    case False
    then have "hview h' hid = None"
      unfolding hview_None [OF assms(2)] assms(3) using s hinv_unique(1) [OF assms(1)] by blast
    with Some False show ?thesis by simp
  qed
qed

lemma get_view:
  assumes "hinv h"
  shows "arpc_handle_get h hid tag =
     Some (case hview h hid of None \<Rightarrow> 0 | Some s \<Rightarrow> if s_tag s = tag then s_ptr s else 0)"
proof -
  from hfind_view [OF assms, of hid] obtain r where "hfind h hid = Some r"
      "case r of None \<Rightarrow> hview h hid = None
       | Some i \<Rightarrow> i < length (h_tab h) \<and> hview h hid = Some (h_tab h ! i)" by blast
  then show ?thesis by (cases r) (simp_all add: arpc_handle_get_def)
qed

lemma option_same: "(\<And>x. a = Some x \<longleftrightarrow> b = Some x) \<Longrightarrow> a = b"
  by (metis not_None_eq)

text \<open>Changing a slot's owner or release function in place.\<close>

lemma modify_slot:
  assumes inv: "hinv h" and i: "i < length (h_tab h)" "h_tab h ! i \<in> live (h_tab h)"
    and s: "s_id s = s_id (h_tab h ! i)" "slot_key s = slot_key (h_tab h ! i)"
  defines "h' \<equiv> h\<lparr>h_tab := (h_tab h)[i := s]\<rparr>"
  shows "hinv h'" "hview h' = (hview h)(s_id s \<mapsto> s)"
proof -
  let ?tab = "h_tab h" and ?tab' = "(h_tab h)[i := s]"
  have cap: "h_cap h \<noteq> 0" using inv i by (auto simp: hinv_def)
  have nz: "s_id (?tab ! i) \<noteq> 0" using i(2) by (simp add: live_def)
  have t: "tabs_ok (h_cap h) ?tab (h_byptr h) (h_used h)" by (rule hinv_tabs(1) [OF inv cap])
  have occ: "occ_id ?tab' = occ_id ?tab" using s(1) i(1) by (auto simp: occ_id_def fun_eq_iff nth_list_update)
  have occp: "occ_ptr ?tab' np = occ_ptr ?tab np" for np
    using s(2) i(1) by (auto simp: occ_ptr_def fun_eq_iff nth_list_update)
  have ix: "indexed ?tab' (h_byptr h)"
    using t s(1) nz i(1) unfolding tabs_ok_def indexed_def by (auto simp: nth_list_update)
  have cnt: "count_if (\<lambda>s. s_id s \<noteq> 0) ?tab' = count_if (\<lambda>s. s_id s \<noteq> 0) ?tab"
    using i(1) s(1) nz by (intro count_if_same) simp_all
  have tabs: "tabs_ok (h_cap h) ?tab' (h_byptr h) (h_used h)"
    using t occ occp ix cnt by (simp add: tabs_ok_def)
  have live': "x \<in> live ?tab' \<longleftrightarrow> x = s \<or> x \<in> live ?tab \<and> s_id x \<noteq> s_id s" for x
  proof -
    have "x \<in> live ?tab' \<longleftrightarrow> (\<exists>j < h_cap h. x = (if j = i then s else ?tab ! j) \<and> s_id x \<noteq> 0)"
      using t by (auto simp: live_def in_set_conv_nth tabs_ok_def nth_list_update)
    also have "\<dots> \<longleftrightarrow> x = s \<or> (\<exists>j < h_cap h. j \<noteq> i \<and> x = ?tab ! j \<and> s_id x \<noteq> 0)"
      using i(1) t s(1) nz by (auto simp: tabs_ok_def)
    also have "\<dots> \<longleftrightarrow> x = s \<or> x \<in> live ?tab \<and> s_id x \<noteq> s_id s"
      using ids_at [OF t] i(1) t s(1) by (auto simp: live_def in_set_conv_nth tabs_ok_def)
    finally show ?thesis .
  qed
  have "s_ptr s \<noteq> 0 \<and> seq_of (s_id s) < unat (h_next_seq h)"
    using inv i(2) s by (auto simp: hinv_def slot_key_def)
  then show inv': "hinv h'"
    using inv tabs cap live' by (auto simp: hinv_def h'_def)
  show "hview h' = (hview h)(s_id s \<mapsto> s)"
  proof
    fix hid
    show "hview h' hid = ((hview h)(s_id s \<mapsto> s)) hid"
    proof (cases "hid = s_id s")
      case True
      then show ?thesis using hview_iff [OF inv', of hid s] live' by (simp add: h'_def)
    next
      case False
      have "hview h' hid = hview h hid"
        by (rule option_same, unfold hview_iff [OF inv'] hview_iff [OF inv])
          (use False live' in \<open>auto simp: h'_def\<close>)
      then show ?thesis using False by simp
    qed
  qed
qed

lemma hview_insert:
  assumes inv: "hinv h" and inv': "hinv h'" and live': "live (h_tab h') = insert s (live (h_tab h))"
    and new: "s_id s \<notin> s_id ` live (h_tab h)"
  shows "hview h' = (hview h)(s_id s \<mapsto> s)"
proof
  fix hid
  show "hview h' hid = ((hview h)(s_id s \<mapsto> s)) hid"
  proof (cases "hid = s_id s")
    case True
    then show ?thesis using hview_iff [OF inv', of hid s] live' by simp
  next
    case False
    have "hview h' hid = hview h hid"
      by (rule option_same, unfold hview_iff [OF inv'] hview_iff [OF inv]) (use False live' in auto)
    then show ?thesis using False by simp
  qed
qed

subsection \<open>New ids\<close>

lemma unat_seq_small: "unat (s :: 64 word) < 2 ^ 40 \<Longrightarrow> take_bit 40 s = s"
  by (metis take_bit_nat_eq_self unsigned_take_bit_eq word_unat_eq_iff)

lemma new_id:
  assumes "unat s < 2 ^ 40"
  shows "seq_of (push_bit ARPC_ROOT_SHIFT r OR s) = unat s"
    and "unat r < 2 ^ 24 \<Longrightarrow> ARPC_ROOT (push_bit ARPC_ROOT_SHIFT r OR s) = r"
proof -
  have s: "bit s n \<Longrightarrow> n < 40" for n
    using unat_seq_small [OF assms] by (metis bit_take_bit_iff)
  have "take_bit 40 (push_bit 40 r OR s) = s"
    by (rule bit_word_eqI) (use s in \<open>auto simp: bit_take_bit_iff bit_or_iff bit_push_bit_iff\<close>)
  then show "seq_of (push_bit ARPC_ROOT_SHIFT r OR s) = unat s"
    by (simp add: seq_of_def ARPC_ROOT_SHIFT_def)
  assume r: "unat r < 2 ^ 24"
  have r24: "take_bit 24 r = r"
    using r by (metis take_bit_nat_eq_self unsigned_take_bit_eq word_unat_eq_iff)
  then have "bit r n \<Longrightarrow> n < 24" for n by (metis bit_take_bit_iff)
  moreover have "\<not> bit s (40 + n)" for n using s [of "40 + n"] by auto
  ultimately have "drop_bit 40 (push_bit 40 r OR s) = r"
    by (intro bit_word_eqI) (auto simp: bit_drop_bit_eq bit_or_iff bit_push_bit_iff possible_bit_def)
  then show "ARPC_ROOT (push_bit ARPC_ROOT_SHIFT r OR s) = r"
    by (simp add: ARPC_ROOT_def ARPC_ROOT_SHIFT_def)
qed

subsection \<open>Filing an object\<close>

text \<open>The object \<open>(ptr, tag)\<close> is in the table, in slot \<open>s\<close>.\<close>

definition filed :: "htab \<Rightarrow> 64 word \<Rightarrow> nat \<Rightarrow> slot \<Rightarrow> bool" where
  "filed h ptr tag s \<longleftrightarrow> hview h (s_id s) = Some s \<and> s_ptr s = ptr \<and> s_tag s = tag"

lemma filed_live: "hinv h \<Longrightarrow> filed h ptr tag s \<longleftrightarrow> s \<in> live (h_tab h) \<and> slot_key s = (ptr, tag)"
  by (auto simp: filed_def hview_iff slot_key_def)

definition root_for :: "nat \<Rightarrow> htab \<Rightarrow> nat \<Rightarrow> 64 word \<Rightarrow> 64 word" where
  "root_for th h tag owner =
     (if owner \<noteq> 0 then ARPC_ROOT owner else if tag = th then h_next_root h else 0)"

definition new_slot :: "64 word \<Rightarrow> 64 word \<Rightarrow> nat \<Rightarrow> 64 word \<Rightarrow> slot" where
  "new_slot hid ptr tag owner = \<lparr>s_id = hid, s_ptr = ptr, s_owner = owner, s_tag = tag, s_release = None\<rparr>"

lemma put_new_view:
  fixes th :: nat and owner :: "64 word"
  assumes inv: "hinv h" and cap: "h_cap h \<noteq> 0" and room: "Suc (h_used h) < h_cap h" and ptr: "ptr \<noteq> 0"
    and new: "\<nexists>s. filed h ptr tag s" and seq: "unat (h_next_seq h) < 2 ^ 40"
  defines "hid \<equiv> push_bit ARPC_ROOT_SHIFT (root_for th h tag owner) OR h_next_seq h"
  shows "\<exists>h'. put_new th h ptr tag owner = Some (hid, h') \<and> hinv h' \<and>
     hview h' = (hview h)(hid \<mapsto> new_slot hid ptr tag owner) \<and>
     h_next_seq h' = h_next_seq h + 1 \<and> h_freed h' = h_freed h \<and> h_used h' = Suc (h_used h) \<and>
     h_next_root h' = (if owner = 0 \<and> tag = th then h_next_root h + 1 else h_next_root h)"
    and "hid \<noteq> 0" and "hview h hid = None" and "seq_of hid = unat (h_next_seq h)"
proof -
  let ?s = "new_slot hid ptr tag owner"
  show so: "seq_of hid = unat (h_next_seq h)" unfolding hid_def by (rule new_id(1) [OF seq])
  have pos: "0 < unat (h_next_seq h)" using inv by (simp add: hinv_def)
  show nz: "hid \<noteq> 0" using so pos by (auto simp: seq_of_def)
  have fresh: "s_id x \<noteq> hid" if "x \<in> live (h_tab h)" for x
    using inv that so by (auto simp: hinv_def)
  then show "hview h hid = None" by (simp add: hview_None [OF inv])
  have keys: "slot_key x \<noteq> slot_key ?s" if "x \<in> live (h_tab h)" for x
    using new that unfolding filed_live [OF inv] by (auto simp: slot_key_def new_slot_def)
  note t = hinv_tabs [OF inv cap]
  have s_nz: "s_id ?s \<noteq> 0" using nz by (simp add: new_slot_def)
  have new': "s_id x \<noteq> s_id ?s \<and> slot_key x \<noteq> slot_key ?s" if "x \<in> live (h_tab h)" for x
    using fresh [OF that] keys [OF that] by (simp add: new_slot_def)
  from insert_slot [OF t s_nz new'] obtain si np' where ins:
      "slot_for (h_tab h) (h_cap h) hid = Some si"
      "index_ptr ((h_tab h)[si := ?s]) (h_byptr h) (h_cap h) si = Some np'"
      "tabs_ok (h_cap h) ((h_tab h)[si := ?s]) np' (Suc (h_used h))"
      "live ((h_tab h)[si := ?s]) = insert ?s (live (h_tab h))"
    by (auto simp: new_slot_def)
  let ?h = "(if owner = 0 \<and> tag = th then h\<lparr>h_next_root := h_next_root h + 1\<rparr> else h)
    \<lparr>h_next_seq := h_next_seq h + 1, h_tab := (h_tab h)[si := ?s], h_byptr := np', h_used := h_used h + 1\<rparr>"
  have put: "put_new th h ptr tag owner = Some (hid, ?h)"
    using ins(1,2) by (simp add: put_new_def hid_def [unfolded root_for_def, symmetric] Let_def new_slot_def)
  have "unat (h_next_seq h + 1) = Suc (unat (h_next_seq h))"
    using seq by (simp add: unat_word_ariths)
  then have inv': "hinv ?h"
    using inv ins(3,4) room so ptr unfolding hinv_def by (auto simp: new_slot_def less_Suc_eq)
  have "hview ?h = (hview h)(s_id ?s \<mapsto> ?s)"
    by (rule hview_insert [OF inv inv']) (use ins(4) fresh in \<open>auto simp: new_slot_def\<close>)
  with put inv' show "\<exists>h'. put_new th h ptr tag owner = Some (hid, h') \<and> hinv h' \<and>
     hview h' = (hview h)(hid \<mapsto> new_slot hid ptr tag owner) \<and>
     h_next_seq h' = h_next_seq h + 1 \<and> h_freed h' = h_freed h \<and> h_used h' = Suc (h_used h) \<and>
     h_next_root h' = (if owner = 0 \<and> tag = th then h_next_root h + 1 else h_next_root h)"
    by (intro exI [of _ ?h]) (simp add: new_slot_def)
qed

text \<open>An object seen before keeps its id; only its owner may change.\<close>

lemma put_known:
  assumes inv: "hinv h" and s: "filed h ptr tag s"
  shows "\<exists>h'. arpc_handle_put alloc th h ptr tag owner = Some (s_id s, h') \<and> hinv h' \<and>
     hview h' = (hview h)(s_id s \<mapsto> s\<lparr>s_owner :=
       (if owner \<noteq> 0 \<and> owner \<noteq> s_owner s \<and> under_in 8 (hview h) owner (s_owner s)
        then owner else s_owner s)\<rparr>) \<and>
     h_next_seq h' = h_next_seq h \<and> h_freed h' = h_freed h"
proof -
  have l: "s \<in> live (h_tab h)" "slot_key s = (ptr, tag)" using s filed_live [OF inv] by auto
  have ptr: "ptr \<noteq> 0" using inv l by (auto simp: hinv_def slot_key_def)
  from hfind_ptr_view [OF inv ptr, of tag] obtain r where r: "hfind_ptr h ptr tag = Some r"
     "case r of None \<Rightarrow> \<forall>s \<in> live (h_tab h). slot_key s \<noteq> (ptr, tag)
      | Some i \<Rightarrow> i < length (h_tab h) \<and> h_tab h ! i \<in> live (h_tab h) \<and> slot_key (h_tab h ! i) = (ptr, tag)"
    by blast
  with l obtain i where i: "r = Some i" "i < length (h_tab h)" "h_tab h ! i \<in> live (h_tab h)"
      "slot_key (h_tab h ! i) = (ptr, tag)" by (cases r) auto
  have slot_i: "h_tab h ! i = s" using hinv_unique(2) [OF inv i(3) l(1)] i(4) l(2) by simp
  let ?re = "owner \<noteq> 0 \<and> owner \<noteq> s_owner s \<and> under_in 8 (hview h) owner (s_owner s)"
  let ?h = "h\<lparr>h_tab := (h_tab h)[i := s\<lparr>s_owner := owner\<rparr>]\<rparr>"
  have put: "arpc_handle_put alloc th h ptr tag owner = Some (s_id s, if ?re then ?h else h)"
    using ptr r(1) i(1) by (simp add: arpc_handle_put_def slot_i under_view [OF inv] Let_def)
  have "hinv ?h" "hview ?h = (hview h)(s_id s \<mapsto> s\<lparr>s_owner := owner\<rparr>)"
    using modify_slot [OF inv i(2,3), of "s\<lparr>s_owner := owner\<rparr>"] by (simp_all add: slot_i slot_key_def)
  moreover have "hview h = (hview h)(s_id s \<mapsto> s)" using s by (simp add: filed_def fun_upd_idem)
  ultimately show ?thesis using put inv by (cases ?re) auto
qed

end
