(* ===== verification/Handle_Ops.thy ===== *)
theory Handle_Ops
  imports Handle_Inv "HOL-Library.Multiset"
begin

text \<open>
  The operations of the handle table on the map from ids to slots: filing a new object,
  adopting one, and the drops; what they release; and the steps a server takes with the
  table, over which an id once dropped is never given out again.
\<close>

section \<open>Filing and adopting\<close>

lemma pow2_256: "pow2 256"
  unfolding pow2_def by (rule exI [of _ 8]) simp

lemma put_room:
  assumes inv: "hinv h"
  shows "\<exists>ok h1. (if (h_used h + 1) * 4 \<ge> h_cap h * 3
       then rebuild alloc h (if h_cap h \<noteq> 0 then h_cap h * 2 else 256) (\<lambda>_. Some True)
       else Some (True, h)) = Some (ok, h1) \<and>
     hinv h1 \<and> hview h1 = hview h \<and> h_next_seq h1 = h_next_seq h \<and> h_next_root h1 = h_next_root h \<and>
     h_freed h1 = h_freed h \<and> (ok \<longrightarrow> h_cap h1 \<noteq> 0 \<and> Suc (h_used h1) < h_cap h1) \<and>
     (\<not> ok \<longrightarrow> h1 = h) \<and> ((\<forall>n. alloc n) \<longrightarrow> ok)"
proof (cases "(h_used h + 1) * 4 \<ge> h_cap h * 3")
  case False
  with inv show ?thesis by (intro exI [of _ True] exI [of _ h]) auto
next
  case True
  let ?n = "if h_cap h \<noteq> 0 then h_cap h * 2 else 256"
  have n: "pow2 ?n" "h_used h < ?n" "Suc (h_used h) < ?n"
    using hinv_tabs [OF inv] inv pow2_256 by (auto simp: hinv_def tabs_ok_def intro: pow2_double)
  note r = rebuild_view [where alloc = alloc and keep = "\<lambda>_. Some True" and K = "\<lambda>_. True", OF inv n(1) _ n(2)]
  from r(1) consider "rebuild alloc h ?n (\<lambda>_. Some True) = Some (False, h)"
    | h' where "rebuild alloc h ?n (\<lambda>_. Some True) = Some (True, h')" "hinv h'" "h_cap h' = ?n"
        "h_used h' \<le> h_used h" "h_next_seq h' = h_next_seq h" "h_next_root h' = h_next_root h"
        "live (h_tab h') = live (h_tab h)" "h_freed h' = h_freed h"
    by auto
  then show ?thesis
  proof cases
    case 1
    with True inv r(2) show ?thesis by (intro exI [of _ False] exI [of _ h]) auto
  next
    case 2
    have "hview h' = hview h"
      using hview_live [OF inv 2(2), of "\<lambda>_. True"] 2(7) by (auto simp: fun_eq_iff split: option.split)
    moreover have "Suc (h_used h') < h_cap h'" using 2(3,4) n(3) by simp
    ultimately show ?thesis using True 2 by (intro exI [of _ True] exI [of _ h']) auto
  qed
qed

text \<open>An object not seen before gets a new id, or the id 0 when there is no memory.\<close>

lemma put_unknown:
  fixes th :: nat and owner :: "64 word"
  assumes inv: "hinv h" and ptr: "ptr \<noteq> 0" and new: "\<nexists>s. filed h ptr tag s"
    and seq: "unat (h_next_seq h) < 2 ^ 40"
  defines "hid \<equiv> push_bit ARPC_ROOT_SHIFT (root_for th h tag owner) OR h_next_seq h"
  shows "arpc_handle_put alloc th h ptr tag owner = Some (0, h) \<and> \<not> (\<forall>n. alloc n) \<or>
    (\<exists>h'. arpc_handle_put alloc th h ptr tag owner = Some (hid, h') \<and> hinv h' \<and>
       hview h' = (hview h)(hid \<mapsto> new_slot hid ptr tag owner) \<and>
       h_next_seq h' = h_next_seq h + 1 \<and> h_freed h' = h_freed h)"
    and "hid \<noteq> 0" and "hview h hid = None" and "seq_of hid = unat (h_next_seq h)"
proof -
  obtain ok h1 where h1: "(if (h_used h + 1) * 4 \<ge> h_cap h * 3
       then rebuild alloc h (if h_cap h \<noteq> 0 then h_cap h * 2 else 256) (\<lambda>_. Some True)
       else Some (True, h)) = Some (ok, h1)"
     "hinv h1" "hview h1 = hview h" "h_next_seq h1 = h_next_seq h" "h_next_root h1 = h_next_root h"
     "h_freed h1 = h_freed h" "ok \<Longrightarrow> h_cap h1 \<noteq> 0 \<and> Suc (h_used h1) < h_cap h1"
     "\<not> ok \<Longrightarrow> h1 = h" "(\<forall>n. alloc n) \<longrightarrow> ok"
    using put_room [OF inv, of alloc] by metis
  from hfind_ptr_view [OF inv ptr, of tag] new have "hfind_ptr h ptr tag = Some None"
    unfolding filed_live [OF inv] by (auto split: option.splits)
  then have put: "arpc_handle_put alloc th h ptr tag owner =
      (if ok then put_new th h1 ptr tag owner else Some (0, h1))"
    using ptr h1(1) by (simp add: arpc_handle_put_def)
  have new1: "\<nexists>s. filed h1 ptr tag s" using new h1(3) by (simp add: filed_def)
  have seq1: "unat (h_next_seq h1) < 2 ^ 40" using seq h1(4) by simp
  have hid: "push_bit ARPC_ROOT_SHIFT (root_for th h1 tag owner) OR h_next_seq h1 = hid"
    using h1(4,5) by (simp add: hid_def root_for_def)
  show "arpc_handle_put alloc th h ptr tag owner = Some (0, h) \<and> \<not> (\<forall>n. alloc n) \<or>
    (\<exists>h'. arpc_handle_put alloc th h ptr tag owner = Some (hid, h') \<and> hinv h' \<and>
       hview h' = (hview h)(hid \<mapsto> new_slot hid ptr tag owner) \<and>
       h_next_seq h' = h_next_seq h + 1 \<and> h_freed h' = h_freed h)"
  proof (cases ok)
    case True
    with h1(7) have "h_cap h1 \<noteq> 0" "Suc (h_used h1) < h_cap h1" by auto
    from put_new_view(1) [OF h1(2) this ptr new1 seq1, of th owner, unfolded hid, unfolded h1(3,4,6)]
      put True show ?thesis by auto
  next
    case False
    with put h1(8,9) show ?thesis by auto
  qed
  show so: "seq_of hid = unat (h_next_seq h)" unfolding hid_def by (rule new_id(1) [OF seq])
  show "hid \<noteq> 0" using so inv by (auto simp: hinv_def seq_of_def)
  show "hview h hid = None" using inv so by (auto simp: hview_None hinv_def)
qed

text \<open>Adopting sets the release function of the slot the object is in.\<close>

lemma adopt_cases:
  assumes inv: "hinv h" and seq: "unat (h_next_seq h) < 2 ^ 40"
  shows "arpc_handle_adopt alloc th h ptr owner f = Some (0, h) \<and> \<not> (ptr \<noteq> 0 \<and> (\<forall>n. alloc n)) \<or>
    (\<exists>hid h' s. arpc_handle_adopt alloc th h ptr owner f = Some (hid, h') \<and> hid \<noteq> 0 \<and> hinv h' \<and>
       hview h' = (hview h)(hid \<mapsto> s) \<and> s_ptr s = ptr \<and> s_release s = Some f \<and> h_freed h' = h_freed h \<and>
       (case hview h hid of None \<Rightarrow> \<nexists>s. filed h ptr ARPC_H_NONE s | Some s0 \<Rightarrow> filed h ptr ARPC_H_NONE s0))"
proof (cases "arpc_handle_put alloc th h ptr ARPC_H_NONE owner = Some (0, h)")
  case True
  have "\<not> (ptr \<noteq> 0 \<and> (\<forall>n. alloc n))"
  proof
    assume a: "ptr \<noteq> 0 \<and> (\<forall>n. alloc n)"
    show False
    proof (cases "\<exists>s. filed h ptr ARPC_H_NONE s")
      case True
      then obtain s where s: "filed h ptr ARPC_H_NONE s" ..
      then have "s_id s \<noteq> 0" using filed_live [OF inv] by (auto simp: live_def)
      with put_known [OF inv s, of alloc th owner] \<open>arpc_handle_put alloc th h ptr ARPC_H_NONE owner = Some (0, h)\<close> show False by simp
    next
      case False
      with put_unknown(1) [OF inv _ False seq, where th = th and owner = owner and alloc = alloc]
        put_unknown(2) [OF inv _ False seq, of th owner] a True show False by auto
    qed
  qed
  with True show ?thesis by (simp add: arpc_handle_adopt_def hfind_def)
next
  case False
  then have ptr: "ptr \<noteq> 0" by (auto simp: arpc_handle_put_def)
  obtain hid h1 s where put: "arpc_handle_put alloc th h ptr ARPC_H_NONE owner = Some (hid, h1)" "hid \<noteq> 0"
      "hinv h1" "hview h1 = (hview h)(hid \<mapsto> s)" "s_id s = hid" "s_ptr s = ptr" "h_freed h1 = h_freed h"
      "case hview h hid of None \<Rightarrow> \<nexists>s. filed h ptr ARPC_H_NONE s | Some s0 \<Rightarrow> filed h ptr ARPC_H_NONE s0"
  proof (cases "\<exists>s. filed h ptr ARPC_H_NONE s")
    case True
    then obtain s where s: "filed h ptr ARPC_H_NONE s" ..
    then have "s_id s \<noteq> 0" using filed_live [OF inv] by (auto simp: live_def)
    with put_known [OF inv s, of alloc th owner] s that show ?thesis by (auto simp: filed_def)
  next
    case False
    with put_unknown(1) [OF inv ptr False seq, where th = th and owner = owner and alloc = alloc]
      put_unknown(2,3) [OF inv ptr False seq, of th owner] that
      \<open>arpc_handle_put alloc th h ptr ARPC_H_NONE owner \<noteq> Some (0, h)\<close> show ?thesis
      by (auto simp: new_slot_def)
  qed
  have view1: "hview h1 hid = Some s" using put(4) by simp
  from hfind_view [OF put(3), of hid] view1 obtain i where i: "hfind h1 hid = Some (Some i)"
      "i < length (h_tab h1)" "h_tab h1 ! i = s"
    by (auto split: option.splits)
  have "s \<in> live (h_tab h1)" using view1 hview_iff [OF put(3)] by simp
  with modify_slot [OF put(3) i(2), of "s\<lparr>s_release := Some f\<rparr>"] i(3)
  have "hinv (h1\<lparr>h_tab := (h_tab h1)[i := s\<lparr>s_release := Some f\<rparr>]\<rparr>)"
    "hview (h1\<lparr>h_tab := (h_tab h1)[i := s\<lparr>s_release := Some f\<rparr>]\<rparr>) = (hview h1)(hid \<mapsto> s\<lparr>s_release := Some f\<rparr>)"
    using put(5) by (simp_all add: slot_key_def)
  with put i show ?thesis
    by (intro disjI2) (simp add: arpc_handle_adopt_def, intro exI [of _ "s\<lparr>s_release := Some f\<rparr>"], simp)
qed

section \<open>Dropping\<close>

text \<open>What the objects in the table still have to be released with.\<close>

definition pending :: "htab \<Rightarrow> (nat \<times> 64 word) multiset" where
  "pending h = mset (concat (map released (live_list (h_tab h))))"

lemma pending_live:
  assumes "hinv h'" and "distinct xs" and "set xs = live (h_tab h')"
  shows "pending h' = mset (concat (map released xs))"
proof -
  have "distinct (live_list (h_tab h'))"
  proof (cases "h_cap h' = 0")
    case False
    from tabs_distinct(1) [OF hinv_tabs(1) [OF assms(1) this]] show ?thesis by (simp add: distinct_map)
  qed (use assms(1) in \<open>auto simp: hinv_def tabs_ok_def\<close>)
  then have "mset (live_list (h_tab h')) = mset xs"
    using assms(2,3) by (simp only: set_eq_iff_mset_eq_distinct [symmetric] set_live_list)
  moreover have "mset (concat (map released ys)) = sum_mset (image_mset (mset \<circ> released) (mset ys))" for ys
    by (induction ys) auto
  ultimately show ?thesis by (simp add: pending_def)
qed

text \<open>
  A drop keeps the slots \<open>K\<close> accepts and releases the others, all of it or, without memory,
  nothing. No object is released twice or forgotten.
\<close>

lemma drop_matching_view:
  assumes inv: "hinv h" and keep: "\<And>s. s \<in> live (h_tab h) \<Longrightarrow> keep s = Some (K s)"
  shows "\<exists>h'. drop_matching alloc h keep = Some h' \<and> hinv h' \<and> h_next_seq h' = h_next_seq h \<and>
     (h' = h \<and> \<not> (\<forall>n. alloc n) \<or>
      (\<forall>hid. hview h' hid = (case hview h hid of None \<Rightarrow> None | Some s \<Rightarrow> if K s then Some s else None))) \<and>
     mset (h_freed h') + pending h' = mset (h_freed h) + pending h"
proof (cases "h_cap h = 0")
  case True
  then have "hview h hid = None" for hid using inv by (auto simp: hinv_def hview_def tabs_ok_def)
  with True inv show ?thesis by (simp add: drop_matching_def)
next
  case False
  note t = hinv_tabs [OF inv False]
  have cap: "pow2 (h_cap h)" using t by (simp add: tabs_ok_def)
  note r = rebuild_view [where alloc = alloc and keep = keep and K = K, OF inv cap keep t(2)]
  from r(1) consider "rebuild alloc h (h_cap h) keep = Some (False, h)"
    | h' where "rebuild alloc h (h_cap h) keep = Some (True, h')" "hinv h'" "h_next_seq h' = h_next_seq h"
        "live (h_tab h') = {s \<in> live (h_tab h). K s}"
        "h_freed h' = h_freed h @ concat (map released (filter (\<lambda>s. \<not> K s) (live_list (h_tab h))))"
    by auto
  then show ?thesis
  proof cases
    case 1
    with False inv r(2) show ?thesis by (auto simp: drop_matching_def)
  next
    case 2
    let ?l = "live_list (h_tab h)"
    have "distinct ?l" using tabs_distinct(1) [OF t(1)] by (simp add: distinct_map)
    then have "pending h' = mset (concat (map released (filter K ?l)))"
      by (intro pending_live [OF 2(2) distinct_filter]) (use 2(4) in \<open>auto simp: live_def\<close>)
    moreover have "mset (concat (map released (filter (\<lambda>s. \<not> K s) xs))) + mset (concat (map released (filter K xs))) =
        mset (concat (map released xs))" for xs
      by (induction xs) auto
    ultimately have "mset (h_freed h') + pending h' = mset (h_freed h) + pending h"
      using 2(5) by (simp add: pending_def add.assoc del: filter_filter)
    with 2 False hview_live [OF inv 2(2,4)] show ?thesis by (simp add: drop_matching_def)
  qed
qed

lemma keep_outside_view:
  "hinv h \<Longrightarrow> keep_outside h o' s = Some (\<not> under_in 8 (hview h) (s_id s) o')"
  by (simp add: keep_outside_def under_view)

lemma keep_outside_or_self_view:
  "hinv h \<Longrightarrow> keep_outside_or_self h o' s = Some (s_id s = o' \<or> \<not> under_in 8 (hview h) (s_id s) o')"
  by (simp add: keep_outside_or_self_def under_view)

text \<open>A map without the ids below an owner, and with or without the owner itself.\<close>

definition prune :: "(64 word \<rightharpoonup> slot) \<Rightarrow> 64 word \<Rightarrow> bool \<Rightarrow> 64 word \<rightharpoonup> slot" where
  "prune v owner self =
     (\<lambda>hid. if under_in 8 v hid owner \<and> \<not> (self \<and> hid = owner) then None else v hid)"

lemma prune_filter:
  assumes "hinv h" and "\<And>s. s \<in> live (h_tab h) \<Longrightarrow> K s \<longleftrightarrow> \<not> (under_in 8 (hview h) (s_id s) owner \<and> \<not> (self \<and> s_id s = owner))"
    and "\<forall>hid. hview h' hid = (case hview h hid of None \<Rightarrow> None | Some s \<Rightarrow> if K s then Some s else None)"
  shows "hview h' = prune (hview h) owner self"
proof
  fix hid
  show "hview h' hid = prune (hview h) owner self hid"
  proof (cases "hview h hid")
    case (Some s)
    then have "s \<in> live (h_tab h)" "s_id s = hid" using hview_iff [OF assms(1)] by auto
    with Some assms(2) [of s] assms(3) show ?thesis by (auto simp: prune_def)
  qed (use assms(3) in \<open>simp add: prune_def\<close>)
qed

lemma drop_owner_view:
  assumes "hinv h" and "owner \<noteq> 0"
  shows "\<exists>h'. arpc_handle_drop_owner alloc (h, regs) owner = Some (h', arpc_cb_purge regs owner) \<and>
     hinv h' \<and> h_next_seq h' = h_next_seq h \<and>
     (h' = h \<and> \<not> (\<forall>n. alloc n) \<or> hview h' = prune (hview h) owner False) \<and>
     mset (h_freed h') + pending h' = mset (h_freed h) + pending h"
proof -
  note d = drop_matching_view [OF assms(1), of "keep_outside h owner"
      "\<lambda>s. \<not> under_in 8 (hview h) (s_id s) owner" alloc, OF keep_outside_view [OF assms(1)]]
  then obtain h' where h': "drop_matching alloc h (keep_outside h owner) = Some h'" "hinv h'"
      "h_next_seq h' = h_next_seq h" "mset (h_freed h') + pending h' = mset (h_freed h) + pending h"
      "h' = h \<and> \<not> (\<forall>n. alloc n) \<or>
      (\<forall>hid. hview h' hid = (case hview h hid of None \<Rightarrow> None
        | Some s \<Rightarrow> if \<not> under_in 8 (hview h) (s_id s) owner then Some s else None))" by blast
  from h'(5) have "h' = h \<and> \<not> (\<forall>n. alloc n) \<or> hview h' = prune (hview h) owner False"
    using prune_filter [OF assms(1), of "\<lambda>s. \<not> under_in 8 (hview h) (s_id s) owner" owner False h'] by blast
  with h' assms(2) show ?thesis by (simp add: arpc_handle_drop_owner_def)
qed

lemma drop_under_view:
  assumes "hinv h" and "owner \<noteq> 0"
  shows "\<exists>h'. arpc_handle_drop_under alloc h owner = Some h' \<and> hinv h' \<and> h_next_seq h' = h_next_seq h \<and>
     (h' = h \<and> \<not> (\<forall>n. alloc n) \<or> hview h' = prune (hview h) owner True) \<and>
     mset (h_freed h') + pending h' = mset (h_freed h) + pending h"
proof -
  note d = drop_matching_view [OF assms(1), of "keep_outside_or_self h owner"
      "\<lambda>s. s_id s = owner \<or> \<not> under_in 8 (hview h) (s_id s) owner" alloc, OF keep_outside_or_self_view [OF assms(1)]]
  then obtain h' where h': "drop_matching alloc h (keep_outside_or_self h owner) = Some h'" "hinv h'"
      "h_next_seq h' = h_next_seq h" "mset (h_freed h') + pending h' = mset (h_freed h) + pending h"
      "h' = h \<and> \<not> (\<forall>n. alloc n) \<or>
      (\<forall>hid. hview h' hid = (case hview h hid of None \<Rightarrow> None
        | Some s \<Rightarrow> if s_id s = owner \<or> \<not> under_in 8 (hview h) (s_id s) owner then Some s else None))" by blast
  from h'(5) have "h' = h \<and> \<not> (\<forall>n. alloc n) \<or> hview h' = prune (hview h) owner True"
    using prune_filter [OF assms(1), of "\<lambda>s. s_id s = owner \<or> \<not> under_in 8 (hview h) (s_id s) owner" owner True h'] by auto
  with h' assms(2) show ?thesis by (simp add: arpc_handle_drop_under_def)
qed

lemma drop_view:
  assumes "hinv h"
  shows "\<exists>h'. arpc_handle_drop alloc h hid = Some h' \<and> hinv h' \<and> h_next_seq h' = h_next_seq h \<and>
     (h' = h \<and> \<not> (\<forall>n. alloc n) \<or> hview h' = (hview h)(hid := None)) \<and>
     mset (h_freed h') + pending h' = mset (h_freed h) + pending h"
proof -
  from hfind_view [OF assms, of hid] obtain r where r: "hfind h hid = Some r"
      "case r of None \<Rightarrow> hview h hid = None | Some i \<Rightarrow> hview h hid = Some (h_tab h ! i)"
    by (auto split: option.splits)
  show ?thesis
  proof (cases r)
    case None
    then have "hview h = (hview h)(hid := None)" using r by (auto simp: fun_eq_iff)
    with r None assms show ?thesis by (auto simp: arpc_handle_drop_def)
  next
    case (Some i)
    from drop_matching_view [OF assms, of "keep_not hid" "\<lambda>s. s_id s \<noteq> hid" alloc]
    obtain h' where h': "drop_matching alloc h (keep_not hid) = Some h'" "hinv h'"
      "h_next_seq h' = h_next_seq h" "mset (h_freed h') + pending h' = mset (h_freed h) + pending h"
      "h' = h \<and> \<not> (\<forall>n. alloc n) \<or>
      (\<forall>x. hview h' x = (case hview h x of None \<Rightarrow> None | Some s \<Rightarrow> if s_id s \<noteq> hid then Some s else None))"
      by (auto simp: keep_not_def)
    have "(case hview h x of None \<Rightarrow> None | Some s \<Rightarrow> if s_id s \<noteq> hid then Some s else None) = ((hview h)(hid := None)) x" for x
    proof (cases "hview h x")
      case (Some s)
      then have "s_id s = x" using hview_iff [OF assms] by auto
      with Some show ?thesis by auto
    qed simp
    with h'(5) have "h' = h \<and> \<not> (\<forall>n. alloc n) \<or> hview h' = (hview h)(hid := None)" by (auto simp: fun_eq_iff)
    with h' r Some show ?thesis by (simp add: arpc_handle_drop_def)
  qed
qed

lemma reset_releases:
  "mset (h_freed (arpc_handle_reset h)) = mset (h_freed h) + pending h" "pending (arpc_handle_reset h) = {#}"
proof -
  have "concat (map (\<lambda>s. if s_id s \<noteq> 0 then released s else []) xs) = concat (map released (live_list xs))" for xs
    by (induction xs) auto
  then show "mset (h_freed (arpc_handle_reset h)) = mset (h_freed h) + pending h"
    by (simp add: arpc_handle_reset_def pending_def)
qed (simp add: arpc_handle_reset_def pending_def)

lemma reset_view:
  assumes "hinv h"
  shows "hinv (arpc_handle_reset h)" "hview (arpc_handle_reset h) = Map.empty"
    "h_next_seq (arpc_handle_reset h) = h_next_seq h"
  using assms by (auto simp: arpc_handle_reset_def hinv_def live_def hview_def)

section \<open>A server's steps with the table\<close>

text \<open>
  Any operation, with any answers of the allocator. Fewer than \<open>2 ^ 40\<close> objects are filed in
  a server's life, which is what the bits below the root number hold.
\<close>

inductive table_op :: "nat \<Rightarrow> htab \<times> cbreg list \<Rightarrow> htab \<times> cbreg list \<Rightarrow> bool" for th :: nat where
  put: "unat (h_next_seq h) < 2 ^ 40 \<Longrightarrow>
    arpc_handle_put alloc th h ptr tag owner = Some (hid, h') \<Longrightarrow> table_op th (h, regs) (h', regs)"
| drop_one: "arpc_handle_drop alloc h hid = Some h' \<Longrightarrow> table_op th (h, regs) (h', regs)"
| drop_owner: "arpc_handle_drop_owner alloc st owner = Some st' \<Longrightarrow> table_op th st st'"
| drop_under: "arpc_handle_drop_under alloc h owner = Some h' \<Longrightarrow> table_op th (h, regs) (h', regs)"
| drop_ptr: "arpc_handle_drop_ptr alloc st ptr tag = Some st' \<Longrightarrow> table_op th st st'"
| reset: "table_op th (h, regs) (arpc_handle_reset h, regs)"

inductive handle_step :: "nat \<Rightarrow> htab \<times> cbreg list \<Rightarrow> htab \<times> cbreg list \<Rightarrow> bool" for th :: nat where
  adopt: "unat (h_next_seq h) < 2 ^ 40 \<Longrightarrow>
    arpc_handle_adopt alloc th h ptr owner f = Some (hid, h') \<Longrightarrow> handle_step th (h, regs) (h', regs)"
| operate: "table_op th st st' \<Longrightarrow> handle_step th st st'"

text \<open>
  What a step does to the map: the ids of the new one were there before, or are made from
  the next sequence number.
\<close>

definition step_ok :: "htab \<Rightarrow> htab \<Rightarrow> bool" where
  "step_ok h h' \<longleftrightarrow>
     hinv h' \<and> unat (h_next_seq h) \<le> unat (h_next_seq h') \<and>
     (\<forall>hid. hview h' hid \<noteq> None \<longrightarrow> hview h hid \<noteq> None \<or> unat (h_next_seq h) \<le> seq_of hid)"

lemma step_ok_refl: "hinv h \<Longrightarrow> step_ok h h"
  by (simp add: step_ok_def)

lemma step_ok_sub:
  "hinv h' \<Longrightarrow> h_next_seq h' = h_next_seq h \<Longrightarrow> (\<And>hid. hview h' hid \<noteq> None \<Longrightarrow> hview h hid \<noteq> None) \<Longrightarrow> step_ok h h'"
  by (auto simp: step_ok_def)

lemma step_ok_trans: "step_ok h h1 \<Longrightarrow> step_ok h1 h2 \<Longrightarrow> step_ok h h2"
  unfolding step_ok_def by (meson le_trans)

lemma step_ok_put:
  assumes inv: "hinv h" and seq: "unat (h_next_seq h) < 2 ^ 40"
    and put: "arpc_handle_put alloc th h ptr tag owner = Some (hid, h')"
  shows "step_ok h h'"
proof (cases "ptr = 0")
  case True
  with put inv show ?thesis by (simp add: arpc_handle_put_def step_ok_refl)
next
  case ptr: False
  show ?thesis
  proof (cases "\<exists>s. filed h ptr tag s")
    case True
    then obtain s where s: "filed h ptr tag s" ..
    with put_known [OF inv s, of alloc th owner] put have "hinv h'" "h_next_seq h' = h_next_seq h"
        "\<exists>x. hview h' = (hview h)(s_id s \<mapsto> x)" by auto
    with s show ?thesis by (intro step_ok_sub) (auto simp: filed_def split: if_splits)
  next
    case False
    have "unat (h_next_seq h + 1) = Suc (unat (h_next_seq h))" using seq by (simp add: unat_word_ariths)
    with put_unknown(1) [OF inv ptr False seq, where alloc = alloc and th = th and owner = owner]
      put_unknown(4) [OF inv ptr False seq, of th owner] put inv
    show ?thesis by (auto simp: step_ok_def split: if_splits)
  qed
qed

lemma step_ok_adopt:
  assumes inv: "hinv h" and seq: "unat (h_next_seq h) < 2 ^ 40"
    and adopt: "arpc_handle_adopt alloc th h ptr owner f = Some (hid, h')"
  shows "step_ok h h'"
proof -
  from adopt obtain h1 r where h1: "arpc_handle_put alloc th h ptr ARPC_H_NONE owner = Some (hid, h1)"
      "hfind h1 hid = Some r"
      "h' = (case r of None \<Rightarrow> h1 | Some i \<Rightarrow> h1\<lparr>h_tab := (h_tab h1)[i := (h_tab h1 ! i)\<lparr>s_release := Some f\<rparr>]\<rparr>)"
    by (auto simp: arpc_handle_adopt_def bind_eq_Some_conv)
  have ok1: "step_ok h h1" by (rule step_ok_put [OF inv seq h1(1)])
  then have inv1: "hinv h1" by (simp add: step_ok_def)
  have "step_ok h1 h'"
  proof (cases r)
    case None
    with h1(3) inv1 show ?thesis by (simp add: step_ok_refl)
  next
    case (Some i)
    with hfind_view [OF inv1, of hid] h1(2) have i: "i < length (h_tab h1)" "hview h1 hid = Some (h_tab h1 ! i)" by auto
    then have l: "h_tab h1 ! i \<in> live (h_tab h1)" "s_id (h_tab h1 ! i) = hid" using hview_iff [OF inv1] by auto
    from modify_slot [OF inv1 i(1) l(1), of "(h_tab h1 ! i)\<lparr>s_release := Some f\<rparr>"] h1(3) Some i(2) l(2)
    show ?thesis by (intro step_ok_sub) (auto simp: slot_key_def split: if_splits)
  qed
  with ok1 show ?thesis by (rule step_ok_trans)
qed

lemma step_ok_drop_owner:
  assumes inv: "hinv h" and drop: "arpc_handle_drop_owner alloc (h, regs) owner = Some (h', regs')"
  shows "step_ok h h'"
proof (cases "owner = 0")
  case True
  with drop inv show ?thesis by (auto simp: arpc_handle_drop_owner_def step_ok_refl)
next
  case False
  from drop_owner_view [OF inv False, of alloc regs] drop show ?thesis
    by (auto intro!: step_ok_sub simp: prune_def split: if_splits)
qed

lemma table_op_ok:
  assumes "table_op th st st'" and "hinv (fst st)"
  shows "step_ok (fst st) (fst st')"
  using assms
proof (cases rule: table_op.cases)
  case (drop_one alloc h hid h' regs)
  with drop_view [of h alloc hid] assms(2) show ?thesis
    by (auto intro!: step_ok_sub split: if_splits)
next
  case (drop_owner alloc owner)
  with step_ok_drop_owner assms(2) show ?thesis by (metis prod.collapse)
next
  case (drop_under alloc h owner h' regs)
  show ?thesis
  proof (cases "owner = 0")
    case True
    with drop_under assms(2) show ?thesis by (auto simp: arpc_handle_drop_under_def step_ok_refl)
  next
    case False
    with drop_under_view [of h owner alloc] drop_under assms(2) show ?thesis
      by (auto intro!: step_ok_sub simp: prune_def split: if_splits)
  qed
next
  case (drop_ptr alloc ptr tag)
  then consider "st' = st" | o' where "arpc_handle_drop_owner alloc st o' = Some st'"
    by (auto simp: arpc_handle_drop_ptr_def bind_eq_Some_conv split: option.splits)
  then show ?thesis
    by cases (use step_ok_drop_owner assms(2) in \<open>auto simp: step_ok_refl, metis prod.collapse\<close>)
next
  case (reset h regs)
  with reset_view [of h] assms(2) show ?thesis by (auto intro!: step_ok_sub)
qed (use assms(2) step_ok_put in auto)

theorem handle_step_ok:
  assumes "handle_step th st st'" and "hinv (fst st)"
  shows "step_ok (fst st) (fst st')"
  using assms by (cases rule: handle_step.cases) (auto intro: step_ok_adopt table_op_ok)

inductive handle_steps :: "nat \<Rightarrow> htab \<times> cbreg list \<Rightarrow> htab \<times> cbreg list \<Rightarrow> bool" for th :: nat where
  steps_refl: "handle_steps th st st"
| steps_step: "handle_steps th st st1 \<Longrightarrow> handle_step th st1 st2 \<Longrightarrow> handle_steps th st st2"

lemma handle_steps_ok:
  "handle_steps th st st' \<Longrightarrow> hinv (fst st) \<Longrightarrow> step_ok (fst st) (fst st')"
proof (induction rule: handle_steps.induct)
  case (steps_refl st)
  then show ?case by (simp add: step_ok_refl)
next
  case (steps_step st st1 st2)
  then have "step_ok (fst st) (fst st1)" by blast
  moreover from this have "hinv (fst st1)" by (simp add: step_ok_def)
  ultimately show ?case using handle_step_ok [OF steps_step.hyps(2)] step_ok_trans by blast
qed

end
