(* ===== verification/Handle_Ledger.thy ===== *)
theory Handle_Ledger
  imports Handle_Ops
begin

text \<open>
  The account of the objects a server adopts: which of them have been adopted so far, over the
  whole life of the table, against what is still to be released and what has been.
\<close>

section \<open>What is pending\<close>

text \<open>The releases of the slots with the given ids.\<close>

definition slot_releases :: "(64 word \<rightharpoonup> slot) \<Rightarrow> 64 word set \<Rightarrow> (nat \<times> 64 word) multiset" where
  "slot_releases v H = (\<Sum>hid \<in> H. mset (released (the (v hid))))"

lemma slot_releases_insert:
  "finite H \<Longrightarrow> hid \<notin> H \<Longrightarrow> slot_releases v (insert hid H) = mset (released (the (v hid))) + slot_releases v H"
  by (simp add: slot_releases_def)

lemma finite_view: "hinv h \<Longrightarrow> finite (dom (hview h))"
proof -
  assume inv: "hinv h"
  have "dom (hview h) \<subseteq> s_id ` live (h_tab h)" using hview_iff [OF inv] by (auto simp: dom_def)
  then show ?thesis by (rule finite_subset) (simp add: live_def)
qed

lemma pending_view:
  assumes inv: "hinv h"
  shows "pending h = slot_releases (hview h) (dom (hview h))"
proof -
  let ?l = "live_list (h_tab h)"
  have d: "distinct (map s_id ?l)"
  proof (cases "h_cap h = 0")
    case False
    from tabs_distinct(1) [OF hinv_tabs(1) [OF inv this]] show ?thesis .
  qed (use inv in \<open>auto simp: hinv_def tabs_ok_def\<close>)
  have "mset (concat (map released xs)) = sum_list (map (\<lambda>s. mset (released s)) xs)" for xs
    by (induction xs) auto
  then have "pending h = (\<Sum>s \<in> set ?l. mset (released s))"
    using d by (simp only: pending_def sum_list_distinct_conv_sum_set distinct_map)
  also have "\<dots> = (\<Sum>s \<in> live (h_tab h). mset (released s))" by (simp only: set_live_list)
  also have "\<dots> = (\<Sum>s \<in> live (h_tab h). mset (released (the (hview h (s_id s)))))"
  proof (rule sum.cong)
    fix s
    assume "s \<in> live (h_tab h)"
    then have "hview h (s_id s) = Some s" using hview_iff [OF inv] by blast
    then show "mset (released s) = mset (released (the (hview h (s_id s))))" by simp
  qed simp
  also have "\<dots> = (\<Sum>hid \<in> s_id ` live (h_tab h). mset (released (the (hview h hid))))"
    using d unfolding distinct_map set_live_list by (simp add: sum.reindex)
  also have "s_id ` live (h_tab h) = dom (hview h)"
    using hview_iff [OF inv] by (auto simp: dom_def image_iff)
  finally show ?thesis by (simp add: slot_releases_def)
qed

text \<open>What leaves the map, with the account balanced, has been released.\<close>

lemma drop_account:
  assumes "hinv h" and "hinv h'" and view: "\<And>hid. hview h' hid = (if hid \<in> D then None else hview h hid)"
    and "mset (h_freed h') + pending h' = mset (h_freed h) + pending h"
  shows "mset (h_freed h') = mset (h_freed h) + slot_releases (hview h) (dom (hview h) \<inter> D)"
proof -
  have dom: "dom (hview h') = dom (hview h) - D" using view by (auto simp: dom_def split: if_splits)
  have "slot_releases (hview h') (dom (hview h')) = slot_releases (hview h) (dom (hview h) - D)"
    unfolding slot_releases_def dom by (rule sum.cong) (use view in auto)
  moreover have "slot_releases (hview h) (dom (hview h)) = slot_releases (hview h) (dom (hview h) \<inter> D) + slot_releases (hview h) (dom (hview h) - D)"
    unfolding slot_releases_def using sum.Int_Diff [OF finite_view [OF assms(1)]] by blast
  ultimately show ?thesis using assms(4) by (simp add: pending_view assms(1,2))
qed

section \<open>The ledger\<close>

text \<open>
  An object adopted again while it is on file is still one object: the later release function
  takes the place of the one it was filed with.
\<close>

definition superseded :: "htab \<Rightarrow> 64 word \<Rightarrow> (nat \<times> 64 word) multiset" where
  "superseded h ptr =
     (case hfind_ptr h ptr ARPC_H_NONE of Some (Some i) \<Rightarrow> mset (released (h_tab h ! i)) | _ \<Rightarrow> {#})"

lemma superseded_filed:
  assumes "hinv h" and "ptr \<noteq> 0"
  shows "(\<nexists>s. filed h ptr ARPC_H_NONE s) \<Longrightarrow> superseded h ptr = {#}"
    and "filed h ptr ARPC_H_NONE s \<Longrightarrow> superseded h ptr = mset (released s)"
proof -
  from hfind_ptr_view [OF assms, of ARPC_H_NONE] obtain r where r: "hfind_ptr h ptr ARPC_H_NONE = Some r"
    "case r of None \<Rightarrow> \<forall>s \<in> live (h_tab h). slot_key s \<noteq> (ptr, ARPC_H_NONE)
      | Some i \<Rightarrow> i < length (h_tab h) \<and> h_tab h ! i \<in> live (h_tab h) \<and> slot_key (h_tab h ! i) = (ptr, ARPC_H_NONE)"
    by blast
  then show "(\<nexists>s. filed h ptr ARPC_H_NONE s) \<Longrightarrow> superseded h ptr = {#}"
    by (auto simp: superseded_def filed_live [OF assms(1)] split: option.splits)
  show "superseded h ptr = mset (released s)" if "filed h ptr ARPC_H_NONE s"
  proof -
    have s: "s \<in> live (h_tab h)" "slot_key s = (ptr, ARPC_H_NONE)" using that filed_live [OF assms(1)] by auto
    with r(2) obtain i where i: "r = Some i" "h_tab h ! i \<in> live (h_tab h)" "slot_key (h_tab h ! i) = (ptr, ARPC_H_NONE)"
      by (auto split: option.splits)
    have "h_cap h \<noteq> 0" using s(1) assms(1) by (auto simp: hinv_def live_def)
    from tabs_distinct(2) [OF hinv_tabs(1) [OF assms(1) this]] have "inj_on slot_key (live (h_tab h))"
      by (simp only: distinct_map set_live_list)
    then have "h_tab h ! i = s" by (rule inj_onD) (use i s in auto)
    with r(1) i(1) show ?thesis by (simp add: superseded_def)
  qed
qed

lemma adopt_account:
  assumes inv: "hinv h" and seq: "unat (h_next_seq h) < 2 ^ 40"
    and adopt: "arpc_handle_adopt alloc th h ptr owner f = Some (hid, h')"
  shows "hinv h' \<and> h_freed h' = h_freed h \<and>
    (if hid = 0 then pending h' = pending h
     else superseded h ptr \<subseteq># pending h \<and> pending h' = add_mset (f, ptr) (pending h - superseded h ptr))"
proof (cases "hid = 0")
  case True
  with adopt_cases [OF inv seq, of alloc th ptr owner f] adopt inv show ?thesis by auto
next
  case False
  then obtain s where s: "hinv h'" "hview h' = (hview h)(hid \<mapsto> s)" "s_ptr s = ptr" "s_release s = Some f" "h_freed h' = h_freed h"
      "case hview h hid of None \<Rightarrow> \<nexists>s. filed h ptr ARPC_H_NONE s | Some s0 \<Rightarrow> filed h ptr ARPC_H_NONE s0"
    using adopt_cases [OF inv seq, of alloc th ptr owner f] adopt by auto
  have ptr: "ptr \<noteq> 0" using False adopt by (auto simp: arpc_handle_adopt_def arpc_handle_put_def bind_eq_Some_conv)
  let ?v = "hview h" and ?D = "dom (hview h) - {hid}"
  have rest: "slot_releases (?v(hid \<mapsto> s)) ?D = slot_releases ?v ?D" unfolding slot_releases_def by (rule sum.cong) auto
  have "pending h' = slot_releases (?v(hid \<mapsto> s)) (insert hid ?D)" using pending_view [OF s(1)] s(2) by (simp add: insert_Diff_if)
  also have "\<dots> = add_mset (f, ptr) (slot_releases ?v ?D)"
    using slot_releases_insert [of ?D hid "?v(hid \<mapsto> s)"] finite_view [OF inv] s(3,4) rest by (simp add: released_def)
  finally have new: "pending h' = add_mset (f, ptr) (slot_releases ?v ?D)" .
  have old: "pending h = superseded h ptr + slot_releases ?v ?D"
  proof (cases "?v hid")
    case None
    then have "?D = dom ?v" by auto
    with pending_view [OF inv] superseded_filed(1) [OF inv ptr] s(6) None show ?thesis by simp
  next
    case (Some s0)
    then have "dom ?v = insert hid ?D" by auto
    with pending_view [OF inv] have "pending h = slot_releases ?v (insert hid ?D)" by simp
    with superseded_filed(2) [OF inv ptr, of s0] s(6) Some finite_view [OF inv] slot_releases_insert [of ?D hid ?v]
    show ?thesis by simp
  qed
  show ?thesis using False s(1,5) new old by simp
qed

text \<open>Every other operation moves releases from pending to done, or leaves both.\<close>

lemma put_account:
  assumes inv: "hinv h" and seq: "unat (h_next_seq h) < 2 ^ 40" and put: "arpc_handle_put alloc th h ptr tag owner = Some (hid, h')"
  shows "h_freed h' = h_freed h \<and> pending h' = pending h"
proof -
  have same: "pending h' = pending h" if h': "hinv h'" "hview h' = (hview h)(i \<mapsto> s)"
    and r: "released s = (case hview h i of None \<Rightarrow> [] | Some s0 \<Rightarrow> released s0)" for i s
  proof -
    let ?D = "dom (hview h) - {i}"
    have "slot_releases (hview h') ?D = slot_releases (hview h) ?D" unfolding slot_releases_def h'(2) by (rule sum.cong) auto
    moreover have "pending h' = mset (released s) + slot_releases (hview h') ?D"
      using slot_releases_insert [of ?D i "hview h'"] finite_view [OF inv] pending_view [OF h'(1)] h'(2) by (simp add: insert_Diff_if)
    moreover have "pending h = mset (released s) + slot_releases (hview h) ?D"
    proof (cases "hview h i")
      case (Some s0)
      then have "dom (hview h) = insert i ?D" by auto
      with slot_releases_insert [of ?D i "hview h"] finite_view [OF inv] pending_view [OF inv] Some r show ?thesis by simp
    qed (use r pending_view [OF inv] in \<open>simp add: domIff\<close>)
    ultimately show ?thesis by simp
  qed
  consider "ptr = 0" | s where "ptr \<noteq> 0" "filed h ptr tag s" | "ptr \<noteq> 0" "\<nexists>s. filed h ptr tag s" by blast
  then show ?thesis
  proof cases
    case 2
    from put_known [OF inv 2(2), of alloc th owner] put obtain o' where k: "hinv h'" "h_freed h' = h_freed h"
        "hview h' = (hview h)(s_id s \<mapsto> s\<lparr>s_owner := o'\<rparr>)" by auto
    have "released (s\<lparr>s_owner := o'\<rparr>) = released s" by (simp add: released_def split: option.split)
    with same [OF k(1,3)] k(2) 2(2) show ?thesis by (simp add: filed_def)
  next
    case 3
    with put_unknown(1) [OF inv 3(1,2) seq, where alloc = alloc and th = th and owner = owner]
      put_unknown(3) [OF inv 3(1,2) seq, of th owner] put same show ?thesis
      by (auto simp: new_slot_def released_def)
  qed (use put in \<open>simp add: arpc_handle_put_def\<close>)
qed

lemma drop_owner_account:
  "hinv h \<Longrightarrow> arpc_handle_drop_owner alloc (h, regs) owner = Some (h', regs') \<Longrightarrow>
     mset (h_freed h') + pending h' = mset (h_freed h) + pending h"
  using drop_owner_view [of h owner alloc regs] by (cases "owner = 0") (auto simp: arpc_handle_drop_owner_def)

lemma op_account:
  assumes "table_op th st st'" and inv: "hinv (fst st)"
  shows "mset (h_freed (fst st')) + pending (fst st') = mset (h_freed (fst st)) + pending (fst st)"
  using assms(1)
proof (cases rule: table_op.cases)
  case (put h alloc ptr tag owner hid h' regs)
  with put_account [of h] inv show ?thesis by simp
next
  case (drop_one alloc h hid h' regs)
  with drop_view [of h alloc hid] inv show ?thesis by auto
next
  case (drop_owner alloc owner)
  then show ?thesis using drop_owner_account inv by (cases st; cases st') simp
next
  case (drop_under alloc h owner h' regs)
  with drop_under_view [of h owner alloc] inv show ?thesis by (cases "owner = 0") (auto simp: arpc_handle_drop_under_def)
next
  case (drop_ptr alloc ptr tag)
  then consider "st' = st" | o' where "arpc_handle_drop_owner alloc st o' = Some st'"
    by (auto simp: arpc_handle_drop_ptr_def bind_eq_Some_conv split: option.splits)
  then show ?thesis
    by cases (use drop_owner_account inv in \<open>cases st; cases st'; simp\<close>)+
qed (simp add: reset_releases)

inductive ledger :: "nat \<Rightarrow> (nat \<times> 64 word) multiset \<Rightarrow> htab \<times> cbreg list \<Rightarrow> bool" for th :: nat where
  opened: "ledger th {#} (htab_init, [])"
| adopted: "ledger th A (h, regs) \<Longrightarrow> unat (h_next_seq h) < 2 ^ 40 \<Longrightarrow>
    arpc_handle_adopt alloc th h ptr owner f = Some (hid, h') \<Longrightarrow>
    ledger th (if hid = 0 then A else add_mset (f, ptr) (A - superseded h ptr)) (h', regs)"
| operated: "ledger th A st \<Longrightarrow> table_op th st st' \<Longrightarrow> ledger th A st'"

text \<open>The books balance: what was adopted is what was released and what is still to be.\<close>

theorem ledger_balance:
  "ledger th A st \<Longrightarrow> hinv (fst st) \<and> A = mset (h_freed (fst st)) + pending (fst st)"
proof (induction rule: ledger.induct)
  case opened
  have "h_freed htab_init = []" "pending htab_init = {#}" by (simp_all add: htab_init_def pending_def)
  then show ?case by (simp add: hinv_init)
next
  case (adopted A h regs alloc ptr owner f hid h')
  then show ?case using adopt_account [of h alloc th ptr owner f hid h'] by (auto simp: subset_mset.diff_add_assoc2 diff_union_swap2)
next
  case (operated A st st')
  then show ?case using op_account table_op_ok by (auto simp: step_ok_def)
qed

text \<open>What each drop releases while there is memory: exactly the objects it takes off the file.\<close>

lemma drop_owner_releases:
  assumes "hinv h" and "owner \<noteq> 0" and "\<forall>n. alloc n"
  shows "\<exists>h'. arpc_handle_drop_owner alloc (h, regs) owner = Some (h', arpc_cb_purge regs owner) \<and>
    mset (h_freed h') = mset (h_freed h) + slot_releases (hview h) {hid \<in> dom (hview h). under_in 8 (hview h) hid owner}"
proof -
  obtain h' where h': "arpc_handle_drop_owner alloc (h, regs) owner = Some (h', arpc_cb_purge regs owner)" "hinv h'"
      "hview h' = prune (hview h) owner False" "mset (h_freed h') + pending h' = mset (h_freed h) + pending h"
    using drop_owner_view [OF assms(1,2), of alloc regs] assms(3) by auto
  have "hview h' hid = (if hid \<in> {hid. under_in 8 (hview h) hid owner} then None else hview h hid)" for hid
    using h'(3) by (simp add: prune_def)
  from drop_account [OF assms(1) h'(2) this h'(4)] h'(1) show ?thesis by (simp add: Int_def)
qed

lemma drop_under_releases:
  assumes "hinv h" and "owner \<noteq> 0" and "\<forall>n. alloc n"
  shows "\<exists>h'. arpc_handle_drop_under alloc h owner = Some h' \<and>
    mset (h_freed h') = mset (h_freed h) + slot_releases (hview h) {hid \<in> dom (hview h). under_in 8 (hview h) hid owner \<and> hid \<noteq> owner}"
proof -
  obtain h' where h': "arpc_handle_drop_under alloc h owner = Some h'" "hinv h'"
      "hview h' = prune (hview h) owner True" "mset (h_freed h') + pending h' = mset (h_freed h) + pending h"
    using drop_under_view [OF assms(1,2), of alloc] assms(3) by auto
  have "hview h' hid = (if hid \<in> {hid. under_in 8 (hview h) hid owner \<and> hid \<noteq> owner} then None else hview h hid)" for hid
    using h'(3) by (simp add: prune_def)
  from drop_account [OF assms(1) h'(2) this h'(4)] h'(1) show ?thesis by (simp add: Int_def)
qed

lemma drop_releases:
  assumes "hinv h" and "\<forall>n. alloc n"
  shows "\<exists>h'. arpc_handle_drop alloc h hid = Some h' \<and>
    mset (h_freed h') = mset (h_freed h) + (case hview h hid of None \<Rightarrow> {#} | Some s \<Rightarrow> mset (released s))"
proof -
  obtain h' where h': "arpc_handle_drop alloc h hid = Some h'" "hinv h'" "hview h' = (hview h)(hid := None)"
      "mset (h_freed h') + pending h' = mset (h_freed h) + pending h"
    using drop_view [OF assms(1), of alloc hid] assms(2) by auto
  have "hview h' i = (if i \<in> {hid} then None else hview h i)" for i using h'(3) by simp
  note r = drop_account [OF assms(1) h'(2) this h'(4)]
  have "slot_releases (hview h) (dom (hview h) \<inter> {hid}) = (case hview h hid of None \<Rightarrow> {#} | Some s \<Rightarrow> mset (released s))"
  proof (cases "hview h hid")
    case (Some s)
    then have "dom (hview h) \<inter> {hid} = {hid}" by auto
    with Some show ?thesis by (simp add: slot_releases_def)
  qed (simp add: slot_releases_def domIff)
  with r h'(1) show ?thesis by simp
qed

end
