(* ===== verification/Request.thy ===== *)
theory Request
  imports Json_Access Base64 Handle_Ops
begin

text \<open>
  The arguments of a call, \<^verbatim>\<open>arpc_req\<close> of \<^verbatim>\<open>src/server/arpc_server.c\<close>: a parsed request, the
  node of its parameter array and a sticky mark for an argument that is not what the handler
  asked for. Each accessor returns its value and the request with the mark.

  An argument is specified by the JSON value it represents: \<open>arg_at\<close> below is the value a
  handler sees at a position, \<^const>\<open>None\<close> past the end of the array.
\<close>

record arpc_req =
  rq_doc :: aj_doc
  rq_params :: int
  rq_bad :: bool

definition arpc_req_bad :: "arpc_req \<Rightarrow> bool" where
  "arpc_req_bad rq = rq_bad rq"

definition arpc_req_mark_bad :: "arpc_req \<Rightarrow> arpc_req" where
  "arpc_req_mark_bad rq = rq\<lparr>rq_bad := True\<rparr>"

definition arg_node :: "arpc_req \<Rightarrow> int \<Rightarrow> int \<times> arpc_req" where
  "arg_node rq i =
     (let n = aj_elem (rq_doc rq) (rq_params rq) i
      in (n, if n < 0 then rq\<lparr>rq_bad := True\<rparr> else rq))"

definition arpc_arg_str :: "arpc_req \<Rightarrow> int \<Rightarrow> string option \<times> arpc_req" where
  "arpc_arg_str rq i =
     (let (n, rq1) = arg_node rq i in
      if n < 0 then (None, rq1)
      else if aj_is_null (rq_doc rq1) n then (None, rq1)
      else let s = aj_str (rq_doc rq1) n None
           in (s, if s = None then rq1\<lparr>rq_bad := True\<rparr> else rq1))"

text \<open>\<^verbatim>\<open>rq->doc->nodes[n]\<close> is read without a check; \<^verbatim>\<open>n\<close> is a node \<^verbatim>\<open>aj_elem\<close> found.\<close>

definition arpc_arg_i64 :: "arpc_req \<Rightarrow> int \<Rightarrow> int \<times> arpc_req" where
  "arpc_arg_i64 rq i =
     (let (n, rq1) = arg_node rq i in
      if n < 0 then (0, rq1)
      else let nd = d_nodes (rq_doc rq1) ! nat n in
        if n_type nd \<noteq> AJ_NUM \<and> n_type nd \<noteq> AJ_BOOL then (0, rq1\<lparr>rq_bad := True\<rparr>)
        else (n_num nd, rq1))"

definition arpc_arg_id :: "arpc_req \<Rightarrow> int \<Rightarrow> 64 word \<times> arpc_req" where
  "arpc_arg_id rq i =
     (let (n, rq1) = arg_node rq i in
      if n < 0 then (0, rq1)
      else if aj_is_null (rq_doc rq1) n then (0, rq1)
      else (word_of_int (aj_i64 (rq_doc rq1) n 0), rq1))"

definition arpc_arg_handle :: "htab \<Rightarrow> arpc_req \<Rightarrow> int \<Rightarrow> nat \<Rightarrow> (64 word \<times> arpc_req) option" where
  "arpc_arg_handle h rq i tag =
     (let (hid, rq1) = arpc_arg_id rq i in
      if hid = 0 then Some (0, rq1)
      else do {
        p \<leftarrow> arpc_handle_get h hid tag;
        Some (p, if p = 0 then rq1\<lparr>rq_bad := True\<rparr> else rq1) })"

definition arpc_list_owner :: "arpc_req \<Rightarrow> int \<Rightarrow> 64 word" where
  "arpc_list_owner rq i =
     (let e = aj_first (rq_doc rq) (aj_elem (rq_doc rq) (rq_params rq) i)
      in if e \<ge> 0 then word_of_int (aj_i64 (rq_doc rq) e 0) else 0)"

definition arpc_arg_node :: "arpc_req \<Rightarrow> int \<Rightarrow> int \<times> arpc_req" where
  "arpc_arg_node rq i = arg_node rq i"

definition arpc_node_is_null :: "arpc_req \<Rightarrow> int \<Rightarrow> bool" where
  "arpc_node_is_null rq n = aj_is_null (rq_doc rq) n"

definition arpc_node_first :: "arpc_req \<Rightarrow> int \<Rightarrow> int" where
  "arpc_node_first rq arr = aj_first (rq_doc rq) arr"

definition arpc_node_next :: "arpc_req \<Rightarrow> int \<Rightarrow> int" where
  "arpc_node_next rq n = aj_next (rq_doc rq) n"

definition arpc_node_member :: "arpc_req \<Rightarrow> int \<Rightarrow> string \<Rightarrow> int" where
  "arpc_node_member rq obj key = aj_member (rq_doc rq) obj key"

definition arpc_node_i64 :: "arpc_req \<Rightarrow> int \<Rightarrow> int" where
  "arpc_node_i64 rq n = aj_i64 (rq_doc rq) n 0"

definition arpc_node_strdup :: "allocator \<Rightarrow> arpc_req \<Rightarrow> int \<Rightarrow> string option" where
  "arpc_node_strdup alloc rq n =
     (case aj_str (rq_doc rq) n None of
        None \<Rightarrow> None
      | Some s \<Rightarrow> if alloc (length (cstr s) + 1) then Some (cstr s) else None)"

text \<open>The buffer (\<^const>\<open>None\<close> for null), \<^verbatim>\<open>*n\<close> and the request.\<close>

definition arpc_arg_bytes ::
    "allocator \<Rightarrow> arpc_req \<Rightarrow> int \<Rightarrow> byte list option \<times> nat \<times> arpc_req" where
  "arpc_arg_bytes alloc rq i =
     (let (s, rq1) = arpc_arg_str rq i in
      case s of
        None \<Rightarrow> (None, 0, rq1)
      | Some t \<Rightarrow>
          (case arpc_b64_decode alloc (Some t) of
             None \<Rightarrow> (None, 0, rq1\<lparr>rq_bad := True\<rparr>)
           | Some (b, n) \<Rightarrow> (Some b, n, rq1)))"

section \<open>Arguments as values\<close>

definition arg_at :: "json list \<Rightarrow> nat \<Rightarrow> json option" where
  "arg_at vs i = (if i < length vs then Some (vs ! i) else None)"

text \<open>The request's parameters are the array \<open>vs\<close>.\<close>

definition req_args :: "arpc_req \<Rightarrow> json list \<Rightarrow> bool" where
  "req_args rq vs \<longleftrightarrow> doc_ok (rq_doc rq) \<and> (\<exists>k. rq_params rq = int k \<and> repr (rq_doc rq) k (JArr vs))"

definition marked :: "bool \<Rightarrow> arpc_req \<Rightarrow> arpc_req" where
  "marked b rq = (if b then rq\<lparr>rq_bad := True\<rparr> else rq)"

lemma marked_simps [simp]:
  "rq_doc (marked b rq) = rq_doc rq" "rq_params (marked b rq) = rq_params rq"
  "rq_bad (marked b rq) \<longleftrightarrow> b \<or> rq_bad rq" "req_args (marked b rq) vs = req_args rq vs"
  "marked b (marked c rq) = marked (b \<or> c) rq" "marked False rq = rq"
  by (simp_all add: marked_def req_args_def)

lemma arg_node_value:
  assumes "req_args rq vs"
  obtains (missing) "arg_at vs i = None" "arg_node rq (int i) = (-1, marked True rq)"
    | (found) v n where "arg_at vs i = Some v" "arg_node rq (int i) = (int n, rq)" "repr (rq_doc rq) n v"
proof -
  from assms obtain k where k: "doc_ok (rq_doc rq)" "rq_params rq = int k" "repr (rq_doc rq) k (JArr vs)"
    by (auto simp: req_args_def)
  show ?thesis
  proof (cases "i < length vs")
    case True
    with elem_of_array(2) [OF k(1,3), of i] k(2) show ?thesis
      by (auto simp: arg_node_def arg_at_def intro: found)
  next
    case False
    with elem_of_array(3) [OF k(1,3), of i] k(2) show ?thesis
      by (auto simp: arg_node_def arg_at_def marked_def intro: missing)
  qed
qed

lemma arg_str_value:
  assumes "req_args rq vs"
  shows "arpc_arg_str rq (int i) =
    (case arg_at vs i of
       Some (JStr s) \<Rightarrow> (Some s, rq)
     | Some JNull \<Rightarrow> (None, rq)
     | _ \<Rightarrow> (None, marked True rq))"
  using assms
  by (cases rule: arg_node_value [where i = i])
    (auto simp: arpc_arg_str_def scalar_access marked_def split: json.splits)

lemma arg_i64_value:
  assumes "req_args rq vs"
  shows "arpc_arg_i64 rq (int i) =
    (case arg_at vs i of
       Some (JNum v) \<Rightarrow> (v, rq)
     | Some (JBool b) \<Rightarrow> (of_bool b, rq)
     | _ \<Rightarrow> (0, marked True rq))"
  using assms
proof (cases rule: arg_node_value [where i = i])
  case (found v n)
  then show ?thesis by (cases v) (auto simp: arpc_arg_i64_def marked_def)
qed (simp add: arpc_arg_i64_def)

text \<open>
  An id is read without a type check: a string, a list or an object in its place is id 0, and
  only a missing argument marks the request.
\<close>

lemma arg_id_value:
  assumes "req_args rq vs"
  shows "arpc_arg_id rq (int i) =
    (case arg_at vs i of
       Some (JNum v) \<Rightarrow> (word_of_int v, rq)
     | Some (JBool b) \<Rightarrow> (word_of_int (of_bool b), rq)
     | Some _ \<Rightarrow> (0, rq)
     | None \<Rightarrow> (0, marked True rq))"
  using assms
  by (cases rule: arg_node_value [where i = i])
    (auto simp: arpc_arg_id_def scalar_access split: json.splits)

definition arg_pointer :: "htab \<Rightarrow> nat \<Rightarrow> 64 word \<Rightarrow> 64 word" where
  "arg_pointer h tag hid =
     (case hview h hid of None \<Rightarrow> 0 | Some s \<Rightarrow> if s_tag s = tag then s_ptr s else 0)"

lemma arg_handle_value:
  assumes "hinv h" and "arpc_arg_id rq i = (hid, rq1)"
  shows "arpc_arg_handle h rq i tag =
    Some (if hid = 0 then (0, rq1) else (arg_pointer h tag hid, marked (arg_pointer h tag hid = 0) rq1))"
  using get_view [OF assms(1), of hid tag] assms(2)
  by (simp add: arpc_arg_handle_def arg_pointer_def marked_def)

text \<open>What was sent as bytes arrives as those bytes; a text that is no encoding marks the request.\<close>

lemma arg_bytes_value:
  assumes "req_args rq vs"
  shows "arpc_arg_bytes alloc rq (int i) =
    (case arg_at vs i of
       Some (JStr s) \<Rightarrow>
         (case arpc_b64_decode alloc (Some s) of
            None \<Rightarrow> (None, 0, marked True rq)
          | Some (b, n) \<Rightarrow> (Some b, n, rq))
     | Some JNull \<Rightarrow> (None, 0, rq)
     | _ \<Rightarrow> (None, 0, marked True rq))"
  using arg_str_value [OF assms, of i]
  by (auto simp: arpc_arg_bytes_def marked_def split: option.splits json.splits)

lemma arg_bytes_round_trip:
  assumes "req_args rq vs" and "arg_at vs i = Some (JStr s)" and "arpc_b64_encode alloc' b = Some s"
    and "\<And>n. alloc n"
  shows "arpc_arg_bytes alloc rq (int i) = (Some b, length b, rq)"
  using arg_str_value [OF assms(1), of i] assms(2) b64_round_trip [OF assms(3), of alloc] assms(4)
  by (simp add: arpc_arg_bytes_def)

end
