(* ===== verification/Json_Emit.thy ===== *)
theory Json_Emit
  imports Json_Access
begin

text \<open>
  Writing values and members, for the code that builds replies and callback frames: which
  value a piece of writing code writes, and which members it adds to the object it is in.
\<close>

section \<open>Values\<close>

definition writes :: "allocator \<Rightarrow> json \<Rightarrow> (aj_w \<Rightarrow> aj_w) \<Rightarrow> bool" where
  "writes alloc v f \<longleftrightarrow> (\<forall>b. emits alloc b (sep_text b @ json_text v) True f)"

definition i64_range :: "int \<Rightarrow> bool" where
  "i64_range v \<longleftrightarrow> - LLONG_MAX - 1 \<le> v \<and> v \<le> LLONG_MAX"

named_theorems writes_intros \<open>the values that writing code writes\<close>

lemma writes_null [writes_intros]: "writes alloc JNull (ajw_null alloc)"
  using emits_null by (simp add: writes_def)

lemma writes_i64 [writes_intros]: "i64_range v \<Longrightarrow> writes alloc (JNum v) (\<lambda>w. ajw_i64 alloc w v)"
  using emits_i64 by (simp add: writes_def i64_range_def)

definition str_value :: "string option \<Rightarrow> json" where
  "str_value so = (case so of None \<Rightarrow> JNull | Some s \<Rightarrow> JStr (cstr s))"

lemma writes_str [writes_intros]: "writes alloc (str_value so) (\<lambda>w. ajw_str alloc w so)"
  by (cases so) (simp_all add: writes_def str_value_def emits_str [simplified])

lemma writes_json [writes_intros]:
  "json_ok v \<Longrightarrow> no_bool v \<Longrightarrow> writes alloc v (\<lambda>w. write_json alloc w v)"
  using emits_write_json by (simp add: writes_def)

lemma writes_array:
  assumes "\<And>x. x \<in> set xs \<Longrightarrow> writes alloc (g x) (f x)"
  shows "writes alloc (JArr (map g xs)) (\<lambda>w. ajw_arr_end alloc (fold f xs (ajw_arr_begin alloc w)))"
  unfolding writes_def
proof
  fix b
  obtain c where "emits alloc False (join (map (\<lambda>x. json_text (g x)) xs)) c (fold f xs)"
    using emits_fold(1) [of xs alloc "\<lambda>x. json_text (g x)" f] assms by (auto simp: writes_def)
  from emits_comp [OF emits_comp [OF emits_brackets(2) this] emits_brackets(4)]
  show "emits alloc b (sep_text b @ json_text (JArr (map g xs))) True
      (\<lambda>w. ajw_arr_end alloc (fold f xs (ajw_arr_begin alloc w)))"
    by (simp add: comp_def)
qed

section \<open>Members of an open object\<close>

definition member_text :: "string \<times> json \<Rightarrow> string" where
  "member_text kv = str_text (fst kv) @ '':'' @ json_text (snd kv)"

lemma json_text_obj: "json_text (JObj kvs) = ''{'' @ join (map member_text kvs) @ ''}''"
proof -
  have "(\<lambda>(k, v). str_text k @ '':'' @ json_text v) = member_text" by (auto simp: member_text_def)
  then show ?thesis by simp
qed

text \<open>
  \<open>adds_members alloc kvs f\<close>: in an object that already has members exactly if \<open>b\<close>, running \<open>f\<close>
  adds the members \<open>kvs\<close>.
\<close>

definition adds_members :: "allocator \<Rightarrow> (string \<times> json) list \<Rightarrow> (aj_w \<Rightarrow> aj_w) \<Rightarrow> bool" where
  "adds_members alloc kvs f \<longleftrightarrow>
     (\<forall>b. emits alloc b (if kvs = [] then [] else sep_text b @ join (map member_text kvs))
        (b \<or> kvs \<noteq> []) f)"

text \<open>After its key a value may also be spliced in, where no comma is due.\<close>

lemma adds_member_raw:
  assumes "is_cstr k" and "emits alloc False (json_text v) True f"
  shows "adds_members alloc [(k, v)] (\<lambda>w. f (ajw_key alloc w k))"
proof -
  have "emits alloc b ((sep_text b @ str_text k @ '':'') @ json_text v) True (\<lambda>w. f (ajw_key alloc w k))" for b
    using emits_comp [OF emits_key [of alloc b k] assms(2)] assms(1) by simp
  then show ?thesis by (simp add: adds_members_def member_text_def)
qed

lemma adds_member:
  assumes "is_cstr k" and "writes alloc v f"
  shows "adds_members alloc [(k, v)] (\<lambda>w. f (ajw_key alloc w k))"
  by (rule adds_member_raw [OF assms(1)])
    (use assms(2) [unfolded writes_def, rule_format, of False] in \<open>simp add: sep_text_def\<close>)

lemma join_append:
  "xs \<noteq> [] \<Longrightarrow> ys \<noteq> [] \<Longrightarrow> join (xs @ ys) = join xs @ '','' @ join ys"
  by (induction xs rule: join.induct) (auto simp: join_Cons)

lemma adds_members_comp:
  assumes "adds_members alloc kvs f" and "adds_members alloc kvs' g"
  shows "adds_members alloc (kvs @ kvs') (\<lambda>w. g (f w))"
  unfolding adds_members_def
proof
  fix b
  let ?t = "\<lambda>b kvs. if kvs = [] then [] else sep_text b @ join (map member_text kvs)"
  have "emits alloc b (?t b kvs @ ?t (b \<or> kvs \<noteq> []) kvs') ((b \<or> kvs \<noteq> []) \<or> kvs' \<noteq> []) (\<lambda>w. g (f w))"
    using assms unfolding adds_members_def by (metis (no_types) emits_comp)
  moreover have "?t b kvs @ ?t (b \<or> kvs \<noteq> []) kvs' = ?t b (kvs @ kvs')"
    by (auto simp: join_append sep_text_def)
  ultimately show "emits alloc b (?t b (kvs @ kvs')) (b \<or> kvs @ kvs' \<noteq> []) (\<lambda>w. g (f w))"
    by (simp add: disj_assoc)
qed

lemma adds_members_nil [simp]: "adds_members alloc [] (\<lambda>w. w)"
  by (auto simp: adds_members_def intro: emitsI)

lemma writes_object:
  assumes "adds_members alloc kvs f"
  shows "writes alloc (JObj kvs) (\<lambda>w. ajw_obj_end alloc (f (ajw_obj_begin alloc w)))"
  unfolding writes_def
proof
  fix b
  have "emits alloc False (join (map member_text kvs)) (kvs \<noteq> []) f"
    using assms by (auto simp: adds_members_def sep_text_def split: if_splits dest!: spec [of _ False])
  from emits_comp [OF emits_comp [OF emits_brackets(1) this] emits_brackets(3)]
  show "emits alloc b (sep_text b @ json_text (JObj kvs)) True
      (\<lambda>w. ajw_obj_end alloc (f (ajw_obj_begin alloc w)))"
    by (simp add: json_text_obj del: json_text.simps)
qed

section \<open>Whole documents\<close>

lemma writes_init:
  assumes "writes alloc v f" and "length (json_text v) + 32 \<le> 2 ^ 63"
  shows "w_inv (f ajw_init)" and "\<not> w_err (f ajw_init) \<Longrightarrow> w_text (f ajw_init) = json_text v"
    and "\<forall>n \<ge> 256. alloc n \<Longrightarrow> \<not> w_err (f ajw_init)"
proof -
  have "adds alloc ajw_init (json_text v) (f ajw_init)"
    using emitsD(1) [of alloc False "sep_text False @ json_text v" True f ajw_init]
      assms(1) [unfolded writes_def, rule_format, of False] by (simp add: sep_text_def)
  with assms(2) show "w_inv (f ajw_init)" "\<not> w_err (f ajw_init) \<Longrightarrow> w_text (f ajw_init) = json_text v"
    "\<forall>n \<ge> 256. alloc n \<Longrightarrow> \<not> w_err (f ajw_init)" by (auto simp: adds_def)
qed

lemma esc_char_cstr: "c \<noteq> NUL \<Longrightarrow> is_cstr (esc_char c)"
proof -
  have "hexdig n \<noteq> NUL" if "n < 16" for n
  proof -
    have "hexdig n \<in> set ''0123456789abcdef''" unfolding hexdig_def by (rule nth_mem) (use that in simp)
    then show ?thesis by auto
  qed
  moreover have "byte_of c div 16 < 16" "byte_of c mod 16 < 16" using less_mult_imp_div_less [of "byte_of c" 16 16] byte_of_lt [of c] by simp_all
  ultimately show "c \<noteq> NUL \<Longrightarrow> is_cstr (esc_char c)" by (simp add: esc_char_def)
qed

lemma str_text_cstr: "is_cstr s \<Longrightarrow> is_cstr (str_text s)"
  unfolding str_text_def by (induction s) (auto simp: esc_char_cstr)

lemma rev_digits_cstr: "is_cstr (rev_digits v)"
proof (induction v rule: rev_digits.induct)
  case (1 u)
  have "char_of (48 + nat (u mod 10)) \<noteq> NUL"
  proof
    assume "char_of (48 + nat (u mod 10)) = NUL"
    then have "byte_of (char_of (48 + nat (u mod 10))) = byte_of NUL" by simp
    then have "(48 + nat (u mod 10)) mod 256 = 0" by (simp only: of_char_of) simp
    moreover have "nat (u mod 10) < 10" by simp
    ultimately show False by simp
  qed
  with 1 show ?case by (subst rev_digits.simps) simp
qed

lemma join_cstr: "\<forall>s \<in> set ss. is_cstr s \<Longrightarrow> is_cstr (join ss)"
  by (induction ss rule: join.induct) auto

lemma json_text_cstr: "json_ok v \<Longrightarrow> is_cstr (json_text v)"
proof (induction v)
  case (JNum v)
  then show ?case using rev_digits_cstr by (simp add: int_text_def is_cstr_def)
next
  case (JArr vs)
  then show ?case by (auto intro!: join_cstr)
next
  case (JObj kvs)
  then show ?case by (fastforce intro!: join_cstr simp: str_text_cstr)
qed (auto simp: str_text_cstr)

section \<open>Reading members\<close>

definition num_or :: "json option \<Rightarrow> int \<Rightarrow> int" where
  "num_or vo dflt = (case vo of Some (JNum n) \<Rightarrow> n | Some (JBool b) \<Rightarrow> of_bool b | _ \<Rightarrow> dflt)"

definition str_or :: "json option \<Rightarrow> string option \<Rightarrow> string option" where
  "str_or vo dflt = (case vo of Some (JStr s) \<Rightarrow> Some s | _ \<Rightarrow> dflt)"

lemma no_node [simp]: "aj_i64 d (- 1) dflt = dflt" "aj_str d (- 1) sdflt = sdflt" "aj_is_null d (- 1)"
  by (simp_all add: aj_i64_def aj_str_def aj_is_null_def aj_at_def)

lemma member_scalars:
  assumes "doc_ok d" and "repr d i (JObj kvs)"
  shows "aj_i64 d (aj_member d (int i) key) dflt = num_or (map_of kvs key) dflt"
    and "aj_str d (aj_member d (int i) key) sdflt = str_or (map_of kvs key) sdflt"
proof -
  show "aj_i64 d (aj_member d (int i) key) dflt = num_or (map_of kvs key) dflt"
    "aj_str d (aj_member d (int i) key) sdflt = str_or (map_of kvs key) sdflt"
  proof (atomize (full), cases "map_of kvs key")
    case None
    then show "aj_i64 d (aj_member d (int i) key) dflt = num_or (map_of kvs key) dflt \<and>
        aj_str d (aj_member d (int i) key) sdflt = str_or (map_of kvs key) sdflt"
      using member_of_object [OF assms, of key] by (simp add: num_or_def str_or_def)
  next
    case (Some v)
    then obtain k where "aj_member d (int i) key = int k" "repr d k v"
      using member_of_object [OF assms, of key] by auto
    with Some scalar_access(1,2) [OF this(2)]
    show "aj_i64 d (aj_member d (int i) key) dflt = num_or (map_of kvs key) dflt \<and>
        aj_str d (aj_member d (int i) key) sdflt = str_or (map_of kvs key) sdflt"
      by (simp add: num_or_def str_or_def)
  qed
qed

end
