(* ===== verification/Paths.thy ===== *)
theory Paths
  imports Json_Emit
begin

text \<open>
  Paths in the caller's form, \<^verbatim>\<open>src/server/arpc_paths.c\<close>. The conversion itself is Cygwin's:
  a parameter with its two uses, the size a result needs and the result. A connection is in
  POSIX form until it asks otherwise (\<open>win32\<close>), and then every path passes through here.
\<close>

datatype ccp = CCP_WIN_A_TO_POSIX | CCP_POSIX_TO_WIN_A

text \<open>
  \<^verbatim>\<open>cygwin_conv_path\<close> with a null buffer, and with one of the given size: \<^const>\<open>None\<close> for a
  result other than 0. The flag \<^verbatim>\<open>CCP_RELATIVE\<close> is always set.
\<close>

record cygwin =
  conv_size :: "ccp \<Rightarrow> string \<Rightarrow> int"
  conv_path :: "ccp \<Rightarrow> string \<Rightarrow> nat \<Rightarrow> string option"

text \<open>\<^verbatim>\<open>strdup\<close>: a copy up to the NUL, if there is memory for it.\<close>

definition strdup :: "allocator \<Rightarrow> string \<Rightarrow> string option" where
  "strdup alloc s = (if alloc (length (cstr s) + 1) then Some (cstr s) else None)"

definition convert :: "allocator \<Rightarrow> cygwin \<Rightarrow> bool \<Rightarrow> string option \<Rightarrow> ccp \<Rightarrow> string option" where
  "convert alloc cyg win32 so dir =
     (case so of
        None \<Rightarrow> None
      | Some s \<Rightarrow>
          if \<not> win32 \<or> cstr s = [] then strdup alloc s
          else let n = conv_size cyg dir s in
            case (if n > 0 \<and> alloc (nat n) then conv_path cyg dir s (nat n) else None) of
              Some out \<Rightarrow> Some out
            | None \<Rightarrow> strdup alloc s)"

definition arpc_path_in :: "allocator \<Rightarrow> cygwin \<Rightarrow> bool \<Rightarrow> string option \<Rightarrow> string option" where
  "arpc_path_in alloc cyg win32 s = convert alloc cyg win32 s CCP_WIN_A_TO_POSIX"

definition arpc_path_out :: "allocator \<Rightarrow> cygwin \<Rightarrow> bool \<Rightarrow> string option \<Rightarrow> string option" where
  "arpc_path_out alloc cyg win32 s = convert alloc cyg win32 s CCP_POSIX_TO_WIN_A"

definition arpc_ajw_path :: "allocator \<Rightarrow> cygwin \<Rightarrow> bool \<Rightarrow> aj_w \<Rightarrow> string option \<Rightarrow> aj_w" where
  "arpc_ajw_path alloc cyg win32 w posix =
     ajw_str alloc w (case arpc_path_out alloc cyg win32 posix of None \<Rightarrow> posix | Some t \<Rightarrow> Some t)"

text \<open>A list of strings is the list of its data pointers; the null list is empty.\<close>

definition arpc_put_path_list ::
    "allocator \<Rightarrow> cygwin \<Rightarrow> bool \<Rightarrow> aj_w \<Rightarrow> string option list \<Rightarrow> aj_w" where
  "arpc_put_path_list alloc cyg win32 w l =
     (if l = [] then ajw_null alloc w
      else ajw_arr_end alloc
        (fold (\<lambda>s w. arpc_ajw_path alloc cyg win32 w s) l (ajw_arr_begin alloc w)))"

definition arpc_paths_in_list ::
    "allocator \<Rightarrow> cygwin \<Rightarrow> bool \<Rightarrow> string option list \<Rightarrow> string option list" where
  "arpc_paths_in_list alloc cyg win32 l =
     map (\<lambda>s. case arpc_path_in alloc cyg win32 s of None \<Rightarrow> s | Some c \<Rightarrow> Some c) l"

section \<open>What reaches the wire\<close>

text \<open>The form a path takes: converted if the connection asked and Cygwin could, as it is otherwise.\<close>

definition path_form :: "allocator \<Rightarrow> cygwin \<Rightarrow> bool \<Rightarrow> ccp \<Rightarrow> string \<Rightarrow> string" where
  "path_form alloc cyg win32 dir s =
     (let n = conv_size cyg dir s in
      if win32 \<and> cstr s \<noteq> [] \<and> n > 0 \<and> alloc (nat n) then
        (case conv_path cyg dir s (nat n) of None \<Rightarrow> cstr s | Some out \<Rightarrow> out)
      else cstr s)"

lemma convert_form:
  "convert alloc cyg win32 (Some s) dir = Some (path_form alloc cyg win32 dir s) \<or>
   convert alloc cyg win32 (Some s) dir = None \<and> path_form alloc cyg win32 dir s = cstr s \<and> \<not> (\<forall>n. alloc n)"
  by (auto simp: convert_def path_form_def strdup_def Let_def split: option.splits)

text \<open>
  A path is always written, converted or as it is, whatever the allocator does; no failure to
  convert turns it into null.
\<close>

definition path_value :: "allocator \<Rightarrow> cygwin \<Rightarrow> bool \<Rightarrow> string option \<Rightarrow> json" where
  "path_value alloc cyg win32 so =
     (case so of
        None \<Rightarrow> JNull
      | Some s \<Rightarrow> JStr (cstr (path_form alloc cyg win32 CCP_POSIX_TO_WIN_A s)))"

lemma writes_path [writes_intros]:
  "writes alloc (path_value alloc cyg win32 so) (\<lambda>w. arpc_ajw_path alloc cyg win32 w so)"
proof (cases so)
  case None
  then show ?thesis
    using writes_str [of alloc None]
    by (simp add: path_value_def arpc_ajw_path_def arpc_path_out_def convert_def str_value_def)
next
  case (Some s)
  have f: "writes alloc (JStr (cstr t)) (\<lambda>w. ajw_str alloc w (Some t))" for t
    using writes_str [of alloc "Some t"] by (simp add: str_value_def)
  show ?thesis
    using convert_form [of alloc cyg win32 s CCP_POSIX_TO_WIN_A] f Some
    by (auto simp: path_value_def arpc_ajw_path_def arpc_path_out_def)
qed

lemma writes_path_list [writes_intros]:
  "writes alloc (if l = [] then JNull else JArr (map (path_value alloc cyg win32) l))
     (\<lambda>w. arpc_put_path_list alloc cyg win32 w l)"
proof (cases "l = []")
  case True
  then show ?thesis using writes_null by (simp add: arpc_put_path_list_def)
next
  case False
  then show ?thesis
    using writes_array [of l alloc "path_value alloc cyg win32" "\<lambda>s w. arpc_ajw_path alloc cyg win32 w s"]
      writes_path by (simp add: arpc_put_path_list_def)
qed

text \<open>Until a connection asks, paths cross in both directions as they are.\<close>

lemma posix_paths:
  "path_value alloc cyg False so = str_value so"
  "\<forall>n. alloc n \<Longrightarrow> arpc_path_in alloc cyg False so = map_option cstr so"
  "\<forall>s \<in> set l. case s of None \<Rightarrow> True | Some t \<Rightarrow> is_cstr t \<Longrightarrow> arpc_paths_in_list alloc cyg False l = l"
proof -
  show "path_value alloc cyg False so = str_value so"
    by (simp add: path_value_def str_value_def path_form_def split: option.split)
  show "\<forall>n. alloc n \<Longrightarrow> arpc_path_in alloc cyg False so = map_option cstr so"
    by (simp add: arpc_path_in_def convert_def strdup_def split: option.split)
  assume "\<forall>s \<in> set l. case s of None \<Rightarrow> True | Some t \<Rightarrow> is_cstr t"
  then show "arpc_paths_in_list alloc cyg False l = l"
    unfolding arpc_paths_in_list_def
    by (intro map_idI) (auto simp: arpc_path_in_def convert_def strdup_def split: option.splits)
qed

end
