(* ===== verification/Response.thy ===== *)
theory Response
  imports Paths Base64
begin

text \<open>
  The result of a call, \<^verbatim>\<open>arpc_res\<close> of \<^verbatim>\<open>src/server/arpc_server.c\<close>: an object built member by
  member while the handler runs, or a failure.

  What a handler's calls amount to is a list of members; \<open>holds\<close> below relates the writer to
  that list, and every operation is characterised by the members it adds.
\<close>

record arpc_res =
  rs_out :: aj_w
  has_ret :: bool
  rs_failed :: bool
  rs_code :: int
  rs_msg :: string

text \<open>The structure as \<^verbatim>\<open>memset\<close> leaves it.\<close>

definition arpc_res_zero :: arpc_res where
  "arpc_res_zero = \<lparr>rs_out = ajw_init, has_ret = False, rs_failed = False, rs_code = 0, rs_msg = []\<rparr>"

definition ARPC_RET_KEY :: string where
  "ARPC_RET_KEY = ''@ret''"

text \<open>The buffer is null exactly while nothing was ever allocated for it.\<close>

definition ensure_obj :: "allocator \<Rightarrow> arpc_res \<Rightarrow> arpc_res" where
  "ensure_obj alloc rs =
     (if w_cap (rs_out rs) = 0 then rs\<lparr>rs_out := ajw_obj_begin alloc ajw_init\<rparr> else rs)"

definition set_ret :: "allocator \<Rightarrow> arpc_res \<Rightarrow> arpc_res" where
  "set_ret alloc rs =
     (let rs1 = ensure_obj alloc rs
      in rs1\<lparr>rs_out := ajw_key alloc (rs_out rs1) ARPC_RET_KEY, has_ret := True\<rparr>)"

definition arpc_ret_null :: "allocator \<Rightarrow> arpc_res \<Rightarrow> arpc_res" where
  "arpc_ret_null alloc rs = (let r = set_ret alloc rs in r\<lparr>rs_out := ajw_null alloc (rs_out r)\<rparr>)"

definition arpc_ret_i64 :: "allocator \<Rightarrow> arpc_res \<Rightarrow> int \<Rightarrow> arpc_res" where
  "arpc_ret_i64 alloc rs v = (let r = set_ret alloc rs in r\<lparr>rs_out := ajw_i64 alloc (rs_out r) v\<rparr>)"

definition arpc_ret_str :: "allocator \<Rightarrow> arpc_res \<Rightarrow> string option \<Rightarrow> arpc_res" where
  "arpc_ret_str alloc rs s = (let r = set_ret alloc rs in r\<lparr>rs_out := ajw_str alloc (rs_out r) s\<rparr>)"

definition arpc_ret_path :: "allocator \<Rightarrow> cygwin \<Rightarrow> bool \<Rightarrow> arpc_res \<Rightarrow> string option \<Rightarrow> arpc_res" where
  "arpc_ret_path alloc cyg win32 rs s =
     (let r = set_ret alloc rs in r\<lparr>rs_out := arpc_ajw_path alloc cyg win32 (rs_out r) s\<rparr>)"

text \<open>\<^verbatim>\<open>(long long)id\<close> reads the word as a signed number.\<close>

definition arpc_ret_handle :: "allocator \<Rightarrow> arpc_res \<Rightarrow> 64 word \<Rightarrow> arpc_res" where
  "arpc_ret_handle alloc rs hid =
     (let r = set_ret alloc rs in r\<lparr>rs_out := ajw_i64 alloc (rs_out r) (sint hid)\<rparr>)"

text \<open>The bytes, \<^const>\<open>None\<close> for a null pointer; an encoding that fails is sent as null, too.\<close>

definition arpc_ret_bytes :: "allocator \<Rightarrow> arpc_res \<Rightarrow> byte list option \<Rightarrow> arpc_res" where
  "arpc_ret_bytes alloc rs b =
     (let enc = (case b of None \<Rightarrow> None | Some bs \<Rightarrow> arpc_b64_encode alloc bs);
          r = set_ret alloc rs
      in r\<lparr>rs_out := ajw_str alloc (rs_out r) enc\<rparr>)"

definition arpc_ret_begin :: "allocator \<Rightarrow> arpc_res \<Rightarrow> arpc_res" where
  "arpc_ret_begin alloc rs = set_ret alloc rs"

text \<open>Handing out the writer is handing out the structure with its object open.\<close>

definition arpc_res_writer :: "allocator \<Rightarrow> arpc_res \<Rightarrow> arpc_res" where
  "arpc_res_writer alloc rs = ensure_obj alloc rs"

definition arpc_out_writer :: "allocator \<Rightarrow> arpc_res \<Rightarrow> string \<Rightarrow> arpc_res" where
  "arpc_out_writer alloc rs name =
     (let r1 = ensure_obj alloc rs;
          r2 = (if \<not> has_ret r1 then arpc_ret_null alloc r1 else r1)
      in r2\<lparr>rs_out := ajw_key alloc (rs_out r2) name\<rparr>)"

definition arpc_out_bytes :: "allocator \<Rightarrow> arpc_res \<Rightarrow> string \<Rightarrow> byte list option \<Rightarrow> arpc_res" where
  "arpc_out_bytes alloc rs name b =
     (let enc = (case b of None \<Rightarrow> None | Some bs \<Rightarrow> arpc_b64_encode alloc bs);
          r1 = ensure_obj alloc rs;
          r2 = (if \<not> has_ret r1 then arpc_ret_null alloc r1 else r1);
          r3 = r2\<lparr>rs_out := ajw_key alloc (rs_out r2) name\<rparr>
      in r3\<lparr>rs_out := ajw_str alloc (rs_out r3) enc\<rparr>)"

definition arpc_out_i64 :: "allocator \<Rightarrow> arpc_res \<Rightarrow> string \<Rightarrow> int \<Rightarrow> arpc_res" where
  "arpc_out_i64 alloc rs name v =
     (let r1 = ensure_obj alloc rs;
          r2 = (if \<not> has_ret r1 then arpc_ret_null alloc r1 else r1);
          r3 = r2\<lparr>rs_out := ajw_key alloc (rs_out r2) name\<rparr>
      in r3\<lparr>rs_out := ajw_i64 alloc (rs_out r3) v\<rparr>)"

text \<open>The message buffer has 256 bytes, the last for the NUL.\<close>

definition sizeof_msg :: nat where
  "sizeof_msg = 256"

definition arpc_fail :: "arpc_res \<Rightarrow> int \<Rightarrow> string option \<Rightarrow> int \<times> arpc_res" where
  "arpc_fail rs code msg =
     (-1, rs\<lparr>rs_failed := True, rs_code := code,
       rs_msg := take (sizeof_msg - 1) (cstr (case msg of None \<Rightarrow> ''error'' | Some m \<Rightarrow> m))\<rparr>)"

section \<open>The members written so far\<close>

text \<open>
  The return value comes first: either nothing was written yet, or the object is open, has the
  members \<open>kvs\<close> and starts with the return value.
\<close>

definition holds :: "arpc_res \<Rightarrow> (string \<times> json) list \<Rightarrow> bool" where
  "holds rs kvs \<longleftrightarrow>
     (if w_cap (rs_out rs) = 0 then rs_out rs = ajw_init \<and> kvs = [] \<and> \<not> has_ret rs
      else w_inv (rs_out rs) \<and> \<not> w_err (rs_out rs) \<and>
           w_text (rs_out rs) = ''{'' @ join (map member_text kvs) \<and>
           need_comma (rs_out rs) = (kvs \<noteq> []) \<and> has_ret rs = (kvs \<noteq> []) \<and>
           (kvs \<noteq> [] \<longrightarrow> fst (hd kvs) = ARPC_RET_KEY))"

lemma holds_zero [simp]: "holds arpc_res_zero []"
  by (simp add: holds_def arpc_res_zero_def ajw_init_def)

lemma holds_fail [simp]: "holds (snd (arpc_fail rs code msg)) kvs = holds rs kvs"
  by (simp add: holds_def arpc_fail_def)

text \<open>The members fit the address space.\<close>

definition fits :: "(string \<times> json) list \<Rightarrow> bool" where
  "fits kvs \<longleftrightarrow> length (join (map member_text kvs)) + 128 \<le> 2 ^ 63"

lemma fits_append: "fits (kvs @ kvs') \<Longrightarrow> fits kvs"
  by (cases "kvs = []"; cases "kvs' = []") (auto simp: fits_def join_append)

lemma inv_cap: "w_inv w \<Longrightarrow> w_text w \<noteq> [] \<Longrightarrow> w_cap w \<noteq> 0"
  by (auto simp: w_inv_def w_text_def)

lemma inv_len: "w_inv w \<Longrightarrow> w_len w = length (w_text w)"
  by (simp add: w_inv_length)

lemma ensure_obj_holds:
  assumes "holds rs kvs" and "\<forall>n. alloc n"
  shows "holds (ensure_obj alloc rs) kvs" and "w_cap (rs_out (ensure_obj alloc rs)) \<noteq> 0"
    and "has_ret (ensure_obj alloc rs) = has_ret rs"
proof -
  let ?w = "ajw_obj_begin alloc ajw_init"
  have e: "adds alloc ajw_init ''{'' ?w" "w_err ?w \<or> \<not> need_comma ?w"
    using emitsD [OF emits_brackets(1) [of alloc False], of ajw_init] by (simp_all add: sep_text_def)
  then have w: "w_inv ?w" "\<not> w_err ?w" "w_text ?w = ''{''" "\<not> need_comma ?w"
    using assms(2) by (simp_all add: adds_def)
  from inv_cap [OF w(1)] w(3) have "w_cap ?w \<noteq> 0" by simp
  with assms w show "holds (ensure_obj alloc rs) kvs" "w_cap (rs_out (ensure_obj alloc rs)) \<noteq> 0"
      "has_ret (ensure_obj alloc rs) = has_ret rs"
    by (auto simp: holds_def ensure_obj_def)
qed

text \<open>Adding a member to the open object.\<close>

lemma member_holds:
  assumes h: "holds rs kvs" "w_cap (rs_out rs) \<noteq> 0" and mem: "\<forall>n. alloc n"
    and f: "adds_members alloc [kv] f" and fits: "fits (kvs @ [kv])"
    and first: "kvs = [] \<longrightarrow> fst kv = ARPC_RET_KEY"
  shows "holds (rs\<lparr>has_ret := True, rs_out := f (rs_out rs)\<rparr>) (kvs @ [kv])"
proof -
  let ?w = "rs_out rs"
  let ?t = "sep_text (kvs \<noteq> []) @ member_text kv"
  have w: "w_inv ?w" "\<not> w_err ?w" "w_text ?w = ''{'' @ join (map member_text kvs)"
      "need_comma ?w = (kvs \<noteq> [])" "kvs \<noteq> [] \<longrightarrow> fst (hd kvs) = ARPC_RET_KEY"
    using h by (simp_all add: holds_def)
  have e: "emits alloc (kvs \<noteq> []) ?t True f"
    using f [unfolded adds_members_def, rule_format, of "kvs \<noteq> []"] by simp
  have t: "w_text ?w @ ?t = ''{'' @ join (map member_text (kvs @ [kv]))"
    using w(3) by (auto simp: sep_text_def join_append)
  have "length (w_text ?w @ ?t) + 63 \<le> 2 ^ 63" unfolding t using fits by (simp add: fits_def)
  then have "w_len ?w + length ?t + 32 \<le> 2 ^ 63" using inv_len [OF w(1)] by simp
  with emitsD [OF e, of ?w] w(1,2,4) mem
  have f': "w_inv (f ?w)" "\<not> w_err (f ?w)" "w_text (f ?w) = w_text ?w @ ?t" "need_comma (f ?w)"
    by (simp_all add: adds_def)
  moreover have "w_cap (f ?w) \<noteq> 0" using inv_cap [OF f'(1)] f'(3) w(3) by simp
  moreover have "fst (hd (kvs @ [kv])) = ARPC_RET_KEY" using w(5) first by (cases kvs) simp_all
  moreover have "w_text (f ?w) = ''{'' @ join (map member_text (kvs @ [kv]))" using f'(3) t by simp
  ultimately show ?thesis by (simp add: holds_def)
qed

lemma ret_holds:
  assumes h: "holds rs kvs" and mem: "\<forall>n. alloc n" and f: "writes alloc v f"
    and fits: "fits (kvs @ [(ARPC_RET_KEY, v)])"
  shows "holds (let r = set_ret alloc rs in r\<lparr>rs_out := f (rs_out r)\<rparr>) (kvs @ [(ARPC_RET_KEY, v)])"
proof -
  note e = ensure_obj_holds [OF h mem]
  have m: "adds_members alloc [(ARPC_RET_KEY, v)] (\<lambda>w. f (ajw_key alloc w ARPC_RET_KEY))"
    by (rule adds_member [OF _ f]) (simp add: ARPC_RET_KEY_def)
  from member_holds [OF e(1,2) mem m fits] show ?thesis by (simp add: set_ret_def Let_def)
qed

lemma ret_values:
  assumes "holds rs kvs" and "\<forall>n. alloc n" and "fits (kvs @ [(ARPC_RET_KEY, v)])"
  shows "v = JNull \<Longrightarrow> holds (arpc_ret_null alloc rs) (kvs @ [(ARPC_RET_KEY, v)])"
    and "v = JNum i \<Longrightarrow> i64_range i \<Longrightarrow> holds (arpc_ret_i64 alloc rs i) (kvs @ [(ARPC_RET_KEY, v)])"
    and "v = str_value s \<Longrightarrow> holds (arpc_ret_str alloc rs s) (kvs @ [(ARPC_RET_KEY, v)])"
    and "v = path_value alloc cyg win32 s \<Longrightarrow>
      holds (arpc_ret_path alloc cyg win32 rs s) (kvs @ [(ARPC_RET_KEY, v)])"
    and "v = JNum (sint hid) \<Longrightarrow> holds (arpc_ret_handle alloc rs hid) (kvs @ [(ARPC_RET_KEY, v)])"
    and "v = str_value (map_option b64_encode_loop b) \<Longrightarrow>
      holds (arpc_ret_bytes alloc rs b) (kvs @ [(ARPC_RET_KEY, v)])"
    and "writes alloc v f \<Longrightarrow>
      holds (let r = arpc_ret_begin alloc rs in r\<lparr>rs_out := f (rs_out r)\<rparr>) (kvs @ [(ARPC_RET_KEY, v)])"
proof -
  note r = ret_holds [OF assms(1,2) _ assms(3)]
  show "v = JNull \<Longrightarrow> holds (arpc_ret_null alloc rs) (kvs @ [(ARPC_RET_KEY, v)])"
    unfolding arpc_ret_null_def by (metis r writes_null)
  show "v = JNum i \<Longrightarrow> i64_range i \<Longrightarrow> holds (arpc_ret_i64 alloc rs i) (kvs @ [(ARPC_RET_KEY, v)])"
    unfolding arpc_ret_i64_def by (metis r writes_i64)
  show "v = str_value s \<Longrightarrow> holds (arpc_ret_str alloc rs s) (kvs @ [(ARPC_RET_KEY, v)])"
    unfolding arpc_ret_str_def by (metis r writes_str)
  show "v = path_value alloc cyg win32 s \<Longrightarrow>
      holds (arpc_ret_path alloc cyg win32 rs s) (kvs @ [(ARPC_RET_KEY, v)])"
    unfolding arpc_ret_path_def by (metis r writes_path)
  have "i64_range (sint hid)"
    using sint_lt [of hid] sint_ge [of hid] by (simp add: i64_range_def LLONG_MAX_def)
  then show "v = JNum (sint hid) \<Longrightarrow> holds (arpc_ret_handle alloc rs hid) (kvs @ [(ARPC_RET_KEY, v)])"
    unfolding arpc_ret_handle_def using r [of "\<lambda>w. ajw_i64 alloc w (sint hid)"] writes_i64 [of "sint hid" alloc] by simp
  have "(case b of None \<Rightarrow> None | Some bs \<Rightarrow> arpc_b64_encode alloc bs) = map_option b64_encode_loop b"
    using assms(2) by (simp add: arpc_b64_encode_def split: option.split)
  then show "v = str_value (map_option b64_encode_loop b) \<Longrightarrow>
      holds (arpc_ret_bytes alloc rs b) (kvs @ [(ARPC_RET_KEY, v)])"
    unfolding arpc_ret_bytes_def Let_def 
    using r [of "\<lambda>w. ajw_str alloc w (map_option b64_encode_loop b)", unfolded Let_def]
      writes_str [of alloc "map_option b64_encode_loop b"] by simp
  show "writes alloc v f \<Longrightarrow>
      holds (let r = arpc_ret_begin alloc rs in r\<lparr>rs_out := f (rs_out r)\<rparr>) (kvs @ [(ARPC_RET_KEY, v)])"
    unfolding arpc_ret_begin_def by (rule r)
qed

text \<open>An out-parameter, after a null return value if there is none yet.\<close>

definition with_ret :: "(string \<times> json) list \<Rightarrow> (string \<times> json) list" where
  "with_ret kvs = (if kvs = [] then [(ARPC_RET_KEY, JNull)] else kvs)"

lemma out_holds:
  assumes h: "holds rs kvs" and mem: "\<forall>n. alloc n" and f: "writes alloc v f" and k: "is_cstr k"
    and fits: "fits (with_ret kvs @ [(k, v)])"
  shows "holds (let r = arpc_out_writer alloc rs k in r\<lparr>rs_out := f (rs_out r)\<rparr>) (with_ret kvs @ [(k, v)])"
proof -
  let ?r1 = "ensure_obj alloc rs"
  let ?r2 = "if \<not> has_ret ?r1 then arpc_ret_null alloc ?r1 else ?r1"
  note e = ensure_obj_holds [OF h mem]
  have ret: "has_ret rs = (kvs \<noteq> [])" using h by (auto simp: holds_def split: if_splits)
  have r2: "holds ?r2 (with_ret kvs)"
  proof (cases "kvs = []")
    case True
    then show ?thesis
      using ret_values(1) [OF e(1) mem, of JNull] fits fits_append [of "with_ret kvs" "[(k, v)]"] e(3) ret
      by (simp add: with_ret_def)
  next
    case False
    then show ?thesis using e(1,3) ret by (simp add: with_ret_def)
  qed
  have ne: "with_ret kvs \<noteq> []" by (simp add: with_ret_def)
  have cap: "w_cap (rs_out ?r2) \<noteq> 0" and has: "has_ret ?r2"
    using r2 ne by (auto simp: holds_def split: if_splits)
  have "holds (?r2\<lparr>has_ret := True, rs_out := f (ajw_key alloc (rs_out ?r2) k)\<rparr>) (with_ret kvs @ [(k, v)])"
    by (rule member_holds [OF r2 cap mem adds_member [OF k f] fits]) (simp add: ne)
  moreover have "?r2\<lparr>has_ret := True, rs_out := f (ajw_key alloc (rs_out ?r2) k)\<rparr> =
      (let r = arpc_out_writer alloc rs k in r\<lparr>rs_out := f (rs_out r)\<rparr>)"
    using has by (simp add: arpc_out_writer_def Let_def)
  ultimately show ?thesis by simp
qed

lemma out_values:
  assumes "holds rs kvs" and "\<forall>n. alloc n" and "is_cstr k" and "fits (with_ret kvs @ [(k, v)])"
  shows "v = JNum i \<Longrightarrow> i64_range i \<Longrightarrow> holds (arpc_out_i64 alloc rs k i) (with_ret kvs @ [(k, v)])"
    and "v = str_value (map_option b64_encode_loop b) \<Longrightarrow>
      holds (arpc_out_bytes alloc rs k b) (with_ret kvs @ [(k, v)])"
proof -
  note r = out_holds [OF assms(1,2) _ assms(3,4)]
  have "arpc_out_i64 alloc rs k i = (let r = arpc_out_writer alloc rs k in r\<lparr>rs_out := ajw_i64 alloc (rs_out r) i\<rparr>)"
    by (simp add: arpc_out_i64_def arpc_out_writer_def Let_def)
  then show "v = JNum i \<Longrightarrow> i64_range i \<Longrightarrow> holds (arpc_out_i64 alloc rs k i) (with_ret kvs @ [(k, v)])"
    using r [of "\<lambda>w. ajw_i64 alloc w i"] writes_i64 [of i alloc] by simp
  have "(case b of None \<Rightarrow> None | Some bs \<Rightarrow> arpc_b64_encode alloc bs) = map_option b64_encode_loop b"
    using assms(2) by (simp add: arpc_b64_encode_def split: option.split)
  then have "arpc_out_bytes alloc rs k b =
      (let r = arpc_out_writer alloc rs k in r\<lparr>rs_out := ajw_str alloc (rs_out r) (map_option b64_encode_loop b)\<rparr>)"
    by (simp add: arpc_out_bytes_def arpc_out_writer_def Let_def)
  then show "v = str_value (map_option b64_encode_loop b) \<Longrightarrow>
      holds (arpc_out_bytes alloc rs k b) (with_ret kvs @ [(k, v)])"
    using r [of "\<lambda>w. ajw_str alloc w (map_option b64_encode_loop b)"]
      writes_str [of alloc "map_option b64_encode_loop b"] by simp
qed

end
