(* ===== verification/Gpgdir.thy ===== *)
theory Gpgdir
  imports Paths
begin

text \<open>
  The keyring gpgme checks against, \<^verbatim>\<open>src/server/arpc_gpgdir.c\<close>: before each call the server
  points gpgme at the gpgdir of the handle the call is for. libalpm and gpgme are parameters
  acting on a state of their own.
\<close>

record seen =
  sn_handle :: "64 word"
  sn_gpgdir :: "string option"

record gpgstate =
  g_seen :: "seen list"
  g_pointed :: bool
  g_gpgdir :: "string option"

definition gpg_init :: gpgstate where
  "gpg_init = \<lparr>g_seen = [], g_pointed = False, g_gpgdir = None\<rparr>"

text \<open>
  What is called: whether a handle has no error pending, its gpgdir, and gpgme's two
  functions; the result of the last is whether it failed.
\<close>

record 'w gpg_env =
  errno_ok :: "'w \<Rightarrow> 64 word \<Rightarrow> bool"
  get_gpgdir :: "'w \<Rightarrow> 64 word \<Rightarrow> string option \<times> 'w"
  check_version :: "'w \<Rightarrow> 'w"
  set_engine_info :: "'w \<Rightarrow> string option \<Rightarrow> bool \<times> 'w"

definition same :: "string option \<Rightarrow> string option \<Rightarrow> bool" where
  "same a b \<longleftrightarrow> map_option cstr a = map_option cstr b"

definition replace :: "allocator \<Rightarrow> string option \<Rightarrow> string option \<Rightarrow> bool \<times> string option" where
  "replace alloc dst src =
     (case src of
        None \<Rightarrow> (True, None)
      | Some s \<Rightarrow> (case strdup alloc s of None \<Rightarrow> (False, dst) | Some c \<Rightarrow> (True, Some c)))"

fun seen_at :: "nat \<Rightarrow> seen list \<Rightarrow> 64 word \<Rightarrow> nat option" where
  "seen_at i [] h = None"
| "seen_at i (s # ss) h = (if sn_handle s = h then Some i else seen_at (Suc i) ss h)"

definition sizeof_seen :: nat where
  "sizeof_seen = 24"

text \<open>The entry of a handle, by its place in the list; \<^const>\<open>None\<close> for null.\<close>

definition gpgdir_of ::
    "allocator \<Rightarrow> 'w gpg_env \<Rightarrow> gpgstate \<Rightarrow> 'w \<Rightarrow> 64 word \<Rightarrow> nat option \<times> gpgstate \<times> 'w" where
  "gpgdir_of alloc env g w h =
     (let s = seen_at 0 (g_seen g) h in
      if \<not> errno_ok env w h then (s, g, w)
      else let (now, w1) = get_gpgdir env w h in
        case (case s of
                Some i \<Rightarrow> Some (i, g)
              | None \<Rightarrow>
                  if alloc sizeof_seen
                  then Some (0, g\<lparr>g_seen := \<lparr>sn_handle = h, sn_gpgdir = None\<rparr> # g_seen g\<rparr>)
                  else None) of
          None \<Rightarrow> (None, g, w1)
        | Some (i, g1) \<Rightarrow>
            (let cur = sn_gpgdir (g_seen g1 ! i) in
             if same cur now then (Some i, g1, w1)
             else let (ok, dir) = replace alloc cur now in
               if \<not> ok then (None, g1, w1)
               else (Some i, g1\<lparr>g_seen := (g_seen g1)[i := (g_seen g1 ! i)\<lparr>sn_gpgdir := dir\<rparr>]\<rparr>, w1)))"

definition arpc_gpgdir_follow ::
    "allocator \<Rightarrow> 'w gpg_env \<Rightarrow> gpgstate \<Rightarrow> 'w \<Rightarrow> 64 word \<Rightarrow> gpgstate \<times> 'w" where
  "arpc_gpgdir_follow alloc env g w handle =
     (if handle = 0 then (g, w)
      else let (s, g1, w1) = gpgdir_of alloc env g w handle in
        case s of
          None \<Rightarrow> (g1, w1)
        | Some i \<Rightarrow>
            (let dir = sn_gpgdir (g_seen g1 ! i) in
             if g_pointed g1 \<and> same dir (g_gpgdir g1) then (g1, w1)
             else let w2 = check_version env w1;
                      (err, w3) = set_engine_info env w2 dir
               in if err then (g1, w3)
                  else let (ok, gd) = replace alloc (g_gpgdir g1) dir
                    in (g1\<lparr>g_pointed := g_pointed g1 \<or> ok, g_gpgdir := gd\<rparr>, w3)))"

section \<open>Which keyring a call runs with\<close>

lemma same_simps [simp]: "same a a" "same (map_option cstr a) b = same a b" "same a (map_option cstr b) = same a b"
  by (simp_all add: same_def option.map_comp comp_def)

lemma same_sym: "same a b \<Longrightarrow> same b a" and same_trans: "same a b \<Longrightarrow> same b c \<Longrightarrow> same a c"
  by (simp_all add: same_def)

lemma replace_ok: "\<forall>n. alloc n \<Longrightarrow> replace alloc dst src = (True, map_option cstr src)"
  by (simp add: replace_def strdup_def split: option.split)

lemma seen_at_nth: "seen_at i ss h = Some j \<Longrightarrow> i \<le> j \<and> j - i < length ss \<and> sn_handle (ss ! (j - i)) = h"
proof (induction ss arbitrary: i)
  case (Cons s ss)
  show ?case
  proof (cases "sn_handle s = h")
    case False
    with Cons have "Suc i \<le> j \<and> j - Suc i < length ss \<and> sn_handle (ss ! (j - Suc i)) = h" by simp
    then show ?thesis by (auto simp: nth_Cons')
  qed (use Cons in simp)
qed simp

text \<open>
  The behaviour of gpgme and libalpm relied on: \<open>engine\<close> is the directory gpgme's contexts
  start from; it is what was last set successfully, and asking libalpm for a gpgdir or gpgme
  for its version does not move it.
\<close>

definition gpgme_ok :: "'w gpg_env \<Rightarrow> ('w \<Rightarrow> string option) \<Rightarrow> bool" where
  "gpgme_ok env engine \<longleftrightarrow>
     (\<forall>w d. let (err, w') = set_engine_info env w d in engine w' = (if err then engine w else d)) \<and>
     (\<forall>w. engine (check_version env w) = engine w) \<and>
     (\<forall>w h. engine (snd (get_gpgdir env w h)) = engine w)"

text \<open>What the server believes about gpgme is true.\<close>

definition gpg_inv :: "('w \<Rightarrow> string option) \<Rightarrow> gpgstate \<Rightarrow> 'w \<Rightarrow> bool" where
  "gpg_inv engine g w \<longleftrightarrow> (g_pointed g \<longrightarrow> same (engine w) (g_gpgdir g))"

lemma gpgdir_of_facts:
  assumes "gpgdir_of alloc env g w h = (s, g1, w1)"
  shows "g_pointed g1 = g_pointed g" "g_gpgdir g1 = g_gpgdir g"
    and "gpgme_ok env engine \<Longrightarrow> engine w1 = engine w"
    and "s = Some i \<Longrightarrow> i < length (g_seen g1) \<and> sn_handle (g_seen g1 ! i) = h"
    and "errno_ok env w h \<Longrightarrow> s = Some i \<Longrightarrow> same (sn_gpgdir (g_seen g1 ! i)) (fst (get_gpgdir env w h))"
    and "\<forall>n. alloc n \<Longrightarrow> errno_ok env w h \<Longrightarrow> s \<noteq> None"
proof -
  have eng: "engine (snd (get_gpgdir env w h)) = engine w" if "gpgme_ok env engine"
    using that by (simp add: gpgme_ok_def)
  have r: "same (if ok then dir else cur) now" if "replace alloc cur now = (ok, dir)" "ok" for cur now ok dir
    using that by (auto simp: replace_def strdup_def same_def split: option.splits if_splits)
  show "g_pointed g1 = g_pointed g" "g_gpgdir g1 = g_gpgdir g"
    using assms by (auto simp: gpgdir_of_def Let_def split: if_splits option.splits prod.splits)
  show "gpgme_ok env engine \<Longrightarrow> engine w1 = engine w"
    using assms eng by (auto simp: gpgdir_of_def Let_def split: if_splits option.splits prod.splits)
  show "s = Some i \<Longrightarrow> i < length (g_seen g1) \<and> sn_handle (g_seen g1 ! i) = h"
    using assms seen_at_nth [of 0 "g_seen g" h]
    by (auto simp: gpgdir_of_def Let_def split: if_splits option.splits prod.splits)
  show "same (sn_gpgdir (g_seen g1 ! i)) (fst (get_gpgdir env w h))" if "errno_ok env w h" "s = Some i"
    using assms that seen_at_nth [of 0 "g_seen g" h] r
    by (fastforce simp: gpgdir_of_def Let_def split: if_splits option.splits prod.splits)
  show "s \<noteq> None" if "\<forall>n. alloc n" "errno_ok env w h"
  proof -
    have r: "fst (replace alloc a b)" for a b using replace_ok [OF that(1)] by simp
    have al: "alloc sizeof_seen" using that(1) ..
    show "s \<noteq> None"
    proof
      assume "s = None"
      with assms that(2) al show False
        by (cases "seen_at 0 (g_seen g) h")
          (simp_all add: gpgdir_of_def Let_def case_prod_beta r split: if_splits)
    qed
  qed
qed

lemma follow_inv:
  assumes ok: "gpgme_ok env engine" and inv: "gpg_inv engine g w" and mem: "\<forall>n. alloc n"
    and r: "arpc_gpgdir_follow alloc env g w h = (g', w')"
  shows "gpg_inv engine g' w'"
proof -
  obtain s g1 w1 where d: "gpgdir_of alloc env g w h = (s, g1, w1)" by (metis prod_cases3)
  note f = gpgdir_of_facts [OF d]
  have inv1: "gpg_inv engine g1 w1" using inv f(1,2) f(3) [OF ok] by (simp add: gpg_inv_def)
  show ?thesis
  proof (cases "h = 0 \<or> s = None")
    case True
    then show ?thesis
      using r inv inv1 unfolding arpc_gpgdir_follow_def d by (cases "h = 0") simp_all
  next
    case False
    then obtain i where i: "h \<noteq> 0" "s = Some i" by auto
    let ?dir = "sn_gpgdir (g_seen g1 ! i)"
    obtain err w3 where e: "set_engine_info env (check_version env w1) ?dir = (err, w3)" by fastforce
    have "engine w3 = (if err then engine w1 else ?dir)"
      using ok e unfolding gpgme_ok_def by (metis (mono_tags, lifting) case_prod_conv)
    with r d i e inv1 replace_ok [OF mem, of "g_gpgdir g1" ?dir] show ?thesis
      by (auto simp: arpc_gpgdir_follow_def Let_def gpg_inv_def split: if_splits)
  qed
qed

lemma follow_engine:
  assumes ok: "gpgme_ok env engine" and inv: "gpg_inv engine g w" and mem: "\<forall>n. alloc n"
    and h: "h \<noteq> 0" and err: "errno_ok env w h" and set: "\<And>w d. \<not> fst (set_engine_info env w d)"
    and r: "arpc_gpgdir_follow alloc env g w h = (g', w')"
  shows "same (engine w') (fst (get_gpgdir env w h))"
proof -
  obtain s g1 w1 where d: "gpgdir_of alloc env g w h = (s, g1, w1)" by (metis prod_cases3)
  note f = gpgdir_of_facts [OF d]
  from f(6) [OF mem err] obtain i where i: "s = Some i" by auto
  let ?dir = "sn_gpgdir (g_seen g1 ! i)"
  obtain e w3 where e: "set_engine_info env (check_version env w1) ?dir = (e, w3)" by fastforce
  have "\<not> e" using set [of "check_version env w1" ?dir] e by simp
  then have "engine w3 = ?dir"
    using ok e unfolding gpgme_ok_def by (metis (mono_tags, lifting) case_prod_conv)
  moreover have "g_pointed g1 \<longrightarrow> same (engine w1) (g_gpgdir g1)"
    using inv f(1,2) f(3) [OF ok] by (simp add: gpg_inv_def)
  ultimately have "same (engine w') ?dir"
    using r d i e \<open>\<not> e\<close> h replace_ok [OF mem, of "g_gpgdir g1" ?dir]
    by (auto simp: arpc_gpgdir_follow_def Let_def same_def split: if_splits)
  then show ?thesis using f(5) [OF err i] same_trans by blast
qed

end
