(* ===== verification/Server_State.thy ===== *)
theory Server_State
  imports Request Response Gpgdir
begin

text \<open>
  The state of the server process, its globals gathered in one record, and the type of the
  functions that serve a method. \<open>sv_ext\<close> is everything outside these sources: libalpm,
  libarchive, gpgme and the pipe.

  A function that walks the handle table has the result \<^const>\<open>None\<close> if the walk does not end,
  so handlers and what calls them have it too; it does not happen while the table is intact.
\<close>

record 'w server =
  sv_tab :: htab
  sv_regs :: "cbreg list"
  sv_win32 :: bool
  sv_gpg :: gpgstate
  sv_shutdown :: bool
  sv_conn :: bool
  sv_seq :: int
  sv_ext :: 'w

text \<open>The globals as the process starts with them; \<^verbatim>\<open>g_seq\<close> starts at 1.\<close>

definition server_init :: "'w \<Rightarrow> 'w server" where
  "server_init w = \<lparr>sv_tab = htab_init, sv_regs = [], sv_win32 = False, sv_gpg = gpg_init,
     sv_shutdown = False, sv_conn = False, sv_seq = 1, sv_ext = w\<rparr>"

type_synonym 'w arpc_handler =
  "arpc_req \<Rightarrow> arpc_res \<Rightarrow> 'w server \<Rightarrow> (int \<times> arpc_req \<times> arpc_res \<times> 'w server) option"

text \<open>The error codes of \<^verbatim>\<open>arpc_wire.h\<close>.\<close>

definition ARPC_E_PARSE :: int where
  "ARPC_E_PARSE = -32700"

definition ARPC_E_INVALID_REQ :: int where
  "ARPC_E_INVALID_REQ = -32600"

definition ARPC_E_NO_METHOD :: int where
  "ARPC_E_NO_METHOD = -32601"

definition ARPC_E_INVALID_PARAMS :: int where
  "ARPC_E_INVALID_PARAMS = -32602"

definition ARPC_E_INTERNAL :: int where
  "ARPC_E_INTERNAL = -32603"

lemmas error_codes = ARPC_E_PARSE_def ARPC_E_INVALID_REQ_def ARPC_E_NO_METHOD_def
  ARPC_E_INVALID_PARAMS_def ARPC_E_INTERNAL_def

text \<open>Failing a call: what a handler returns after \<^verbatim>\<open>return arpc_fail(...)\<close>.\<close>

definition fail_call ::
    "arpc_req \<Rightarrow> arpc_res \<Rightarrow> 'w server \<Rightarrow> int \<Rightarrow> string \<Rightarrow> (int \<times> arpc_req \<times> arpc_res \<times> 'w server) option" where
  "fail_call rq rs sv code msg =
     (let (rc, rs1) = arpc_fail rs code (Some msg) in Some (rc, rq, rs1, sv))"

end
