(* ===== verification/Invalidate.thy ===== *)
theory Invalidate
  imports Server_State
begin

text \<open>
  The invalidation hooks of \<^verbatim>\<open>src/server/arpc_invalidate.c\<close>: around the libalpm calls that free
  objects behind the table's back, what is about to die is noted before the call and dropped
  after it. libalpm's queries are a parameter; every public function may change its state.
\<close>

section \<open>Noting and dropping\<close>

text \<open>Pointers collected before a call; the structure itself may be null.\<close>

record dying =
  dy_ptr :: "(64 word) list"
  dy_cap :: nat

definition sizeof_dying :: nat where
  "sizeof_dying = 24"

definition dying_new :: "allocator \<Rightarrow> dying option" where
  "dying_new alloc = (if alloc sizeof_dying then Some \<lparr>dy_ptr = [], dy_cap = 0\<rparr> else None)"

text \<open>\<^verbatim>\<open>n\<close> is the length of the list, and a pointer has 8 bytes.\<close>

definition note_ptr :: "allocator \<Rightarrow> dying option \<Rightarrow> 64 word \<Rightarrow> dying option" where
  "note_ptr alloc d p =
     (case d of
        None \<Rightarrow> None
      | Some y \<Rightarrow>
          if p = 0 then Some y
          else if length (dy_ptr y) = dy_cap y
          then let cap = (if dy_cap y \<noteq> 0 then dy_cap y * 2 else 16)
               in if \<not> alloc (cap * 8) then Some y
                  else Some (y\<lparr>dy_ptr := dy_ptr y @ [p], dy_cap := cap\<rparr>)
          else Some (y\<lparr>dy_ptr := dy_ptr y @ [p]\<rparr>))"

fun drop_loop ::
    "allocator \<Rightarrow> (64 word) list \<Rightarrow> nat \<Rightarrow> htab \<times> cbreg list \<Rightarrow> (htab \<times> cbreg list) option" where
  "drop_loop alloc [] tag st = Some st"
| "drop_loop alloc (p # ps) tag st =
     do { st1 \<leftarrow> arpc_handle_drop_ptr alloc st p tag; drop_loop alloc ps tag st1 }"

definition drop_all ::
    "allocator \<Rightarrow> dying option \<Rightarrow> nat \<Rightarrow> 'w server \<Rightarrow> 'w server option" where
  "drop_all alloc d tag sv =
     (case d of
        None \<Rightarrow> Some sv
      | Some y \<Rightarrow>
          do {
            (h, regs) \<leftarrow> drop_loop alloc (dy_ptr y) tag (sv_tab sv, sv_regs sv);
            Some (sv\<lparr>sv_tab := h, sv_regs := regs\<rparr>) })"

section \<open>The hooks\<close>

text \<open>The errors of libalpm that the hooks tell apart.\<close>

datatype alpm_errno_t =
    ALPM_ERR_WRONG_ARGS | ALPM_ERR_TRANS_NULL | ALPM_ERR_TRANS_NOT_PREPARED | ALPM_ERR_TRANS_NOT_LOCKED
  | ALPM_ERR_TRANS_TYPE | ALPM_ERR_RETRIEVE | ALPM_ERR_PKG_INVALID | ALPM_ERR_PKG_INVALID_CHECKSUM
  | ALPM_ERR_PKG_INVALID_SIG | ALPM_ERR_PKG_OPEN | ALPM_ERR_FILE_CONFLICTS | ALPM_ERR_DISK_SPACE
  | ALPM_ERR_ANY_OTHER nat

text \<open>Lists of pointers are libalpm's lists; 0 is the null pointer.\<close>

record 'w alpm_env =
  trans_get_add :: "'w \<Rightarrow> 64 word \<Rightarrow> (64 word) list \<times> 'w"
  trans_get_remove :: "'w \<Rightarrow> 64 word \<Rightarrow> (64 word) list \<times> 'w"
  pkg_from_file :: "'w \<Rightarrow> 64 word \<Rightarrow> bool \<times> 'w"
  pkg_get_name :: "'w \<Rightarrow> 64 word \<Rightarrow> string \<times> 'w"
  pkg_find :: "'w \<Rightarrow> (64 word) list \<Rightarrow> string \<Rightarrow> 64 word \<times> 'w"
  get_localdb :: "'w \<Rightarrow> 64 word \<Rightarrow> 64 word \<times> 'w"
  db_get_pkgcache :: "'w \<Rightarrow> 64 word \<Rightarrow> (64 word) list \<times> 'w"
  get_syncdbs :: "'w \<Rightarrow> 64 word \<Rightarrow> (64 word) list \<times> 'w"
  alpm_errno :: "'w \<Rightarrow> 64 word \<Rightarrow> alpm_errno_t"

definition handle_arg :: "nat \<Rightarrow> arpc_req \<Rightarrow> 'w server \<Rightarrow> (64 word \<times> arpc_req) option" where
  "handle_arg th rq sv = arpc_arg_handle (sv_tab sv) rq 0 th"

subsection \<open>\<^verbatim>\<open>alpm_trans_release\<close>\<close>

fun note_files :: "allocator \<Rightarrow> 'w alpm_env \<Rightarrow> (64 word) list \<Rightarrow> dying option \<times> 'w \<Rightarrow> dying option \<times> 'w" where
  "note_files alloc env [] (d, w) = (d, w)"
| "note_files alloc env (p # ps) (d, w) =
     (let (from_file, w1) = pkg_from_file env w p
      in note_files alloc env ps (if from_file then note_ptr alloc d p else d, w1))"

definition arpc_hook_alpm_trans_release_pre ::
    "allocator \<Rightarrow> nat \<Rightarrow> 'w alpm_env \<Rightarrow> arpc_req \<Rightarrow> 'w server \<Rightarrow> (dying option \<times> arpc_req \<times> 'w server) option" where
  "arpc_hook_alpm_trans_release_pre alloc th env rq sv =
     do {
       (h, rq1) \<leftarrow> handle_arg th rq sv;
       let d = dying_new alloc;
       if h = 0 then Some (d, rq1, sv)
       else let (added, w1) = trans_get_add env (sv_ext sv) h;
                (d1, w2) = note_files alloc env added (d, w1);
                (removed, w3) = trans_get_remove env w2 h
            in Some (fold (\<lambda>p d. note_ptr alloc d p) removed d1, rq1, sv\<lparr>sv_ext := w3\<rparr>) }"

definition arpc_hook_alpm_trans_release_post ::
    "allocator \<Rightarrow> nat \<Rightarrow> dying option \<Rightarrow> int \<Rightarrow> 'w server \<Rightarrow> 'w server option" where
  "arpc_hook_alpm_trans_release_post alloc tp d rc sv = (if rc = 0 then drop_all alloc d tp sv else Some sv)"

subsection \<open>\<^verbatim>\<open>alpm_trans_commit\<close>\<close>

text \<open>The installed version of each package, looked up by name in the local db's cache.\<close>

fun note_installed ::
    "allocator \<Rightarrow> 'w alpm_env \<Rightarrow> (64 word) list \<Rightarrow> (64 word) list \<Rightarrow> dying option \<times> 'w \<Rightarrow> dying option \<times> 'w" where
  "note_installed alloc env cache [] (d, w) = (d, w)"
| "note_installed alloc env cache (p # ps) (d, w) =
     (let (name, w1) = pkg_get_name env w p;
          (q, w2) = pkg_find env w1 cache name
      in note_installed alloc env cache ps (note_ptr alloc d q, w2))"

definition arpc_hook_alpm_trans_commit_pre ::
    "allocator \<Rightarrow> nat \<Rightarrow> 'w alpm_env \<Rightarrow> arpc_req \<Rightarrow> 'w server \<Rightarrow> (dying option \<times> arpc_req \<times> 'w server) option" where
  "arpc_hook_alpm_trans_commit_pre alloc th env rq sv =
     do {
       (h, rq1) \<leftarrow> handle_arg th rq sv;
       let d = dying_new alloc;
       let (local_db, w1) = (if h \<noteq> 0 then get_localdb env (sv_ext sv) h else (0, sv_ext sv));
       if local_db = 0 then Some (d, rq1, sv\<lparr>sv_ext := w1\<rparr>)
       else let (cache, w2) = db_get_pkgcache env w1 local_db;
                (added, w3) = trans_get_add env w2 h;
                (d1, w4) = note_installed alloc env cache added (d, w3);
                (removed, w5) = trans_get_remove env w4 h;
                (d2, w6) = note_installed alloc env cache removed (d1, w5)
            in Some (d2, rq1, sv\<lparr>sv_ext := w6\<rparr>) }"

definition touched_nothing :: "alpm_errno_t \<Rightarrow> bool" where
  "touched_nothing e = (case e of ALPM_ERR_ANY_OTHER _ \<Rightarrow> False | _ \<Rightarrow> True)"

definition arpc_hook_alpm_trans_commit_post ::
    "allocator \<Rightarrow> nat \<Rightarrow> nat \<Rightarrow> 'w alpm_env \<Rightarrow> arpc_req \<Rightarrow> dying option \<Rightarrow> int \<Rightarrow> 'w server \<Rightarrow>
     (arpc_req \<times> 'w server) option" where
  "arpc_hook_alpm_trans_commit_post alloc th tp env rq d rc sv =
     do {
       (h, rq1) \<leftarrow> handle_arg th rq sv;
       sv1 \<leftarrow> (if rc = 0 \<or> h = 0 \<or> \<not> touched_nothing (alpm_errno env (sv_ext sv) h)
               then drop_all alloc d tp sv else Some sv);
       Some (rq1, sv1) }"

subsection \<open>\<^verbatim>\<open>alpm_db_update\<close>\<close>

definition arpc_hook_alpm_db_update_pre :: "dying option" where
  "arpc_hook_alpm_db_update_pre = None"

text \<open>The walk over the argument's nodes; no document has more nodes than its count.\<close>

fun under_walk :: "nat \<Rightarrow> allocator \<Rightarrow> arpc_req \<Rightarrow> int \<Rightarrow> htab \<Rightarrow> htab option" where
  "under_walk 0 alloc rq e h = None"
| "under_walk (Suc fuel) alloc rq e h =
     (if e < 0 then Some h
      else do {
        h1 \<leftarrow> arpc_handle_drop_under alloc h (word_of_int (arpc_node_i64 rq e));
        under_walk fuel alloc rq (arpc_node_next rq e) h1 })"

definition arpc_hook_alpm_db_update_post ::
    "allocator \<Rightarrow> arpc_req \<Rightarrow> int \<Rightarrow> 'w server \<Rightarrow> (arpc_req \<times> 'w server) option" where
  "arpc_hook_alpm_db_update_post alloc rq rc sv =
     (if rc = 1 then Some (rq, sv)
      else let (dbs, rq1) = arpc_arg_node rq 1 in
        do {
          h \<leftarrow> under_walk (Suc (d_count (rq_doc rq1))) alloc rq1 (arpc_node_first rq1 dbs) (sv_tab sv);
          Some (rq1, sv\<lparr>sv_tab := h\<rparr>) })"

subsection \<open>\<^verbatim>\<open>alpm_unregister_all_syncdbs\<close>\<close>

definition arpc_hook_alpm_unregister_all_syncdbs_pre ::
    "allocator \<Rightarrow> nat \<Rightarrow> 'w alpm_env \<Rightarrow> arpc_req \<Rightarrow> 'w server \<Rightarrow> (dying option \<times> arpc_req \<times> 'w server) option" where
  "arpc_hook_alpm_unregister_all_syncdbs_pre alloc th env rq sv =
     do {
       (h, rq1) \<leftarrow> handle_arg th rq sv;
       let d = dying_new alloc;
       let (dbs, w1) = (if h \<noteq> 0 then get_syncdbs env (sv_ext sv) h else ([], sv_ext sv));
       Some (fold (\<lambda>p d. note_ptr alloc d p) dbs d, rq1, sv\<lparr>sv_ext := w1\<rparr>) }"

definition arpc_hook_alpm_unregister_all_syncdbs_post ::
    "allocator \<Rightarrow> nat \<Rightarrow> dying option \<Rightarrow> int \<Rightarrow> 'w server \<Rightarrow> 'w server option" where
  "arpc_hook_alpm_unregister_all_syncdbs_post alloc td d rc sv = (if rc = 0 then drop_all alloc d td sv else Some sv)"

section \<open>What is noted\<close>

text \<open>With memory, a structure that holds exactly the pointers \<open>ps\<close>.\<close>

definition noted :: "dying option \<Rightarrow> (64 word) list \<Rightarrow> bool" where
  "noted d ps \<longleftrightarrow> (\<exists>y. d = Some y \<and> dy_ptr y = ps)"

abbreviation non_null :: "(64 word) list \<Rightarrow> (64 word) list" where
  "non_null \<equiv> filter (\<lambda>p. p \<noteq> 0)"

lemma noted_new: "\<forall>n. alloc n \<Longrightarrow> noted (dying_new alloc) []"
  by (simp add: noted_def dying_new_def)

lemma noted_ptr: "\<forall>n. alloc n \<Longrightarrow> noted d ps \<Longrightarrow> noted (note_ptr alloc d p) (ps @ non_null [p])"
  by (auto simp: noted_def note_ptr_def Let_def)

lemma noted_fold:
  "\<forall>n. alloc n \<Longrightarrow> noted d ps \<Longrightarrow> noted (fold (\<lambda>p d. note_ptr alloc d p) qs d) (ps @ non_null qs)"
proof (induction qs arbitrary: d ps)
  case (Cons q qs)
  from Cons.IH [OF Cons.prems(1) noted_ptr [OF Cons.prems, of q]] show ?case by (simp split: if_splits)
qed simp

text \<open>The packages each hook is about.\<close>

fun files_of :: "'w alpm_env \<Rightarrow> (64 word) list \<Rightarrow> 'w \<Rightarrow> (64 word) list \<times> 'w" where
  "files_of env [] w = ([], w)"
| "files_of env (p # ps) w =
     (let (from_file, w1) = pkg_from_file env w p; (qs, w2) = files_of env ps w1
      in (if from_file then p # qs else qs, w2))"

fun installed_of :: "'w alpm_env \<Rightarrow> (64 word) list \<Rightarrow> (64 word) list \<Rightarrow> 'w \<Rightarrow> (64 word) list \<times> 'w" where
  "installed_of env cache [] w = ([], w)"
| "installed_of env cache (p # ps) w =
     (let (name, w1) = pkg_get_name env w p; (q, w2) = pkg_find env w1 cache name;
          (qs, w3) = installed_of env cache ps w2
      in (q # qs, w3))"

lemma noted_files:
  "\<forall>n. alloc n \<Longrightarrow> noted d ps \<Longrightarrow> files_of env qs w = (fs, w') \<Longrightarrow>
     \<exists>d'. note_files alloc env qs (d, w) = (d', w') \<and> noted d' (ps @ non_null fs)"
proof (induction qs arbitrary: d ps w fs)
  case (Cons q qs)
  obtain f w1 where f: "pkg_from_file env w q = (f, w1)" by fastforce
  obtain gs w2 where g: "files_of env qs w1 = (gs, w2)" by fastforce
  have r: "w2 = w'" "fs = (if f then q # gs else gs)" using Cons.prems(3) f g by auto
  have n: "noted (if f then note_ptr alloc d q else d) (ps @ (if f then non_null [q] else []))"
    using Cons.prems(1,2) noted_ptr by auto
  from Cons.IH [OF Cons.prems(1) n g [unfolded r(1)]] f r show ?case by auto
qed simp

lemma noted_installed:
  "\<forall>n. alloc n \<Longrightarrow> noted d ps \<Longrightarrow> installed_of env cache qs w = (fs, w') \<Longrightarrow>
     \<exists>d'. note_installed alloc env cache qs (d, w) = (d', w') \<and> noted d' (ps @ non_null fs)"
proof (induction qs arbitrary: d ps w fs)
  case (Cons q qs)
  obtain name w1 where n: "pkg_get_name env w q = (name, w1)" by fastforce
  obtain p w2 where p: "pkg_find env w1 cache name = (p, w2)" by fastforce
  obtain gs w3 where g: "installed_of env cache qs w2 = (gs, w3)" by fastforce
  have r: "w3 = w'" "fs = p # gs" using Cons.prems(3) n p g by auto
  from Cons.IH [OF Cons.prems(1) noted_ptr [OF Cons.prems(1,2), of p] g [unfolded r(1)]] n p r show ?case
    by (cases "p = 0") auto
qed simp

text \<open>Without memory some are missed, but nothing else is ever noted.\<close>

lemma note_ptr_sub: "d = Some y \<Longrightarrow> note_ptr alloc d p = Some y' \<Longrightarrow> set (dy_ptr y') \<subseteq> insert p (set (dy_ptr y))"
  by (auto simp: note_ptr_def Let_def split: if_splits)

section \<open>What is dropped\<close>

lemma filed_sub: "hview h' \<subseteq>\<^sub>m hview h \<Longrightarrow> filed h' p tag s \<Longrightarrow> filed h p tag s"
  by (auto simp: filed_def map_le_def dom_def)

lemma drop_ptr_view:
  assumes inv: "hinv h" and mem: "\<forall>n. alloc n"
  shows "\<exists>h' regs'. arpc_handle_drop_ptr alloc (h, regs) ptr tag = Some (h', regs') \<and> hinv h' \<and>
     (\<nexists>s. filed h' ptr tag s \<and> ptr \<noteq> 0) \<and> hview h' \<subseteq>\<^sub>m hview h \<and> h_next_seq h' = h_next_seq h \<and>
     (\<forall>hid s. hview h hid = Some s \<and> hview h' hid = None \<longrightarrow>
        (\<exists>s'. filed h ptr tag s' \<and> under_in 8 (hview h) hid (s_id s')))"
proof (cases "ptr = 0")
  case True
  then show ?thesis using inv by (auto simp: arpc_handle_drop_ptr_def hfind_ptr_def)
next
  case False
  obtain r where r: "hfind_ptr h ptr tag = Some r" "case r of None \<Rightarrow> \<forall>s \<in> live (h_tab h). slot_key s \<noteq> (ptr, tag)
      | Some i \<Rightarrow> i < length (h_tab h) \<and> h_tab h ! i \<in> live (h_tab h) \<and> slot_key (h_tab h ! i) = (ptr, tag)"
    using hfind_ptr_view [OF inv False, of tag] by blast
  show ?thesis
  proof (cases r)
    case None
    then have "\<nexists>s. filed h ptr tag s" using r(2) filed_live [OF inv] by auto
    with r None inv show ?thesis by (auto simp: arpc_handle_drop_ptr_def)
  next
    case (Some i)
    let ?s = "h_tab h ! i"
    have s: "?s \<in> live (h_tab h)" "slot_key ?s = (ptr, tag)" using r(2) Some by auto
    then have f: "filed h ptr tag ?s" using filed_live [OF inv] by simp
    have ne: "s_id ?s \<noteq> 0" using s(1) by (auto simp: live_def)
    obtain h' where h': "arpc_handle_drop_owner alloc (h, regs) (s_id ?s) = Some (h', arpc_cb_purge regs (s_id ?s))"
        "hinv h'" "h_next_seq h' = h_next_seq h" "hview h' = prune (hview h) (s_id ?s) False"
      using drop_owner_view [OF inv ne, of alloc regs] mem by auto
    have sub: "hview h' \<subseteq>\<^sub>m hview h" unfolding h'(4) by (auto simp: map_le_def prune_def)
    have "\<not> filed h' ptr tag x" for x
    proof
      assume x: "filed h' ptr tag x"
      then have "filed h ptr tag x" by (rule filed_sub [OF sub])
      then have "x = ?s" using hinv_unique(2) [OF inv _ s(1)] filed_live [OF inv] s(2) by auto
      with x ne show False unfolding filed_def h'(4) by (simp add: prune_def numeral_eq_Suc)
    qed
    moreover have "\<exists>s'. filed h ptr tag s' \<and> under_in 8 (hview h) hid (s_id s')"
      if "hview h hid = Some s" "hview h' hid = None" for hid s
      using that f unfolding h'(4) by (auto simp: prune_def split: if_splits)
    ultimately show ?thesis using r Some h' sub by (simp add: arpc_handle_drop_ptr_def) blast
  qed
qed

lemma drop_loop_view:
  assumes "hinv h" and mem: "\<forall>n. alloc n"
  shows "\<exists>h' regs'. drop_loop alloc ps tag (h, regs) = Some (h', regs') \<and> hinv h' \<and>
     (\<forall>p \<in> set ps. \<nexists>s. filed h' p tag s \<and> p \<noteq> 0) \<and> hview h' \<subseteq>\<^sub>m hview h \<and> h_next_seq h' = h_next_seq h"
  using assms(1)
proof (induction ps arbitrary: h regs)
  case (Cons p ps)
  obtain h1 regs1 where h1: "arpc_handle_drop_ptr alloc (h, regs) p tag = Some (h1, regs1)" "hinv h1"
      "\<nexists>s. filed h1 p tag s \<and> p \<noteq> 0" "hview h1 \<subseteq>\<^sub>m hview h" "h_next_seq h1 = h_next_seq h"
    using drop_ptr_view [OF Cons.prems mem, of regs p tag] by blast
  obtain h2 regs2 where h2: "drop_loop alloc ps tag (h1, regs1) = Some (h2, regs2)" "hinv h2"
      "\<forall>p \<in> set ps. \<nexists>s. filed h2 p tag s \<and> p \<noteq> 0" "hview h2 \<subseteq>\<^sub>m hview h1" "h_next_seq h2 = h_next_seq h1"
    using Cons.IH [OF h1(2), of regs1] by blast
  have "\<nexists>s. filed h2 p tag s \<and> p \<noteq> 0" using h1(3) filed_sub [OF h2(4)] by blast
  with h1 h2 map_le_trans [OF h2(4) h1(4)] show ?case by auto
qed simp

text \<open>After the drops no dead pointer is filed any more, and what is left is as it was.\<close>

lemma drop_all_view:
  assumes "hinv (sv_tab sv)" and "\<forall>n. alloc n" and "noted d ps"
  shows "\<exists>sv'. drop_all alloc d tag sv = Some sv' \<and> hinv (sv_tab sv') \<and>
     (\<forall>p \<in> set ps. \<nexists>s. filed (sv_tab sv') p tag s \<and> p \<noteq> 0) \<and> hview (sv_tab sv') \<subseteq>\<^sub>m hview (sv_tab sv) \<and>
     sv_ext sv' = sv_ext sv"
  using drop_loop_view [OF assms(1,2), of ps tag "sv_regs sv"] assms(3)
  by (auto simp: drop_all_def noted_def)

text \<open>What each hook notes before the call, and the state it leaves the libraries in.\<close>

lemma release_pre_notes:
  assumes mem: "\<forall>n. alloc n" and h: "handle_arg th rq sv = Some (h, rq1)" "h \<noteq> 0"
    and add: "trans_get_add env (sv_ext sv) h = (added, w1)" and files: "files_of env added w1 = (fs, w2)"
    and remove: "trans_get_remove env w2 h = (removed, w3)"
  shows "\<exists>d. arpc_hook_alpm_trans_release_pre alloc th env rq sv = Some (d, rq1, sv\<lparr>sv_ext := w3\<rparr>) \<and>
    noted d (non_null fs @ non_null removed)"
proof -
  obtain d' where "note_files alloc env added (dying_new alloc, w1) = (d', w2)" "noted d' (non_null fs)"
    using noted_files [OF mem noted_new [OF mem] files] by auto
  with noted_fold [OF mem this(2), of removed] h add remove show ?thesis
    by (simp add: arpc_hook_alpm_trans_release_pre_def)
qed

lemma commit_pre_notes:
  assumes mem: "\<forall>n. alloc n" and h: "handle_arg th rq sv = Some (h, rq1)" "h \<noteq> 0"
    and db: "get_localdb env (sv_ext sv) h = (db, w1)" "db \<noteq> 0" and cache: "db_get_pkgcache env w1 db = (cache, w2)"
    and add: "trans_get_add env w2 h = (added, w3)" and ia: "installed_of env cache added w3 = (fs, w4)"
    and remove: "trans_get_remove env w4 h = (removed, w5)" and ir: "installed_of env cache removed w5 = (gs, w6)"
  shows "\<exists>d. arpc_hook_alpm_trans_commit_pre alloc th env rq sv = Some (d, rq1, sv\<lparr>sv_ext := w6\<rparr>) \<and>
    noted d (non_null fs @ non_null gs)"
proof -
  obtain d1 where d1: "note_installed alloc env cache added (dying_new alloc, w3) = (d1, w4)" "noted d1 (non_null fs)"
    using noted_installed [OF mem noted_new [OF mem] ia] by auto
  obtain d2 where "note_installed alloc env cache removed (d1, w5) = (d2, w6)" "noted d2 (non_null fs @ non_null gs)"
    using noted_installed [OF mem d1(2) ir] by auto
  with d1 h db cache add remove show ?thesis by (simp add: arpc_hook_alpm_trans_commit_pre_def)
qed

lemma unregister_pre_notes:
  assumes mem: "\<forall>n. alloc n" and h: "handle_arg th rq sv = Some (h, rq1)" "h \<noteq> 0"
    and dbs: "get_syncdbs env (sv_ext sv) h = (dbs, w1)"
  shows "\<exists>d. arpc_hook_alpm_unregister_all_syncdbs_pre alloc th env rq sv = Some (d, rq1, sv\<lparr>sv_ext := w1\<rparr>) \<and>
    noted d (non_null dbs)"
  using noted_fold [OF mem noted_new [OF mem], of dbs] h dbs
  by (simp add: arpc_hook_alpm_unregister_all_syncdbs_pre_def)

section \<open>Which ids an updated db loses\<close>

lemma under_walk_view:
  assumes d: "doc_ok (rq_doc rq)" and mem: "\<forall>n. alloc n"
  shows "chain (rq_doc rq) e ks \<Longrightarrow> length ks < fuel \<Longrightarrow> hinv h \<Longrightarrow>
     \<forall>k \<in> set ks. word_of_int (aj_i64 (rq_doc rq) (int k) 0) \<noteq> (0 :: 64 word) \<Longrightarrow>
     \<exists>h'. under_walk fuel alloc rq e h = Some h' \<and> hinv h' \<and>
       hview h' = fold (\<lambda>k v. prune v (word_of_int (aj_i64 (rq_doc rq) (int k) 0)) True) ks (hview h)"
proof (induction ks arbitrary: fuel e h)
  case Nil
  then show ?case by (cases fuel) auto
next
  case (Cons k ks)
  then obtain f where f: "fuel = Suc f" by (cases fuel) auto
  have e: "e = int k" "k < d_count (rq_doc rq)" "chain (rq_doc rq) (next_sibling (d_nodes (rq_doc rq) ! k)) ks"
    using Cons.prems(1) by auto
  let ?id = "word_of_int (aj_i64 (rq_doc rq) (int k) 0) :: 64 word"
  obtain h1 where h1: "arpc_handle_drop_under alloc h ?id = Some h1" "hinv h1" "hview h1 = prune (hview h) ?id True"
    using drop_under_view [OF Cons.prems(3), of ?id alloc] Cons.prems(4) mem by auto
  obtain h2 where "under_walk f alloc rq (next_sibling (d_nodes (rq_doc rq) ! k)) h1 = Some h2" "hinv h2"
      "hview h2 = fold (\<lambda>k v. prune v (word_of_int (aj_i64 (rq_doc rq) (int k) 0)) True) ks (hview h1)"
    using Cons.IH [OF e(3) _ h1(2), of f] Cons.prems(2,4) f by auto
  with h1 e f show ?case by (simp add: arpc_node_i64_def arpc_node_next_def aj_next_def)
qed

end
