(* ===== verification/Mtree.thy ===== *)
theory Mtree
  imports Server_State
begin

text \<open>
  The server half of the mtree bridge, \<^verbatim>\<open>src/server/arpc_mtree.c\<close>: libarchive writes a
  package's file listing into a growing sink, which is sent as bytes.

  libarchive and libalpm's archive functions are a parameter. An archive libalpm has opened is
  the list of the entries it will yield. A call into libarchive's writer is the list of blocks
  it hands to the sink, in order, and whether it accepts the entry; libarchive stops at the
  first block the sink refuses and fails the call.
\<close>

record sink =
  sk_buf :: "byte list"
  sk_cap :: nat
  sk_failed :: bool

abbreviation sk_len :: "sink \<Rightarrow> nat" where
  "sk_len s \<equiv> length (sk_buf s)"

definition sink_zero :: sink where
  "sink_zero = \<lparr>sk_buf = [], sk_cap = 0, sk_failed = False\<rparr>"

text \<open>
  The result is the number of bytes taken, or -1; \<^const>\<open>None\<close> only for a need above half
  the address space, where the loop of the source would not end.
\<close>

definition sink_write :: "allocator \<Rightarrow> sink \<Rightarrow> byte list \<Rightarrow> (int \<times> sink) option" where
  "sink_write alloc s b =
     (if sk_len s + length b > sk_cap s
      then do {
        cap \<leftarrow> grow_loop 64 (if sk_cap s \<noteq> 0 then sk_cap s else 8192) (sk_len s + length b);
        if \<not> alloc cap then Some (-1, s\<lparr>sk_failed := True\<rparr>)
        else Some (int (length b), s\<lparr>sk_buf := sk_buf s @ b, sk_cap := cap\<rparr>) }
      else Some (int (length b), s\<lparr>sk_buf := sk_buf s @ b\<rparr>))"

record ('w, 'e) archive_env =
  mtree_open :: "'w \<Rightarrow> 64 word \<Rightarrow> 'e list option \<times> 'w"
  mtree_close :: "'w \<Rightarrow> 64 word \<Rightarrow> 'w"
  write_new :: "'w \<Rightarrow> bool \<times> 'w"
  write_open :: "'w \<Rightarrow> bool \<times> 'w"
  write_header :: "'w \<Rightarrow> 'e \<Rightarrow> byte list list \<times> bool \<times> 'w"
  write_close :: "'w \<Rightarrow> byte list list \<times> 'w"
  write_free :: "'w \<Rightarrow> 'w"

fun feed :: "allocator \<Rightarrow> sink \<Rightarrow> byte list list \<Rightarrow> (bool \<times> sink) option" where
  "feed alloc s [] = Some (True, s)"
| "feed alloc s (b # bs) =
     do {
       (n, s1) \<leftarrow> sink_write alloc s b;
       if n < 0 then Some (False, s1) else feed alloc s1 bs }"

text \<open>The loop over the entries: \<^verbatim>\<open>rc\<close>, and the state and the sink after it.\<close>

fun header_loop ::
    "allocator \<Rightarrow> ('w, 'e) archive_env \<Rightarrow> 'w \<Rightarrow> sink \<Rightarrow> 'e list \<Rightarrow> (int \<times> 'w \<times> sink) option" where
  "header_loop alloc env w s [] = Some (0, w, s)"
| "header_loop alloc env w s (e # es) =
     (let (blocks, accepted, w1) = write_header env w e in
      do {
        (taken, s1) \<leftarrow> feed alloc s blocks;
        if taken \<and> accepted then header_loop alloc env w1 s1 es else Some (-1, w1, s1) })"

definition arpc_mtree_get :: "allocator \<Rightarrow> nat \<Rightarrow> ('w, 'e) archive_env \<Rightarrow> 'w arpc_handler" where
  "arpc_mtree_get alloc tp env rq0 rs sv =
     do {
       (pkg, rq) \<leftarrow> arpc_arg_handle (sv_tab sv) rq0 0 tp;
       if arpc_req_bad rq \<or> pkg = 0
       then fail_call rq rs sv ARPC_E_INVALID_PARAMS ''arpc.mtree: bad arguments''
       else let (inp, w1) = mtree_open env (sv_ext sv) pkg in
         case inp of
           None \<Rightarrow> Some (0, rq, arpc_ret_null alloc rs, sv\<lparr>sv_ext := w1\<rparr>)
         | Some entries \<Rightarrow>
             let (made, w2) = write_new env w1 in
             if \<not> made
             then fail_call rq rs (sv\<lparr>sv_ext := mtree_close env w2 pkg\<rparr>) ARPC_E_INTERNAL ''out of memory''
             else let (opened, w3) = write_open env w2 in
               if \<not> opened
               then fail_call rq rs (sv\<lparr>sv_ext := mtree_close env (write_free env w3) pkg\<rparr>)
                      ARPC_E_INTERNAL ''cannot write mtree''
               else do {
                 (rc, w4, s1) \<leftarrow> header_loop alloc env w3 sink_zero entries;
                 let (blocks, w5) = write_close env w4;
                     w6 = mtree_close env (write_free env w5) pkg
                 in do {
                   (taken, s2) \<leftarrow> feed alloc s1 blocks;
                   if rc \<noteq> 0 \<or> sk_failed s2
                   then fail_call rq rs (sv\<lparr>sv_ext := w6\<rparr>) ARPC_E_INTERNAL
                          ''arpc.mtree: could not re-serialise the mtree''
                   else Some (0, rq,
                     arpc_ret_bytes alloc rs (if sk_cap s2 = 0 then None else Some (sk_buf s2)),
                     sv\<lparr>sv_ext := w6\<rparr>) } } }"

section \<open>What the sink collects\<close>

text \<open>The blocks of a run of the writer, as long as every entry is accepted.\<close>

fun header_blocks :: "('w, 'e) archive_env \<Rightarrow> 'w \<Rightarrow> 'e list \<Rightarrow> byte list list \<times> bool \<times> 'w" where
  "header_blocks env w [] = ([], True, w)"
| "header_blocks env w (e # es) =
     (let (blocks, accepted, w1) = write_header env w e in
      if accepted then (let (more, ok, w2) = header_blocks env w1 es in (blocks @ more, ok, w2))
      else (blocks, False, w1))"

definition sink_has :: "sink \<Rightarrow> byte list \<Rightarrow> bool" where
  "sink_has s b \<longleftrightarrow> sk_buf s = b \<and> \<not> sk_failed s \<and> sk_len s \<le> sk_cap s"

lemma sink_write_has:
  assumes "sink_has s b" and "\<forall>n. alloc n" and "length b + length c \<le> 2 ^ 63"
  shows "\<exists>s'. sink_write alloc s c = Some (int (length c), s') \<and> sink_has s' (b @ c)"
proof -
  have "0 < (if sk_cap s \<noteq> 0 then sk_cap s else 8192)" "sk_len s + length c \<le> 2 ^ 63"
    using assms by (simp_all add: sink_has_def)
  from grow_loop_64 [OF this]
  obtain cap where "grow_loop 64 (if sk_cap s \<noteq> 0 then sk_cap s else 8192) (sk_len s + length c) = Some cap"
    by blast
  with grow_loop_ge [OF this] assms show ?thesis
    by (auto simp: sink_write_def sink_has_def simp del: grow_loop.simps)
qed

lemma feed_has:
  "sink_has s b \<Longrightarrow> \<forall>n. alloc n \<Longrightarrow> length b + length (concat bs) \<le> 2 ^ 63 \<Longrightarrow>
     \<exists>s'. feed alloc s bs = Some (True, s') \<and> sink_has s' (b @ concat bs)"
proof (induction bs arbitrary: s b)
  case (Cons c bs)
  obtain s' where s': "sink_write alloc s c = Some (int (length c), s')" "sink_has s' (b @ c)"
    using sink_write_has [OF Cons.prems(1,2), of c] Cons.prems(3) by auto
  from Cons.IH [OF s'(2) Cons.prems(2)] Cons.prems(3) s'(1) show ?case by auto
qed simp

lemma header_loop_has:
  assumes "header_blocks env w es = (bs, ok, w')"
  shows "sink_has s b \<Longrightarrow> \<forall>n. alloc n \<Longrightarrow> length b + length (concat bs) \<le> 2 ^ 63 \<Longrightarrow>
     \<exists>s'. header_loop alloc env w s es = Some (if ok then 0 else -1, w', s') \<and> sink_has s' (b @ concat bs)"
  using assms
proof (induction es arbitrary: s b w bs)
  case (Cons e es)
  obtain blocks accepted w1 where e: "write_header env w e = (blocks, accepted, w1)" by (metis prod_cases3)
  obtain more ok' w2 where m: "header_blocks env w1 es = (more, ok', w2)" by (metis prod_cases3)
  have bs: "length b + length (concat blocks) \<le> 2 ^ 63"
    using Cons.prems(3,4) e m by (auto split: if_splits)
  obtain s' where s': "feed alloc s blocks = Some (True, s')" "sink_has s' (b @ concat blocks)"
    using feed_has [OF Cons.prems(1,2) bs] by blast
  show ?case
  proof (cases accepted)
    case True
    then have eq: "bs = blocks @ more" "ok' = ok" "w2 = w'" using Cons.prems(4) e m by simp_all
    from Cons.IH [OF s'(2) Cons.prems(2) _ m [unfolded eq(2,3)]] Cons.prems(3) eq(1) True e s'(1)
    show ?thesis by auto
  next
    case False
    then show ?thesis using Cons.prems(4) e s' by auto
  qed
qed simp

lemma sink_has_zero [simp]: "sink_has sink_zero []"
  by (simp add: sink_has_def sink_zero_def)

end
