(* ===== verification/Callbacks.thy ===== *)
theory Callbacks
  imports Server_State Codec
begin

text \<open>
  The server half of the callback bridge, \<^verbatim>\<open>src/server/arpc_callbacks.c\<close>: which callbacks a
  client asked for, per handle, and sending one and waiting for its answer. The kinds of
  callback are a generated table: their wire names and the functions that install their
  trampolines with libalpm.
\<close>

type_synonym 'w cb_kind = "string \<times> (64 word \<Rightarrow> int \<Rightarrow> 64 word \<Rightarrow> 'w \<Rightarrow> int \<times> 'w)"

section \<open>Registrations\<close>

fun reg_at :: "nat \<Rightarrow> cbreg list \<Rightarrow> 64 word \<Rightarrow> nat option" where
  "reg_at i [] handle = None"
| "reg_at i (r # rs) handle = (if r_handle r = handle then Some i else reg_at (Suc i) rs handle)"

definition sizeof_cbreg :: nat where
  "sizeof_cbreg = 24"

text \<open>The registration of a handle, by its place in the list; a new one goes to the front.\<close>

definition reg_for :: "allocator \<Rightarrow> cbreg list \<Rightarrow> 64 word \<Rightarrow> bool \<Rightarrow> nat option \<times> cbreg list" where
  "reg_for alloc regs handle create =
     (case reg_at 0 regs handle of
        Some i \<Rightarrow> (Some i, regs)
      | None \<Rightarrow>
          if \<not> create then (None, regs)
          else if alloc sizeof_cbreg then (Some 0, \<lparr>r_handle = handle, r_enabled = 0\<rparr> # regs)
          else (None, regs))"

definition arpc_cb_wanted :: "allocator \<Rightarrow> cbreg list \<Rightarrow> 64 word \<Rightarrow> nat \<Rightarrow> bool" where
  "arpc_cb_wanted alloc regs handle kind =
     (case fst (reg_for alloc regs handle False) of
        None \<Rightarrow> False
      | Some i \<Rightarrow> r_enabled (regs ! i) AND push_bit kind 1 \<noteq> 0)"

text \<open>The last kind of the given name, \<^verbatim>\<open>-1\<close> if there is none.\<close>

fun kind_loop :: "int \<Rightarrow> int \<Rightarrow> 'w cb_kind list \<Rightarrow> string \<Rightarrow> int" where
  "kind_loop kind i [] which = kind"
| "kind_loop kind i (k # ks) which = kind_loop (if fst k = which then i else kind) (i + 1) ks which"

section \<open>\<^verbatim>\<open>arpc.set_callback\<close>\<close>

text \<open>The bit of one kind, set or cleared.\<close>

definition set_enabled :: "bool \<Rightarrow> nat \<Rightarrow> cbreg \<Rightarrow> cbreg" where
  "set_enabled on kind r =
     r\<lparr>r_enabled := (if on then r_enabled r OR push_bit kind 1 else r_enabled r AND NOT (push_bit kind 1))\<rparr>"

text \<open>\<^verbatim>\<open>(int)arpc_arg_i64(...)\<close> keeps the low 32 bits.\<close>

definition arpc_cb_set :: "allocator \<Rightarrow> nat \<Rightarrow> 'w cb_kind list \<Rightarrow> 'w arpc_handler" where
  "arpc_cb_set alloc th kinds rq0 rs sv =
     (let (hid, rq1) = arpc_arg_id rq0 0 in
      do {
        (h, rq2) \<leftarrow> arpc_arg_handle (sv_tab sv) rq1 0 th;
        let (which, rq3) = arpc_arg_str rq2 1;
            (flag, rq) = arpc_arg_i64 rq3 2;
            enabled = signed_take_bit 31 flag
        in
        if arpc_req_bad rq \<or> which = None
        then fail_call rq rs sv ARPC_E_INVALID_PARAMS ''arpc.set_callback: bad arguments''
        else let kind = kind_loop (-1) 0 kinds (the which) in
          if kind < 0
          then fail_call rq rs sv ARPC_E_INVALID_PARAMS ''arpc.set_callback: unknown callback''
          else let (r, regs) = reg_for alloc (sv_regs sv) hid True in
            case r of
              None \<Rightarrow> fail_call rq rs (sv\<lparr>sv_regs := regs\<rparr>) ARPC_E_INTERNAL ''out of memory''
            | Some i \<Rightarrow>
                let regs1 = regs[i := set_enabled (enabled \<noteq> 0) (nat kind) (regs ! i)];
                    (v, w) = snd (kinds ! nat kind) h enabled hid (sv_ext sv)
                in Some (0, rq, arpc_ret_i64 alloc rs v, sv\<lparr>sv_regs := regs1, sv_ext := w\<rparr>) })"

section \<open>Sending a callback\<close>

text \<open>
  \<open>exch\<close> is \<^verbatim>\<open>arpc_conn_exchange\<close>: it sends a frame and returns the answer, or nothing when
  the connection failed. \<open>args\<close> is \<^const>\<open>None\<close> for a null pointer.
\<close>

definition cb_frame :: "allocator \<Rightarrow> string \<Rightarrow> int \<Rightarrow> 64 word \<Rightarrow> aj_w option \<Rightarrow> aj_w" where
  "cb_frame alloc name sq handle args =
     (let w1 = ajw_str alloc (ajw_key alloc (ajw_obj_begin alloc ajw_init) ''cb'') (Some name);
          w2 = ajw_i64 alloc (ajw_key alloc w1 ''seq'') sq;
          w3 = ajw_i64 alloc (ajw_key alloc w2 ''handle'') (sint handle);
          w4 = ajw_key alloc w3 ''args'';
          w5 = (case args of
                  Some a \<Rightarrow> if w_cap a \<noteq> 0 then ajw_raw alloc w4 (w_text a) else ajw_null alloc w4
                | None \<Rightarrow> ajw_null alloc w4)
      in ajw_obj_end alloc w5)"

definition cb_answer :: "allocator \<Rightarrow> int \<Rightarrow> int \<Rightarrow> string \<Rightarrow> int" where
  "cb_answer alloc sq dflt reply =
     (case aj_parse alloc (cstr reply) of
        None \<Rightarrow> dflt
      | Some d \<Rightarrow>
          if aj_i64 d (aj_member d 0 ''cbseq'') (-1) = sq
          then aj_i64 d (aj_member d 0 ARPC_RET_KEY) dflt
          else dflt)"

definition arpc_cb_send ::
    "allocator \<Rightarrow> 'w cb_kind list \<Rightarrow> ('w server \<Rightarrow> string \<Rightarrow> (string option \<times> 'w server) option) \<Rightarrow>
     nat \<Rightarrow> 64 word \<Rightarrow> aj_w option \<Rightarrow> int \<Rightarrow> 'w server \<Rightarrow> (int \<times> 'w server) option" where
  "arpc_cb_send alloc kinds exch kind handle args dflt sv =
     (if \<not> sv_conn sv then Some (dflt, sv)
      else let sq = sv_seq sv;
               sv1 = sv\<lparr>sv_seq := sv_seq sv + 1\<rparr>;
               w = cb_frame alloc (fst (kinds ! kind)) sq handle args
        in if w_err w then Some (dflt, sv1)
           else do {
             (reply, sv2) \<leftarrow> exch sv1 (w_text w);
             Some (case reply of None \<Rightarrow> dflt | Some r \<Rightarrow> cb_answer alloc sq dflt r, sv2) })"

section \<open>Which callbacks are sent\<close>

text \<open>
  The registrations as a function of the handle, for lists with one entry per handle: what
  \<open>reg_for\<close> makes and \<^const>\<open>arpc_cb_purge\<close> keeps.
\<close>

definition regs_ok :: "cbreg list \<Rightarrow> bool" where
  "regs_ok regs \<longleftrightarrow> distinct (map r_handle regs)"

definition enabled_of :: "cbreg list \<Rightarrow> 64 word \<Rightarrow> 32 word" where
  "enabled_of regs handle =
     (case find (\<lambda>r. r_handle r = handle) regs of None \<Rightarrow> 0 | Some r \<Rightarrow> r_enabled r)"

lemma reg_at_find:
  "case reg_at i regs handle of
     None \<Rightarrow> find (\<lambda>r. r_handle r = handle) regs = None
   | Some j \<Rightarrow> i \<le> j \<and> j - i < length regs \<and> r_handle (regs ! (j - i)) = handle \<and>
       find (\<lambda>r. r_handle r = handle) regs = Some (regs ! (j - i))"
proof (induction regs arbitrary: i)
  case (Cons r regs)
  show ?case
  proof (cases "r_handle r = handle")
    case False
    with Cons.IH [of "Suc i"] show ?thesis
      by (auto simp: nth_Cons' split: option.splits)
  qed simp
qed simp

lemma wanted_enabled: "arpc_cb_wanted alloc regs handle kind \<longleftrightarrow> enabled_of regs handle AND push_bit kind 1 \<noteq> 0"
  using reg_at_find [where i = 0 and regs = regs and handle = handle]
  by (auto simp: arpc_cb_wanted_def reg_for_def enabled_of_def split: option.splits)

lemma bit_of_kind: "(w :: 32 word) AND push_bit kind 1 \<noteq> 0 \<longleftrightarrow> bit w kind"
  using and_exp_eq_0_iff_not_bit [of w kind] by (simp add: push_bit_eq_mult)

lemma find_upd_other:
  "i < length regs \<Longrightarrow> r_handle (f (regs ! i)) = r_handle (regs ! i) \<Longrightarrow> r_handle (regs ! i) \<noteq> handle \<Longrightarrow>
     find (\<lambda>r. r_handle r = handle) (regs[i := f (regs ! i)]) = find (\<lambda>r. r_handle r = handle) regs"
  by (induction regs arbitrary: i) (auto simp: nth_Cons split: nat.splits)

lemma find_upd_same:
  "i < length regs \<Longrightarrow> distinct (map r_handle regs) \<Longrightarrow> r_handle (f (regs ! i)) = r_handle (regs ! i) \<Longrightarrow>
     find (\<lambda>r. r_handle r = r_handle (regs ! i)) (regs[i := f (regs ! i)]) = Some (f (regs ! i))"
proof (induction regs arbitrary: i)
  case (Cons r regs)
  then show ?case by (cases i) (auto simp: image_iff dest: nth_mem)
qed simp

text \<open>Setting a bit of a registration found or made by \<open>reg_for\<close>.\<close>

lemma set_enabled_reg:
  fixes on :: bool and kind :: nat
  assumes ok: "regs_ok regs" and r: "reg_for alloc regs hid True = (Some i, regs1)"
  defines "regs' \<equiv> regs1[i := set_enabled on kind (regs1 ! i)]"
  shows "regs_ok regs'"
    and "enabled_of regs' handle =
      (if handle = hid then r_enabled (set_enabled on kind \<lparr>r_handle = hid, r_enabled = enabled_of regs hid\<rparr>)
       else enabled_of regs handle)"
proof -
  have "i < length regs1 \<and> r_handle (regs1 ! i) = hid \<and> r_enabled (regs1 ! i) = enabled_of regs hid \<and>
      regs_ok regs1 \<and> (\<forall>h. h \<noteq> hid \<longrightarrow> enabled_of regs1 h = enabled_of regs h)"
  proof (cases "reg_at 0 regs hid")
    case None
    then have f: "find (\<lambda>r. r_handle r = hid) regs = None"
      using reg_at_find [where i = 0 and regs = regs and handle = hid] by simp
    then have "\<forall>r \<in> set regs. r_handle r \<noteq> hid" by (simp add: find_None_iff)
    with r ok f None show ?thesis
      by (auto simp: reg_for_def regs_ok_def enabled_of_def split: if_splits)
  next
    case (Some j)
    with r ok reg_at_find [where i = 0 and regs = regs and handle = hid] show ?thesis
      by (auto simp: reg_for_def enabled_of_def)
  qed
  then have i: "i < length regs1" "r_handle (regs1 ! i) = hid" "r_enabled (regs1 ! i) = enabled_of regs hid"
      "regs_ok regs1" "\<And>h. h \<noteq> hid \<Longrightarrow> enabled_of regs1 h = enabled_of regs h" by blast+
  have h: "r_handle (set_enabled on kind (regs1 ! i)) = r_handle (regs1 ! i)" by (simp add: set_enabled_def)
  have "map r_handle regs' = map r_handle regs1"
    unfolding regs'_def by (simp add: map_update h list_update_same_conv i(1))
  with i(4) show "regs_ok regs'" by (simp add: regs_ok_def)
  show "enabled_of regs' handle =
      (if handle = hid then r_enabled (set_enabled on kind \<lparr>r_handle = hid, r_enabled = enabled_of regs hid\<rparr>)
       else enabled_of regs handle)"
  proof (cases "handle = hid")
    case True
    have "find (\<lambda>r. r_handle r = handle) regs' = Some (set_enabled on kind (regs1 ! i))"
      using find_upd_same [OF i(1), of "set_enabled on kind"] i(2,4) h True by (simp add: regs'_def regs_ok_def)
    with True i(3) show ?thesis by (simp add: enabled_of_def set_enabled_def)
  next
    case False
    have "find (\<lambda>r. r_handle r = handle) regs' = find (\<lambda>r. r_handle r = handle) regs1"
      using find_upd_other [OF i(1), of "set_enabled on kind" handle] h i(2) False by (simp add: regs'_def)
    with False i(5) [OF False] show ?thesis by (simp add: enabled_of_def)
  qed
qed

lemma set_enabled_bits:
  assumes "k < 32"
  shows "bit (r_enabled (set_enabled on kind r)) k = (if k = kind then on else bit (r_enabled r) k)"
  using assms
  by (auto simp: set_enabled_def bit_or_iff bit_and_iff bit_not_iff bit_exp_iff)

lemma purge_wanted:
  "\<not> arpc_cb_wanted alloc (arpc_cb_purge regs handle) handle kind"
  "h \<noteq> handle \<Longrightarrow> arpc_cb_wanted alloc (arpc_cb_purge regs handle) h kind = arpc_cb_wanted alloc regs h kind"
  "regs_ok regs \<Longrightarrow> regs_ok (arpc_cb_purge regs handle)"
proof -
  have "find (\<lambda>r. r_handle r = handle) (arpc_cb_purge regs handle) = None"
    by (simp add: find_None_iff arpc_cb_purge_def)
  then show "\<not> arpc_cb_wanted alloc (arpc_cb_purge regs handle) handle kind"
    by (simp add: wanted_enabled enabled_of_def)
  have "find (\<lambda>r. r_handle r = h) (arpc_cb_purge regs handle) = find (\<lambda>r. r_handle r = h) regs" if "h \<noteq> handle"
    using that unfolding arpc_cb_purge_def by (induction regs) auto
  then show "h \<noteq> handle \<Longrightarrow> arpc_cb_wanted alloc (arpc_cb_purge regs handle) h kind = arpc_cb_wanted alloc regs h kind"
    by (simp add: wanted_enabled enabled_of_def)
  show "regs_ok regs \<Longrightarrow> regs_ok (arpc_cb_purge regs handle)"
    by (simp add: regs_ok_def arpc_cb_purge_def distinct_map_filter)
qed

section \<open>What a callback sends and takes for its answer\<close>

text \<open>The writer \<open>args\<close> holds the text of \<open>v\<close>; no writer stands for null.\<close>

definition args_value :: "aj_w option \<Rightarrow> json \<Rightarrow> bool" where
  "args_value args v \<longleftrightarrow>
     (case args of
        None \<Rightarrow> v = JNull
      | Some a \<Rightarrow> if w_cap a = 0 then v = JNull else w_text a = json_text v)"

definition cb_json :: "string \<Rightarrow> int \<Rightarrow> 64 word \<Rightarrow> json \<Rightarrow> json" where
  "cb_json name sq handle v =
     JObj [(''cb'', JStr (cstr name)), (''seq'', JNum sq), (''handle'', JNum (sint handle)), (''args'', v)]"

lemma sint_range [simp]: "i64_range (sint (w :: 64 word))"
  using sint_lt [of w] sint_ge [of w] by (simp add: i64_range_def LLONG_MAX_def)

lemma writes_cb_frame:
  assumes "args_value args v" and "i64_range sq"
  shows "\<exists>f. cb_frame alloc name sq handle args = f ajw_init \<and> writes alloc (cb_json name sq handle v) f"
proof -
  let ?val = "\<lambda>w. case args of
      Some a \<Rightarrow> if w_cap a \<noteq> 0 then ajw_raw alloc w (w_text a) else ajw_null alloc w
    | None \<Rightarrow> ajw_null alloc w"
  have null: "emits alloc False (json_text JNull) True (ajw_null alloc)"
    using emits_null [of alloc False] by (simp add: sep_text_def)
  then have null': "emits alloc False (json_text JNull) True (\<lambda>w. ajw_null alloc w)" by simp
  have "emits alloc False (json_text v) True ?val"
    using assms(1) null null' emits_raw [of alloc False "json_text v"]
    by (cases args) (auto simp: args_value_def split: if_splits)
  then have a: "adds_members alloc [(''args'', v)] (\<lambda>w. ?val (ajw_key alloc w ''args''))"
    by (intro adds_member_raw) simp_all
  have n: "adds_members alloc [(''cb'', JStr (cstr name))] (\<lambda>w. ajw_str alloc (ajw_key alloc w ''cb'') (Some name))"
    by (rule adds_member) (use writes_str [of alloc "Some name"] in \<open>simp_all add: str_value_def\<close>)
  have s: "adds_members alloc [(''seq'', JNum sq)] (\<lambda>w. ajw_i64 alloc (ajw_key alloc w ''seq'') sq)"
    by (rule adds_member) (simp_all add: writes_i64 assms(2))
  have h: "adds_members alloc [(''handle'', JNum (sint handle))]
      (\<lambda>w. ajw_i64 alloc (ajw_key alloc w ''handle'') (sint handle))"
    by (rule adds_member) (simp_all add: writes_i64)
  note w = writes_object [OF adds_members_comp [OF n adds_members_comp [OF s adds_members_comp [OF h a]]]]
  show ?thesis
    by (rule exI, rule conjI [OF _ w [unfolded append.simps, folded cb_json_def]])
      (simp only: cb_frame_def Let_def)
qed

text \<open>
  What counts as an answer: an object with the number that was asked; anything else that arrives,
  text that is not JSON included, is no answer.
\<close>

lemma cb_answer_cases:
  "cb_answer alloc sq dflt reply =
     (case aj_parse alloc (cstr reply) of
        None \<Rightarrow> dflt
      | Some d \<Rightarrow>
          if n_type (d_nodes d ! 0) = AJ_OBJ \<and> aj_i64 d (aj_member d 0 ''cbseq'') (-1) = sq
          then aj_i64 d (aj_member d 0 ARPC_RET_KEY) dflt else dflt)"
proof (cases "aj_parse alloc (cstr reply)")
  case (Some d)
  show ?thesis
  proof (cases "n_type (d_nodes d ! 0) = AJ_OBJ")
    case False
    then have "aj_member d 0 key = -1" for key by (simp add: aj_member_def aj_at_def)
    then have "aj_i64 d (aj_member d 0 key) k = k" for key k by (simp add: aj_i64_def aj_at_def)
    with Some False show ?thesis by (simp add: cb_answer_def)
  qed (simp add: Some cb_answer_def)
qed (simp add: cb_answer_def)

text \<open>An answer counts if it carries the number of the question.\<close>

lemma cb_answer_value:
  assumes "wire_value (JObj kvs)" and "\<forall>n. alloc n"
  shows "cb_answer alloc sq dflt (json_text (JObj kvs)) =
    (if num_or (map_of kvs ''cbseq'') (-1) = sq then num_or (map_of kvs ARPC_RET_KEY) dflt else dflt)"
proof -
  have v: "json_ok (JObj kvs)" "json_depth (JObj kvs) \<le> AJ_MAX_DEPTH" "length (json_text (JObj kvs)) \<le> 2 ^ 63"
    using assms(1) unfolding wire_value_def by simp_all
  obtain d where d: "aj_parse alloc (json_text (JObj kvs)) = Some d" "repr d 0 (JObj kvs)"
    using aj_parse_text [where alloc = alloc, OF _ v] assms(2) by blast
  have c: "cstr (json_text (JObj kvs)) = json_text (JObj kvs)" by (rule cstr_of_cstr [OF json_text_cstr [OF v(1)]])
  note m = member_scalars(1) [OF aj_parse_ok [OF d(1)] d(2), simplified]
  show ?thesis unfolding cb_answer_def c d(1) by (simp add: m del: json_text.simps)
qed

end
