(* ===== verification/Dispatch.thy ===== *)
theory Dispatch
  imports Mtree Callbacks
begin

text \<open>
  The dispatcher of \<^verbatim>\<open>src/server/arpc_server.c\<close>: one request in, one reply out. The generated
  part, the table of libalpm methods, is a parameter, like the tags the generator numbers and
  the libraries.
\<close>

section \<open>Building replies\<close>

text \<open>The buffer is handed over as a C string; null when an allocation failed.\<close>

definition finish :: "aj_w \<Rightarrow> string option" where
  "finish w = (if w_err w \<or> w_cap w = 0 then None else Some (cstr (w_buf w)))"

definition reply_error :: "allocator \<Rightarrow> int \<Rightarrow> int \<Rightarrow> string \<Rightarrow> string option" where
  "reply_error alloc rid code msg =
     (let w1 = ajw_i64 alloc (ajw_key alloc (ajw_obj_begin alloc ajw_init) ''id'') rid;
          w2 = ajw_obj_begin alloc (ajw_key alloc w1 ''error'');
          w3 = ajw_i64 alloc (ajw_key alloc w2 ''code'') code;
          w4 = ajw_str alloc (ajw_key alloc w3 ''message'') (Some msg)
      in finish (ajw_obj_end alloc (ajw_obj_end alloc w4)))"

definition shutdown_reply :: "allocator \<Rightarrow> int \<Rightarrow> string option" where
  "shutdown_reply alloc rid =
     (let w1 = ajw_i64 alloc (ajw_key alloc (ajw_obj_begin alloc ajw_init) ''id'') rid;
          w2 = ajw_obj_begin alloc (ajw_key alloc w1 ''result'');
          w3 = ajw_i64 alloc (ajw_key alloc w2 ARPC_RET_KEY) 0
      in finish (ajw_obj_end alloc (ajw_obj_end alloc w3)))"

text \<open>The reply to a call that did not fail: the object is closed and spliced in.\<close>

definition result_reply :: "allocator \<Rightarrow> int \<Rightarrow> arpc_res \<Rightarrow> string option" where
  "result_reply alloc rid rs =
     (let r1 = ensure_obj alloc rs;
          r2 = (if \<not> has_ret r1 then arpc_ret_null alloc r1 else r1);
          out = ajw_obj_end alloc (rs_out r2);
          w1 = ajw_i64 alloc (ajw_key alloc (ajw_obj_begin alloc ajw_init) ''id'') rid;
          w2 = snd (ajw_reserve alloc w1 (w_len out + 2));
          w3 = ajw_raw alloc (ajw_key alloc w2 ''result'') (w_text out)
      in finish (ajw_obj_end alloc w3))"

section \<open>Built-in methods\<close>

definition arpc_set_path_style :: "allocator \<Rightarrow> 'w arpc_handler" where
  "arpc_set_path_style alloc rq0 rs sv =
     (let (style, rq) = arpc_arg_str rq0 0 in
      if arpc_req_bad rq \<or> style = None \<or> (the style \<noteq> ''win32'' \<and> the style \<noteq> ''posix'')
      then fail_call rq rs sv ARPC_E_INVALID_PARAMS ''arpc.set_path_style: win32 or posix''
      else Some (0, rq, arpc_ret_i64 alloc rs 0, sv\<lparr>sv_win32 := (the style = ''win32'')\<rparr>))"

text \<open>The generated and external parts of the server.\<close>

record ('w, 'e) server_env =
  e_handle :: nat
  e_pkg :: nat
  e_gpg :: "'w gpg_env"
  e_kinds :: "'w cb_kind list"
  e_archive :: "('w, 'e) archive_env"
  e_methods :: "(string \<times> 'w arpc_handler) list"

definition builtins :: "allocator \<Rightarrow> ('w, 'e) server_env \<Rightarrow> (string \<times> 'w arpc_handler) list" where
  "builtins alloc env =
     [(''arpc.set_path_style'', arpc_set_path_style alloc),
      (''arpc.set_callback'', arpc_cb_set alloc (e_handle env) (e_kinds env)),
      (''arpc.mtree'', arpc_mtree_get alloc (e_pkg env) (e_archive env))]"

section \<open>Finding a method\<close>

text \<open>\<^verbatim>\<open>strcmp\<close>: the sign of the first difference, bytes compared unsigned.\<close>

fun strcmp :: "string \<Rightarrow> string \<Rightarrow> int" where
  "strcmp [] [] = 0"
| "strcmp [] (b # bs) = -1"
| "strcmp (a # as) [] = 1"
| "strcmp (a # as) (b # bs) =
     (if a = b then strcmp as bs else if byte_of a < byte_of b then -1 else 1)"

definition method_cmp :: "string \<Rightarrow> string \<times> 'f \<Rightarrow> int" where
  "method_cmp key m = strcmp key (fst m)"

text \<open>\<^verbatim>\<open>bsearch\<close> over the elements from \<open>lo\<close> up to before \<open>hi\<close>.\<close>

function bsearch :: "string \<Rightarrow> (string \<times> 'f) list \<Rightarrow> nat \<Rightarrow> nat \<Rightarrow> (string \<times> 'f) option" where
  "bsearch key ms lo hi =
     (if hi \<le> lo then None
      else let mid = (lo + hi) div 2; c = method_cmp key (ms ! mid) in
        if c = 0 then Some (ms ! mid)
        else if c < 0 then bsearch key ms lo mid
        else bsearch key ms (Suc mid) hi)"
  by pat_completeness auto
termination
  by (relation "measure (\<lambda>(key, ms, lo, hi). hi - lo)") auto

declare bsearch.simps [simp del]

definition find_method :: "allocator \<Rightarrow> ('w, 'e) server_env \<Rightarrow> string \<Rightarrow> 'w arpc_handler option" where
  "find_method alloc env name =
     (case find (\<lambda>k. fst k = name) (builtins alloc env) of
        Some m \<Rightarrow> Some (snd m)
      | None \<Rightarrow> map_option snd (bsearch name (e_methods env) 0 (length (e_methods env))))"

section \<open>Serving a request\<close>

definition req_handle :: "htab \<Rightarrow> nat \<Rightarrow> arpc_req \<Rightarrow> (64 word) option" where
  "req_handle h th rq =
     (let n = aj_elem (rq_doc rq) (rq_params rq) 0 in
      if n < 0 \<or> n_type (d_nodes (rq_doc rq) ! nat n) \<noteq> AJ_NUM then Some 0
      else do {
        a \<leftarrow> arpc_ancestor h (word_of_int (n_num (d_nodes (rq_doc rq) ! nat n))) th;
        arpc_handle_get h a th })"

definition follow_gpg :: "allocator \<Rightarrow> ('w, 'e) server_env \<Rightarrow> 'w server \<Rightarrow> 64 word \<Rightarrow> 'w server" where
  "follow_gpg alloc env sv h =
     (let (g, w) = arpc_gpgdir_follow alloc (e_gpg env) (sv_gpg sv) (sv_ext sv) h
      in sv\<lparr>sv_gpg := g, sv_ext := w\<rparr>)"

text \<open>From the method's function to the reply; null if there is no memory for any reply.\<close>

definition run_method ::
    "allocator \<Rightarrow> ('w, 'e) server_env \<Rightarrow> int \<Rightarrow> arpc_req \<Rightarrow> 'w arpc_handler \<Rightarrow> 'w server \<Rightarrow>
     (string option \<times> 'w server) option" where
  "run_method alloc env rid rq fn sv =
     do {
       h \<leftarrow> req_handle (sv_tab sv) (e_handle env) rq;
       (rc, rq1, rs, sv1) \<leftarrow> fn rq arpc_res_zero (follow_gpg alloc env sv h);
       let out = (if rs_failed rs then reply_error alloc rid (rs_code rs) (rs_msg rs)
                  else result_reply alloc rid rs);
       Some (case out of None \<Rightarrow> reply_error alloc rid ARPC_E_INTERNAL ''out of memory'' | Some s \<Rightarrow> Some s,
             sv1) }"

definition no_method_message :: "string \<Rightarrow> string" where
  "no_method_message name = take 255 (''no such method: '' @ name)"

definition arpc_handle_parsed ::
    "allocator \<Rightarrow> ('w, 'e) server_env \<Rightarrow> aj_doc \<Rightarrow> 'w server \<Rightarrow> (string option \<times> 'w server) option" where
  "arpc_handle_parsed alloc env d sv =
     (let rid = aj_i64 d (aj_member d 0 ''id'') 0;
          name = aj_str d (aj_member d 0 ''method'') None;
          params = aj_member d 0 ''params''
      in case name of
           None \<Rightarrow> Some (reply_error alloc rid ARPC_E_INVALID_REQ ''missing method'', sv)
         | Some m \<Rightarrow>
             if m = ''arpc.shutdown'' then Some (shutdown_reply alloc rid, sv\<lparr>sv_shutdown := True\<rparr>)
             else case find_method alloc env m of
               None \<Rightarrow> Some (reply_error alloc rid ARPC_E_NO_METHOD (no_method_message m), sv)
             | Some fn \<Rightarrow>
                 run_method alloc env rid \<lparr>rq_doc = d, rq_params = params, rq_bad = False\<rparr> fn sv)"

definition arpc_handle_frame ::
    "allocator \<Rightarrow> ('w, 'e) server_env \<Rightarrow> string \<Rightarrow> 'w server \<Rightarrow> (string option \<times> 'w server) option" where
  "arpc_handle_frame alloc env req sv =
     (case aj_parse alloc req of
        None \<Rightarrow> Some (reply_error alloc 0 ARPC_E_PARSE ''malformed JSON'', sv)
      | Some d \<Rightarrow> arpc_handle_parsed alloc env d sv)"

section \<open>The text of replies\<close>

text \<open>What a reply says, apart from the request's id.\<close>

datatype outcome = Result "(string \<times> json) list" | Error int string

fun reply_json :: "int \<Rightarrow> outcome \<Rightarrow> json" where
  "reply_json rid (Result kvs) = JObj [(''id'', JNum rid), (''result'', JObj kvs)]"
| "reply_json rid (Error code msg) =
     JObj [(''id'', JNum rid), (''error'', JObj [(''code'', JNum code), (''message'', JStr msg)])]"

definition reply_text :: "int \<Rightarrow> outcome \<Rightarrow> string" where
  "reply_text rid oc = json_text (reply_json rid oc)"

lemma inv_buf: "w_inv w \<Longrightarrow> w_text w \<noteq> [] \<Longrightarrow> w_buf w = w_text w @ [NUL] \<and> w_cap w \<noteq> 0"
  by (auto simp: w_inv_def w_text_def)

lemma finish_text:
  assumes "w_inv w" and "\<not> w_err w" and "w_text w = json_text v" and "json_ok v" and "json_text v \<noteq> []"
  shows "finish w = Some (json_text v)"
  using inv_buf [OF assms(1)] assms(2-5) json_text_cstr [OF assms(4)] by (simp add: finish_def)

lemma finish_writes:
  assumes "writes alloc v f" and "\<forall>n. alloc n" and "json_ok v" and "length (json_text v) + 32 \<le> 2 ^ 63"
    and "json_text v \<noteq> []"
  shows "finish (f ajw_init) = Some (json_text v)"
  by (rule finish_text) (use writes_init [OF assms(1,4)] assms in simp_all)

lemma member_id: "i64_range rid \<Longrightarrow> adds_members alloc [(''id'', JNum rid)] (\<lambda>w. ajw_i64 alloc (ajw_key alloc w ''id'') rid)"
  by (rule adds_member) (simp_all add: writes_i64)

lemma rev_digits_short: "i64_range v \<Longrightarrow> length (int_text v) \<le> 21"
proof -
  assume v: "i64_range v"
  have "length (rev_digits u) \<le> 20" if "u \<le> LLONG_MAX + 1" for u
    using rev_digits_length [of u 18] that by (simp add: LLONG_MAX_def)
  from this [of v] this [of "- v"] v show ?thesis by (simp add: int_text_def i64_range_def)
qed

lemma str_text_le: "length (str_text s) \<le> 6 * length s + 2"
proof -
  have "length (esc_char c) \<le> 6" for c by (simp add: esc_char_def)
  then have "length (concat (map esc_char s)) \<le> 6 * length s"
    by (induction s) (auto simp: add_le_mono)
  then show ?thesis by (simp add: str_text_def)
qed

lemma error_reply:
  assumes "\<forall>n. alloc n" and "i64_range rid" and "i64_range code" and "is_cstr msg" and "length msg < sizeof_msg"
  shows "reply_error alloc rid code msg = Some (reply_text rid (Error code msg))"
proof -
  have c: "adds_members alloc [(''code'', JNum code)] (\<lambda>w. ajw_i64 alloc (ajw_key alloc w ''code'') code)"
    by (rule adds_member) (simp_all add: writes_i64 assms(3))
  have m: "adds_members alloc [(''message'', JStr msg)] (\<lambda>w. ajw_str alloc (ajw_key alloc w ''message'') (Some msg))"
    by (rule adds_member) (use writes_str [of alloc "Some msg"] assms(4) in \<open>simp_all add: str_value_def\<close>)
  note e = adds_member [OF _ writes_object [OF adds_members_comp [OF c m]], of "''error''", unfolded append.simps]
  note w = writes_object [OF adds_members_comp [OF member_id [OF assms(2)] e], unfolded append.simps,
      folded reply_json.simps]
  have "length (int_text rid) \<le> 21" "length (int_text code) \<le> 21" "length (str_text msg) \<le> 6 * length msg + 2"
    using rev_digits_short assms(2,3) str_text_le [of msg] by simp_all
  moreover have "length msg < 256" using assms(5) by (simp add: sizeof_msg_def)
  ultimately have "length (json_text (reply_json rid (Error code msg))) + 32 \<le> 2 ^ 63"
    by (simp add: str_text_def esc_char_def)
  moreover have "json_ok (reply_json rid (Error code msg))"
    using assms(2-4) by (simp add: i64_range_def)
  ultimately show ?thesis
    unfolding reply_error_def reply_text_def Let_def
    by (intro finish_writes [OF w assms(1)]) simp_all
qed

lemma shutdown_text:
  assumes "\<forall>n. alloc n" and "i64_range rid"
  shows "shutdown_reply alloc rid = Some (reply_text rid (Result [(ARPC_RET_KEY, JNum 0)]))"
proof -
  have r: "adds_members alloc [(ARPC_RET_KEY, JNum 0)] (\<lambda>w. ajw_i64 alloc (ajw_key alloc w ARPC_RET_KEY) 0)"
    by (rule adds_member) (simp_all add: writes_i64 ARPC_RET_KEY_def i64_range_def LLONG_MAX_def)
  note e = adds_member [OF _ writes_object [OF r], of "''result''"]
  note w = writes_object [OF adds_members_comp [OF member_id [OF assms(2)] e], unfolded append.simps,
      folded reply_json.simps]
  have "length (json_text (reply_json rid (Result [(ARPC_RET_KEY, JNum 0)]))) + 32 \<le> 2 ^ 63"
    using rev_digits_short [OF assms(2)] rev_digits_short [of 0]
    by (simp add: str_text_def esc_char_def ARPC_RET_KEY_def i64_range_def LLONG_MAX_def)
  moreover have "json_ok (reply_json rid (Result [(ARPC_RET_KEY, JNum 0)]))"
    using assms(2) by (simp add: i64_range_def ARPC_RET_KEY_def LLONG_MAX_def)
  ultimately show ?thesis
    unfolding shutdown_reply_def reply_text_def Let_def
    by (intro finish_writes [OF w assms(1)]) simp_all
qed

text \<open>A writer that holds a text without error, and the steps that extend it.\<close>

definition good :: "aj_w \<Rightarrow> string \<Rightarrow> bool \<Rightarrow> bool" where
  "good w t b \<longleftrightarrow> w_inv w \<and> \<not> w_err w \<and> w_text w = t \<and> need_comma w = b"

lemma good_len: "good w t b \<Longrightarrow> w_len w = length t" "good w t b \<Longrightarrow> w_text w = t"
  using w_inv_length [of w] by (auto simp: good_def)

lemma good_step:
  assumes "good w t b" and "emits alloc b u c f" and "\<forall>n. alloc n" and "length t + length u + 32 \<le> 2 ^ 63"
  shows "good (f w) (t @ u) c"
  using assms emitsD [OF assms(2), of w] by (auto simp: good_def adds_def w_inv_length)

lemma good_reserve:
  assumes "good w t b" and "\<forall>n. alloc n" and "length t + n + 1 \<le> 2 ^ 63"
  shows "good (snd (ajw_reserve alloc w n)) t b"
proof -
  obtain room w' where g: "wgrow alloc w n = (room, w')" by fastforce
  have "w_inv w" "w_len w + n + 1 \<le> 2 ^ 63" using assms(1,3) w_inv_length [of w] by (auto simp: good_def)
  note s = wgrow_spec [OF g this]
  have "room" using s(8) assms by (simp add: good_def)
  with s assms(1) show ?thesis by (simp add: good_def ajw_reserve_def g)
qed

text \<open>The reply's object around a spliced text \<open>t\<close>.\<close>

lemma spliced_reply:
  assumes out: "good out t True" and mem: "\<forall>n. alloc n" and rid: "i64_range rid"
    and len: "length t + 100 \<le> 2 ^ 63"
  defines "w1 \<equiv> ajw_i64 alloc (ajw_key alloc (ajw_obj_begin alloc ajw_init) ''id'') rid"
  shows "good (ajw_obj_end alloc (ajw_raw alloc
      (ajw_key alloc (snd (ajw_reserve alloc w1 (w_len out + 2))) ''result'') (w_text out)))
    (''{'' @ str_text ''id'' @ '':'' @ int_text rid @ '','' @ str_text ''result'' @ '':'' @ t @ ''}'') True"
proof -
  have idl: "length (int_text rid) \<le> 21" by (rule rev_digits_short [OF rid])
  let ?t1 = "''{'' @ str_text ''id'' @ '':'' @ int_text rid"
  have l1: "length ?t1 \<le> 28" using idl by (simp add: str_text_def esc_char_def)
  have "good (ajw_obj_begin alloc ajw_init) ''{'' False"
    using good_step [of ajw_init "[]" False, OF _ emits_brackets(1) mem] by (simp add: good_def sep_text_def)
  from good_step [OF good_step [OF this emits_key [where k = "''id''"] mem] emits_i64 [where v = rid] mem] rid idl
  have w1: "good w1 ?t1 True"
    by (simp add: w1_def sep_text_def i64_range_def str_text_def esc_char_def)
  have w2: "good (snd (ajw_reserve alloc w1 (w_len out + 2))) ?t1 True" (is "good ?w2 _ _")
    by (rule good_reserve [OF w1 mem]) (use l1 len good_len(1) [OF out] in simp)
  have "good (ajw_key alloc ?w2 ''result'') (?t1 @ '','' @ str_text ''result'' @ '':'') False"
    using good_step [OF w2 emits_key [where k = "''result''"] mem] l1
    by (simp add: sep_text_def str_text_def esc_char_def)
  from good_step [OF good_step [OF this emits_raw [where s = "w_text out"] mem] emits_brackets(3) mem]
  show ?thesis using l1 len good_len(2) [OF out] by (simp add: str_text_def esc_char_def)
qed

lemma result_text:
  assumes h: "holds rs kvs" and mem: "\<forall>n. alloc n" and rid: "i64_range rid"
    and ok: "json_ok (JObj (with_ret kvs))" and fits: "fits (with_ret kvs)"
  shows "result_reply alloc rid rs = Some (reply_text rid (Result (with_ret kvs)))"
proof -
  let ?r1 = "ensure_obj alloc rs"
  let ?r2 = "if \<not> has_ret ?r1 then arpc_ret_null alloc ?r1 else ?r1"
  let ?kvs = "with_ret kvs"
  define t where "t = json_text (JObj ?kvs)"
  note e = ensure_obj_holds [OF h mem]
  have ret: "has_ret ?r1 = (kvs \<noteq> [])" using h e(3) by (auto simp: holds_def split: if_splits)
  have r2: "holds ?r2 ?kvs"
    using ret_values(1) [OF e(1) mem, of JNull] fits e(1) ret by (cases "kvs = []") (simp_all add: with_ret_def)
  have ne: "?kvs \<noteq> []" by (simp add: with_ret_def)
  have len: "length t + 100 \<le> 2 ^ 63" using fits unfolding t_def json_text_obj fits_def by simp
  have "good (rs_out ?r2) (''{'' @ join (map member_text ?kvs)) True"
    using r2 ne by (auto simp: holds_def good_def split: if_splits)
  then have out: "good (ajw_obj_end alloc (rs_out ?r2)) t True"
    using good_step [OF _ emits_brackets(3) mem] len unfolding t_def json_text_obj by fastforce
  have ok': "json_ok (reply_json rid (Result ?kvs))" using ok rid by (simp add: i64_range_def)
  have eq: "''{'' @ str_text ''id'' @ '':'' @ int_text rid @ '','' @ str_text ''result'' @ '':'' @ t @ ''}'' =
      json_text (reply_json rid (Result ?kvs))" by (simp add: t_def)
  have w: "good w (json_text (reply_json rid (Result ?kvs))) b \<Longrightarrow>
      finish w = Some (json_text (reply_json rid (Result ?kvs)))" for w b
    by (rule finish_text [OF _ _ _ ok']) (auto simp: good_def)
  show ?thesis
    unfolding result_reply_def Let_def reply_text_def
    by (rule w [OF spliced_reply [OF out mem rid len, unfolded eq]])
qed

end
