(* ===== verification/Methods.thy ===== *)
theory Methods
  imports Dispatch
begin

text \<open>
  The dispatcher's correctness: the method table is searched exactly, and a method that keeps
  its contract gets exactly one well-formed reply. The contract is a locale; the methods these
  sources define keep it, and the generated ones are written against it.
\<close>

section \<open>The method table\<close>

lemma strcmp_zero: "strcmp a b = 0 \<longleftrightarrow> a = b"
  by (induction a b rule: strcmp.induct) auto

lemma strcmp_irrefl [simp]: "strcmp a a = 0"
  by (simp add: strcmp_zero)

lemma strcmp_swap: "strcmp b a = - strcmp a b"
  by (induction a b rule: strcmp.induct) (auto simp: not_less le_less)

lemma strcmp_trans: "strcmp a b < 0 \<Longrightarrow> strcmp b c < 0 \<Longrightarrow> strcmp a c < 0"
proof (induction a b arbitrary: c rule: strcmp.induct)
  case (4 x xs y ys)
  then show ?case by (cases c) (auto split: if_splits)
next
  case (2 b bs)
  then show ?case by (cases c) auto
qed auto

text \<open>What the generator promises of its table: names in \<^verbatim>\<open>strcmp\<close> order, none twice.\<close>

definition table_sorted :: "(string \<times> 'f) list \<Rightarrow> bool" where
  "table_sorted ms \<longleftrightarrow> sorted_wrt (\<lambda>a b. strcmp (fst a) (fst b) < 0) ms"

lemma bsearch_spec:
  "table_sorted ms \<Longrightarrow> hi \<le> length ms \<Longrightarrow>
     (case bsearch key ms lo hi of
        Some m \<Rightarrow> m \<in> set ms \<and> fst m = key
      | None \<Rightarrow> \<forall>i. lo \<le> i \<and> i < hi \<longrightarrow> fst (ms ! i) \<noteq> key)"
proof (induction key ms lo hi rule: bsearch.induct)
  case (1 key ms lo hi)
  show ?case
  proof (cases "hi \<le> lo")
    case True
    then show ?thesis by (subst bsearch.simps) auto
  next
    case False
    define mid where "mid = (lo + hi) div 2"
    have mid: "lo \<le> mid" "mid < hi" "mid < length ms" using False "1.prems"(2) by (auto simp: mid_def)
    have lt: "strcmp (fst (ms ! i)) (fst (ms ! j)) < 0" if "i < j" "j < length ms" for i j
      using "1.prems"(1) that by (simp add: table_sorted_def sorted_wrt_iff_nth_less)
    let ?c = "strcmp key (fst (ms ! mid))"
    have b: "bsearch key ms lo hi = (if ?c = 0 then Some (ms ! mid) else if ?c < 0 then bsearch key ms lo mid
        else bsearch key ms (Suc mid) hi)"
      using False by (subst bsearch.simps) (simp add: mid_def method_cmp_def Let_def)
    consider "?c = 0" | "?c < 0" | "?c > 0" by linarith
    then show ?thesis
    proof cases
      case 1
      with b mid(3) show ?thesis by (simp add: strcmp_zero)
    next
      case 2
      have "fst (ms ! i) \<noteq> key" if "mid \<le> i" "i < hi" for i
        using 2 lt [of mid i] strcmp_trans [of key "fst (ms ! mid)" "fst (ms ! i)"] that mid "1.prems"(2)
        by (cases "i = mid") auto
      then have "\<forall>i. lo \<le> i \<and> i < hi \<longrightarrow> fst (ms ! i) \<noteq> key"
        if "\<forall>i. lo \<le> i \<and> i < mid \<longrightarrow> fst (ms ! i) \<noteq> key" using that by (metis linorder_not_le)
      moreover have "case bsearch key ms lo mid of Some m \<Rightarrow> m \<in> set ms \<and> fst m = key
          | None \<Rightarrow> \<forall>i. lo \<le> i \<and> i < mid \<longrightarrow> fst (ms ! i) \<noteq> key"
        using "1.IH"(1) [OF False mid_def refl] 2 "1.prems" mid(3) by (simp add: method_cmp_def)
      ultimately show ?thesis using b 2 by (cases "bsearch key ms lo mid") auto
    next
      case 3
      have "fst (ms ! i) \<noteq> key" if "i \<le> mid" for i
      proof (cases "i = mid")
        case True
        with 3 show ?thesis by auto
      next
        case False
        then have "strcmp (fst (ms ! i)) (fst (ms ! mid)) < 0" using lt that mid(3) by simp
        moreover have "strcmp (fst (ms ! mid)) key < 0" using 3 strcmp_swap [of "fst (ms ! mid)" key] by simp
        ultimately show ?thesis using strcmp_trans by fastforce
      qed
      then have "\<forall>i. lo \<le> i \<and> i < hi \<longrightarrow> fst (ms ! i) \<noteq> key"
        if "\<forall>i. Suc mid \<le> i \<and> i < hi \<longrightarrow> fst (ms ! i) \<noteq> key" using that by (metis not_less_eq_eq)
      moreover have "case bsearch key ms (Suc mid) hi of Some m \<Rightarrow> m \<in> set ms \<and> fst m = key
          | None \<Rightarrow> \<forall>i. Suc mid \<le> i \<and> i < hi \<longrightarrow> fst (ms ! i) \<noteq> key"
        using "1.IH"(2) [OF False mid_def refl] 3 "1.prems" by (simp add: method_cmp_def)
      ultimately show ?thesis using b 3 by (cases "bsearch key ms (Suc mid) hi") auto
    qed
  qed
qed

lemma table_distinct: "table_sorted ms \<Longrightarrow> distinct (map fst ms)"
proof -
  assume "table_sorted ms"
  then have "strcmp (fst (ms ! i)) (fst (ms ! j)) < 0" if "i < j" "j < length ms" for i j
    using that by (simp add: table_sorted_def sorted_wrt_iff_nth_less)
  then have ne: "fst (ms ! i) \<noteq> fst (ms ! j)" if "i < j" "j < length ms" for i j
    using that by fastforce
  show ?thesis
  proof (unfold distinct_conv_nth, intro allI impI)
    fix i j
    assume "i < length (map fst ms)" "j < length (map fst ms)" "i \<noteq> j"
    then show "map fst ms ! i \<noteq> map fst ms ! j" using ne [of i j] ne [of j i] by (cases "i < j") auto
  qed
qed

lemma bsearch_map_of:
  assumes "table_sorted ms"
  shows "map_option snd (bsearch key ms 0 (length ms)) = map_of ms key"
proof (cases "bsearch key ms 0 (length ms)")
  case None
  with bsearch_spec [OF assms, of "length ms" 0 key] have "key \<notin> fst ` set ms"
    by (auto simp: in_set_conv_nth) (metis fst_conv)
  then have "map_of ms key = None" by (simp add: map_of_eq_None_iff)
  with None show ?thesis by simp
next
  case (Some m)
  with bsearch_spec [OF assms, of "length ms" 0 key] have "m \<in> set ms" "fst m = key" by auto
  then have "map_of ms key = Some (snd m)"
    using map_of_is_SomeI [OF table_distinct [OF assms], of key "snd m"] by auto
  with Some show ?thesis by simp
qed

lemma find_method_spec:
  assumes "table_sorted (e_methods env)"
  shows "find_method alloc env name = map_of (builtins alloc env @ e_methods env) name"
proof -
  have "map_of kvs name = map_option snd (find (\<lambda>k. fst k = name) kvs)" for kvs :: "(string \<times> 'a arpc_handler) list"
    by (induction kvs) auto
  then show ?thesis
    using bsearch_map_of [OF assms, of name]
    by (auto simp: find_method_def map_add_def split: option.splits)
qed

lemma find_method_None:
  assumes "table_sorted (e_methods env)"
  shows "find_method alloc env name = None \<longleftrightarrow>
    name \<notin> fst ` set (builtins alloc env) \<and> name \<notin> fst ` set (e_methods env)"
  unfolding find_method_spec [OF assms] by (auto simp: map_of_eq_None_iff simp flip: map_of_append)

section \<open>The contract of a method\<close>

lemma ancestor_total:
  assumes "hinv h"
  shows "\<exists>a. ancestor_loop n h tp hid tag = Some a"
proof (induction n arbitrary: tp hid)
  case (Suc n)
  obtain r where "hfind h hid = Some r" using hfind_view [OF assms, of hid] by blast
  with Suc show ?case by (cases r) auto
qed simp

lemma req_handle_total:
  assumes "hinv h"
  shows "\<exists>p. req_handle h th rq = Some p"
proof -
  let ?hid = "word_of_int (n_num (d_nodes (rq_doc rq) ! nat (aj_elem (rq_doc rq) (rq_params rq) 0))) :: 64 word"
  obtain a where a: "arpc_ancestor h ?hid th = Some a"
    using ancestor_total [OF assms, of 8 ?hid ?hid th] by (auto simp: arpc_ancestor_def)
  obtain p where "arpc_handle_get h a th = Some p" using get_view [OF assms] by blast
  with a show ?thesis by (simp add: req_handle_def Let_def)
qed

text \<open>
  What the dispatcher needs of a result: a failure fits its buffer, a success has members that
  can be sent.
\<close>

definition res_ready :: "arpc_res \<Rightarrow> outcome \<Rightarrow> bool" where
  "res_ready rs oc \<longleftrightarrow>
     (case oc of
        Error code msg \<Rightarrow>
          rs_failed rs \<and> rs_code rs = code \<and> rs_msg rs = msg \<and> i64_range code \<and> is_cstr msg \<and>
          length msg < sizeof_msg
      | Result kvs \<Rightarrow>
          \<not> rs_failed rs \<and> fits kvs \<and> json_ok (JObj kvs) \<and> json_depth (JObj kvs) < AJ_MAX_DEPTH \<and>
          (\<exists>kvs'. holds rs kvs' \<and> kvs = with_ret kvs'))"

text \<open>A reply the other end can read: its text parses, to a document that represents it.\<close>

definition readable :: "json \<Rightarrow> bool" where
  "readable v \<longleftrightarrow> json_ok v \<and> json_depth v \<le> AJ_MAX_DEPTH \<and> length (json_text v) \<le> 2 ^ 63"

lemma readable_parses:
  assumes "readable v" and "\<forall>n. alloc n"
  shows "\<exists>d. aj_parse alloc (json_text v) = Some d \<and> doc_ok d \<and> repr d 0 v"
proof -
  have v: "json_ok v" "json_depth v \<le> AJ_MAX_DEPTH" "length (json_text v) \<le> 2 ^ 63"
    using assms(1) by (simp_all add: readable_def)
  obtain d where "aj_parse alloc (json_text v) = Some d" "repr d 0 v"
    using aj_parse_text [where alloc = alloc, OF _ v] assms(2) by blast
  then show ?thesis using aj_parse_ok by blast
qed

lemma readable_error:
  assumes "i64_range rid" and "i64_range code" and "is_cstr msg" and "length msg < sizeof_msg"
  shows "readable (reply_json rid (Error code msg))"
proof -
  have "length (int_text rid) \<le> 21" "length (int_text code) \<le> 21" "length (str_text msg) \<le> 6 * length msg + 2"
    using rev_digits_short assms(1,2) str_text_le [of msg] by simp_all
  moreover have "length msg < 256" using assms(4) by (simp add: sizeof_msg_def)
  ultimately have "length (json_text (reply_json rid (Error code msg))) \<le> 2 ^ 63"
    by (simp add: str_text_def esc_char_def)
  with assms show ?thesis by (simp add: readable_def i64_range_def AJ_MAX_DEPTH_def)
qed

lemma readable_result:
  assumes "i64_range rid" and "fits kvs" and "json_ok (JObj kvs)" and "json_depth (JObj kvs) < AJ_MAX_DEPTH"
  shows "readable (reply_json rid (Result kvs))"
proof -
  have "length (int_text rid) \<le> 21" by (rule rev_digits_short [OF assms(1)])
  moreover have "length (json_text (JObj kvs)) + 120 \<le> 2 ^ 63"
    using assms(2) unfolding json_text_obj fits_def by simp
  moreover have "length (json_text (reply_json rid (Result kvs))) =
      17 + length (int_text rid) + length (json_text (JObj kvs))"
    by (simp add: str_text_def esc_char_def)
  ultimately have "length (json_text (reply_json rid (Result kvs))) \<le> 2 ^ 63" by linarith
  moreover have "json_depth (reply_json rid (Result kvs)) = Suc (json_depth (JObj kvs))" by simp
  moreover have "json_ok (reply_json rid (Result kvs))" using assms(1,3) by (simp add: i64_range_def)
  ultimately show ?thesis using assms(4) unfolding readable_def by linarith
qed

text \<open>A call that ended, with what it did.\<close>

definition ends_with ::
    "(int \<times> arpc_req \<times> arpc_res \<times> 'w server) option \<Rightarrow> (outcome \<Rightarrow> 'w server \<Rightarrow> bool) \<Rightarrow> bool" where
  "ends_with r Q \<longleftrightarrow>
     (\<exists>rc rq rs sv oc. r = Some (rc, rq, rs, sv) \<and> hinv (sv_tab sv) \<and> res_ready rs oc \<and> Q oc sv)"

lemma ends_withI:
  "res_ready rs oc \<Longrightarrow> hinv (sv_tab sv) \<Longrightarrow> Q oc sv \<Longrightarrow> ends_with (Some (rc, rq, rs, sv)) Q"
  unfolding ends_with_def by blast

text \<open>Whatever a method does, once it has ended its outcome is what the reply says.\<close>

lemma run_method_ends:
  assumes inv: "hinv (sv_tab sv)" and mem: "\<forall>n. alloc n" and rid: "i64_range rid"
    and ends: "\<And>h. ends_with (fn rq arpc_res_zero (follow_gpg alloc env sv h)) (Q h)"
  shows "\<exists>h oc sv'. run_method alloc env rid rq fn sv = Some (Some (reply_text rid oc), sv') \<and>
      hinv (sv_tab sv') \<and> readable (reply_json rid oc) \<and> Q h oc sv'"
proof -
  obtain h where h: "req_handle (sv_tab sv) (e_handle env) rq = Some h" using req_handle_total [OF inv] by blast
  obtain rc rq' rs sv' oc where r: "fn rq arpc_res_zero (follow_gpg alloc env sv h) = Some (rc, rq', rs, sv')"
      "hinv (sv_tab sv')" "res_ready rs oc" "Q h oc sv'"
    using ends [of h] unfolding ends_with_def by blast
  have "(if rs_failed rs then reply_error alloc rid (rs_code rs) (rs_msg rs) else result_reply alloc rid rs) =
      Some (reply_text rid oc) \<and> readable (reply_json rid oc)"
  proof (cases oc)
    case (Error code msg)
    with r(3) show ?thesis
      using error_reply [OF mem rid, of code msg] readable_error [OF rid, of code msg] by (auto simp: res_ready_def)
  next
    case (Result kvs)
    with r(3) obtain kvs' where k: "\<not> rs_failed rs" "holds rs kvs'" "kvs = with_ret kvs'" "fits kvs" "json_ok (JObj kvs)"
        "json_depth (JObj kvs) < AJ_MAX_DEPTH" by (auto simp: res_ready_def)
    with result_text [OF k(2) mem rid] readable_result [OF rid k(4-6)] Result show ?thesis by simp
  qed
  with h r show ?thesis unfolding run_method_def by (auto intro!: exI)
qed

text \<open>
  Run on an intact table, where the libraries behind it behave (\<open>ok_server\<close>), a method ends,
  keeps the table intact and leaves a result that is ready. \<open>does\<close> is what it does: its
  outcome and the state after it.
\<close>

locale rpc_method =
  fixes fn :: "'w arpc_handler" and ok_server :: "'w server \<Rightarrow> bool"
    and does :: "arpc_req \<Rightarrow> 'w server \<Rightarrow> outcome \<Rightarrow> 'w server \<Rightarrow> bool"
  assumes method_ends: "hinv (sv_tab sv) \<Longrightarrow> ok_server sv \<Longrightarrow> doc_ok (rq_doc rq) \<Longrightarrow>
      ends_with (fn rq arpc_res_zero sv) (does rq sv)"
begin

lemma run_replies:
  assumes inv: "hinv (sv_tab sv)" and ok: "\<And>h. ok_server (follow_gpg alloc env sv h)"
    and d: "doc_ok (rq_doc rq)" and mem: "\<forall>n. alloc n" and rid: "i64_range rid"
  shows "\<exists>h oc sv'. run_method alloc env rid rq fn sv = Some (Some (reply_text rid oc), sv') \<and>
      hinv (sv_tab sv') \<and> readable (reply_json rid oc) \<and> does rq (follow_gpg alloc env sv h) oc sv'"
proof (rule run_method_ends [OF inv mem rid, where Q = "\<lambda>h. does rq (follow_gpg alloc env sv h)"])
  have "sv_tab (follow_gpg alloc env sv h) = sv_tab sv" for h by (simp add: follow_gpg_def split: prod.split)
  with inv show "ends_with (fn rq arpc_res_zero (follow_gpg alloc env sv h)) (does rq (follow_gpg alloc env sv h))" for h
    by (intro method_ends ok d) simp
qed

end

section \<open>The built-in methods keep it\<close>

lemma res_ready_fail:
  assumes "i64_range code" and "is_cstr msg" and "length msg < sizeof_msg"
  shows "fail_call rq rs sv code msg =
    Some (-1, rq, rs\<lparr>rs_failed := True, rs_code := code, rs_msg := msg\<rparr>, sv)"
    and "res_ready (rs\<lparr>rs_failed := True, rs_code := code, rs_msg := msg\<rparr>) (Error code msg)"
  using assms by (simp_all add: fail_call_def arpc_fail_def res_ready_def)

lemma ends_fail:
  assumes "i64_range code" and "is_cstr msg" and "length msg < sizeof_msg" and "hinv (sv_tab sv)"
    and "Q (Error code msg) sv"
  shows "ends_with (fail_call rq rs sv code msg) Q"
  unfolding res_ready_fail(1) [OF assms(1-3)]
  by (rule ends_withI [where Q = Q, OF res_ready_fail(2) [OF assms(1-3)] assms(4,5)])

lemma codes_range [simp]: "i64_range ARPC_E_INVALID_PARAMS" "i64_range ARPC_E_INTERNAL"
    "i64_range ARPC_E_PARSE" "i64_range ARPC_E_INVALID_REQ" "i64_range ARPC_E_NO_METHOD"
  by (simp_all add: error_codes i64_range_def LLONG_MAX_def)

text \<open>A single return value, written to an empty result.\<close>

lemma res_ready_ret:
  assumes "holds rs [(ARPC_RET_KEY, v)]" and "\<not> rs_failed rs" and "json_ok v" and "json_depth v = 0"
    and "length (json_text v) + 200 \<le> 2 ^ 63"
  shows "res_ready rs (Result [(ARPC_RET_KEY, v)])"
proof -
  have "length (member_text (ARPC_RET_KEY, v)) + 128 \<le> 2 ^ 63"
    using assms(5) by (simp add: member_text_def str_text_def esc_char_def ARPC_RET_KEY_def)
  moreover have "[(ARPC_RET_KEY, v)] = with_ret [(ARPC_RET_KEY, v)]" by (simp add: with_ret_def)
  ultimately show ?thesis
    using assms(1-4) unfolding res_ready_def by (auto simp: fits_def ARPC_RET_KEY_def AJ_MAX_DEPTH_def)
qed

lemma ret_not_failed [simp]:
  "rs_failed (arpc_ret_null alloc rs) = rs_failed rs" "rs_failed (arpc_ret_i64 alloc rs v) = rs_failed rs"
  "rs_failed (arpc_ret_bytes alloc rs b) = rs_failed rs" "\<not> rs_failed arpc_res_zero"
  by (simp_all add: arpc_ret_null_def arpc_ret_i64_def arpc_ret_bytes_def set_ret_def ensure_obj_def
      arpc_res_zero_def Let_def)

lemma ready_null: "res_ready (arpc_ret_null (\<lambda>_. True) arpc_res_zero) (Result [(ARPC_RET_KEY, JNull)])"
  using ret_values(1) [OF holds_zero, of "\<lambda>_. True" JNull]
  by (intro res_ready_ret)
    (simp_all add: fits_def member_text_def str_text_def esc_char_def ARPC_RET_KEY_def)

lemma ready_i64:
  assumes "i64_range v"
  shows "res_ready (arpc_ret_i64 (\<lambda>_. True) arpc_res_zero v) (Result [(ARPC_RET_KEY, JNum v)])"
  using ret_values(2) [OF holds_zero, of "\<lambda>_. True" "JNum v" v] rev_digits_short [OF assms] assms
  by (intro res_ready_ret)
    (simp_all add: fits_def member_text_def str_text_def esc_char_def ARPC_RET_KEY_def i64_range_def)

lemma ready_bytes:
  assumes "length b \<le> 2 ^ 59"
  shows "res_ready (arpc_ret_bytes (\<lambda>_. True) arpc_res_zero (Some b))
    (Result [(ARPC_RET_KEY, JStr (b64_encode_loop b))])"
proof -
  let ?s = "b64_encode_loop b"
  have "length ?s \<le> 4 * ((2 ^ 59 + 2) div 3)" using encode_loop_length [of b] assms by (simp add: div_le_mono)
  then have l: "length (str_text ?s) + 200 \<le> 2 ^ 63" using str_text_le [of ?s] by simp
  have c: "is_cstr ?s" by (rule encode_is_cstr)
  have "fits [(ARPC_RET_KEY, JStr ?s)]"
    using l by (simp add: fits_def member_text_def ARPC_RET_KEY_def str_text_def [of "''@ret''"] esc_char_def)
  then have f: "fits ([] @ [(ARPC_RET_KEY, JStr ?s)])" unfolding append_Nil .
  have v: "JStr ?s = str_value (map_option b64_encode_loop (Some b))" using c by (simp add: str_value_def)
  have "\<forall>n. (\<lambda>_. True) n" by simp
  from ret_values(6) [OF holds_zero this f v]
  have "holds (arpc_ret_bytes (\<lambda>_. True) arpc_res_zero (Some b)) [(ARPC_RET_KEY, JStr ?s)]"
    unfolding append_Nil .
  then show ?thesis by (rule res_ready_ret) (use l c in simp_all)
qed

subsection \<open>\<^verbatim>\<open>arpc.set_path_style\<close>\<close>

definition path_style_does :: "arpc_req \<Rightarrow> 'w server \<Rightarrow> outcome \<Rightarrow> 'w server \<Rightarrow> bool" where
  "path_style_does rq sv oc sv' \<longleftrightarrow>
     (case arpc_arg_str rq 0 of (style, rq1) \<Rightarrow>
        if \<not> rq_bad rq1 \<and> style \<in> {Some ''win32'', Some ''posix''}
        then oc = Result [(ARPC_RET_KEY, JNum 0)] \<and> sv' = sv\<lparr>sv_win32 := (style = Some ''win32'')\<rparr>
        else (\<exists>msg. oc = Error ARPC_E_INVALID_PARAMS msg) \<and> sv' = sv)"

interpretation set_path_style: rpc_method "arpc_set_path_style (\<lambda>_. True)" "\<lambda>_. True" path_style_does
proof unfold_locales
  fix sv :: "'a server" and rq
  assume inv: "hinv (sv_tab sv)"
  obtain style rq1 where a: "arpc_arg_str rq 0 = (style, rq1)" by fastforce
  show "ends_with (arpc_set_path_style (\<lambda>_. True) rq arpc_res_zero sv) (path_style_does rq sv)"
  proof (cases "\<not> rq_bad rq1 \<and> style \<in> {Some ''win32'', Some ''posix''}")
    case True
    have z: "i64_range 0" by (simp add: i64_range_def LLONG_MAX_def)
    have e: "arpc_set_path_style (\<lambda>_. True) rq arpc_res_zero sv =
        Some (0, rq1, arpc_ret_i64 (\<lambda>_. True) arpc_res_zero 0, sv\<lparr>sv_win32 := (style = Some ''win32'')\<rparr>)"
      using True a by (auto simp: arpc_set_path_style_def arpc_req_bad_def)
    show ?thesis
      unfolding e by (rule ends_withI [OF ready_i64 [OF z]]) (use True a inv in \<open>auto simp: path_style_does_def\<close>)
  next
    case False
    let ?msg = "''arpc.set_path_style: win32 or posix''"
    have e: "arpc_set_path_style (\<lambda>_. True) rq arpc_res_zero sv =
        fail_call rq1 arpc_res_zero sv ARPC_E_INVALID_PARAMS ?msg"
      using False a by (auto simp: arpc_set_path_style_def arpc_req_bad_def)
    show ?thesis
      unfolding e by (rule ends_fail) (use False a inv in \<open>auto simp: path_style_does_def sizeof_msg_def\<close>)
  qed
qed

subsection \<open>\<^verbatim>\<open>arpc.set_callback\<close>\<close>

text \<open>What installing a trampoline returns is a C \<^verbatim>\<open>int\<close>.\<close>

definition kinds_ok :: "'w cb_kind list \<Rightarrow> bool" where
  "kinds_ok kinds \<longleftrightarrow> (\<forall>(name, install) \<in> set kinds. \<forall>h on ctx w. i64_range (fst (install h on ctx w)))"

lemma kind_loop_range:
  "kind_loop kind i ks which = r \<Longrightarrow> r = kind \<or> i \<le> r \<and> r < i + int (length ks) \<and> fst (ks ! nat (r - i)) = which"
proof (induction ks arbitrary: kind i)
  case (Cons k ks)
  from Cons.IH [of "if fst k = which then i else kind" "i + 1"] Cons.prems
  consider "r = (if fst k = which then i else kind)"
    | "i + 1 \<le> r" "r < i + 1 + int (length ks)" "fst (ks ! nat (r - (i + 1))) = which" by auto
  then show ?case
  proof cases
    case 2
    then have "nat (r - i) = Suc (nat (r - (i + 1)))" by simp
    with 2 show ?thesis by simp
  qed (auto split: if_splits)
qed simp

text \<open>An error changes nothing; a success changes one bit of the handle's registration.\<close>

definition cb_set_does :: "'w cb_kind list \<Rightarrow> arpc_req \<Rightarrow> 'w server \<Rightarrow> outcome \<Rightarrow> 'w server \<Rightarrow> bool" where
  "cb_set_does kinds rq sv oc sv' \<longleftrightarrow>
     (case oc of
        Error code msg \<Rightarrow> sv' = sv
      | Result kvs \<Rightarrow>
          \<exists>v w kind on i regs. kvs = [(ARPC_RET_KEY, JNum v)] \<and> kind < length kinds \<and>
            reg_for (\<lambda>_. True) (sv_regs sv) (fst (arpc_arg_id rq 0)) True = (Some i, regs) \<and>
            sv' = sv\<lparr>sv_regs := regs[i := set_enabled on kind (regs ! i)], sv_ext := w\<rparr>)"

interpretation set_callback: rpc_method "arpc_cb_set (\<lambda>_. True) th kinds" "\<lambda>_. kinds_ok kinds" "cb_set_does kinds"
  for th kinds
proof unfold_locales
  fix sv :: "'a server" and rq
  assume inv: "hinv (sv_tab sv)" and kinds: "kinds_ok kinds"
  obtain hid rq1 where a: "arpc_arg_id rq 0 = (hid, rq1)" by fastforce
  obtain h rq2 where b: "arpc_arg_handle (sv_tab sv) rq1 0 th = Some (h, rq2)"
    using arg_handle_value [OF inv, of rq1 0] by (metis surj_pair)
  obtain which rq3 where c: "arpc_arg_str rq2 1 = (which, rq3)" by fastforce
  obtain flag rq4 where d: "arpc_arg_i64 rq3 2 = (flag, rq4)" by fastforce
  note args = a b c d
  show "ends_with (arpc_cb_set (\<lambda>_. True) th kinds rq arpc_res_zero sv) (cb_set_does kinds rq sv)"
  proof (cases "arpc_req_bad rq4 \<or> which = None")
    case True
    have e: "arpc_cb_set (\<lambda>_. True) th kinds rq arpc_res_zero sv =
        fail_call rq4 arpc_res_zero sv ARPC_E_INVALID_PARAMS ''arpc.set_callback: bad arguments''"
      using True args by (auto simp: arpc_cb_set_def)
    show ?thesis
      unfolding e by (rule ends_fail) (use inv in \<open>simp_all add: cb_set_does_def sizeof_msg_def\<close>)
  next
    case False
    then obtain name where name: "which = Some name" "\<not> arpc_req_bad rq4" by auto
    define kind where "kind = kind_loop (-1) 0 kinds name"
    show ?thesis
    proof (cases "kind < 0")
      case True
      have e: "arpc_cb_set (\<lambda>_. True) th kinds rq arpc_res_zero sv =
          fail_call rq4 arpc_res_zero sv ARPC_E_INVALID_PARAMS ''arpc.set_callback: unknown callback''"
        using True name args by (simp add: arpc_cb_set_def kind_def)
      show ?thesis
        unfolding e by (rule ends_fail) (use inv in \<open>simp_all add: cb_set_does_def sizeof_msg_def\<close>)
    next
      case False
      have k: "nat kind < length kinds"
        using kind_loop_range [of "-1" 0 kinds name kind] False by (auto simp: kind_def)
      obtain i regs where r: "reg_for (\<lambda>_. True) (sv_regs sv) hid True = (Some i, regs)"
        by (cases "reg_at 0 (sv_regs sv) hid") (simp_all add: reg_for_def)
      obtain v w where v: "snd (kinds ! nat kind) h (signed_take_bit 31 flag) hid (sv_ext sv) = (v, w)" by fastforce
      have "i64_range v"
        using kinds nth_mem [OF k] v unfolding kinds_ok_def by (metis (mono_tags, lifting) case_prod_unfold fst_conv)
      let ?sv = "sv\<lparr>sv_regs := regs[i := set_enabled (signed_take_bit 31 flag \<noteq> 0) (nat kind) (regs ! i)], sv_ext := w\<rparr>"
      have e: "arpc_cb_set (\<lambda>_. True) th kinds rq arpc_res_zero sv =
          Some (0, rq4, arpc_ret_i64 (\<lambda>_. True) arpc_res_zero v, ?sv)"
        using False name args r v by (simp add: arpc_cb_set_def kind_def [symmetric])
      have "cb_set_does kinds rq sv (Result [(ARPC_RET_KEY, JNum v)]) ?sv"
        using k r a unfolding cb_set_does_def by auto
      then show ?thesis
        unfolding e by (rule ends_withI [OF ready_i64 [OF \<open>i64_range v\<close>], rotated]) (simp add: inv)
    qed
  qed
qed

subsection \<open>\<^verbatim>\<open>arpc.mtree\<close>\<close>

text \<open>The listing of any package is of a size that can be sent.\<close>

definition archive_ok :: "('w, 'e) archive_env \<Rightarrow> bool" where
  "archive_ok env \<longleftrightarrow>
     (\<forall>w pkg es w1 w2. mtree_open env w pkg = (Some es, w1) \<longrightarrow>
        (case header_blocks env w2 es of (bs, ok, w3) \<Rightarrow>
           length (concat bs) + length (concat (fst (write_close env w3))) \<le> 2 ^ 59))"

text \<open>
  The bytes libarchive's writer makes of a package's entries and of its closing, if it takes them all.
\<close>

definition listing_of :: "('w, 'e) archive_env \<Rightarrow> 'w \<Rightarrow> 64 word \<Rightarrow> byte list option" where
  "listing_of env w pkg =
     (case mtree_open env w pkg of
        (None, w1) \<Rightarrow> None
      | (Some es, w1) \<Rightarrow>
          let (made, w2) = write_new env w1; (opened, w3) = write_open env w2; (bs, ok, w4) = header_blocks env w3 es
          in if made \<and> opened \<and> ok then Some (concat bs @ concat (fst (write_close env w4))) else None)"

text \<open>
  A package without a listing gives null; one with a listing gives exactly its bytes in base64;
  a bad argument or a writer that fails gives an error.
\<close>

definition mtree_does ::
    "nat \<Rightarrow> ('w, 'e) archive_env \<Rightarrow> arpc_req \<Rightarrow> 'w server \<Rightarrow> outcome \<Rightarrow> 'w server \<Rightarrow> bool" where
  "mtree_does tp env rq sv oc sv' \<longleftrightarrow>
     (\<exists>w. sv' = sv\<lparr>sv_ext := w\<rparr>) \<and>
     (\<forall>pkg rq1. arpc_arg_handle (sv_tab sv) rq 0 tp = Some (pkg, rq1) \<longrightarrow>
        (case oc of
           Error code msg \<Rightarrow> arpc_req_bad rq1 \<or> pkg = 0 \<or> listing_of env (sv_ext sv) pkg = None
         | Result kvs \<Rightarrow> \<not> arpc_req_bad rq1 \<and> pkg \<noteq> 0 \<and>
             (case listing_of env (sv_ext sv) pkg of
                None \<Rightarrow> fst (mtree_open env (sv_ext sv) pkg) = None \<and> kvs = [(ARPC_RET_KEY, JNull)]
              | Some s \<Rightarrow> kvs = [(ARPC_RET_KEY, JStr (b64_encode_loop s))] \<or> kvs = [(ARPC_RET_KEY, JNull)] \<and> s = [])))"

lemma mtree_fail:
  assumes "hinv (sv_tab sv)" and "is_cstr msg" and "length msg < sizeof_msg"
    and "code = ARPC_E_INTERNAL \<or> code = ARPC_E_INVALID_PARAMS"
    and "arpc_arg_handle (sv_tab sv) rq 0 tp = Some (pkg, rq1)"
    and "arpc_req_bad rq1 \<or> pkg = 0 \<or> listing_of env (sv_ext sv) pkg = None"
  shows "ends_with (fail_call rq1 arpc_res_zero (sv\<lparr>sv_ext := w\<rparr>) code msg) (mtree_does tp env rq sv)"
  by (rule ends_fail) (use assms in \<open>auto simp: mtree_does_def\<close>)

text \<open>What the sink holds after the entries and after the writer's closing.\<close>

lemma listing_collected:
  assumes hb: "header_blocks env w es = (bs, ok, w')" and len: "length (concat bs) + length (concat cs) \<le> 2 ^ 59"
  obtains s1 s2 where "header_loop (\<lambda>_. True) env w sink_zero es = Some (if ok then 0 else -1, w', s1)"
    "feed (\<lambda>_. True) s1 cs = Some (True, s2)" "\<not> sk_failed s2" "sk_buf s2 = concat bs @ concat cs"
    "sk_cap s2 = 0 \<Longrightarrow> concat bs @ concat cs = []"
proof -
  obtain s1 where s1: "header_loop (\<lambda>_. True) env w sink_zero es = Some (if ok then 0 else -1, w', s1)"
      "sink_has s1 (concat bs)"
    using header_loop_has [OF hb sink_has_zero, of "\<lambda>_. True"] len by auto
  obtain s2 where s2: "feed (\<lambda>_. True) s1 cs = Some (True, s2)" "sink_has s2 (concat bs @ concat cs)"
    using feed_has [OF s1(2), of "\<lambda>_. True" cs] len by auto
  show thesis by (rule that [OF s1(1) s2(1)]) (use s2(2) in \<open>auto simp: sink_has_def\<close>)
qed

lemma mtree_listing:
  assumes inv: "hinv (sv_tab sv)" and arch: "archive_ok env"
    and a: "arpc_arg_handle (sv_tab sv) rq 0 tp = Some (pkg, rq1)" and pkg: "\<not> (arpc_req_bad rq1 \<or> pkg = 0)"
    and o: "mtree_open env (sv_ext sv) pkg = (Some es, w1)"
  shows "ends_with (arpc_mtree_get (\<lambda>_. True) tp env rq arpc_res_zero sv) (mtree_does tp env rq sv)"
    (is "ends_with ?run _")
proof -
  obtain made w2 where n: "write_new env w1 = (made, w2)" by fastforce
  obtain opened w3 where wo: "write_open env w2 = (opened, w3)" by fastforce
  obtain bs ok w4 where hb: "header_blocks env w3 es = (bs, ok, w4)" by (metis prod_cases3)
  obtain cs w5 where wc: "write_close env w4 = (cs, w5)" by fastforce
  let ?w6 = "mtree_close env (write_free env w5) pkg" and ?b = "concat bs @ concat cs"
  have len: "length (concat bs) + length (concat cs) \<le> 2 ^ 59"
    using arch o hb wc unfolding archive_ok_def by (metis (mono_tags, lifting) case_prod_conv fst_conv)
  obtain s1 s2 where s: "header_loop (\<lambda>_. True) env w3 sink_zero es = Some (if ok then 0 else -1, w4, s1)"
      "feed (\<lambda>_. True) s1 cs = Some (True, s2)" "\<not> sk_failed s2" "sk_buf s2 = ?b" "sk_cap s2 = 0 \<Longrightarrow> ?b = []"
    using listing_collected [OF hb len] by blast
  have run: "?run =
    (if \<not> made then fail_call rq1 arpc_res_zero (sv\<lparr>sv_ext := mtree_close env w2 pkg\<rparr>) ARPC_E_INTERNAL ''out of memory''
     else if \<not> opened then fail_call rq1 arpc_res_zero (sv\<lparr>sv_ext := mtree_close env (write_free env w3) pkg\<rparr>)
       ARPC_E_INTERNAL ''cannot write mtree''
     else if \<not> ok then fail_call rq1 arpc_res_zero (sv\<lparr>sv_ext := ?w6\<rparr>) ARPC_E_INTERNAL
       ''arpc.mtree: could not re-serialise the mtree''
     else Some (0, rq1, arpc_ret_bytes (\<lambda>_. True) arpc_res_zero (if sk_cap s2 = 0 then None else Some ?b),
       sv\<lparr>sv_ext := ?w6\<rparr>))"
    using pkg a o n wo s wc by (simp add: arpc_mtree_get_def)
  have null: "arpc_ret_bytes (\<lambda>_. True) arpc_res_zero None = arpc_ret_null (\<lambda>_. True) arpc_res_zero"
    by (simp add: arpc_ret_bytes_def arpc_ret_null_def ajw_str_def)
  have l: "length ?b \<le> 2 ^ 59" using len by simp
  have listing: "listing_of env (sv_ext sv) pkg = (if made \<and> opened \<and> ok then Some ?b else None)"
    using o n wo hb wc by (simp add: listing_of_def)
  have "ends_with (Some (0, rq1, arpc_ret_bytes (\<lambda>_. True) arpc_res_zero (if sk_cap s2 = 0 then None else Some ?b),
       sv\<lparr>sv_ext := ?w6\<rparr>)) (mtree_does tp env rq sv)" if "made \<and> opened \<and> ok"
  proof (cases "sk_cap s2 = 0")
    case True
    show ?thesis
      unfolding if_P [OF True] null
      by (rule ends_withI [OF ready_null])
        (use True s(5) that pkg a inv listing in \<open>auto simp: mtree_does_def\<close>)
  next
    case False
    show ?thesis
      unfolding if_not_P [OF False]
      by (rule ends_withI [OF ready_bytes [OF l]])
        (use that pkg a inv listing in \<open>auto simp: mtree_does_def\<close>)
  qed
  then show ?thesis
    unfolding run using listing by (auto intro!: mtree_fail [OF inv _ _ _ a] simp: sizeof_msg_def)
qed

interpretation mtree: rpc_method "arpc_mtree_get (\<lambda>_. True) tp env" "\<lambda>_. archive_ok env" "mtree_does tp env"
  for tp env
proof unfold_locales
  fix sv :: "'a server" and rq
  assume inv: "hinv (sv_tab sv)" and arch: "archive_ok env"
  obtain pkg rq1 where a: "arpc_arg_handle (sv_tab sv) rq 0 tp = Some (pkg, rq1)"
    using arg_handle_value [OF inv, of rq 0] by (metis surj_pair)
  let ?run = "arpc_mtree_get (\<lambda>_. True) tp env rq arpc_res_zero sv"
  obtain inp w1 where o: "mtree_open env (sv_ext sv) pkg = (inp, w1)" by fastforce
  consider "arpc_req_bad rq1 \<or> pkg = 0" | es where "\<not> (arpc_req_bad rq1 \<or> pkg = 0)" "inp = Some es"
    | "\<not> (arpc_req_bad rq1 \<or> pkg = 0)" "inp = None" by (cases inp) auto
  then show "ends_with ?run (mtree_does tp env rq sv)"
  proof cases
    case 1
    have e: "?run = fail_call rq1 arpc_res_zero (sv\<lparr>sv_ext := sv_ext sv\<rparr>) ARPC_E_INVALID_PARAMS ''arpc.mtree: bad arguments''"
      using 1 a by (simp add: arpc_mtree_get_def)
    show ?thesis unfolding e by (rule mtree_fail [OF inv _ _ _ a]) (use 1 in \<open>auto simp: sizeof_msg_def\<close>)
  next
    case 2
    show ?thesis by (rule mtree_listing [OF inv arch a 2(1) o [unfolded 2(2)]])
  next
    case 3
    have e: "?run = Some (0, rq1, arpc_ret_null (\<lambda>_. True) arpc_res_zero, sv\<lparr>sv_ext := w1\<rparr>)"
      using 3 a o by (simp add: arpc_mtree_get_def)
    show ?thesis
      unfolding e by (rule ends_withI [OF ready_null]) (use 3 a o inv in \<open>auto simp: mtree_does_def listing_of_def\<close>)
  qed
qed

section \<open>Every request gets one reply\<close>

text \<open>The generated methods keep the contract, and what they rely on holds in the state at hand.\<close>

definition methods_ok :: "('w, 'e) server_env \<Rightarrow> 'w server \<Rightarrow> bool" where
  "methods_ok env sv \<longleftrightarrow>
     table_sorted (e_methods env) \<and> kinds_ok (e_kinds env) \<and> archive_ok (e_archive env) \<and>
     (\<forall>(name, fn) \<in> set (e_methods env). \<exists>ok does. rpc_method fn ok does \<and>
        (\<forall>h. ok (follow_gpg (\<lambda>_. True) env sv h)))"

lemma found_method_ok:
  assumes "methods_ok env sv" and "find_method (\<lambda>_. True) env name = Some fn"
  obtains ok does where "rpc_method fn ok does" "\<And>h. ok (follow_gpg (\<lambda>_. True) env sv h)"
proof -
  have "(name, fn) \<in> set (builtins (\<lambda>_. True) env @ e_methods env)"
    using find_method_spec [of env "\<lambda>_. True" name] assms map_of_SomeD by (fastforce simp: methods_ok_def)
  then consider "fn = arpc_set_path_style (\<lambda>_. True)"
    | "fn = arpc_cb_set (\<lambda>_. True) (e_handle env) (e_kinds env)"
    | "fn = arpc_mtree_get (\<lambda>_. True) (e_pkg env) (e_archive env)" | "(name, fn) \<in> set (e_methods env)"
    by (auto simp: builtins_def)
  then show ?thesis
  proof cases
    case 1
    then show ?thesis by (intro that [of "\<lambda>_. True" path_style_does]) (simp_all add: set_path_style.rpc_method_axioms)
  next
    case 2
    show ?thesis
      by (rule that [of "\<lambda>_. kinds_ok (e_kinds env)" "cb_set_does (e_kinds env)"], unfold 2, rule set_callback.rpc_method_axioms) (use assms(1) in \<open>simp add: methods_ok_def\<close>)
  next
    case 3
    show ?thesis
      by (rule that [of "\<lambda>_. archive_ok (e_archive env)" "mtree_does (e_pkg env) (e_archive env)"], unfold 3,
          rule mtree.rpc_method_axioms) (use assms(1) in \<open>simp add: methods_ok_def\<close>)
  next
    case 4
    then show ?thesis using that assms(1) by (fastforce simp: methods_ok_def)
  qed
qed

lemma doc_i64_range:
  assumes "doc_ok d" and "i64_range dflt"
  shows "i64_range (aj_i64 d n dflt)"
proof (cases "aj_at d n")
  case (Some nd)
  then have "nat n < d_count d" "nd = d_nodes d ! nat n" by (auto simp: aj_at_def split: if_splits)
  then have "i64_range (n_num nd)" using assms(1) by (auto simp: doc_ok_def i64_range_def Let_def)
  with assms(2) Some show ?thesis by (simp add: aj_i64_def)
qed (simp add: aj_i64_def assms(2))

lemma i64_range_0 [simp]: "i64_range 0"
  by (simp add: i64_range_def LLONG_MAX_def)

text \<open>The outcomes the dispatcher itself decides.\<close>

definition dispatch_error :: "('w, 'e) server_env \<Rightarrow> string option \<Rightarrow> outcome option" where
  "dispatch_error env name =
     (case name of
        None \<Rightarrow> Some (Error ARPC_E_INVALID_REQ ''missing method'')
      | Some m \<Rightarrow>
          if m = ''arpc.shutdown'' \<or> m \<in> fst ` set (builtins (\<lambda>_. True) env) \<or> m \<in> fst ` set (e_methods env)
          then None else Some (Error ARPC_E_NO_METHOD (no_method_message m)))"

lemma str_at_cstr: "is_cstr (str_at d i)"
  by (simp add: str_at_def)

lemma no_method_message_ok: "is_cstr m \<Longrightarrow> is_cstr (no_method_message m) \<and> length (no_method_message m) < sizeof_msg"
  by (auto simp: no_method_message_def sizeof_msg_def is_cstr_def dest: in_set_takeD)

lemma parsed_replies:
  fixes d :: aj_doc
  assumes inv: "hinv (sv_tab sv)" and d: "doc_ok d" and ok: "methods_ok env sv"
  defines "rid \<equiv> aj_i64 d (aj_member d 0 ''id'') 0" and "name \<equiv> aj_str d (aj_member d 0 ''method'') None"
  shows "\<exists>oc sv'. arpc_handle_parsed (\<lambda>_. True) env d sv = Some (Some (reply_text rid oc), sv') \<and>
     hinv (sv_tab sv') \<and> readable (reply_json rid oc) \<and>
     (case dispatch_error env name of Some e \<Rightarrow> oc = e \<and> sv' = sv | None \<Rightarrow> True) \<and>
     (name = Some ''arpc.shutdown'' \<longrightarrow> oc = Result [(ARPC_RET_KEY, JNum 0)] \<and> sv' = sv\<lparr>sv_shutdown := True\<rparr>)"
proof -
  have rid: "i64_range rid" unfolding rid_def by (rule doc_i64_range [OF d i64_range_0])
  have mem: "\<forall>n. (\<lambda>_ :: nat. True) n" by simp
  show ?thesis
  proof (cases name)
    case None
    let ?msg = "''missing method''"
    have m: "is_cstr ?msg" "length ?msg < sizeof_msg" by (simp_all add: sizeof_msg_def)
    have "arpc_handle_parsed (\<lambda>_. True) env d sv = Some (reply_error (\<lambda>_. True) rid ARPC_E_INVALID_REQ ?msg, sv)"
      using None by (simp add: arpc_handle_parsed_def rid_def name_def)
    with error_reply [OF mem rid _ m] readable_error [OF rid _ m] inv None show ?thesis
      by (auto simp: dispatch_error_def)
  next
    case (Some m)
    then have c: "is_cstr m" using str_at_cstr by (auto simp: name_def aj_str_def split: option.splits if_splits)
    show ?thesis
    proof (cases "m = ''arpc.shutdown''")
      case True
      have "arpc_handle_parsed (\<lambda>_. True) env d sv = Some (shutdown_reply (\<lambda>_. True) rid, sv\<lparr>sv_shutdown := True\<rparr>)"
        using Some True by (simp add: arpc_handle_parsed_def rid_def name_def)
      moreover have "readable (reply_json rid (Result [(ARPC_RET_KEY, JNum 0)]))"
        by (rule readable_result [OF rid])
          (simp_all add: fits_def member_text_def str_text_def esc_char_def ARPC_RET_KEY_def int_text_def
            rev_digits.simps LLONG_MAX_def AJ_MAX_DEPTH_def)
      ultimately show ?thesis using shutdown_text [OF mem rid] inv Some True by (simp add: dispatch_error_def)
    next
      case False
      show ?thesis
      proof (cases "find_method (\<lambda>_. True) env m")
        case None
        have e: "dispatch_error env name = Some (Error ARPC_E_NO_METHOD (no_method_message m))"
          using None find_method_None [of env "\<lambda>_. True" m] ok Some False
          by (simp add: dispatch_error_def methods_ok_def)
        have "arpc_handle_parsed (\<lambda>_. True) env d sv =
            Some (reply_error (\<lambda>_. True) rid ARPC_E_NO_METHOD (no_method_message m), sv)"
          using Some False None by (simp add: arpc_handle_parsed_def rid_def name_def)
        with e no_method_message_ok [OF c] error_reply [OF mem rid] readable_error [OF rid] inv Some False
        show ?thesis by auto
      next
        case found: (Some fn)
        obtain ok' does where ok': "rpc_method fn ok' does" "\<And>h. ok' (follow_gpg (\<lambda>_. True) env sv h)"
          using found_method_ok [OF ok found] by blast
        let ?rq = "\<lparr>rq_doc = d, rq_params = aj_member d 0 ''params'', rq_bad = False\<rparr>"
        have "arpc_handle_parsed (\<lambda>_. True) env d sv = run_method (\<lambda>_. True) env rid ?rq fn sv"
          using Some False found by (simp add: arpc_handle_parsed_def rid_def name_def)
        moreover obtain oc sv' where "run_method (\<lambda>_. True) env rid ?rq fn sv = Some (Some (reply_text rid oc), sv')"
            "hinv (sv_tab sv')" "readable (reply_json rid oc)"
          using rpc_method.run_replies [OF ok'(1) inv ok'(2) _ mem rid, of ?rq] d by auto
        moreover have "dispatch_error env name = None"
          using find_method_None [of env "\<lambda>_. True" m] ok found Some
          by (auto simp: dispatch_error_def methods_ok_def)
        ultimately show ?thesis using Some False by auto
      qed
    qed
  qed
qed

end
