(* ===== verification/Result_Ops.thy ===== *)
theory Result_Ops
  imports Methods Invalidate
begin

text \<open>
  What a handler promises about its reply, stated over the calls it makes: an abstract result is
  the list of members, and the functions of \<^verbatim>\<open>arpc_server.c\<close> that write one refine it. Also the
  effect of \<^verbatim>\<open>arpc.set_callback\<close> and of a callback's exchange over values, which the properties
  of the server rest on.
\<close>

section \<open>Results as member lists\<close>

datatype res_op =
    Ret_Null | Ret_I64 int | Ret_Str "string option" | Ret_Path "string option" | Ret_Handle "64 word"
  | Ret_Bytes "byte list option" | Out_I64 string int | Out_Bytes string "byte list option"

fun run_op :: "allocator \<Rightarrow> cygwin \<Rightarrow> bool \<Rightarrow> res_op \<Rightarrow> arpc_res \<Rightarrow> arpc_res" where
  "run_op alloc cyg win32 Ret_Null rs = arpc_ret_null alloc rs"
| "run_op alloc cyg win32 (Ret_I64 v) rs = arpc_ret_i64 alloc rs v"
| "run_op alloc cyg win32 (Ret_Str s) rs = arpc_ret_str alloc rs s"
| "run_op alloc cyg win32 (Ret_Path s) rs = arpc_ret_path alloc cyg win32 rs s"
| "run_op alloc cyg win32 (Ret_Handle hid) rs = arpc_ret_handle alloc rs hid"
| "run_op alloc cyg win32 (Ret_Bytes b) rs = arpc_ret_bytes alloc rs b"
| "run_op alloc cyg win32 (Out_I64 k v) rs = arpc_out_i64 alloc rs k v"
| "run_op alloc cyg win32 (Out_Bytes k b) rs = arpc_out_bytes alloc rs k b"

text \<open>The abstract operation: a return value is appended, an out-parameter comes after one.\<close>

fun spec_op :: "allocator \<Rightarrow> cygwin \<Rightarrow> bool \<Rightarrow> res_op \<Rightarrow> (string \<times> json) list \<Rightarrow> (string \<times> json) list" where
  "spec_op alloc cyg win32 Ret_Null kvs = kvs @ [(ARPC_RET_KEY, JNull)]"
| "spec_op alloc cyg win32 (Ret_I64 v) kvs = kvs @ [(ARPC_RET_KEY, JNum v)]"
| "spec_op alloc cyg win32 (Ret_Str s) kvs = kvs @ [(ARPC_RET_KEY, str_value s)]"
| "spec_op alloc cyg win32 (Ret_Path s) kvs = kvs @ [(ARPC_RET_KEY, path_value alloc cyg win32 s)]"
| "spec_op alloc cyg win32 (Ret_Handle hid) kvs = kvs @ [(ARPC_RET_KEY, JNum (sint hid))]"
| "spec_op alloc cyg win32 (Ret_Bytes b) kvs = kvs @ [(ARPC_RET_KEY, str_value (map_option b64_encode_loop b))]"
| "spec_op alloc cyg win32 (Out_I64 k v) kvs = with_ret kvs @ [(k, JNum v)]"
| "spec_op alloc cyg win32 (Out_Bytes k b) kvs = with_ret kvs @ [(k, str_value (map_option b64_encode_loop b))]"

fun op_ok :: "res_op \<Rightarrow> bool" where
  "op_ok (Ret_I64 v) = i64_range v"
| "op_ok (Out_I64 k v) = (is_cstr k \<and> i64_range v)"
| "op_ok (Out_Bytes k b) = is_cstr k"
| "op_ok _ = True"

lemma spec_op_extends: "\<exists>ks. spec_op alloc cyg win32 op kvs = kvs @ ks"
  by (cases op) (auto simp: with_ret_def)

lemma spec_ops_extend: "\<exists>ks. fold (spec_op alloc cyg win32) ops kvs = kvs @ ks"
proof (induction ops arbitrary: kvs)
  case (Cons op ops)
  obtain ks where "spec_op alloc cyg win32 op kvs = kvs @ ks" using spec_op_extends by blast
  moreover obtain ls where "fold (spec_op alloc cyg win32) ops (kvs @ ks) = (kvs @ ks) @ ls" using Cons by blast
  ultimately show ?case by simp
qed simp

lemma run_op_holds:
  assumes "holds rs kvs" and "\<forall>n. alloc n" and "op_ok op" and "fits (spec_op alloc cyg win32 op kvs)"
  shows "holds (run_op alloc cyg win32 op rs) (spec_op alloc cyg win32 op kvs)"
  using assms(3,4) ret_values [OF assms(1,2)] out_values [OF assms(1,2)]
  by (cases op) simp_all

lemma run_ops_hold:
  assumes mem: "\<forall>n. alloc n"
  shows "holds rs kvs \<Longrightarrow> \<forall>op \<in> set ops. op_ok op \<Longrightarrow> fits (fold (spec_op alloc cyg win32) ops kvs) \<Longrightarrow>
    holds (fold (run_op alloc cyg win32) ops rs) (fold (spec_op alloc cyg win32) ops kvs)"
proof (induction ops arbitrary: rs kvs)
  case (Cons op ops)
  obtain ks where "fold (spec_op alloc cyg win32) (op # ops) kvs = spec_op alloc cyg win32 op kvs @ ks"
    using spec_ops_extend [of alloc cyg win32 ops "spec_op alloc cyg win32 op kvs"] by auto
  with Cons.prems(3) have "fits (spec_op alloc cyg win32 op kvs)" using fits_append by metis
  with run_op_holds [OF Cons.prems(1) mem, of op cyg win32] Cons show ?case by simp
qed simp

text \<open>Every value written is one the wire can carry.\<close>

lemma str_value_ok [simp]: "json_ok (str_value s)" "json_depth (str_value s) = 0"
  by (simp_all add: str_value_def split: option.split)

lemma path_value_ok [simp]: "json_ok (path_value alloc cyg win32 s)"
  by (simp add: path_value_def split: option.split)

lemma with_ret_ok: "json_ok (JObj kvs) \<Longrightarrow> json_ok (JObj (with_ret kvs))"
  by (simp add: with_ret_def ARPC_RET_KEY_def)

lemma spec_op_ok: "op_ok op \<Longrightarrow> json_ok (JObj kvs) \<Longrightarrow> json_ok (JObj (spec_op alloc cyg win32 op kvs))"
  using with_ret_ok [of kvs] sint_range
  by (cases op) (auto simp: i64_range_def ARPC_RET_KEY_def)

interpretation spec_ops: kept_by "spec_op alloc cyg win32" op_ok "\<lambda>kvs. json_ok (JObj kvs)"
  by unfold_locales (rule spec_op_ok)

lemmas spec_ops_ok = spec_ops.run_keeps

lemma ops_reply:
  fixes cyg win32 ops
  assumes mem: "\<forall>n. alloc n" and ops: "\<forall>op \<in> set ops. op_ok op" and rid: "i64_range rid"
  defines "kvs \<equiv> with_ret (fold (spec_op alloc cyg win32) ops [])"
  assumes fits: "fits kvs"
  shows "result_reply alloc rid (fold (run_op alloc cyg win32) ops arpc_res_zero) = Some (reply_text rid (Result kvs))"
proof -
  let ?kvs = "fold (spec_op alloc cyg win32) ops []"
  have "fits ?kvs"
    using fits by (cases "?kvs = []") (simp_all add: kvs_def with_ret_def fits_def)
  note h = run_ops_hold [OF mem holds_zero ops this]
  have "json_ok (JObj kvs)" unfolding kvs_def by (intro with_ret_ok spec_ops_ok ops) simp
  with result_text [OF h mem rid] fits show ?thesis by (simp add: kvs_def del: json_ok.simps)
qed

section \<open>Choosing callbacks\<close>

lemma kind_loop_distinct:
  "distinct (map fst ks) \<Longrightarrow> k < length ks \<Longrightarrow> kind_loop kind i ks (fst (ks ! k)) = i + int k"
proof (induction ks arbitrary: kind i k)
  case (Cons x ks)
  have stop: "kind_loop j i' ys n = j" if "n \<notin> fst ` set ys" for j i' n and ys :: "'a cb_kind list"
    using that by (induction ys arbitrary: i') auto
  show ?case
  proof (cases k)
    case 0
    with stop [of "fst x" ks] Cons.prems(1) show ?thesis by simp
  next
    case (Suc j)
    with Cons.IH [of j _ "i + 1"] Cons.prems show ?thesis by simp
  qed
qed simp

lemma cb_set_exact:
  assumes inv: "hinv (sv_tab sv)" and regs: "regs_ok (sv_regs sv)" and mem: "\<forall>n. alloc n"
    and args: "req_args rq [JNum hid, JStr (fst (kinds ! k)), JNum flag]" "\<not> rq_bad rq"
    and live: "arg_pointer (sv_tab sv) th (word_of_int hid) \<noteq> 0"
    and kinds: "distinct (map fst kinds)" "k < length kinds" "k < 32"
  shows "\<exists>v sv'. arpc_cb_set alloc th kinds rq rs sv = Some (0, rq, arpc_ret_i64 alloc rs v, sv') \<and>
    v = fst (snd (kinds ! k) (arg_pointer (sv_tab sv) th (word_of_int hid)) (signed_take_bit 31 flag) (word_of_int hid) (sv_ext sv)) \<and>
    regs_ok (sv_regs sv') \<and> sv_tab sv' = sv_tab sv \<and>
    (\<forall>h j. j < 32 \<longrightarrow> arpc_cb_wanted alloc' (sv_regs sv') h j =
       (if h = word_of_int hid \<and> j = k then signed_take_bit 31 flag \<noteq> 0 else arpc_cb_wanted alloc' (sv_regs sv) h j))"
proof -
  let ?h = "word_of_int hid :: 64 word" and ?on = "signed_take_bit 31 flag \<noteq> 0"
  let ?vs = "[JNum hid, JStr (fst (kinds ! k)), JNum flag]"
  have a: "arpc_arg_id rq 0 = (?h, rq)" using arg_id_value [OF args(1), of 0] by (simp add: arg_at_def)
  have hne: "?h \<noteq> 0"
  proof
    assume "?h = 0"
    with live have "hview (sv_tab sv) 0 \<noteq> None" by (auto simp: arg_pointer_def split: option.splits)
    then show False using hview_iff [OF inv, of 0] by (auto simp: live_def)
  qed
  have b: "arpc_arg_handle (sv_tab sv) rq 0 th = Some (arg_pointer (sv_tab sv) th ?h, rq)"
    using arg_handle_value [OF inv a, of th] live hne by simp
  have c: "arpc_arg_str rq 1 = (Some (fst (kinds ! k)), rq)"
    using arg_str_value [OF args(1), of 1] by (simp add: arg_at_def)
  have d: "arpc_arg_i64 rq 2 = (flag, rq)" using arg_i64_value [OF args(1), of 2] by (simp add: arg_at_def)
  have kl: "kind_loop (-1) 0 kinds (fst (kinds ! k)) = int k" using kind_loop_distinct [OF kinds(1,2)] by simp
  obtain i regs1 where r: "reg_for alloc (sv_regs sv) ?h True = (Some i, regs1)"
    using mem by (cases "reg_at 0 (sv_regs sv) ?h") (simp_all add: reg_for_def)
  note s = set_enabled_reg [OF regs r, of ?on k]
  obtain v w where v: "snd (kinds ! k) (arg_pointer (sv_tab sv) th ?h) (signed_take_bit 31 flag) ?h (sv_ext sv) = (v, w)"
    by fastforce
  have run: "arpc_cb_set alloc th kinds rq rs sv = Some (0, rq, arpc_ret_i64 alloc rs v,
      sv\<lparr>sv_regs := regs1[i := set_enabled ?on k (regs1 ! i)], sv_ext := w\<rparr>)"
    using args(2) by (simp add: arpc_cb_set_def a b c d kl r v arpc_req_bad_def)
  have "arpc_cb_wanted alloc' (regs1[i := set_enabled ?on k (regs1 ! i)]) h j =
      (if h = ?h \<and> j = k then ?on else arpc_cb_wanted alloc' (sv_regs sv) h j)" if "j < 32" for h j
    unfolding wanted_enabled bit_of_kind s(2) by (auto simp: set_enabled_bits [OF that] set_enabled_bits [OF kinds(3)])
  with run s(1) v show ?thesis by simp
qed

section \<open>A callback's exchange\<close>

lemma cb_send_exact:
  fixes kinds :: "'w cb_kind list" and kind :: nat and handle :: "64 word"
  assumes conn: "sv_conn sv" and args: "args_value args v" and sq: "i64_range (sv_seq sv)" and mem: "\<forall>n. alloc n"
  defines "sent \<equiv> json_text (cb_json (fst (kinds ! kind)) (sv_seq sv) handle v)"
  assumes len: "length sent + 32 \<le> 2 ^ 63"
    and ex: "exch (sv\<lparr>sv_seq := sv_seq sv + 1\<rparr>) sent = Some (reply, sv2)"
  shows "arpc_cb_send alloc kinds exch kind handle args dflt sv =
    Some (case reply of None \<Rightarrow> dflt | Some r \<Rightarrow> cb_answer alloc (sv_seq sv) dflt r, sv2)"
proof -
  obtain f where f: "cb_frame alloc (fst (kinds ! kind)) (sv_seq sv) handle args = f ajw_init"
      "writes alloc (cb_json (fst (kinds ! kind)) (sv_seq sv) handle v) f"
    using writes_cb_frame [OF args sq] by blast
  from writes_init [OF f(2)] len mem have "\<not> w_err (f ajw_init)" "w_text (f ajw_init) = sent"
    unfolding sent_def by blast+
  with f(1) conn ex show ?thesis by (simp add: arpc_cb_send_def)
qed

section \<open>The hooks around a call\<close>

text \<open>
  Whatever happened between the two halves of a hook, as long as the table is intact, dropping
  what was noted leaves none of it on file and adds nothing.
\<close>

lemma noted_dropped:
  assumes "hinv (sv_tab sv)" and "\<forall>n. alloc n" and "noted d (non_null ps @ non_null qs)"
  shows "\<exists>sv'. drop_all alloc d tag sv = Some sv' \<and> hinv (sv_tab sv') \<and>
     (\<forall>p \<in> set ps \<union> set qs. p \<noteq> 0 \<longrightarrow> (\<nexists>s. filed (sv_tab sv') p tag s)) \<and>
     hview (sv_tab sv') \<subseteq>\<^sub>m hview (sv_tab sv)"
  using drop_all_view [OF assms] by fastforce

text \<open>A request naming the databases to update by their ids.\<close>

lemma elems_nums:
  "repr_elems d ks (map JNum ids) \<Longrightarrow>
     length ks = length ids \<and> map (\<lambda>k. aj_i64 d (int k) 0) ks = ids"
proof (induction ids arbitrary: ks)
  case (Cons v ids)
  then show ?case by (cases ks) (auto simp: aj_i64_def aj_at_def)
qed simp

lemma db_update_view:
  assumes inv: "hinv (sv_tab sv)" and mem: "\<forall>n. alloc n" and args: "req_args rq [v, JArr (map JNum ids)]"
    and ids: "\<forall>i \<in> set ids. word_of_int i \<noteq> (0 :: 64 word)" and rc: "rc \<noteq> 1"
  shows "\<exists>h'. arpc_hook_alpm_db_update_post alloc rq rc sv = Some (rq, sv\<lparr>sv_tab := h'\<rparr>) \<and> hinv h' \<and>
    hview h' = fold (\<lambda>i v. prune v (word_of_int i) True) ids (hview (sv_tab sv))"
  using args
proof (cases rule: arg_node_value [where i = 1])
  case (found a n)
  let ?d = "rq_doc rq"
  have d: "doc_ok ?d" using args by (simp add: req_args_def)
  have "repr ?d n (JArr (map JNum ids))" using found by (simp add: arg_at_def)
  then obtain ks where ks: "n < d_count ?d" "n_type (d_nodes ?d ! n) = AJ_ARR"
      "chain ?d (first_child (d_nodes ?d ! n)) ks" "repr_elems ?d ks (map JNum ids)" by auto
  note e = elems_nums [OF ks(4), THEN conjunct2]
  have f: "aj_first ?d (int n) = first_child (d_nodes ?d ! n)"
    using ks(1,2) by (simp add: aj_first_def aj_at_def is_container_def)
  have nz: "\<forall>k \<in> set ks. word_of_int (aj_i64 ?d (int k) 0) \<noteq> (0 :: 64 word)" using ids e by auto
  obtain h' where h': "under_walk (Suc (d_count ?d)) alloc rq (first_child (d_nodes ?d ! n)) (sv_tab sv) = Some h'" "hinv h'"
      "hview h' = fold (\<lambda>k v. prune v (word_of_int (aj_i64 ?d (int k) 0)) True) ks (hview (sv_tab sv))"
    using under_walk_view [OF d mem ks(3) _ inv nz, of "Suc (d_count ?d)"] chain_length [OF d ks(3)]
    by (auto simp: less_Suc_eq_le simp del: under_walk.simps)
  have "hview h' = fold (\<lambda>i v. prune v (word_of_int i) True) ids (hview (sv_tab sv))"
    unfolding h'(3) e [symmetric] by (simp add: fold_map comp_def)
  with found h' rc f show ?thesis
    by (intro exI [of _ h'])
      (simp add: arpc_hook_alpm_db_update_post_def arpc_arg_node_def arpc_node_first_def del: under_walk.simps)
qed (simp add: arg_at_def)

end
