(* ===== verification/Serve.thy ===== *)
theory Serve
  imports Methods Wire
begin

text \<open>
  The connection loops of \<^verbatim>\<open>src/server/main.c\<close>: framed transfers on the live pipe, the exchange a
  callback waits in, serving a connection and the mode that serves lines of standard input.

  The pipe is part of \<open>sv_ext\<close>, the world outside the sources, and \<open>io\<close> is how Windows moves
  bytes through it. A loop that may go on for as long as the client talks is a partial function:
  \<^const>\<open>None\<close> is not returning.
\<close>

section \<open>The loops\<close>

text \<open>The pipe is always used with the event \<^verbatim>\<open>g_io_ev\<close>.\<close>

definition send_framed :: "'w win_io \<Rightarrow> 'w server \<Rightarrow> string \<Rightarrow> bool \<times> 'w server" where
  "send_framed io sv buf =
     (let (ok, w) = arpc_send_frame io True (sv_ext sv) buf in (ok, sv\<lparr>sv_ext := w\<rparr>))"

definition recv_framed :: "allocator \<Rightarrow> 'w win_io \<Rightarrow> 'w server \<Rightarrow> string option \<times> 'w server" where
  "recv_framed alloc io sv =
     (let (f, len, w) = arpc_recv_frame alloc io True (sv_ext sv) in (f, sv\<lparr>sv_ext := w\<rparr>))"

text \<open>The loop that waits for an answer and serves the requests that arrive before it.\<close>

partial_function (option) exchange_loop ::
    "allocator \<Rightarrow> 'w win_io \<Rightarrow> ('w, 'e) server_env \<Rightarrow> 'w server \<Rightarrow> (string option \<times> 'w server) option" where
  "exchange_loop alloc io env sv =
     (case recv_framed alloc io sv of
        (None, sv1) \<Rightarrow> Some (None, sv1)
      | (Some f, sv1) \<Rightarrow>
          (case aj_parse alloc (cstr f) of
             None \<Rightarrow> Some (Some f, sv1)
           | Some d \<Rightarrow>
               if aj_member d 0 ''method'' < 0 then Some (Some f, sv1)
               else do {
                 (rsp, sv2) \<leftarrow> arpc_handle_parsed alloc env d sv1;
                 case rsp of
                   None \<Rightarrow> Some (None, sv2)
                 | Some r \<Rightarrow>
                     (let (sent, sv3) = send_framed io sv2 r
                      in if \<not> sent then Some (None, sv3) else exchange_loop alloc io env sv3) }))"

text \<open>The answer, \<^const>\<open>None\<close> for a result of 0.\<close>

definition arpc_conn_exchange ::
    "allocator \<Rightarrow> 'w win_io \<Rightarrow> ('w, 'e) server_env \<Rightarrow> 'w server \<Rightarrow> string \<Rightarrow>
     (string option \<times> 'w server) option" where
  "arpc_conn_exchange alloc io env sv msg =
     (if \<not> sv_conn sv then Some (None, sv)
      else let (sent, sv1) = send_framed io sv msg
        in if \<not> sent then Some (None, sv1) else exchange_loop alloc io env sv1)"

partial_function (option) serve_loop ::
    "allocator \<Rightarrow> 'w win_io \<Rightarrow> ('w, 'e) server_env \<Rightarrow> 'w server \<Rightarrow> 'w server option" where
  "serve_loop alloc io env sv =
     (case recv_framed alloc io sv of
        (None, sv1) \<Rightarrow> Some sv1
      | (Some req, sv1) \<Rightarrow>
          do {
            (rsp, sv2) \<leftarrow> arpc_handle_frame alloc env (cstr req) sv1;
            case rsp of
              None \<Rightarrow> Some sv2
            | Some r \<Rightarrow>
                (let (ok, sv3) = send_framed io sv2 r
                 in if \<not> ok then Some sv3 else serve_loop alloc io env sv3) })"

definition serve_connection ::
    "allocator \<Rightarrow> 'w win_io \<Rightarrow> ('w, 'e) server_env \<Rightarrow> 'w server \<Rightarrow> 'w server option" where
  "serve_connection alloc io env sv =
     do {
       sv1 \<leftarrow> serve_loop alloc io env (sv\<lparr>sv_conn := True, sv_win32 := False\<rparr>);
       Some (sv1\<lparr>sv_conn := False\<rparr>) }"

subsection \<open>Standard input\<close>

text \<open>
  \<^verbatim>\<open>fgets\<close> into a buffer with room for \<open>n\<close> characters and the NUL: up to and including the end of
  the line, and what is left.
\<close>

fun fgets :: "nat \<Rightarrow> string \<Rightarrow> string \<times> string" where
  "fgets 0 s = ([], s)"
| "fgets (Suc n) [] = ([], [])"
| "fgets (Suc n) (c # s) =
     (if c = CHR 0x0A then ([c], s) else let (l, rest) = fgets n s in (c # l, rest))"

definition trim_eol :: "string \<Rightarrow> string" where
  "trim_eol s = rev (dropWhile (\<lambda>c. c = CHR 0x0A \<or> c = CHR 0x0D) (rev s))"

lemma fgets_append: "fgets n s = (l, rest) \<Longrightarrow> s = l @ rest"
  by (induction n s arbitrary: l rule: fgets.induct) (auto split: if_splits prod.splits)

lemma fgets_some: "s \<noteq> [] \<Longrightarrow> fgets (Suc n) s = (l, rest) \<Longrightarrow> length rest < length s"
  using fgets_append [of "Suc n" s l rest]
  by (cases s) (auto split: if_splits prod.splits)

text \<open>The lines printed, one per request.\<close>

function selftest_stdio ::
    "allocator \<Rightarrow> ('w, 'e) server_env \<Rightarrow> string \<Rightarrow> 'w server \<Rightarrow> (string list \<times> 'w server) option" where
  "selftest_stdio alloc env inp sv =
     (if inp = [] then Some ([], sv)
      else let (line, rest) = fgets (Suc 65534) inp; req = trim_eol (cstr line) in
        if req = [] then selftest_stdio alloc env rest sv
        else do {
          (rsp, sv1) \<leftarrow> arpc_handle_frame alloc env req sv;
          (out, sv2) \<leftarrow> selftest_stdio alloc env rest sv1;
          Some ((case rsp of None \<Rightarrow> ''{\"error\":\"internal\"}'' | Some r \<Rightarrow> r) # out, sv2) })"
  by pat_completeness auto
termination
proof (relation "measure (\<lambda>(alloc, env, inp, sv). length inp)", goal_cases)
  case (2 alloc env inp sv x line rest req)
  then show ?case using fgets_some [of inp 65534 line rest] by simp
next
  case (3 alloc env inp sv x line rest req)
  then show ?case using fgets_some [of inp 65534 line rest] by simp
qed simp

declare selftest_stdio.simps [simp del]

section \<open>What handling a request does to the world\<close>

text \<open>
  A relation every outside function the server calls respects, such as leaving the pipe alone;
  \<open>R\<close> is reflexive and transitive.
\<close>

definition gpg_keeps :: "('w \<Rightarrow> 'w \<Rightarrow> bool) \<Rightarrow> 'w gpg_env \<Rightarrow> bool" where
  "gpg_keeps R g \<longleftrightarrow>
     reflp R \<and> transp R \<and> (\<forall>w h. R w (snd (get_gpgdir g w h))) \<and> (\<forall>w. R w (check_version g w)) \<and>
     (\<forall>w d. R w (snd (set_engine_info g w d)))"

definition env_keeps :: "('w \<Rightarrow> 'w \<Rightarrow> bool) \<Rightarrow> ('w, 'e) server_env \<Rightarrow> bool" where
  "env_keeps R env \<longleftrightarrow>
     gpg_keeps R (e_gpg env) \<and>
     (\<forall>k \<in> set (e_kinds env). \<forall>h on ctx w. R w (snd (snd k h on ctx w))) \<and>
     (\<forall>w p. R w (snd (mtree_open (e_archive env) w p))) \<and> (\<forall>w p. R w (mtree_close (e_archive env) w p)) \<and>
     (\<forall>w. R w (snd (write_new (e_archive env) w))) \<and> (\<forall>w. R w (snd (write_open (e_archive env) w))) \<and>
     (\<forall>w e. R w (snd (snd (write_header (e_archive env) w e)))) \<and> (\<forall>w. R w (snd (write_close (e_archive env) w))) \<and>
     (\<forall>w. R w (write_free (e_archive env) w)) \<and>
     (\<forall>m \<in> set (e_methods env). \<forall>rq rs sv rc rq' rs' sv'.
        snd m rq rs sv = Some (rc, rq', rs', sv') \<longrightarrow> R (sv_ext sv) (sv_ext sv'))"

lemma keepsD:
  assumes "env_keeps R env"
  shows "R w w" "R u v \<Longrightarrow> R v x \<Longrightarrow> R u x"
    "get_gpgdir (e_gpg env) w h = (dir, w') \<Longrightarrow> R w w'" "R w (check_version (e_gpg env) w)"
    "set_engine_info (e_gpg env) w d = (err, w') \<Longrightarrow> R w w'"
    "k \<in> set (e_kinds env) \<Longrightarrow> snd k p on ctx w = (v', w') \<Longrightarrow> R w w'"
    "mtree_open (e_archive env) w p = (inp, w') \<Longrightarrow> R w w'" "R w (mtree_close (e_archive env) w p)"
    "write_new (e_archive env) w = (b, w') \<Longrightarrow> R w w'" "write_open (e_archive env) w = (b, w') \<Longrightarrow> R w w'"
    "write_header (e_archive env) w e = (bs, b, w') \<Longrightarrow> R w w'" "write_close (e_archive env) w = (bs, w') \<Longrightarrow> R w w'"
    "R w (write_free (e_archive env) w)"
    "m \<in> set (e_methods env) \<Longrightarrow> snd m rq rs sv = Some (rc, rq', rs', sv') \<Longrightarrow> R (sv_ext sv) (sv_ext sv')"
proof -
  note k = assms [unfolded env_keeps_def gpg_keeps_def]
  show "R w w" using k by (simp add: reflp_def)
  show "R u v \<Longrightarrow> R v x \<Longrightarrow> R u x" using k by (meson transpD)
  show "get_gpgdir (e_gpg env) w h = (dir, w') \<Longrightarrow> R w w'" "R w (check_version (e_gpg env) w)"
    "set_engine_info (e_gpg env) w d = (err, w') \<Longrightarrow> R w w'"
    "k \<in> set (e_kinds env) \<Longrightarrow> snd k p on ctx w = (v', w') \<Longrightarrow> R w w'"
    using k by (metis snd_conv)+
  show "mtree_open (e_archive env) w p = (inp, w') \<Longrightarrow> R w w'" "R w (mtree_close (e_archive env) w p)"
    "write_new (e_archive env) w = (b, w') \<Longrightarrow> R w w'" "write_open (e_archive env) w = (b, w') \<Longrightarrow> R w w'"
    "write_header (e_archive env) w e = (bs, b, w') \<Longrightarrow> R w w'" "write_close (e_archive env) w = (bs, w') \<Longrightarrow> R w w'"
    "R w (write_free (e_archive env) w)"
    using k by (metis snd_conv)+
  show "m \<in> set (e_methods env) \<Longrightarrow> snd m rq rs sv = Some (rc, rq', rs', sv') \<Longrightarrow> R (sv_ext sv) (sv_ext sv')"
    using k by blast
qed

lemma bsearch_in: "hi \<le> length ms \<Longrightarrow> bsearch key ms lo hi = Some m \<Longrightarrow> m \<in> set ms"
proof (induction key ms lo hi rule: bsearch.induct)
  case (1 key ms lo hi)
  note step = bsearch.simps [of key ms lo hi]
  let ?mid = "(lo + hi) div 2"
  show ?case
  proof (cases "hi \<le> lo")
    case False
    then have "?mid < length ms" "?mid \<le> length ms" using 1(3) by auto
    with False 1 step show ?thesis by (auto simp: Let_def split: if_splits)
  qed (use 1 step in simp)
qed

text \<open>What every way out of a handler leaves behind.\<close>

definition leaves :: "(int \<times> arpc_req \<times> arpc_res \<times> 'w server) option \<Rightarrow> ('w \<Rightarrow> bool) \<Rightarrow> bool" where
  "leaves r Q \<longleftrightarrow> (\<forall>rc rq rs sv. r = Some (rc, rq, rs, sv) \<longrightarrow> Q (sv_ext sv))"

named_theorems leaves_intros \<open>the ways out of a handler\<close>

lemma leaves_basic [leaves_intros]:
  "Q (sv_ext sv) \<Longrightarrow> leaves (fail_call rq rs sv code msg) Q"
  "Q (sv_ext sv) \<Longrightarrow> leaves (Some (rc, rq, rs, sv)) Q"
  "(c \<Longrightarrow> leaves x Q) \<Longrightarrow> (\<not> c \<Longrightarrow> leaves y Q) \<Longrightarrow> leaves (if c then x else y) Q"
  "(\<And>x. m = Some x \<Longrightarrow> leaves (f x) Q) \<Longrightarrow> leaves (Option.bind m f) Q"
  "(\<And>a b. p = (a, b) \<Longrightarrow> leaves (g a b) Q) \<Longrightarrow> leaves (case p of (a, b) \<Rightarrow> g a b) Q"
  "(z = None \<Longrightarrow> leaves n Q) \<Longrightarrow> (\<And>v. z = Some v \<Longrightarrow> leaves (k v) Q) \<Longrightarrow>
     leaves (case z of None \<Rightarrow> n | Some v \<Rightarrow> k v) Q"
  by (auto simp: leaves_def fail_call_def bind_eq_Some_conv split: prod.splits option.splits)

lemma follow_keeps:
  assumes "gpg_keeps R g"
  shows "R w (snd (arpc_gpgdir_follow alloc g st w h))"
proof -
  note k = assms [unfolded gpg_keeps_def]
  have r: "R u u" "R u v \<Longrightarrow> R v x \<Longrightarrow> R u x" for u v x using k by (auto dest: reflpD transpD)
  obtain s g1 w1 where d: "gpgdir_of alloc g st w h = (s, g1, w1)" by (metis prod_cases3)
  have "w1 = w \<or> w1 = snd (get_gpgdir g w h)"
    using d by (auto simp: gpgdir_of_def Let_def split: if_splits option.splits prod.splits)
  then have w1: "R w w1" using r(1) k by blast
  have e: "R w (snd (set_engine_info g (check_version g w1) dir))" for dir
    using w1 k r(2) by metis
  show ?thesis
    using e w1 r(1) by (auto simp: arpc_gpgdir_follow_def d Let_def case_prod_beta split: option.split)
qed

lemma path_style_leaves: "Q (sv_ext sv) \<Longrightarrow> leaves (arpc_set_path_style alloc rq rs sv) Q"
  unfolding arpc_set_path_style_def Let_def by (intro leaves_intros) simp_all

lemma cb_set_leaves:
  assumes keeps: "env_keeps R env"
  shows "leaves (arpc_cb_set alloc th (e_kinds env) rq rs sv) (R (sv_ext sv))"
proof -
  have k: "R w w'"
    if "\<not> kind_loop (-1) 0 (e_kinds env) which < 0"
      "snd (e_kinds env ! nat (kind_loop (-1) 0 (e_kinds env) which)) p on ctx w = (v, w')" for which p on ctx w v w'
  proof -
    have "nat (kind_loop (-1) 0 (e_kinds env) which) < length (e_kinds env)"
      using kind_loop_range [OF refl, of "-1" 0 "e_kinds env" which] that(1) by auto
    from keepsD(6) [OF keeps nth_mem [OF this] that(2)] show ?thesis .
  qed
  show ?thesis
    unfolding arpc_cb_set_def Let_def
    by (intro leaves_intros) (simp_all add: keepsD(1) [OF keeps] k)
qed

lemma header_loop_keeps:
  assumes keeps: "env_keeps R env"
  shows "header_loop alloc (e_archive env) w s es = Some (rc, w', s') \<Longrightarrow> R w w'"
proof (induction es arbitrary: w s)
  case Nil
  then show ?case using keepsD(1) [OF keeps] by simp
next
  case (Cons e es)
  obtain bs ok w1 where h: "write_header (e_archive env) w e = (bs, ok, w1)" by (metis prod_cases3)
  from keepsD(11) [OF keeps h] Cons h keepsD(2) [OF keeps] show ?case
    by (auto simp: bind_eq_Some_conv split: if_splits)
qed

lemma mtree_leaves:
  assumes keeps: "env_keeps R env"
  shows "leaves (arpc_mtree_get alloc tp (e_archive env) rq rs sv) (R (sv_ext sv))"
proof -
  note t = keepsD(2) [OF keeps]
  let ?w = "sv_ext sv"
  have s: "mtree_open (e_archive env) w p = (inp, w') \<Longrightarrow> R ?w w \<Longrightarrow> R ?w w'" 
    "write_new (e_archive env) w = (b, w') \<Longrightarrow> R ?w w \<Longrightarrow> R ?w w'"
    "write_open (e_archive env) w = (b, w') \<Longrightarrow> R ?w w \<Longrightarrow> R ?w w'"
    "header_loop alloc (e_archive env) w s es = Some (rc, w', s') \<Longrightarrow> R ?w w \<Longrightarrow> R ?w w'"
    "write_close (e_archive env) w = (bs, w') \<Longrightarrow> R ?w w \<Longrightarrow> R ?w w'"
    "R ?w w \<Longrightarrow> R ?w (write_free (e_archive env) w)" "R ?w w \<Longrightarrow> R ?w (mtree_close (e_archive env) w p)"
    for w w' p inp b s s' es rc bs
    using t keepsD(7-10,12,13) [OF keeps] header_loop_keeps [OF keeps] by meson+
  have z: "R ?w ?w" by (rule keepsD(1) [OF keeps])
  show ?thesis
    unfolding arpc_mtree_get_def Let_def
    by (intro leaves_intros) (simp_all add: z, (rule z | erule s(1-5) | rule s(6,7))+)
qed

lemma handle_parsed_keeps:
  assumes keeps: "env_keeps R env" and run: "arpc_handle_parsed alloc env d sv = Some (out, sv')"
  shows "R (sv_ext sv) (sv_ext sv')"
proof -
  have m: "leaves (fn rq rs s) (R (sv_ext s))" if found: "find_method alloc env meth = Some fn" for meth fn rq rs s
  proof -
    consider "(meth, fn) \<in> set (builtins alloc env)" | x where "x \<in> set (e_methods env)" "snd x = fn"
      using found bsearch_in [of "length (e_methods env)" "e_methods env" meth 0]
      by (cases "find (\<lambda>k. fst k = meth) (builtins alloc env)") (auto simp: find_method_def find_Some_iff)
    then show ?thesis
    proof cases
      case 1
      then show ?thesis
        using path_style_leaves [of "R (sv_ext s)" s] keepsD(1) [OF keeps] cb_set_leaves [OF keeps] mtree_leaves [OF keeps]
        by (auto simp: builtins_def)
    next
      case 2
      then show ?thesis using keepsD(14) [OF keeps] unfolding leaves_def by blast
    qed
  qed
  have f: "R (sv_ext sv) (sv_ext (follow_gpg alloc env sv h))" for h
    using follow_keeps [where R = R and g = "e_gpg env"] keeps by (simp add: follow_gpg_def case_prod_beta env_keeps_def)
  have "R (sv_ext sv) (sv_ext s)"
    if found: "find_method alloc env meth = Some fn" "run_method alloc env rid rq fn sv = Some (out', s)" for meth fn rid rq out' s
  proof -
    obtain h rc rq1 rs where "fn rq arpc_res_zero (follow_gpg alloc env sv h) = Some (rc, rq1, rs, s)"
      using found(2) by (auto simp: run_method_def bind_eq_Some_conv)
    then have "R (sv_ext (follow_gpg alloc env sv h)) (sv_ext s)" using m [OF found(1)] unfolding leaves_def by blast
    then show ?thesis by (rule keepsD(2) [OF keeps f])
  qed
  with run keepsD(1) [OF keeps] show ?thesis
    by (auto simp: arpc_handle_parsed_def Let_def split: option.splits if_splits)
qed

lemma handle_frame_keeps:
  assumes "env_keeps R env" and "arpc_handle_frame alloc env req sv = Some (out, sv')"
  shows "R (sv_ext sv) (sv_ext sv')"
  using assms(2) handle_parsed_keeps [OF assms(1)] keepsD(1) [OF assms(1)]
  by (auto simp: arpc_handle_frame_def split: option.splits)

section \<open>The loops end\<close>

text \<open>
  What a client sends on a connection is finite: \<open>pend\<close> bounds the bytes still to come, a read
  takes from them and a write does not add to them.
\<close>

definition input_bounded :: "'w win_io \<Rightarrow> ('w \<Rightarrow> nat) \<Rightarrow> bool" where
  "input_bounded io pend \<longleftrightarrow>
     (\<forall>w n. pend (snd (read_some io True w n)) + length (fst (read_some io True w n)) \<le> pend w) \<and>
     (\<forall>w p. pend (snd (write_some io True w p)) \<le> pend w)"

lemma write_exact_bounded:
  assumes "input_bounded io pend"
  shows "pend (snd (write_exact io True w p)) \<le> pend w"
proof (induction "length p" arbitrary: w p rule: less_induct)
  case less
  obtain did w1 where s: "write_some io True w p = (did, w1)" by fastforce
  then have "pend w1 \<le> pend w" using assms unfolding input_bounded_def by (metis snd_conv)
  moreover have "pend (snd (write_exact io True w1 (drop did p))) \<le> pend w1" if "p \<noteq> []" "did \<noteq> 0"
    by (rule less.hyps) (use that in \<open>cases p; simp\<close>)
  ultimately show ?case
    using s by (subst write_exact.simps) (auto intro: le_trans)
qed

lemma read_exact_bounded:
  assumes "input_bounded io pend" and "read_exact io True w p n = (r, w')"
  shows "pend w' \<le> pend w \<and> (\<forall>b. r = Some b \<longrightarrow> pend w' + n \<le> pend w)"
  using assms(2)
proof (induction n arbitrary: w p rule: less_induct)
  case (less n)
  obtain got w1 where s: "read_some io True w n = (got, w1)" by fastforce
  then have b: "pend w1 + length got \<le> pend w" using assms(1) unfolding input_bounded_def by (metis fst_conv snd_conv)
  show ?case
  proof (cases "n = 0 \<or> got = []")
    case True
    then show ?thesis using less.prems s b by (subst (asm) read_exact.simps) (auto split: if_splits)
  next
    case False
    then have "read_exact io True w1 (p @ got) (n - length got) = (r, w')"
      using less.prems s by (subst (asm) read_exact.simps) simp
    moreover have "n - length got < n" using False by (cases got) auto
    ultimately have "pend w' \<le> pend w1 \<and> (\<forall>b. r = Some b \<longrightarrow> pend w' + (n - length got) \<le> pend w1)"
      using less.IH by blast
    with b show ?thesis by auto
  qed
qed

lemma recv_bounded:
  assumes "input_bounded io pend" and "recv_framed alloc io sv = (f, sv1)"
  shows "pend (sv_ext sv1) \<le> pend (sv_ext sv)" and "f \<noteq> None \<Longrightarrow> pend (sv_ext sv1) < pend (sv_ext sv)"
    and "sv1 = sv\<lparr>sv_ext := sv_ext sv1\<rparr>"
proof -
  obtain h w1 where r: "read_exact io True (sv_ext sv) [] 4 = (h, w1)" by fastforce
  note b = read_exact_bounded [OF assms(1) r]
  have c: "pend w2 \<le> pend w1" if "read_exact io True w1 [] n = (r, w2)" for n r w2
    using read_exact_bounded [OF assms(1) that] by blast
  show "pend (sv_ext sv1) \<le> pend (sv_ext sv)" "f \<noteq> None \<Longrightarrow> pend (sv_ext sv1) < pend (sv_ext sv)"
      "sv1 = sv\<lparr>sv_ext := sv_ext sv1\<rparr>"
    using assms(2) b
    by (auto simp: recv_framed_def arpc_recv_frame_def r Let_def split: option.splits if_splits prod.splits
        dest!: c)
qed

lemma send_bounded:
  assumes "input_bounded io pend" and "send_framed io sv buf = (ok, sv1)"
  shows "pend (sv_ext sv1) \<le> pend (sv_ext sv)" and "sv1 = sv\<lparr>sv_ext := sv_ext sv1\<rparr>"
proof -
  obtain ok1 w1 where a: "write_exact io True (sv_ext sv) (frame_header (length buf)) = (ok1, w1)" by fastforce
  let ?b = "take (length buf mod 2 ^ 32) buf"
  obtain ok2 w2 where b: "write_exact io True w1 ?b = (ok2, w2)" by fastforce
  have "pend w1 \<le> pend (sv_ext sv)" "pend w2 \<le> pend w1"
    using write_exact_bounded [OF assms(1), of "sv_ext sv" "frame_header (length buf)"]
      write_exact_bounded [OF assms(1), of w1 ?b] a b by simp_all
  with assms(2) a b show "pend (sv_ext sv1) \<le> pend (sv_ext sv)" "sv1 = sv\<lparr>sv_ext := sv_ext sv1\<rparr>"
    by (auto simp: send_framed_def arpc_send_frame_def split: if_splits)
qed

text \<open>What the loops need of the methods, in every state the table is intact in.\<close>

definition server_ok :: "('w \<Rightarrow> 'w \<Rightarrow> bool) \<Rightarrow> ('w, 'e) server_env \<Rightarrow> bool" where
  "server_ok R env \<longleftrightarrow> env_keeps R env \<and> (\<forall>sv. hinv (sv_tab sv) \<longrightarrow> methods_ok env sv)"

definition rid_of :: "string \<Rightarrow> int" where
  "rid_of req =
     (case aj_parse (\<lambda>_. True) req of None \<Rightarrow> 0 | Some d \<Rightarrow> aj_i64 d (aj_member d 0 ''id'') 0)"

lemma parsed_handled:
  assumes "server_ok R env" and "hinv (sv_tab sv)" and "aj_parse (\<lambda>_. True) req = Some d"
  shows "\<exists>oc sv'. arpc_handle_parsed (\<lambda>_. True) env d sv = Some (Some (reply_text (rid_of req) oc), sv') \<and>
     hinv (sv_tab sv') \<and> R (sv_ext sv) (sv_ext sv')"
proof -
  have ok: "env_keeps R env" "methods_ok env sv" using assms(1,2) by (simp_all add: server_ok_def)
  have r: "rid_of req = aj_i64 d (aj_member d 0 ''id'') 0" using assms(3) by (simp add: rid_of_def)
  obtain oc sv' where h: "arpc_handle_parsed (\<lambda>_. True) env d sv = Some (Some (reply_text (rid_of req) oc), sv')"
      "hinv (sv_tab sv')"
    using parsed_replies [OF assms(2) aj_parse_ok [OF assms(3)] ok(2), folded r] by (elim exE conjE) (rule that)
  with handle_parsed_keeps [OF ok(1) h(1)] show ?thesis by blast
qed

lemma frame_handled:
  assumes "server_ok R env" and "hinv (sv_tab sv)"
  shows "\<exists>oc sv'. arpc_handle_frame (\<lambda>_. True) env req sv = Some (Some (reply_text (rid_of req) oc), sv') \<and>
     hinv (sv_tab sv') \<and> R (sv_ext sv) (sv_ext sv')"
proof (cases "aj_parse (\<lambda>_. True) req")
  case None
  have "reply_error (\<lambda>_. True) 0 ARPC_E_PARSE ''malformed JSON'' = Some (reply_text 0 (Error ARPC_E_PARSE ''malformed JSON''))"
    by (rule error_reply) (simp_all add: sizeof_msg_def)
  with None assms keepsD(1) [of R env] show ?thesis
    by (auto simp: arpc_handle_frame_def rid_of_def server_ok_def)
next
  case (Some d)
  with parsed_handled [OF assms Some] show ?thesis by (simp add: arpc_handle_frame_def)
qed

lemma serve_loop_ends:
  assumes io: "input_bounded io pend" and ok: "server_ok (\<lambda>w w'. pend w' \<le> pend w) env"
  shows "hinv (sv_tab sv) \<Longrightarrow> \<exists>sv'. serve_loop (\<lambda>_. True) io env sv = Some sv' \<and> hinv (sv_tab sv')"
proof (induction "pend (sv_ext sv)" arbitrary: sv rule: less_induct)
  case less
  obtain f sv1 where r: "recv_framed (\<lambda>_. True) io sv = (f, sv1)" by fastforce
  note b = recv_bounded [OF io r]
  have i1: "hinv (sv_tab sv1)" by (subst b(3)) (simp add: less.prems)
  show ?case
  proof (cases f)
    case None
    with r i1 show ?thesis by (subst serve_loop.simps) simp
  next
    case (Some req)
    obtain oc sv2 where h: "arpc_handle_frame (\<lambda>_. True) env (cstr req) sv1 = Some (Some (reply_text (rid_of (cstr req)) oc), sv2)"
        "hinv (sv_tab sv2)" "pend (sv_ext sv2) \<le> pend (sv_ext sv1)"
      using frame_handled [OF ok i1] by blast
    obtain sent sv3 where s: "send_framed io sv2 (reply_text (rid_of (cstr req)) oc) = (sent, sv3)" by fastforce
    note c = send_bounded [OF io s]
    have i3: "hinv (sv_tab sv3)" by (subst c(2)) (simp add: h(2))
    have "pend (sv_ext sv3) < pend (sv_ext sv)" using b(2) Some c(1) h(3) by simp
    from less.hyps [OF this i3] show ?thesis
      using r Some h s i3 by (subst serve_loop.simps) auto
  qed
qed

lemma exchange_loop_ends:
  assumes io: "input_bounded io pend" and ok: "server_ok (\<lambda>w w'. pend w' \<le> pend w) env"
  shows "hinv (sv_tab sv) \<Longrightarrow> \<exists>a sv'. exchange_loop (\<lambda>_. True) io env sv = Some (a, sv') \<and> hinv (sv_tab sv')"
proof (induction "pend (sv_ext sv)" arbitrary: sv rule: less_induct)
  case less
  obtain f sv1 where r: "recv_framed (\<lambda>_. True) io sv = (f, sv1)" by fastforce
  note b = recv_bounded [OF io r]
  have i1: "hinv (sv_tab sv1)" by (subst b(3)) (simp add: less.prems)
  show ?case
  proof (cases "f = None \<or> aj_parse (\<lambda>_. True) (cstr (the f)) = None \<or>
      aj_member (the (aj_parse (\<lambda>_. True) (cstr (the f)))) 0 ''method'' < 0")
    case True
    with r i1 show ?thesis by (subst exchange_loop.simps) (auto split: option.split)
  next
    case False
    then obtain req d where f: "f = Some req" "aj_parse (\<lambda>_. True) (cstr req) = Some d" "\<not> aj_member d 0 ''method'' < 0"
      by auto
    let ?r = "reply_text (rid_of (cstr req))"
    obtain oc sv2 where h: "arpc_handle_parsed (\<lambda>_. True) env d sv1 = Some (Some (?r oc), sv2)"
        "hinv (sv_tab sv2)" "pend (sv_ext sv2) \<le> pend (sv_ext sv1)"
      using parsed_handled [OF ok i1 f(2)] by blast
    obtain sent sv3 where s: "send_framed io sv2 (?r oc) = (sent, sv3)" by fastforce
    note c = send_bounded [OF io s]
    have i3: "hinv (sv_tab sv3)" by (subst c(2)) (simp add: h(2))
    have "pend (sv_ext sv3) < pend (sv_ext sv)" using b(2) f(1) c(1) h(3) by simp
    from less.hyps [OF this i3] show ?thesis
      using r f h s i3 by (subst exchange_loop.simps) auto
  qed
qed

section \<open>What crosses the pipe\<close>

text \<open>
  A pipe with its two directions: \<open>inp\<close> is what the client has sent and the server not yet read,
  \<open>outp\<close> what the server has sent. When nothing is left the client is gone, and a read fails.
\<close>

definition duplex :: "'w win_io \<Rightarrow> ('w \<Rightarrow> string) \<Rightarrow> ('w \<Rightarrow> string) \<Rightarrow> bool" where
  "duplex io inp outp \<longleftrightarrow>
     write_ok io True outp inp \<and> read_ok io True inp outp \<and>
     (\<forall>w n. inp w = [] \<longrightarrow> (\<exists>w'. read_some io True w n = ([], w') \<and> inp w' = [] \<and> outp w' = outp w))"

definition pipe_alone :: "('w \<Rightarrow> string) \<Rightarrow> ('w \<Rightarrow> string) \<Rightarrow> 'w \<Rightarrow> 'w \<Rightarrow> bool" where
  "pipe_alone inp outp w w' \<longleftrightarrow> inp w' = inp w \<and> outp w' = outp w"

lemma send_framed_text:
  assumes "duplex io inp outp"
  shows "\<exists>w'. send_framed io sv b = (True, sv\<lparr>sv_ext := w'\<rparr>) \<and> outp w' = outp (sv_ext sv) @ sent_text b \<and>
    inp w' = inp (sv_ext sv)"
  using send_frame_text [of io True outp inp "sv_ext sv" b] assms
  by (auto simp: duplex_def send_framed_def)

lemma recv_framed_text:
  assumes "duplex io inp outp" and "frame_ok b" and "inp (sv_ext sv) = frame_header (length b) @ b @ rest"
  shows "\<exists>w'. recv_framed (\<lambda>_. True) io sv = (Some b, sv\<lparr>sv_ext := w'\<rparr>) \<and> inp w' = rest \<and> outp w' = outp (sv_ext sv)"
  using recv_frame_ok [of io True inp outp b "\<lambda>_. True" "sv_ext sv" rest] assms
  by (auto simp: duplex_def recv_framed_def)

lemma recv_framed_end:
  assumes "duplex io inp outp" and "inp (sv_ext sv) = []"
  shows "\<exists>w'. recv_framed alloc io sv = (None, sv\<lparr>sv_ext := w'\<rparr>) \<and> inp w' = [] \<and> outp w' = outp (sv_ext sv)"
proof -
  obtain w' where "read_some io True (sv_ext sv) 4 = ([], w')" "inp w' = []" "outp w' = outp (sv_ext sv)"
    using assms by (auto simp: duplex_def)
  then show ?thesis by (auto simp: recv_framed_def arpc_recv_frame_def read_exact.simps)
qed

text \<open>The replies to requests \<open>rs\<close> with outcomes \<open>ocs\<close>, as sent.\<close>

definition replies_text :: "string list \<Rightarrow> outcome list \<Rightarrow> string" where
  "replies_text rs ocs = concat (map2 (\<lambda>r oc. sent_text (reply_text (rid_of (cstr r)) oc)) rs ocs)"

lemma replies_text_simps [simp]:
  "replies_text [] ocs = []"
  "replies_text (r # rs) (oc # ocs) = sent_text (reply_text (rid_of (cstr r)) oc) @ replies_text rs ocs"
  by (simp_all add: replies_text_def)

lemma frames_text_simps [simp]:
  "frames_text [] = []" "frames_text (b # bs) = frame_header (length b) @ b @ frames_text bs"
  by (simp_all add: frames_text_def)

lemma serve_loop_exact:
  assumes io: "duplex io inp outp" and ok: "server_ok (pipe_alone inp outp) env"
  shows "hinv (sv_tab sv) \<Longrightarrow> \<forall>r \<in> set rs. frame_ok r \<Longrightarrow> inp (sv_ext sv) = frames_text rs \<Longrightarrow>
    \<exists>ocs sv'. serve_loop (\<lambda>_. True) io env sv = Some sv' \<and> hinv (sv_tab sv') \<and> length ocs = length rs \<and>
      outp (sv_ext sv') = outp (sv_ext sv) @ replies_text rs ocs"
proof (induction rs arbitrary: sv)
  case Nil
  then obtain w' where "recv_framed (\<lambda>_. True) io sv = (None, sv\<lparr>sv_ext := w'\<rparr>)" "outp w' = outp (sv_ext sv)"
    using recv_framed_end [OF io, of sv "\<lambda>_. True"] by auto
  with Nil.prems(1) show ?case by (subst serve_loop.simps) simp
next
  case (Cons r rs)
  let ?t = "reply_text (rid_of (cstr r))"
  obtain w1 where r: "recv_framed (\<lambda>_. True) io sv = (Some r, sv\<lparr>sv_ext := w1\<rparr>)" "inp w1 = frames_text rs"
      "outp w1 = outp (sv_ext sv)"
    using recv_framed_text [OF io, of r sv "frames_text rs"] Cons.prems(2,3) by auto
  obtain oc sv2 where h: "arpc_handle_frame (\<lambda>_. True) env (cstr r) (sv\<lparr>sv_ext := w1\<rparr>) = Some (Some (?t oc), sv2)"
      "hinv (sv_tab sv2)" "pipe_alone inp outp w1 (sv_ext sv2)"
    using frame_handled [OF ok, of "sv\<lparr>sv_ext := w1\<rparr>" "cstr r"] Cons.prems(1) by auto
  obtain w3 where s: "send_framed io sv2 (?t oc) = (True, sv2\<lparr>sv_ext := w3\<rparr>)"
      "outp w3 = outp (sv_ext sv2) @ sent_text (?t oc)" "inp w3 = inp (sv_ext sv2)"
    using send_framed_text [OF io, of sv2 "?t oc"] by blast
  obtain ocs sv' where "serve_loop (\<lambda>_. True) io env (sv2\<lparr>sv_ext := w3\<rparr>) = Some sv'" "hinv (sv_tab sv')"
      "length ocs = length rs" "outp (sv_ext sv') = outp w3 @ replies_text rs ocs"
    using Cons.IH [of "sv2\<lparr>sv_ext := w3\<rparr>"] Cons.prems(2) h(2,3) r(2) s(3) by (auto simp: pipe_alone_def)
  with r h s show ?case
    by (subst serve_loop.simps) (auto simp: pipe_alone_def intro!: exI [of _ "oc # ocs"])
qed

text \<open>A request carries a method; an answer does not.\<close>

definition is_request :: "string \<Rightarrow> bool" where
  "is_request f \<longleftrightarrow>
     (case aj_parse (\<lambda>_. True) (cstr f) of None \<Rightarrow> False | Some d \<Rightarrow> \<not> aj_member d 0 ''method'' < 0)"

lemma request_object:
  assumes "readable (JObj kvs)"
  shows "is_request (json_text (JObj kvs)) \<longleftrightarrow> map_of kvs ''method'' \<noteq> None"
proof -
  have c: "cstr (json_text (JObj kvs)) = json_text (JObj kvs)"
    using assms by (intro cstr_of_cstr json_text_cstr) (simp add: readable_def)
  obtain d where d: "aj_parse (\<lambda>_. True) (json_text (JObj kvs)) = Some d" "doc_ok d" "repr d 0 (JObj kvs)"
    using readable_parses [OF assms, of "\<lambda>_. True"] by blast
  have "aj_member d 0 ''method'' < 0 \<longleftrightarrow> map_of kvs ''method'' = None"
    using member_of_object [OF d(2,3), of "''method''"] by (cases "map_of kvs ''method''") auto
  with c d(1) show ?thesis by (simp add: is_request_def del: json_text.simps)
qed

lemma exchange_loop_exact:
  assumes io: "duplex io inp outp" and ok: "server_ok (pipe_alone inp outp) env"
    and ans: "frame_ok ans" "\<not> is_request ans"
  shows "hinv (sv_tab sv) \<Longrightarrow> \<forall>r \<in> set rs. frame_ok r \<and> is_request r \<Longrightarrow>
    inp (sv_ext sv) = frames_text (rs @ [ans]) @ rest \<Longrightarrow>
    \<exists>ocs sv'. exchange_loop (\<lambda>_. True) io env sv = Some (Some ans, sv') \<and> hinv (sv_tab sv') \<and>
      length ocs = length rs \<and> outp (sv_ext sv') = outp (sv_ext sv) @ replies_text rs ocs \<and> inp (sv_ext sv') = rest"
proof (induction rs arbitrary: sv)
  case Nil
  then obtain w' where "recv_framed (\<lambda>_. True) io sv = (Some ans, sv\<lparr>sv_ext := w'\<rparr>)" "outp w' = outp (sv_ext sv)" "inp w' = rest"
    using recv_framed_text [OF io ans(1), of sv rest] by auto
  with Nil.prems(1) ans(2) show ?case
    by (subst exchange_loop.simps) (auto simp: is_request_def split: option.splits)
next
  case (Cons r rs)
  let ?t = "reply_text (rid_of (cstr r))"
  obtain d where d: "aj_parse (\<lambda>_. True) (cstr r) = Some d" "\<not> aj_member d 0 ''method'' < 0"
    using Cons.prems(2) by (auto simp: is_request_def split: option.splits)
  obtain w1 where r: "recv_framed (\<lambda>_. True) io sv = (Some r, sv\<lparr>sv_ext := w1\<rparr>)" "inp w1 = frames_text (rs @ [ans]) @ rest"
      "outp w1 = outp (sv_ext sv)"
    using recv_framed_text [OF io, of r sv "frames_text (rs @ [ans]) @ rest"] Cons.prems(2,3) by auto
  obtain oc sv2 where h: "arpc_handle_parsed (\<lambda>_. True) env d (sv\<lparr>sv_ext := w1\<rparr>) = Some (Some (?t oc), sv2)"
      "hinv (sv_tab sv2)" "pipe_alone inp outp w1 (sv_ext sv2)"
    using parsed_handled [OF ok _ d(1), of "sv\<lparr>sv_ext := w1\<rparr>"] Cons.prems(1) by auto
  obtain w3 where s: "send_framed io sv2 (?t oc) = (True, sv2\<lparr>sv_ext := w3\<rparr>)"
      "outp w3 = outp (sv_ext sv2) @ sent_text (?t oc)" "inp w3 = inp (sv_ext sv2)"
    using send_framed_text [OF io, of sv2 "?t oc"] by blast
  obtain ocs sv' where "exchange_loop (\<lambda>_. True) io env (sv2\<lparr>sv_ext := w3\<rparr>) = Some (Some ans, sv')" "hinv (sv_tab sv')"
      "length ocs = length rs" "outp (sv_ext sv') = outp w3 @ replies_text rs ocs" "inp (sv_ext sv') = rest"
    using Cons.IH [of "sv2\<lparr>sv_ext := w3\<rparr>"] Cons.prems(2) h(2,3) r(2) s(3) by (auto simp: pipe_alone_def)
  with r h s d show ?case
    by (subst exchange_loop.simps) (auto simp: pipe_alone_def intro!: exI [of _ "oc # ocs"])
qed

end
