(* ===== verification/Main_Loop.thy ===== *)
theory Main_Loop
  imports Serve
begin

text \<open>
  The server process, the rest of \<^verbatim>\<open>src/server/main.c\<close>: its options, the root and the access
  control of its pipe, the loop that accepts connections, and \<^verbatim>\<open>--stop\<close>. Windows is a parameter
  acting on the world; what goes to the log or to standard error is left out.
\<close>

datatype 'pipe open_result = Opened 'pipe | Not_Found | Busy | Cannot

text \<open>The outcome of \<^verbatim>\<open>ConnectNamedPipe\<close>: at once, pending, already connected, or failed.\<close>

datatype connect_result = Connected | Pending | Already | Conn_Failed

text \<open>
  \<open>module_file\<close> is the path of the executable, empty if Windows does not tell. A wait says
  whether what was waited for happened in time.
\<close>

record ('w, 'proc, 'tok, 'pipe) main_env =
  m_win :: "('proc, 'tok, 'pipe) win_id"
  m_io :: "'pipe \<Rightarrow> 'w win_io"
  module_file :: string
  create_event :: "'w \<Rightarrow> bool \<times> 'w"
  sddl_valid :: "string \<Rightarrow> bool"
  create_pipe :: "'w \<Rightarrow> string \<Rightarrow> string \<Rightarrow> 'pipe option \<times> 'w"
  connect_pipe :: "'w \<Rightarrow> 'pipe \<Rightarrow> connect_result \<times> 'w"
  wait_event :: "'w \<Rightarrow> nat \<Rightarrow> bool \<times> 'w"
  overlapped_result :: "'w \<Rightarrow> 'pipe \<Rightarrow> bool \<times> 'w"
  cancel_io :: "'w \<Rightarrow> 'pipe \<Rightarrow> 'w"
  flush_pipe :: "'w \<Rightarrow> 'pipe \<Rightarrow> 'w"
  disconnect_pipe :: "'w \<Rightarrow> 'pipe \<Rightarrow> 'w"
  close_pipe :: "'w \<Rightarrow> 'pipe \<Rightarrow> 'w"
  open_pipe :: "'w \<Rightarrow> string \<Rightarrow> 'pipe open_result \<times> 'w"
  open_for_wait :: "nat \<Rightarrow> 'proc option"
  wait_process :: "'w \<Rightarrow> 'proc \<Rightarrow> nat \<Rightarrow> bool \<times> 'w"
  sleep :: "'w \<Rightarrow> nat \<Rightarrow> 'w"

section \<open>Root and access control\<close>

definition MAX_PATH :: nat where
  "MAX_PATH = 260"

definition derive_root :: "('w, 'proc, 'tok, 'pipe) main_env \<Rightarrow> nat \<Rightarrow> string option" where
  "derive_root env outsz =
     (let exe = module_file env in
      if exe = [] \<or> length exe \<ge> MAX_PATH then None
      else case arpc_strip_dirs exe 3 of
        (False, _) \<Rightarrow> None
      | (True, root) \<Rightarrow> if length root + 1 > outsz then None else Some root)"

text \<open>The security descriptor as text, cut to its buffer of 512 bytes.\<close>

definition owner_only_sa :: "('w, 'proc, 'tok, 'pipe) main_env \<Rightarrow> arpc_identity \<Rightarrow> string option" where
  "owner_only_sa env me =
     (let sddl = take 511 (''D:(A;;GA;;;'' @ sid me @ '')S:(ML;;NW;;;S-1-16-'' @
            int_text (uint (integrity me)) @ '')'')
      in if sddl_valid env sddl then Some sddl else None)"

section \<open>Stopping the servers\<close>

definition stop_request :: string where
  "stop_request = ''{\"id\":1,\"method\":\"arpc.shutdown\",\"params\":[]}''"

text \<open>Times are in milliseconds; \<open>waited\<close> advances by 25 with every round.\<close>

function stop_loop ::
    "allocator \<Rightarrow> ('w, 'proc, 'tok, 'pipe) main_env \<Rightarrow> string \<Rightarrow> nat \<Rightarrow> arpc_identity \<Rightarrow> nat \<Rightarrow> 'w \<Rightarrow> bool \<times> 'w" where
  "stop_loop alloc env name timeout_ms me waited w =
     (if \<not> waited < timeout_ms then (False, w)
      else case open_pipe env w name of
        (Opened p, w1) \<Rightarrow>
          if \<not> arpc_peer_is (m_win env) p False me then (False, close_pipe env w1 p)
          else
            let proc = Option.bind (pipe_server_pid (m_win env) p) (open_for_wait env);
                (sent, w2) = arpc_send_frame (m_io env p) True w1 stop_request;
                w3 = (if sent then snd (snd (arpc_recv_frame alloc (m_io env p) True w2)) else w2);
                w4 = close_pipe env w3 p
            in if \<not> sent then (False, w4)
               else (case proc of
                   Some pr \<Rightarrow>
                     (let (gone, w5) = wait_process env w4 pr (timeout_ms - waited)
                      in if \<not> gone then (False, w5) else stop_loop alloc env name timeout_ms me (waited + 25) w5)
                 | None \<Rightarrow> stop_loop alloc env name timeout_ms me (waited + 25) (sleep env w4 100))
      | (Not_Found, w1) \<Rightarrow> (True, w1)
      | (Busy, w1) \<Rightarrow> stop_loop alloc env name timeout_ms me (waited + 25) (sleep env w1 25)
      | (Cannot, w1) \<Rightarrow> (False, w1))"
  by pat_completeness auto
termination
  by (relation "measure (\<lambda>(alloc, env, name, timeout_ms, me, waited, w). timeout_ms - waited)") auto

declare stop_loop.simps [simp del]

definition stop_running_servers ::
    "allocator \<Rightarrow> ('w, 'proc, 'tok, 'pipe) main_env \<Rightarrow> string \<Rightarrow> nat \<Rightarrow> arpc_identity \<Rightarrow> 'w \<Rightarrow> bool \<times> 'w" where
  "stop_running_servers alloc env name timeout_ms me w = stop_loop alloc env name timeout_ms me 0 w"

section \<open>Accepting connections\<close>

text \<open>What one round of the loop comes to: another round, the way out, or \<^verbatim>\<open>return 1\<close>.\<close>

datatype 'w step = Again "'w server" | Leave "'w server" | Give_Up "'w server"

text \<open>A client is connected: its identity is checked, and it is served.\<close>

definition accept_client ::
    "allocator \<Rightarrow> ('w, 'proc, 'tok, 'pipe) main_env \<Rightarrow> ('w, 'e) server_env \<Rightarrow> arpc_identity \<Rightarrow> 'pipe \<Rightarrow>
     'w server \<Rightarrow> 'w step option" where
  "accept_client alloc env senv me pipe sv =
     (if \<not> arpc_peer_is (m_win env) pipe True me
      then Some (Again (sv\<lparr>sv_ext := close_pipe env (disconnect_pipe env (sv_ext sv) pipe) pipe\<rparr>))
      else do {
        sv1 \<leftarrow> serve_connection alloc (m_io env pipe) senv sv;
        let w1 = flush_pipe env (sv_ext sv1) pipe;
        let sv2 = sv1\<lparr>sv_ext := close_pipe env (disconnect_pipe env w1 pipe) pipe\<rparr>;
        Some (if sv_shutdown sv2 then Leave sv2 else Again sv2) })"

definition accept_once ::
    "allocator \<Rightarrow> ('w, 'proc, 'tok, 'pipe) main_env \<Rightarrow> ('w, 'e) server_env \<Rightarrow> string \<Rightarrow> string \<Rightarrow> nat \<Rightarrow> arpc_identity \<Rightarrow>
     'w server \<Rightarrow> 'w step option" where
  "accept_once alloc env senv name sd idle me sv =
     (case create_pipe env (sv_ext sv) name sd of
        (None, w1) \<Rightarrow> Some (Give_Up (sv\<lparr>sv_ext := w1\<rparr>))
      | (Some pipe, w1) \<Rightarrow>
          (let (result, w2) = connect_pipe env w1 pipe in
           case result of
             Pending \<Rightarrow>
               (let (signalled, w3) = wait_event env w2 idle in
                if \<not> signalled
                then Some (Leave (sv\<lparr>sv_ext := close_pipe env (cancel_io env w3 pipe) pipe\<rparr>))
                else let (ok, w4) = overlapped_result env w3 pipe in
                  if \<not> ok then Some (Again (sv\<lparr>sv_ext := close_pipe env w4 pipe\<rparr>))
                  else accept_client alloc env senv me pipe (sv\<lparr>sv_ext := w4\<rparr>))
           | Conn_Failed \<Rightarrow> Some (Again (sv\<lparr>sv_ext := close_pipe env w2 pipe\<rparr>))
           | _ \<Rightarrow> accept_client alloc env senv me pipe (sv\<lparr>sv_ext := w2\<rparr>)))"

text \<open>The exit code and the last state; leaving releases what is still on file.\<close>

partial_function (option) accept_loop ::
    "allocator \<Rightarrow> ('w, 'proc, 'tok, 'pipe) main_env \<Rightarrow> ('w, 'e) server_env \<Rightarrow> string \<Rightarrow> string \<Rightarrow> nat \<Rightarrow> arpc_identity \<Rightarrow>
     'w server \<Rightarrow> (int \<times> 'w server) option" where
  "accept_loop alloc env senv name sd idle me sv =
     do {
       st \<leftarrow> accept_once alloc env senv name sd idle me sv;
       case st of
         Again sv1 \<Rightarrow> accept_loop alloc env senv name sd idle me sv1
       | Leave sv1 \<Rightarrow> Some (0, sv1\<lparr>sv_tab := arpc_handle_reset (sv_tab sv1)\<rparr>)
       | Give_Up sv1 \<Rightarrow> Some (1, sv1) }"

section \<open>Options\<close>

text \<open>\<^verbatim>\<open>atoi\<close>; outside the range of an \<^verbatim>\<open>int\<close> C leaves the value undefined.\<close>

fun atoi_digits :: "int \<Rightarrow> string \<Rightarrow> int" where
  "atoi_digits v [] = v"
| "atoi_digits v (c # s) =
     (if is_digit c then atoi_digits (10 * v + int (byte_of c - 48)) s else v)"

definition atoi :: "string \<Rightarrow> int" where
  "atoi s =
     (let t = dropWhile (\<lambda>c. c = CHR '' '' \<or> 9 \<le> byte_of c \<and> byte_of c \<le> 13) s in
      case t of
        [] \<Rightarrow> 0
      | c # u \<Rightarrow>
          if c = CHR ''-'' then - atoi_digits 0 u
          else if c = CHR ''+'' then atoi_digits 0 u else atoi_digits 0 t)"

record options =
  root_override :: "string option"
  idle_ms :: int
  stdio_mode :: bool
  stop_mode :: bool
  verbose :: bool

definition default_options :: options where
  "default_options = \<lparr>root_override = None, idle_ms = 30000, stdio_mode = False, stop_mode = False, verbose = False\<rparr>"

text \<open>Either the options, or an exit code and what is printed before it.\<close>

fun parse_args ::
    "('w, 'proc, 'tok, 'pipe) main_env \<Rightarrow> options \<Rightarrow> string list \<Rightarrow> (int \<times> string list) + options" where
  "parse_args env opt [] = Inr opt"
| "parse_args env opt (a # as) =
     (if a = ''--stdio'' then parse_args env (opt\<lparr>stdio_mode := True\<rparr>) as
      else if a = ''-v'' \<or> a = ''--verbose'' then parse_args env (opt\<lparr>verbose := True\<rparr>) as
      else if a = ''--root'' \<and> as \<noteq> [] then parse_args env (opt\<lparr>root_override := Some (hd as)\<rparr>) (tl as)
      else if a = ''--idle'' \<and> as \<noteq> [] then parse_args env (opt\<lparr>idle_ms := atoi (hd as) * 1000\<rparr>) (tl as)
      else if a = ''--stop'' then parse_args env (opt\<lparr>stop_mode := True\<rparr>) as
      else if a = ''--print-endpoint'' then
        (case derive_root env MAX_PATH of
           None \<Rightarrow> Inl (1, [])
         | Some root \<Rightarrow>
             (case arpc_pipe_name (m_win env) (Some root) (Some 256) of
                None \<Rightarrow> Inl (1, [])
              | Some name \<Rightarrow> Inl (0, [name])))
      else Inl (2, []))"

section \<open>The process\<close>

text \<open>
  From the arguments and standard input to the exit code, what was printed on standard output and
  the last state. \<^verbatim>\<open>(DWORD)idle_ms\<close> is the time modulo $2^{32}$.
\<close>

definition server_main ::
    "allocator \<Rightarrow> ('w, 'proc, 'tok, 'pipe) main_env \<Rightarrow> ('w, 'e) server_env \<Rightarrow> string list \<Rightarrow> string \<Rightarrow>
     'w server \<Rightarrow> (int \<times> string list \<times> 'w server) option" where
  "server_main alloc env senv args stdin sv =
     (case parse_args env default_options args of
        Inl (code, out) \<Rightarrow> Some (code, out, sv)
      | Inr opt \<Rightarrow>
          if stdio_mode opt
          then do { (out, sv1) \<leftarrow> selftest_stdio alloc senv stdin sv; Some (0, out, sv1) }
          else
            case (case root_override opt of
                    Some r \<Rightarrow> Some (take (MAX_PATH - 1) r)
                  | None \<Rightarrow> derive_root env MAX_PATH) of
              None \<Rightarrow> Some (1, [], sv)
            | Some root \<Rightarrow>
                (case arpc_process_identity (m_win env) None of
                   None \<Rightarrow> Some (1, [], sv)
                 | Some me \<Rightarrow>
                     (case arpc_pipe_name (m_win env) (Some root) (Some 256) of
                        None \<Rightarrow> Some (1, [], sv)
                      | Some name \<Rightarrow>
                          (let (ok, w1) = create_event env (sv_ext sv); sv1 = sv\<lparr>sv_ext := w1\<rparr> in
                           if \<not> ok then Some (1, [], sv1)
                           else if stop_mode opt
                           then (let (stopped, w2) = stop_running_servers alloc env name 5000 me w1
                                 in Some (if stopped then 0 else 1, [], sv1\<lparr>sv_ext := w2\<rparr>))
                           else case owner_only_sa env me of
                             None \<Rightarrow> Some (1, [], sv1)
                           | Some sd \<Rightarrow>
                               (let (ok2, w2) = create_event env w1; sv2 = sv1\<lparr>sv_ext := w2\<rparr> in
                                if \<not> ok2 then Some (1, [], sv2)
                                else do {
                                  (code, sv3) \<leftarrow> accept_loop alloc env senv name sd (nat (idle_ms opt mod 2 ^ 32)) me sv2;
                                  Some (code, [], sv3) })))))"

section \<open>Who is served, and when the process ends\<close>

fun step_state :: "'w step \<Rightarrow> 'w server" where
  "step_state (Again sv) = sv"
| "step_state (Leave sv) = sv"
| "step_state (Give_Up sv) = sv"

lemma refused_client_state:
  assumes "\<And>pipe w. create_pipe env (sv_ext sv) name sd = (Some pipe, w) \<Longrightarrow> \<not> arpc_peer_is (m_win env) pipe True me"
    and "accept_once alloc env senv name sd idle me sv = Some st"
  shows "\<exists>w. step_state st = sv\<lparr>sv_ext := w\<rparr>"
  using assms
  by (auto simp: accept_once_def accept_client_def Let_def split: option.splits prod.splits connect_result.splits if_splits)

text \<open>A client arrives at a pipe, at once or within the idle time.\<close>

definition arrives :: "('w, 'proc, 'tok, 'pipe) main_env \<Rightarrow> nat \<Rightarrow> 'w \<Rightarrow> 'pipe \<Rightarrow> 'w \<Rightarrow> bool" where
  "arrives env idle w pipe w' \<longleftrightarrow>
     (let (result, w1) = connect_pipe env w pipe in
      case result of
        Pending \<Rightarrow> (let (signalled, w2) = wait_event env w1 idle in signalled \<and> overlapped_result env w2 pipe = (True, w'))
      | Conn_Failed \<Rightarrow> False
      | _ \<Rightarrow> w' = w1)"

lemma accept_once_arrived:
  assumes "create_pipe env (sv_ext sv) name sd = (Some pipe, w)" and "arrives env idle w pipe w'"
  shows "accept_once alloc env senv name sd idle me sv = accept_client alloc env senv me pipe (sv\<lparr>sv_ext := w'\<rparr>)"
  using assms by (auto simp: accept_once_def arrives_def Let_def split: prod.splits connect_result.splits)

text \<open>The loop ends in the round that leaves, and only there with exit code 0.\<close>

lemma accept_loop_leaves:
  "accept_once alloc env senv name sd idle me sv = Some (Leave sv1) \<Longrightarrow>
     accept_loop alloc env senv name sd idle me sv = Some (0, sv1\<lparr>sv_tab := arpc_handle_reset (sv_tab sv1)\<rparr>)"
  by (subst accept_loop.simps) simp

lemma accept_loop_left:
  assumes "accept_loop alloc env senv name sd idle me sv = Some r"
  shows "fst r = 0 \<longrightarrow> (\<exists>sv1 sv2. accept_once alloc env senv name sd idle me sv1 = Some (Leave sv2) \<and>
    snd r = sv2\<lparr>sv_tab := arpc_handle_reset (sv_tab sv2)\<rparr>)"
proof (rule accept_loop.raw_induct [where P = "\<lambda>alloc env senv name sd idle me _ r. fst r = 0 \<longrightarrow>
    (\<exists>sv1 sv2. accept_once alloc env senv name sd idle me sv1 = Some (Leave sv2) \<and>
       snd r = sv2\<lparr>sv_tab := arpc_handle_reset (sv_tab sv2)\<rparr>)", OF _ assms])
  fix loop alloc env senv name sd idle me sv r
  assume IH: "\<And>alloc env senv name sd idle me sv r. loop alloc env senv name sd idle me sv = Some r \<Longrightarrow>
      fst r = 0 \<longrightarrow> (\<exists>sv1 sv2. accept_once alloc env senv name sd idle me sv1 = Some (Leave sv2) \<and>
        snd r = sv2\<lparr>sv_tab := arpc_handle_reset (sv_tab sv2)\<rparr>)"
    and run: "do { st \<leftarrow> accept_once alloc env senv name sd idle me sv;
        case st of Again sv1 \<Rightarrow> loop alloc env senv name sd idle me sv1
        | Leave sv1 \<Rightarrow> Some (0 :: int, sv1\<lparr>sv_tab := arpc_handle_reset (sv_tab sv1)\<rparr>)
        | Give_Up sv1 \<Rightarrow> Some (1, sv1) } = Some r"
  obtain st where st: "accept_once alloc env senv name sd idle me sv = Some st" using run by (auto simp: bind_eq_Some_conv)
  show "fst r = 0 \<longrightarrow> (\<exists>sv1 sv2. accept_once alloc env senv name sd idle me sv1 = Some (Leave sv2) \<and>
      snd r = sv2\<lparr>sv_tab := arpc_handle_reset (sv_tab sv2)\<rparr>)"
  proof (cases st)
    case (Again sv1)
    with st run IH show ?thesis by simp
  next
    case (Leave sv1)
    with st run have "r = (0, sv1\<lparr>sv_tab := arpc_handle_reset (sv_tab sv1)\<rparr>)" by simp
    with st Leave show ?thesis by auto
  qed (use st run in auto)
qed

lemma stop_loop_found_none:
  "stop_loop alloc env name timeout_ms me waited w = (True, w') \<Longrightarrow> \<exists>w0. open_pipe env w0 name = (Not_Found, w')"
proof (induction "timeout_ms - waited" arbitrary: waited w rule: less_induct)
  case less
  note IH = less.hyps [of "waited + 25"]
  obtain res w1 where o: "open_pipe env w name = (res, w1)" by fastforce
  show ?case
  proof (cases "waited < timeout_ms")
    case False
    with less.prems show ?thesis by (subst (asm) stop_loop.simps) simp
  next
    case True
    show ?thesis
    proof (cases res)
      case (Opened p)
      let ?proc = "Option.bind (pipe_server_pid (m_win env) p) (open_for_wait env)"
      obtain sent w2 where s: "arpc_send_frame (m_io env p) True w1 stop_request = (sent, w2)" by fastforce
      let ?w4 = "close_pipe env (snd (snd (arpc_recv_frame alloc (m_io env p) True w2))) p"
      have peer: "arpc_peer_is (m_win env) p False me"
        using less.prems True o s Opened by (subst (asm) stop_loop.simps) (simp split: if_splits)
      have "sent" using less.prems True o s Opened peer by (subst (asm) stop_loop.simps) (simp split: if_splits)
      note go = peer this
      show ?thesis
      proof (cases ?proc)
        case None
        with less.prems True o s Opened go have "stop_loop alloc env name timeout_ms me (waited + 25) (sleep env ?w4 100) = (True, w')"
          by (subst (asm) stop_loop.simps) simp
        with IH True show ?thesis by simp
      next
        case (Some pr)
        obtain gone w5 where g: "wait_process env ?w4 pr (timeout_ms - waited) = (gone, w5)" by fastforce
        with less.prems True o s Opened go Some have "gone \<and> stop_loop alloc env name timeout_ms me (waited + 25) w5 = (True, w')"
          by (subst (asm) stop_loop.simps) (simp split: if_splits)
        with IH [of w5] True show ?thesis by simp
      qed
    next
      case Not_Found
      with less.prems True o show ?thesis by (subst (asm) stop_loop.simps) auto
    next
      case Busy
      with less.prems True o have "stop_loop alloc env name timeout_ms me (waited + 25) (sleep env w1 25) = (True, w')"
        by (subst (asm) stop_loop.simps) simp
      with IH True show ?thesis by simp
    next
      case Cannot
      with less.prems True o show ?thesis by (subst (asm) stop_loop.simps) simp
    qed
  qed
qed

text \<open>What \<^verbatim>\<open>--stop\<close> sends is a request the dispatcher grants.\<close>

definition stop_json :: json where
  "stop_json = JObj [(''id'', JNum 1), (''method'', JStr ''arpc.shutdown''), (''params'', JArr [])]"

lemma stop_request_json: "stop_request = json_text stop_json"
  by (simp add: stop_request_def stop_json_def str_text_def esc_char_def int_text_def rev_digits.simps char_of_def bit_0)

lemma stop_granted:
  "arpc_handle_frame (\<lambda>_. True) env stop_request sv =
     Some (Some (reply_text 1 (Result [(ARPC_RET_KEY, JNum 0)])), sv\<lparr>sv_shutdown := True\<rparr>)"
proof -
  have v: "json_ok stop_json" "json_depth stop_json \<le> AJ_MAX_DEPTH" "length (json_text stop_json) \<le> 2 ^ 63"
    by (simp_all add: stop_json_def LLONG_MAX_def AJ_MAX_DEPTH_def str_text_def esc_char_def int_text_def rev_digits.simps)
  obtain d where d: "aj_parse (\<lambda>_. True) stop_request = Some d" "repr d 0 stop_json"
    using aj_parse_text [where alloc = "\<lambda>_. True", OF _ v] unfolding stop_request_json by blast
  note m = member_scalars [OF aj_parse_ok [OF d(1)] d(2) [unfolded stop_json_def], simplified]
  have "shutdown_reply (\<lambda>_. True) 1 = Some (reply_text 1 (Result [(ARPC_RET_KEY, JNum 0)]))"
    by (rule shutdown_text) (simp_all add: i64_range_def LLONG_MAX_def)
  then show ?thesis
    by (simp add: arpc_handle_frame_def d(1) arpc_handle_parsed_def m num_or_def str_or_def)
qed

lemma stop_frame_ok: "frame_ok stop_request" "cstr stop_request = stop_request"
  by (simp_all add: frame_ok_def stop_request_def ARPC_MAX_FRAME_def cstr_def)

text \<open>A connection that carries it ends the process.\<close>

lemma stop_leaves:
  assumes io: "duplex (m_io env pipe) inp outp" and peer: "arpc_peer_is (m_win env) pipe True me"
    and req: "inp (sv_ext sv) = frames_text [stop_request]"
  shows "\<exists>sv'. accept_client (\<lambda>_. True) env senv me pipe sv = Some (Leave sv') \<and> sv_shutdown sv' \<and> sv_tab sv' = sv_tab sv"
proof -
  let ?io = "m_io env pipe" and ?sv = "sv\<lparr>sv_conn := True, sv_win32 := False\<rparr>"
  let ?r = "reply_text 1 (Result [(ARPC_RET_KEY, JNum 0)])"
  obtain w1 where w1: "recv_framed (\<lambda>_. True) ?io ?sv = (Some stop_request, ?sv\<lparr>sv_ext := w1\<rparr>)" "inp w1 = []"
    using recv_framed_text [OF io stop_frame_ok(1), of ?sv "[]"] req by auto
  let ?sv2 = "?sv\<lparr>sv_ext := w1, sv_shutdown := True\<rparr>"
  obtain w3 where w3: "send_framed ?io ?sv2 ?r = (True, ?sv2\<lparr>sv_ext := w3\<rparr>)" "inp w3 = []"
    using send_framed_text [OF io, of ?sv2 ?r] w1(2) by auto
  obtain w4 where w4: "recv_framed (\<lambda>_. True) ?io (?sv2\<lparr>sv_ext := w3\<rparr>) = (None, ?sv2\<lparr>sv_ext := w4\<rparr>)"
    using recv_framed_end [OF io, of "?sv2\<lparr>sv_ext := w3\<rparr>" "\<lambda>_. True"] w3(2) by auto
  have last: "serve_loop (\<lambda>_. True) ?io senv (?sv2\<lparr>sv_ext := w3\<rparr>) = Some (?sv2\<lparr>sv_ext := w4\<rparr>)"
    using w4 by (subst serve_loop.simps) simp
  have "serve_loop (\<lambda>_. True) ?io senv ?sv = Some (?sv2\<lparr>sv_ext := w4\<rparr>)"
    using w1(1) w3(1) last stop_granted [of senv "?sv\<lparr>sv_ext := w1\<rparr>"] stop_frame_ok(2)
    by (subst serve_loop.simps) simp
  with peer show ?thesis by (simp add: accept_client_def serve_connection_def)
qed

end
