(* ===== verification/Client_Cache.thy ===== *)
theory Client_Cache
  imports Paths Handles
begin

text \<open>
  The client's caches, the middle of \<^verbatim>\<open>src/client/arpc_client.c\<close>: borrowed strings and lists by
  owner and getter, the static strings, and the groups of packages whose fields are fetched together.

  A pointer is a number; blocks are numbered in the order they are allocated and a number is never
  used again, so that a freed pointer stays recognisable. \<open>ca_text\<close> is what the strings in memory
  say. A value that is not a string belongs to a generated function, which is known here by a number;
  \<open>ca_released\<close> is the calls made to such functions, with their arguments.
\<close>

section \<open>Hash tables\<close>

text \<open>
  A \<^verbatim>\<open>uthash\<close> table is also a list of its items in the order they were added, which is how it is
  walked. What is a parameter is the search, which sees the keys, whether there is memory to add a
  key, and the size of an item's handle.
\<close>

record uthash =
  uh_find :: "string list \<Rightarrow> string \<Rightarrow> nat option"
  uh_room :: "string list \<Rightarrow> string \<Rightarrow> bool"
  uh_handle :: nat

text \<open>What is relied on: the search finds an item with the key if there is one.\<close>

definition uthash_ok :: "uthash \<Rightarrow> bool" where
  "uthash_ok u \<longleftrightarrow>
     (\<forall>ks k. case uh_find u ks k of None \<Rightarrow> k \<notin> set ks | Some i \<Rightarrow> i < length ks \<and> ks ! i = k)"

definition remove_at :: "nat \<Rightarrow> 'a list \<Rightarrow> 'a list" where
  "remove_at i xs = take i xs @ drop (Suc i) xs"

section \<open>State\<close>

datatype release = Free | Release nat

record owned =
  o_k :: string
  o_owner :: "64 word"
  o_value :: nat
  o_release :: "release option"
  o_is_str :: bool

text \<open>A column has one of the two arrays.\<close>

record column =
  col_field :: string
  col_str :: "nat list option"
  col_num :: "int list option"

record pkg_group =
  pg_addr :: nat
  pg_ids :: "(64 word) list"
  pg_cols :: "column list"

record pkg_slot =
  ps_id :: "64 word"
  ps_group :: nat
  ps_slot :: nat

record cache =
  ca_owned :: "owned list"
  ca_detached :: "owned list"
  ca_static :: "nat list"
  ca_groups :: "pkg_group list"
  ca_slots :: "pkg_slot list"
  ca_text :: "nat \<Rightarrow> string option"
  ca_next :: nat
  ca_released :: "(nat \<times> nat) list"

definition cache_init :: cache where
  "cache_init = \<lparr>ca_owned = [], ca_detached = [], ca_static = [], ca_groups = [], ca_slots = [],
     ca_text = Map.empty, ca_next = 1, ca_released = []\<rparr>"

definition free_text :: "nat \<Rightarrow> cache \<Rightarrow> cache" where
  "free_text p ca = ca\<lparr>ca_text := (ca_text ca)(p := None)\<rparr>"

text \<open>A copy of a string; the null pointer has the null pointer as its copy.\<close>

definition arpc_dup :: "allocator \<Rightarrow> string option \<Rightarrow> cache \<Rightarrow> nat \<times> cache" where
  "arpc_dup alloc so ca =
     (case Option.bind so (strdup alloc) of
        None \<Rightarrow> (0, ca)
      | Some t \<Rightarrow> (ca_next ca, ca\<lparr>ca_text := (ca_text ca)(ca_next ca \<mapsto> t), ca_next := ca_next ca + 1\<rparr>))"

section \<open>Borrowed values\<close>

text \<open>The bytes of an id in memory.\<close>

definition id_bytes :: "64 word \<Rightarrow> string" where
  "id_bytes hid = map (\<lambda>i. char_of (unat (drop_bit (8 * i) hid AND 0xFF))) [0..<8]"

definition key_bytes :: "64 word \<Rightarrow> string \<Rightarrow> string" where
  "key_bytes owner key = id_bytes owner @ cstr key"

definition make_key :: "allocator \<Rightarrow> 64 word \<Rightarrow> string \<Rightarrow> string option" where
  "make_key alloc owner key = (if alloc (8 + length (cstr key)) then Some (key_bytes owner key) else None)"

definition key_is :: "owned \<Rightarrow> string \<Rightarrow> bool" where
  "key_is o' key \<longleftrightarrow>
     (let n = length (cstr key) in length (o_k o') = 8 + n \<and> take n (drop 8 (o_k o')) = cstr key)"

definition key_names :: "owned \<Rightarrow> string \<Rightarrow> bool" where
  "key_names o' getter \<longleftrightarrow>
     (let n = length (cstr getter); k = drop 8 (o_k o')
      in length k \<ge> n \<and> take n k = cstr getter \<and> (length k = n \<or> k ! n = CHR '':''))"

definition release_owned :: "owned \<Rightarrow> cache \<Rightarrow> cache" where
  "release_owned o' ca =
     (case o_release o' of
        None \<Rightarrow> ca
      | Some Free \<Rightarrow> free_text (o_value o') ca
      | Some (Release f) \<Rightarrow> ca\<lparr>ca_released := ca_released ca @ [(f, o_value o')]\<rparr>)"

text \<open>The lookup key is built in 136 bytes on the stack, or on the heap if that is too short.\<close>

definition find_owned :: "uthash \<Rightarrow> allocator \<Rightarrow> 64 word \<Rightarrow> string \<Rightarrow> cache \<Rightarrow> nat option" where
  "find_owned u alloc owner key ca =
     (let n = length (cstr key) in
      if 8 + n > 8 + 128 \<and> \<not> alloc (8 + n) then None
      else uh_find u (map o_k (ca_owned ca)) (key_bytes owner key))"

definition sizeof_owned :: "uthash \<Rightarrow> nat" where
  "sizeof_owned u = 56 + uh_handle u"

definition add_owned :: "uthash \<Rightarrow> allocator \<Rightarrow> 64 word \<Rightarrow> string \<Rightarrow> cache \<Rightarrow> nat option \<times> cache" where
  "add_owned u alloc owner key ca =
     (if \<not> alloc (sizeof_owned u) then (None, ca)
      else case make_key alloc owner key of
        None \<Rightarrow> (None, ca)
      | Some k \<Rightarrow>
          if \<not> uh_room u (map o_k (ca_owned ca)) k then (None, ca)
          else (Some (length (ca_owned ca)), ca\<lparr>ca_owned := ca_owned ca @
                 [\<lparr>o_k = k, o_owner = owner, o_value = 0, o_release = None, o_is_str = False\<rparr>]\<rparr>))"

text \<open>Is the entry's string this one? A null pointer on either side is no match.\<close>

definition says :: "cache \<Rightarrow> owned \<Rightarrow> string option \<Rightarrow> bool" where
  "says ca o' value \<longleftrightarrow>
     (case value of None \<Rightarrow> False | Some v \<Rightarrow> o_value o' \<noteq> 0 \<and> ca_text ca (o_value o') = Some (cstr v))"

text \<open>The first detached entry that is wanted and that the table takes back, and the others.\<close>

fun retake :: "(owned \<Rightarrow> bool) \<Rightarrow> (owned \<Rightarrow> bool) \<Rightarrow> owned list \<Rightarrow> (owned \<times> owned list) option" where
  "retake wanted room [] = None"
| "retake wanted room (q # qs) =
     (if wanted q \<and> room q then Some (q, qs)
      else map_option (\<lambda>(r, rest). (r, q # rest)) (retake wanted room qs))"

definition detach_at :: "nat \<Rightarrow> cache \<Rightarrow> cache" where
  "detach_at i ca = ca\<lparr>ca_owned := remove_at i (ca_owned ca), ca_detached := ca_owned ca ! i # ca_detached ca\<rparr>"

definition intern_new :: "uthash \<Rightarrow> allocator \<Rightarrow> 64 word \<Rightarrow> string \<Rightarrow> string option \<Rightarrow> cache \<Rightarrow> nat \<times> cache" where
  "intern_new u alloc owner key value ca =
     (case retake (\<lambda>q. o_is_str q \<and> o_owner q = owner \<and> key_is q key \<and> says ca q value)
             (\<lambda>q. uh_room u (map o_k (ca_owned ca)) (o_k q)) (ca_detached ca) of
        Some (q, rest) \<Rightarrow> (o_value q, ca\<lparr>ca_owned := ca_owned ca @ [q], ca_detached := rest\<rparr>)
      | None \<Rightarrow>
          (case add_owned u alloc owner key ca of
             (None, ca1) \<Rightarrow> (0, ca1)
           | (Some i, ca1) \<Rightarrow>
               let (p, ca2) = arpc_dup alloc value ca1 in
               (p, ca2\<lparr>ca_owned := (ca_owned ca2)[i :=
                     (ca_owned ca2 ! i)\<lparr>o_value := p, o_release := Some Free, o_is_str := True\<rparr>]\<rparr>)))"

definition intern :: "uthash \<Rightarrow> allocator \<Rightarrow> 64 word \<Rightarrow> string \<Rightarrow> string option \<Rightarrow> cache \<Rightarrow> nat \<times> cache" where
  "intern u alloc owner key value ca =
     (case find_owned u alloc owner key ca of
        None \<Rightarrow> intern_new u alloc owner key value ca
      | Some i \<Rightarrow>
          let p = ca_owned ca ! i in
          if \<not> o_is_str p then intern_new u alloc owner key value ca
          else if says ca p value then (o_value p, ca)
          else intern_new u alloc owner key value (detach_at i ca))"

text \<open>Whether there is a value, and the value.\<close>

definition arpc_cached :: "uthash \<Rightarrow> allocator \<Rightarrow> 64 word \<Rightarrow> string \<Rightarrow> cache \<Rightarrow> bool \<times> nat" where
  "arpc_cached u alloc owner key ca =
     (case find_owned u alloc owner key ca of
        None \<Rightarrow> (False, 0)
      | Some i \<Rightarrow> if o_is_str (ca_owned ca ! i) then (False, 0) else (True, o_value (ca_owned ca ! i)))"

definition arpc_cache ::
    "uthash \<Rightarrow> allocator \<Rightarrow> 64 word \<Rightarrow> string \<Rightarrow> nat \<Rightarrow> nat \<Rightarrow> cache \<Rightarrow> nat \<times> cache" where
  "arpc_cache u alloc owner key value f ca =
     (let new = (\<lambda>ca. case add_owned u alloc owner key ca of
             (None, ca1) \<Rightarrow> (value, ca1)
           | (Some i, ca1) \<Rightarrow> (value, ca1\<lparr>ca_owned := (ca_owned ca1)[i :=
                 (ca_owned ca1 ! i)\<lparr>o_value := value, o_release := Some (Release f)\<rparr>]\<rparr>))
      in case find_owned u alloc owner key ca of
           None \<Rightarrow> new ca
         | Some i \<Rightarrow>
             if \<not> o_is_str (ca_owned ca ! i)
             then (o_value (ca_owned ca ! i), ca\<lparr>ca_released := ca_released ca @ [(f, value)]\<rparr>)
             else new ca)"

definition purge_where :: "(owned \<Rightarrow> bool) \<Rightarrow> cache \<Rightarrow> cache" where
  "purge_where dead ca =
     (let ca1 = fold release_owned (filter dead (ca_owned ca))
                  (ca\<lparr>ca_owned := filter (\<lambda>o'. \<not> dead o') (ca_owned ca)\<rparr>)
      in fold release_owned (filter dead (ca_detached ca1))
           (ca1\<lparr>ca_detached := filter (\<lambda>o'. \<not> dead o') (ca_detached ca1)\<rparr>))"

definition owned_by :: "64 word \<Rightarrow> owned \<Rightarrow> bool" where
  "owned_by owner o' \<longleftrightarrow> o_owner o' = owner"

definition under_root :: "64 word \<Rightarrow> owned \<Rightarrow> bool" where
  "under_root root o' \<longleftrightarrow> ARPC_ROOT (o_owner o') = root"

definition arpc_purge_owner :: "64 word \<Rightarrow> cache \<Rightarrow> cache" where
  "arpc_purge_owner owner = purge_where (owned_by owner)"

definition arpc_detach :: "64 word \<Rightarrow> bool \<Rightarrow> string list \<Rightarrow> cache \<Rightarrow> cache" where
  "arpc_detach owner whole_root keys ca =
     (let hit = (\<lambda>o'. (if whole_root then ARPC_ROOT (o_owner o') = ARPC_ROOT owner else o_owner o' = owner) \<and>
                   list_ex (key_names o') keys)
      in ca\<lparr>ca_owned := filter (\<lambda>o'. \<not> hit o') (ca_owned ca),
            ca_detached := rev (filter hit (ca_owned ca)) @ ca_detached ca\<rparr>)"

definition arpc_stats_cached :: "cache \<Rightarrow> nat" where
  "arpc_stats_cached ca = length (ca_owned ca) + length (ca_groups ca) + length (ca_detached ca)"

definition sizeof_sstr :: nat where
  "sizeof_sstr = 16"

text \<open>The string is looked for among the ones kept for good and added if it is new.\<close>

definition keep_static :: "allocator \<Rightarrow> string option \<Rightarrow> cache \<Rightarrow> nat \<times> cache" where
  "keep_static alloc so ca =
     (case so of
        None \<Rightarrow> (0, ca)
      | Some s \<Rightarrow>
          (case find (\<lambda>p. ca_text ca p = Some (cstr s)) (ca_static ca) of
             Some p \<Rightarrow> (p, ca)
           | None \<Rightarrow>
               if \<not> alloc sizeof_sstr then (0, ca)
               else let (p, ca1) = arpc_dup alloc (Some s) ca
                    in if p = 0 then (0, ca1) else (p, ca1\<lparr>ca_static := p # ca_static ca1\<rparr>)))"

section \<open>Groups of packages\<close>

definition free_column :: "column \<Rightarrow> cache \<Rightarrow> cache" where
  "free_column c ca = (case col_str c of None \<Rightarrow> ca | Some ps \<Rightarrow> fold free_text ps ca)"

text \<open>The columns of a group, first to last.\<close>

definition drop_columns :: "column list \<Rightarrow> cache \<Rightarrow> cache" where
  "drop_columns cs ca = fold free_column cs ca"

definition free_group :: "pkg_group \<Rightarrow> cache \<Rightarrow> cache" where
  "free_group g ca = drop_columns (pg_cols g) ca"

definition group_root :: "pkg_group \<Rightarrow> 64 word" where
  "group_root g = ARPC_ROOT (hd (pg_ids g))"

definition free_groups_of :: "64 word \<Rightarrow> cache \<Rightarrow> cache" where
  "free_groups_of root ca =
     (let dead = (\<lambda>g. group_root g = root);
          ca1 = fold free_group (filter dead (ca_groups ca)) (ca\<lparr>ca_groups := filter (\<lambda>g. \<not> dead g) (ca_groups ca)\<rparr>)
      in ca1\<lparr>ca_slots := filter (\<lambda>s. ARPC_ROOT (ps_id s) \<noteq> root) (ca_slots ca1)\<rparr>)"

definition find_slot :: "uthash \<Rightarrow> 64 word \<Rightarrow> pkg_slot list \<Rightarrow> pkg_slot option" where
  "find_slot u hid slots =
     map_option (\<lambda>i. slots ! i) (uh_find u (map (\<lambda>s. id_bytes (ps_id s)) slots) (id_bytes hid))"

definition group_at :: "nat \<Rightarrow> cache \<Rightarrow> pkg_group option" where
  "group_at a ca = find (\<lambda>g. pg_addr g = a) (ca_groups ca)"

definition upd_group :: "nat \<Rightarrow> (pkg_group \<Rightarrow> pkg_group) \<Rightarrow> cache \<Rightarrow> cache" where
  "upd_group a f ca = ca\<lparr>ca_groups := map (\<lambda>g. if pg_addr g = a then f g else g) (ca_groups ca)\<rparr>"

text \<open>The first column with the name, and the others.\<close>

fun take_column :: "string \<Rightarrow> column list \<Rightarrow> (column \<times> column list) option" where
  "take_column field [] = None"
| "take_column field (c # cs) =
     (if col_field c = field then Some (c, cs)
      else map_option (\<lambda>(d, rest). (d, c # rest)) (take_column field cs))"

definition arpc_drop_column :: "uthash \<Rightarrow> 64 word \<Rightarrow> string \<Rightarrow> cache \<Rightarrow> cache" where
  "arpc_drop_column u pkg field ca =
     (case find_slot u pkg (ca_slots ca) of
        None \<Rightarrow> ca
      | Some s \<Rightarrow>
          (case Option.bind (group_at (ps_group s) ca) (\<lambda>g. take_column field (pg_cols g)) of
             None \<Rightarrow> ca
           | Some (c, rest) \<Rightarrow> free_column c (upd_group (ps_group s) (\<lambda>g. g\<lparr>pg_cols := rest\<rparr>) ca)))"

definition count_groups :: "cache \<Rightarrow> nat" where
  "count_groups ca = length (ca_groups ca)"

definition sizeof_pkg_group :: nat where
  "sizeof_pkg_group = 32"

definition sizeof_pkg_slot :: "uthash \<Rightarrow> nat" where
  "sizeof_pkg_slot u = 24 + uh_handle u"

text \<open>A slot for each member that has none, from position \<open>i\<close>.\<close>

fun place :: "uthash \<Rightarrow> allocator \<Rightarrow> nat \<Rightarrow> nat \<Rightarrow> (64 word) list \<Rightarrow> pkg_slot list \<Rightarrow> pkg_slot list" where
  "place u alloc g i [] slots = slots"
| "place u alloc g i (hid # ids) slots =
     place u alloc g (Suc i) ids
       (if find_slot u hid slots \<noteq> None \<or> \<not> alloc (sizeof_pkg_slot u) \<or>
           \<not> uh_room u (map (\<lambda>s. id_bytes (ps_id s)) slots) (id_bytes hid)
        then slots else slots @ [\<lparr>ps_id = hid, ps_group = g, ps_slot = i\<rparr>])"

definition group_new :: "uthash \<Rightarrow> allocator \<Rightarrow> (64 word) list \<Rightarrow> cache \<Rightarrow> nat option \<times> cache" where
  "group_new u alloc ids ca =
     (if \<not> alloc sizeof_pkg_group \<or> \<not> alloc ((if ids = [] then 1 else length ids) * 8) then (None, ca)
      else
        let g = ca_next ca; slots = place u alloc g 0 ids (ca_slots ca) in
        if length slots = length (ca_slots ca) then (None, ca)
        else (Some g, ca\<lparr>ca_slots := slots, ca_next := g + 1,
               ca_groups := \<lparr>pg_addr = g, pg_ids = ids, pg_cols = []\<rparr> # ca_groups ca\<rparr>))"

text \<open>A list is its data pointers, the packages' ids.\<close>

definition arpc_pkg_group_register :: "uthash \<Rightarrow> allocator \<Rightarrow> (64 word) list \<Rightarrow> cache \<Rightarrow> cache" where
  "arpc_pkg_group_register u alloc pkgs ca =
     (if pkgs = [] \<or> \<not> alloc (length pkgs * 8) then ca else snd (group_new u alloc pkgs ca))"

definition group_for_pkg :: "uthash \<Rightarrow> allocator \<Rightarrow> 64 word \<Rightarrow> cache \<Rightarrow> (nat \<times> nat) option \<times> cache" where
  "group_for_pkg u alloc hid ca =
     (case find_slot u hid (ca_slots ca) of
        Some s \<Rightarrow> (Some (ps_group s, ps_slot s), ca)
      | None \<Rightarrow> (case group_new u alloc [hid] ca of (g, ca1) \<Rightarrow> (map_option (\<lambda>a. (a, 0)) g, ca1)))"

definition forget_root :: "64 word \<Rightarrow> cache \<Rightarrow> cache" where
  "forget_root root ca = free_groups_of root (purge_where (under_root root) ca)"

text \<open>Copies of strings, first to last.\<close>

fun dup_all :: "allocator \<Rightarrow> string option list \<Rightarrow> cache \<Rightarrow> nat list \<times> cache" where
  "dup_all alloc [] ca = ([], ca)"
| "dup_all alloc (s # ss) ca =
     (let (p, ca1) = arpc_dup alloc s ca; (ps, ca2) = dup_all alloc ss ca1 in (p # ps, ca2))"

definition add_column :: "nat \<Rightarrow> column \<Rightarrow> cache \<Rightarrow> cache" where
  "add_column a c = upd_group a (\<lambda>g. g\<lparr>pg_cols := c # pg_cols g\<rparr>)"

text \<open>A column of strings for the group, with the rest of its \<open>n\<close> places empty.\<close>

definition add_strings :: "allocator \<Rightarrow> nat \<Rightarrow> string \<Rightarrow> nat \<Rightarrow> string option list \<Rightarrow> cache \<Rightarrow> cache" where
  "add_strings alloc a field n ss ca =
     (let (ps, ca1) = dup_all alloc ss ca
      in add_column a \<lparr>col_field = field, col_str = Some (ps @ replicate (n - length ps) 0), col_num = None\<rparr> ca1)"

end
