(* ===== verification/Cache_Inv.thy ===== *)
theory Cache_Inv
  imports Client_Cache "HOL-Library.Multiset"
begin

text \<open>
  The invariant of the client's caches: the strings in memory are exactly the ones the caches hold,
  each held once, so none is lost and none is freed twice; every operation keeps it. From it follows
  how long a string handed out stays valid.
\<close>

section \<open>What the caches hold\<close>

text \<open>The strings an entry, a column or a group will free.\<close>

definition nonnull :: "nat list \<Rightarrow> nat multiset" where
  "nonnull ps = mset (filter (\<lambda>p. p \<noteq> 0) ps)"

definition entry_ptrs :: "owned list \<Rightarrow> nat multiset" where
  "entry_ptrs es = nonnull (map o_value (filter o_is_str es))"

definition col_ptrs :: "column \<Rightarrow> nat multiset" where
  "col_ptrs c = (case col_str c of None \<Rightarrow> {#} | Some ps \<Rightarrow> nonnull ps)"

definition group_ptrs :: "pkg_group \<Rightarrow> nat multiset" where
  "group_ptrs g = (\<Sum>c \<leftarrow> pg_cols g. col_ptrs c)"

definition held :: "cache \<Rightarrow> nat multiset" where
  "held ca = entry_ptrs (ca_owned ca) + entry_ptrs (ca_detached ca) + mset (ca_static ca) +
     (\<Sum>g \<leftarrow> ca_groups ca. group_ptrs g)"

definition entry_ok :: "owned \<Rightarrow> bool" where
  "entry_ok e \<longleftrightarrow> take 8 (o_k e) = id_bytes (o_owner e) \<and> length (o_k e) \<ge> 8 \<and>
     (if o_is_str e then o_release e = Some Free else (\<exists>f. o_release e = Some (Release f)))"

text \<open>
  The invariant: the strings in memory are exactly the ones the caches hold, each held once.
\<close>

definition mem_ok :: "(nat \<Rightarrow> string option) \<Rightarrow> nat multiset \<Rightarrow> bool" where
  "mem_ok t M \<longleftrightarrow> finite (dom t) \<and> t 0 = None \<and> mset_set (dom t) = M"

definition entries :: "cache \<Rightarrow> owned set" where
  "entries ca = set (ca_owned ca) \<union> set (ca_detached ca)"

definition cache_ok :: "cache \<Rightarrow> bool" where
  "cache_ok ca \<longleftrightarrow> mem_ok (ca_text ca) (held ca) \<and> 0 < ca_next ca \<and> dom (ca_text ca) \<subseteq> {..<ca_next ca} \<and>
     (\<forall>e \<in> entries ca. entry_ok e) \<and>
     distinct (map pg_addr (ca_groups ca)) \<and> pg_addr ` set (ca_groups ca) \<subseteq> {..<ca_next ca}"

text \<open>No string in memory is written to again: it stays or goes.\<close>

definition aged :: "cache \<Rightarrow> cache \<Rightarrow> bool" where
  "aged ca ca' \<longleftrightarrow> ca_next ca \<le> ca_next ca' \<and> (\<forall>p < ca_next ca. ca_text ca' p = None \<or> ca_text ca' p = ca_text ca p)"

lemma aged_refl [simp]: "aged ca ca"
  by (simp add: aged_def)

lemma aged_trans: "aged a b \<Longrightarrow> aged b c \<Longrightarrow> aged a c"
  unfolding aged_def by (metis order.trans order.strict_trans2)

lemma cache_ok_init: "cache_ok cache_init"
  by (simp add: cache_ok_def cache_init_def mem_ok_def held_def entries_def entry_ptrs_def nonnull_def)

lemma nonnull_simps [simp]:
  "nonnull [] = {#}" "nonnull (p # ps) = (if p = 0 then {#} else {#p#}) + nonnull ps"
  "nonnull (ps @ qs) = nonnull ps + nonnull qs" "nonnull (rev ps) = nonnull ps" "nonnull (replicate n 0) = {#}"
  by (simp_all add: nonnull_def)

lemma mem_ok_iff: "mem_ok t M \<Longrightarrow> p \<in># M \<longleftrightarrow> t p \<noteq> None"
  by (auto simp: mem_ok_def)

lemma mem_ok_new:
  assumes "mem_ok t M" and "t p = None" and "p \<noteq> 0"
  shows "mem_ok (t(p \<mapsto> s)) (add_mset p M)"
proof -
  have "mset_set (insert p (dom t)) = add_mset p (mset_set (dom t))"
    using assms by (intro mset_set.insert) (auto simp: mem_ok_def)
  then show ?thesis using assms by (simp add: mem_ok_def)
qed

lemma mem_ok_free:
  assumes "mem_ok t ((if p = 0 then {#} else {#p#}) + M)"
  shows "mem_ok (t(p := None)) M"
proof (cases "p = 0")
  case True
  with assms have "t(p := None) = t" by (auto simp: mem_ok_def fun_upd_idem_iff)
  with True assms show ?thesis by simp
next
  case False
  with assms have "p \<in> dom t" using mem_ok_iff [OF assms, of p] by auto
  then have "mset_set (dom t - {p}) = mset_set (dom t) - {#p#}" using assms mset_set_Diff [of "dom t" "{p}"] by (auto simp: mem_ok_def)
  with False assms show ?thesis by (auto simp: mem_ok_def)
qed

text \<open>Freeing a list of pointers.\<close>

lemma mem_ok_clear: "mem_ok t (nonnull ps + M) \<Longrightarrow> mem_ok (t |` (- set ps)) M"
proof (induction ps arbitrary: t)
  case (Cons p ps)
  then have "mem_ok (t(p := None)) (nonnull ps + M)" by (intro mem_ok_free) (simp add: ac_simps)
  from Cons.IH [OF this] show ?case
    by (rule back_subst [of "\<lambda>t. mem_ok t M"]) (auto simp: restrict_map_def fun_eq_iff)
qed (simp add: restrict_map_def)

lemma free_texts: "fold free_text ps ca = ca\<lparr>ca_text := ca_text ca |` (- set ps)\<rparr>"
  by (induction ps arbitrary: ca) (auto simp: free_text_def restrict_map_def fun_eq_iff intro!: cache.equality)

section \<open>One operation\<close>

text \<open>
  What an operation does at most: the invariant stays, nothing in memory changes but by going, and
  the entries \<open>kept\<close> accepts are still there.
\<close>

definition cache_step :: "(owned \<Rightarrow> bool) \<Rightarrow> cache \<Rightarrow> cache \<Rightarrow> bool" where
  "cache_step kept ca ca' \<longleftrightarrow> cache_ok ca' \<and> aged ca ca' \<and> (\<forall>e \<in> entries ca. kept e \<longrightarrow> e \<in> entries ca')"

lemma cache_step_refl: "cache_ok ca \<Longrightarrow> cache_step kept ca ca"
  by (simp add: cache_step_def)

lemma cache_step_trans: "cache_step kept a b \<Longrightarrow> cache_step kept b c \<Longrightarrow> cache_step kept a c"
  unfolding cache_step_def by (meson aged_trans)

lemma cache_step_mono: "cache_step (\<lambda>_. True) a b \<Longrightarrow> cache_step kept a b"
  by (simp add: cache_step_def)

lemma entry_ptrs_simps [simp]:
  "entry_ptrs [] = {#}" "entry_ptrs (es @ fs) = entry_ptrs es + entry_ptrs fs"
  "entry_ptrs (e # es) = (if o_is_str e then nonnull [o_value e] else {#}) + entry_ptrs es"
  "entry_ptrs (rev es) = entry_ptrs es"
  by (simp_all add: entry_ptrs_def rev_filter [symmetric] rev_map [symmetric])

lemma entry_ptrs_split: "entry_ptrs es = entry_ptrs (filter P es) + entry_ptrs (filter (\<lambda>e. \<not> P e) es)"
  by (induction es) auto

lemma remove_at_entries:
  assumes "i < length es"
  shows "entry_ptrs es = entry_ptrs (remove_at i es) + entry_ptrs [es ! i]" and "set es = insert (es ! i) (set (remove_at i es))"
proof -
  have es: "take i es @ es ! i # drop (Suc i) es = es" using assms by (rule id_take_nth_drop [symmetric])
  show "entry_ptrs es = entry_ptrs (remove_at i es) + entry_ptrs [es ! i]"
    using arg_cong [OF es, of entry_ptrs] by (auto simp: remove_at_def ac_simps)
  show "set es = insert (es ! i) (set (remove_at i es))"
    using arg_cong [OF es, of set] by (auto simp: remove_at_def)
qed

text \<open>Entries change their list.\<close>

lemma step_moved:
  assumes "cache_ok ca" and "entry_ptrs l + entry_ptrs d = entry_ptrs (ca_owned ca) + entry_ptrs (ca_detached ca)"
    and "set l \<union> set d = entries ca"
  shows "cache_step kept ca (ca\<lparr>ca_owned := l, ca_detached := d\<rparr>)"
  using assms by (simp add: cache_step_def cache_ok_def held_def entries_def aged_def)

lemma step_detach_at: "cache_ok ca \<Longrightarrow> i < length (ca_owned ca) \<Longrightarrow> cache_step kept ca (detach_at i ca)"
  unfolding detach_at_def
  by (intro step_moved) (use remove_at_entries [of i "ca_owned ca"] in \<open>auto simp: entries_def ac_simps\<close>)

lemma step_filtered:
  assumes "cache_ok ca"
  shows "cache_step kept ca (ca\<lparr>ca_owned := filter (\<lambda>e. \<not> P e) (ca_owned ca), ca_detached := rev (filter P (ca_owned ca)) @ ca_detached ca\<rparr>)"
  by (intro step_moved [OF assms]) (auto simp: entries_def ac_simps entry_ptrs_split [of "ca_owned ca" P])

lemma step_detach: "cache_ok ca \<Longrightarrow> cache_step kept ca (arpc_detach owner whole keys ca)"
  unfolding arpc_detach_def Let_def by (rule step_filtered)

lemma retake_SomeD:
  "retake wanted room ds = Some (q, rest) \<Longrightarrow>
     wanted q \<and> entry_ptrs ds = entry_ptrs [q] + entry_ptrs rest \<and> set ds = insert q (set rest)"
  by (induction ds arbitrary: rest) (auto split: if_splits simp: ac_simps)

text \<open>A copy goes to a new place in memory.\<close>

definition fresh_ok :: "cache \<Rightarrow> nat multiset \<Rightarrow> bool" where
  "fresh_ok ca M \<longleftrightarrow> mem_ok (ca_text ca) M \<and> 0 < ca_next ca \<and> dom (ca_text ca) \<subseteq> {..<ca_next ca}"

lemma dup_mem:
  assumes ok: "fresh_ok ca M" and dup: "arpc_dup alloc so ca = (p, ca')"
  shows "fresh_ok ca' (nonnull [p] + M)" and "aged ca ca'" and "ca' = ca\<lparr>ca_text := ca_text ca', ca_next := ca_next ca'\<rparr>"
    and "p \<noteq> 0 \<Longrightarrow> \<exists>s. so = Some s \<and> ca_text ca' p = Some (cstr s)"
proof -
  have new: "ca_text ca (ca_next ca) = None" "0 < ca_next ca" using ok by (auto simp: fresh_ok_def)
  have lt: "p < ca_next ca" if "ca_text ca p = Some t" for p t using ok that by (auto simp: fresh_ok_def dom_def)
  have dom: "dom (ca_text ca') \<subseteq> {..<ca_next ca'}"
    using dup lt by (auto simp: arpc_dup_def less_Suc_eq split: option.splits if_splits)
  show "fresh_ok ca' (nonnull [p] + M)" "aged ca ca'" "ca' = ca\<lparr>ca_text := ca_text ca', ca_next := ca_next ca'\<rparr>"
    using dom dup ok new mem_ok_new [of "ca_text ca" M "ca_next ca"]
    by (auto simp: arpc_dup_def aged_def fresh_ok_def split: option.splits)
  show "p \<noteq> 0 \<Longrightarrow> \<exists>s. so = Some s \<and> ca_text ca' p = Some (cstr s)"
    using dup by (auto simp: arpc_dup_def strdup_def Option.bind_eq_Some_conv split: option.splits if_splits)
qed

lemma dup_all_mem:
  "fresh_ok ca M \<Longrightarrow> dup_all alloc ss ca = (ps, ca') \<Longrightarrow>
     fresh_ok ca' (nonnull ps + M) \<and> aged ca ca' \<and> ca' = ca\<lparr>ca_text := ca_text ca', ca_next := ca_next ca'\<rparr> \<and> length ps = length ss"
proof (induction ss arbitrary: ca M ps)
  case (Cons s ss)
  obtain p ca1 where p: "arpc_dup alloc s ca = (p, ca1)" by fastforce
  obtain qs where q: "dup_all alloc ss ca1 = (qs, ca')" "ps = p # qs" using Cons.prems(2) p by (auto split: prod.splits)
  note D = dup_mem [OF Cons.prems(1) p] and I = Cons.IH [OF _ q(1)]
  have "ca' = ca\<lparr>ca_text := ca_text ca', ca_next := ca_next ca'\<rparr>"
    by (subst conjunct1 [OF conjunct2 [OF conjunct2 [OF I [OF D(1)]]]], subst D(3)) simp
  with I [OF D(1)] D(2) q(2) show ?case by (auto simp: ac_simps intro: aged_trans)
qed simp

lemma cache_ok_fresh: "cache_ok ca \<Longrightarrow> fresh_ok ca (held ca)"
  by (simp add: cache_ok_def fresh_ok_def)

text \<open>A new entry at the end of the table.\<close>

lemma step_added:
  assumes ok: "cache_ok ca" and e: "entry_ok e"
    and mem: "mem_ok t ((if o_is_str e then nonnull [o_value e] else {#}) + held ca)"
    and t: "aged ca (ca\<lparr>ca_text := t, ca_next := n\<rparr>)" "dom t \<subseteq> {..<n}"
  shows "cache_step kept ca (ca\<lparr>ca_owned := ca_owned ca @ [e], ca_text := t, ca_next := n\<rparr>)"
proof -
  have "held (ca\<lparr>ca_owned := ca_owned ca @ [e], ca_text := t, ca_next := n\<rparr>) = (if o_is_str e then nonnull [o_value e] else {#}) + held ca"
    by (simp add: held_def)
  with assms show ?thesis
    by (fastforce simp: cache_step_def cache_ok_def entries_def aged_def)
qed

lemma key_bytes_ok: "take 8 (key_bytes owner key) = id_bytes owner" "8 \<le> length (key_bytes owner key)"
  by (simp_all add: key_bytes_def id_bytes_def)

lemma add_owned_cases:
  obtains (full) "add_owned u alloc owner key ca = (None, ca)" "\<not> ((\<forall>n. alloc n) \<and> (\<forall>ks k. uh_room u ks k))"
  | (new) "add_owned u alloc owner key ca = (Some (length (ca_owned ca)), ca\<lparr>ca_owned := ca_owned ca @
       [\<lparr>o_k = key_bytes owner key, o_owner = owner, o_value = 0, o_release = None, o_is_str = False\<rparr>]\<rparr>)"
  by (force simp: add_owned_def make_key_def split: if_splits)

text \<open>The entry a string is kept in.\<close>

definition string_entry :: "64 word \<Rightarrow> string \<Rightarrow> nat \<Rightarrow> owned" where
  "string_entry owner key p =
     \<lparr>o_k = key_bytes owner key, o_owner = owner, o_value = p, o_release = Some Free, o_is_str = True\<rparr>"

lemma key_is_bytes: "entry_ok e \<Longrightarrow> key_is e key \<Longrightarrow> o_k e = key_bytes (o_owner e) key"
  unfolding key_is_def entry_ok_def key_bytes_def Let_def
  by (metis add_diff_cancel_left' append_take_drop_id length_drop take_all_iff order_refl)

lemma string_entry_of:
  assumes "entry_ok e" and "o_is_str e" and "o_k e = key_bytes owner key" and "o_owner e = owner"
  shows "e = string_entry owner key (o_value e)"
  using assms by (intro owned.equality) (simp_all add: string_entry_def entry_ok_def)

text \<open>Interning hands out the null pointer, or a pointer whose entry is in the table and whose text is the one asked for.\<close>

definition interned :: "64 word \<Rightarrow> string \<Rightarrow> string option \<Rightarrow> nat \<Rightarrow> cache \<Rightarrow> bool" where
  "interned owner key value p ca \<longleftrightarrow>
     p \<noteq> 0 \<longrightarrow> string_entry owner key p \<in> set (ca_owned ca) \<and> (\<exists>v. value = Some v \<and> ca_text ca p = Some (cstr v))"

lemma says_text: "says ca e value \<Longrightarrow> \<exists>v. value = Some v \<and> o_value e \<noteq> 0 \<and> ca_text ca (o_value e) = Some (cstr v)"
  by (auto simp: says_def split: option.splits)

lemma step_intern_new:
  assumes ok: "cache_ok ca" and run: "intern_new u alloc owner key value ca = (p, ca')"
  shows "cache_step kept ca ca' \<and> interned owner key value p ca'"
proof (cases "retake (\<lambda>q. o_is_str q \<and> o_owner q = owner \<and> key_is q key \<and> says ca q value)
             (\<lambda>q. uh_room u (map o_k (ca_owned ca)) (o_k q)) (ca_detached ca)")
  case (Some qr)
  obtain q rest where q: "qr = (q, rest)" by fastforce
  note D = retake_SomeD [OF Some [unfolded q]]
  have r: "p = o_value q" "ca' = ca\<lparr>ca_owned := ca_owned ca @ [q], ca_detached := rest\<rparr>"
    using run Some q by (simp_all add: intern_new_def)
  have "cache_step kept ca ca'" unfolding r by (intro step_moved [OF ok]) (use D in \<open>auto simp: entries_def ac_simps\<close>)
  moreover have "entry_ok q" using ok D by (auto simp: cache_ok_def entries_def)
  then have "string_entry owner key p = q" using D r(1) string_entry_of key_is_bytes by metis
  then have "string_entry owner key p \<in> set (ca_owned ca')" by (simp add: r(2))
  moreover have "\<exists>v. value = Some v \<and> ca_text ca' p = Some (cstr v)" using D says_text [of ca q "value"] r by auto
  ultimately show ?thesis by (simp add: interned_def)
next
  case None
  show ?thesis
  proof (rule add_owned_cases [of u alloc owner key ca])
    assume "add_owned u alloc owner key ca = (None, ca)"
    with None run ok show ?thesis by (auto simp: intern_new_def cache_step_refl interned_def)
  next
    let ?e = "\<lparr>o_k = key_bytes owner key, o_owner = owner, o_value = 0, o_release = None, o_is_str = False\<rparr>"
    assume new: "add_owned u alloc owner key ca = (Some (length (ca_owned ca)), ca\<lparr>ca_owned := ca_owned ca @ [?e]\<rparr>)"
    let ?ca1 = "ca\<lparr>ca_owned := ca_owned ca @ [?e]\<rparr>"
    obtain p0 ca0 where dup: "arpc_dup alloc value ca = (p0, ca0)" by fastforce
    note D = dup_mem [OF cache_ok_fresh [OF ok] dup]
    have dup1: "arpc_dup alloc value ?ca1 = (p0, ?ca1\<lparr>ca_text := ca_text ca0, ca_next := ca_next ca0\<rparr>)"
      using dup by (auto simp: arpc_dup_def split: option.splits)
    have r: "p = p0" "ca' = ca\<lparr>ca_owned := ca_owned ca @ [string_entry owner key p], ca_text := ca_text ca0, ca_next := ca_next ca0\<rparr>"
      using run None new dup1 by (auto simp: intern_new_def string_entry_def list_update_append nth_append)
    have "entry_ok (string_entry owner key p)" by (simp add: entry_ok_def string_entry_def key_bytes_ok)
    moreover have "aged ca (ca\<lparr>ca_text := ca_text ca0, ca_next := ca_next ca0\<rparr>)" using D(2) by (simp add: aged_def)
    ultimately have "cache_step kept ca ca'"
      unfolding r(2) by (intro step_added [OF ok]) (use D(1) r(1) in \<open>simp_all add: string_entry_def fresh_ok_def\<close>)
    then show ?thesis using D(4) r by (simp add: interned_def)
  qed
qed

lemma find_owned_Some:
  assumes "uthash_ok u" and "find_owned u alloc owner key ca = Some i"
  shows "i < length (ca_owned ca)" and "o_k (ca_owned ca ! i) = key_bytes owner key"
  using assms unfolding uthash_ok_def find_owned_def Let_def
  by (metis (mono_tags, lifting) length_map option.case(2) option.distinct(1), metis (mono_tags, lifting) length_map nth_map option.case(2) option.distinct(1))

lemma id_bytes_inj:
  assumes "id_bytes a = id_bytes b"
  shows "a = b"
proof (rule bit_word_eqI)
  fix n assume "n < LENGTH(64)"
  then have n: "n div 8 < 8" "8 * (n div 8) + n mod 8 = n" by simp_all
  have byte: "x AND 0xFF = take_bit 8 x" for x :: "64 word" by (simp add: take_bit_eq_mask mask_eq_exp_minus_1)
  have lt: "unat (take_bit 8 x) < 256" for x :: "64 word"
    unfolding unsigned_take_bit_eq by (simp add: take_bit_eq_mod)
  have "id_bytes c ! (n div 8) = char_of (unat (take_bit 8 (drop_bit (8 * (n div 8)) c)))" for c
    using n(1) by (simp add: id_bytes_def byte)
  then have "take_bit 8 (drop_bit (8 * (n div 8)) a) = take_bit 8 (drop_bit (8 * (n div 8)) b)"
    using assms lt by (metis of_char_of word_unat_eq_iff mod_less)
  then have "bit (take_bit 8 (drop_bit (8 * (n div 8)) a)) (n mod 8) = bit (take_bit 8 (drop_bit (8 * (n div 8)) b)) (n mod 8)" by simp
  then show "bit a n = bit b n" using n(2) by (simp add: bit_take_bit_iff bit_drop_bit_eq)
qed

lemma step_intern:
  assumes ok: "cache_ok ca" and u: "uthash_ok u" and run: "intern u alloc owner key value ca = (p, ca')"
  shows "cache_step kept ca ca' \<and> interned owner key value p ca'"
proof (cases "find_owned u alloc owner key ca")
  case None
  with run step_intern_new [OF ok] show ?thesis by (simp add: intern_def)
next
  case (Some i)
  note F = find_owned_Some [OF u Some]
  let ?e = "ca_owned ca ! i"
  have e: "entry_ok ?e" using ok F(1) by (auto simp: cache_ok_def entries_def)
  then have owner: "o_owner ?e = owner" using F(2) key_bytes_ok(1) id_bytes_inj by (metis entry_ok_def)
  consider "\<not> o_is_str ?e" | "o_is_str ?e" "says ca ?e value" | "o_is_str ?e" "\<not> says ca ?e value" by blast
  then show ?thesis
  proof cases
    case 1
    with run Some step_intern_new [OF ok] show ?thesis by (simp add: intern_def)
  next
    case 2
    with run Some have r: "p = o_value ?e" "ca' = ca" by (auto simp: intern_def)
    have "string_entry owner key p = ?e" using string_entry_of [OF e 2(1) F(2) owner] r(1) by simp
    then have "string_entry owner key p \<in> set (ca_owned ca)" using F(1) by simp
    then show ?thesis using r ok says_text [OF 2(2)] by (auto simp: interned_def cache_step_refl)
  next
    case 3
    note d = step_detach_at [OF ok F(1)]
    have "cache_ok (detach_at i ca)" using d by (simp add: cache_step_def)
    from step_intern_new [OF this] run Some 3 have "cache_step kept (detach_at i ca) ca' \<and> interned owner key value p ca'"
      by (simp add: intern_def)
    with cache_step_trans [OF d] show ?thesis by blast
  qed
qed

lemma step_cache:
  assumes ok: "cache_ok ca" and run: "arpc_cache u alloc owner key value f ca = (p, ca')"
  shows "cache_step kept ca ca'"
proof -
  let ?e = "\<lparr>o_k = key_bytes owner key, o_owner = owner, o_value = value, o_release = Some (Release f), o_is_str = False\<rparr>"
  have new: "cache_step kept ca (ca\<lparr>ca_owned := ca_owned ca @ [?e]\<rparr>)"
    using step_added [OF ok, of ?e "ca_text ca" "ca_next ca"] ok
    by (simp add: entry_ok_def key_bytes_ok cache_ok_def aged_def)
  have log: "cache_step kept ca (ca\<lparr>ca_released := l\<rparr>)" for l
    using ok by (simp add: cache_step_def cache_ok_def held_def entries_def aged_def)
  show ?thesis
    by (rule add_owned_cases [of u alloc owner key ca])
      (use run new log cache_step_refl [OF ok] in \<open>auto simp: arpc_cache_def Let_def list_update_append nth_append split: option.splits if_splits\<close>)
qed

text \<open>Releasing entries frees their strings and calls their functions.\<close>

definition releases :: "owned list \<Rightarrow> (nat \<times> nat) list" where
  "releases es = concat (map (\<lambda>e. case o_release e of Some (Release f) \<Rightarrow> [(f, o_value e)] | _ \<Rightarrow> []) es)"

lemma release_all:
  "\<forall>e \<in> set es. entry_ok e \<Longrightarrow> fold release_owned es ca = ca\<lparr>ca_text := ca_text ca |` (- set (map o_value (filter o_is_str es))),
     ca_released := ca_released ca @ releases es\<rparr>"
proof (induction es arbitrary: ca)
  case (Cons e es)
  have "release_owned e ca = ca\<lparr>ca_text := ca_text ca |` (- set (map o_value (filter o_is_str [e]))),
      ca_released := ca_released ca @ releases [e]\<rparr>"
    using Cons.prems by (auto simp: entry_ok_def release_owned_def releases_def free_text_def restrict_map_def fun_eq_iff split: if_splits)
  with Cons show ?case by (auto simp: releases_def restrict_map_def fun_eq_iff)
qed (simp add: releases_def restrict_map_def)

lemma purge_form:
  assumes "cache_ok ca"
  shows "purge_where dead ca = ca\<lparr>ca_owned := filter (\<lambda>e. \<not> dead e) (ca_owned ca), ca_detached := filter (\<lambda>e. \<not> dead e) (ca_detached ca),
     ca_text := ca_text ca |` (- set (map o_value (filter o_is_str (filter dead (ca_owned ca @ ca_detached ca))))),
     ca_released := ca_released ca @ releases (filter dead (ca_owned ca @ ca_detached ca))\<rparr>"
proof -
  have "\<forall>e \<in> set (filter dead (ca_owned ca)). entry_ok e" "\<forall>e \<in> set (filter dead (ca_detached ca)). entry_ok e"
    using assms by (auto simp: cache_ok_def entries_def)
  then show ?thesis
    by (simp add: purge_where_def release_all Let_def) (auto simp: releases_def restrict_map_def fun_eq_iff)
qed

lemma aged_clear: "aged ca (ca\<lparr>ca_text := ca_text ca |` S\<rparr>)"
  by (auto simp: aged_def restrict_map_def)

lemma step_purge:
  assumes ok: "cache_ok ca"
  shows "cache_step (\<lambda>e. \<not> dead e) ca (purge_where dead ca)"
proof -
  define ps where "ps = map o_value (filter o_is_str (filter dead (ca_owned ca @ ca_detached ca)))"
  note form = purge_form [OF ok, of dead, folded ps_def]
  have "held ca = nonnull ps + held (purge_where dead ca)"
    unfolding purge_form [OF ok] held_def
    using entry_ptrs_split [of "ca_owned ca" dead] entry_ptrs_split [of "ca_detached ca" dead]
    by (simp add: entry_ptrs_def ps_def)
  with ok have "mem_ok (ca_text ca |` (- set ps)) (held (purge_where dead ca))" by (intro mem_ok_clear) (simp add: cache_ok_def)
  then have "mem_ok (ca_text (purge_where dead ca)) (held (purge_where dead ca))" by (simp add: form)
  then show ?thesis using ok unfolding form
    by (auto simp: cache_step_def cache_ok_def entries_def aged_def restrict_map_def dom_def split: if_splits)
qed

lemma step_static:
  assumes ok: "cache_ok ca" and run: "keep_static alloc so ca = (p, ca')"
  shows "cache_step kept ca ca'"
proof -
  obtain p0 ca0 where dup: "arpc_dup alloc so ca = (p0, ca0)" by fastforce
  note D = dup_mem [OF cache_ok_fresh [OF ok] dup]
  from D(3) obtain t n where ca0: "ca0 = ca\<lparr>ca_text := t, ca_next := n\<rparr>" by blast
  consider "ca' = ca" | "ca' = ca0" "p0 = 0" | "ca' = ca0\<lparr>ca_static := p0 # ca_static ca0\<rparr>" "p0 \<noteq> 0"
    using run dup by (auto simp: keep_static_def split: option.splits if_splits prod.splits)
  then show ?thesis
    by cases (use ok D(1,2) in \<open>auto simp: fresh_ok_def cache_step_refl cache_step_def cache_ok_def ca0 held_def entries_def aged_def ac_simps\<close>)
qed

section \<open>Groups and columns\<close>

definition col_list :: "column \<Rightarrow> nat list" where
  "col_list c = (case col_str c of None \<Rightarrow> [] | Some ps \<Rightarrow> ps)"

definition group_list :: "pkg_group \<Rightarrow> nat list" where
  "group_list g = concat (map col_list (pg_cols g))"

lemma free_concat: "fold (\<lambda>x. fold free_text (f x)) xs ca = fold free_text (concat (map f xs)) ca"
  by (induction xs arbitrary: ca) simp_all

lemma free_column_list: "free_column = (\<lambda>c. fold free_text (col_list c))"
  by (auto simp: free_column_def col_list_def fun_eq_iff split: option.split)

lemma free_group_list: "free_group = (\<lambda>g. fold free_text (group_list g))"
  by (simp add: free_group_def drop_columns_def group_list_def fun_eq_iff free_column_list free_concat)

lemma nonnull_concat: "nonnull (concat (map f xs)) = (\<Sum>x \<leftarrow> xs. nonnull (f x))"
  by (induction xs) simp_all

lemma col_ptrs_list: "col_ptrs c = nonnull (col_list c)"
  by (simp add: col_ptrs_def col_list_def split: option.split)

lemma group_ptrs_list: "group_ptrs g = nonnull (group_list g)"
  by (simp add: group_ptrs_def group_list_def nonnull_concat col_ptrs_list)

lemma sum_ptrs_split:
  "(\<Sum>g \<leftarrow> gs. group_ptrs g) = (\<Sum>g \<leftarrow> filter P gs. group_ptrs g) + (\<Sum>g \<leftarrow> filter (\<lambda>g. \<not> P g) gs. group_ptrs g)"
  by (induction gs) auto

lemma free_groups_form:
  "free_groups_of root ca = ca\<lparr>ca_groups := filter (\<lambda>g. group_root g \<noteq> root) (ca_groups ca),
     ca_text := ca_text ca |` (- set (concat (map group_list (filter (\<lambda>g. group_root g = root) (ca_groups ca))))),
     ca_slots := filter (\<lambda>s. ARPC_ROOT (ps_id s) \<noteq> root) (ca_slots ca)\<rparr>"
  unfolding free_groups_of_def Let_def free_group_list free_concat free_texts by simp

lemma step_cleared:
  assumes ok: "cache_ok ca" and held: "held ca = nonnull ps + held ca'"
    and ca': "ca_text ca' = ca_text ca |` (- set ps)" "ca_next ca' = ca_next ca" "entries ca' = entries ca"
    and groups: "distinct (map pg_addr (ca_groups ca'))" "pg_addr ` set (ca_groups ca') \<subseteq> pg_addr ` set (ca_groups ca)"
  shows "cache_step kept ca ca'"
proof -
  have mem: "mem_ok (ca_text ca') (held ca')"
    using ok held mem_ok_clear [of "ca_text ca" ps "held ca'"] by (simp add: cache_ok_def ca')
  have dom: "dom (ca_text ca') \<subseteq> {..<ca_next ca'}" proof -
    have "dom (ca_text ca') \<subseteq> dom (ca_text ca)" by (auto simp: ca' restrict_map_def split: if_splits)
    also have "\<dots> \<subseteq> {..<ca_next ca'}" using ok by (simp add: cache_ok_def ca'(2))
    finally show ?thesis .
  qed
  have "pg_addr ` set (ca_groups ca) \<subseteq> {..<ca_next ca'}" using ok by (simp add: cache_ok_def ca'(2))
  from subset_trans [OF groups(2) this] have "cache_ok ca'" using ok mem dom groups(1) by (simp add: cache_ok_def ca'(2,3))
  moreover have "aged ca ca'" by (simp add: aged_def ca'(1,2) restrict_map_def)
  ultimately show ?thesis by (simp add: cache_step_def ca'(3))
qed

lemma step_free_groups:
  assumes ok: "cache_ok ca"
  shows "cache_step kept ca (free_groups_of root ca)"
proof (rule step_cleared [OF ok])
  let ?dead = "filter (\<lambda>g. group_root g = root) (ca_groups ca)"
  show "held ca = nonnull (concat (map group_list ?dead)) + held (free_groups_of root ca)"
    unfolding held_def free_groups_form nonnull_concat group_ptrs_list [symmetric]
    using sum_ptrs_split [of "ca_groups ca" "\<lambda>g. group_root g = root"] by simp
  show "distinct (map pg_addr (ca_groups (free_groups_of root ca)))"
    using ok by (simp add: free_groups_form cache_ok_def distinct_map_filter)
qed (auto simp: free_groups_form entries_def)

lemma take_column_ptrs: "take_column field cs = Some (c, rest) \<Longrightarrow> (\<Sum>c \<leftarrow> cs. col_ptrs c) = col_ptrs c + (\<Sum>c \<leftarrow> rest. col_ptrs c)"
  by (induction cs arbitrary: rest) (auto split: if_splits simp: ac_simps)

lemma group_upd_split:
  assumes "distinct (map pg_addr gs)" and "find (\<lambda>g. pg_addr g = a) gs = Some g"
  obtains xs ys where "gs = xs @ g # ys" and "map (\<lambda>g. if pg_addr g = a then f g else g) gs = xs @ f g # ys"
proof -
  from assms(2) obtain i where i: "i < length gs" "pg_addr (gs ! i) = a" "g = gs ! i" by (auto simp: find_Some_iff)
  note split = id_take_nth_drop [OF i(1)]
  have "pg_addr x \<noteq> a" if "x \<in> set (take i gs) \<union> set (drop (Suc i) gs)" for x
  proof -
    have "distinct (map pg_addr (take i gs @ gs ! i # drop (Suc i) gs))" using assms(1) split by simp
    then show ?thesis using that i(2) by (force simp: image_iff)
  qed
  then have "map (\<lambda>g. if pg_addr g = a then f g else g) (take i gs) = take i gs"
      "map (\<lambda>g. if pg_addr g = a then f g else g) (drop (Suc i) gs) = drop (Suc i) gs"
    by (auto intro!: map_idI)
  then have "map (\<lambda>g. if pg_addr g = a then f g else g) gs = take i gs @ f g # drop (Suc i) gs"
    using i(2,3) by (subst split) simp
  with split i(3) that show ?thesis by metis
qed

lemma upd_group_fields [simp]:
  "ca_owned (upd_group a f ca) = ca_owned ca" "ca_detached (upd_group a f ca) = ca_detached ca"
  "ca_static (upd_group a f ca) = ca_static ca" "ca_text (upd_group a f ca) = ca_text ca"
  "ca_next (upd_group a f ca) = ca_next ca" "ca_slots (upd_group a f ca) = ca_slots ca"
  by (simp_all add: upd_group_def)

lemma upd_group_held:
  assumes "cache_ok ca" and "group_at a ca = Some g"
  shows "held (upd_group a f ca) + group_ptrs g = held ca + group_ptrs (f g)"
proof -
  from assms obtain xs ys where "ca_groups ca = xs @ g # ys"
      "map (\<lambda>g. if pg_addr g = a then f g else g) (ca_groups ca) = xs @ f g # ys"
    using group_upd_split [of "ca_groups ca" a g f] by (auto simp: cache_ok_def group_at_def)
  then show ?thesis by (simp add: held_def upd_group_def ac_simps)
qed

lemma upd_group_addrs: "(\<And>g. pg_addr (f g) = pg_addr g) \<Longrightarrow> map pg_addr (ca_groups (upd_group a f ca)) = map pg_addr (ca_groups ca)"
  by (auto simp: upd_group_def)

lemma step_drop_column:
  assumes ok: "cache_ok ca"
  shows "cache_step kept ca (arpc_drop_column u pkg field ca)"
proof (cases "\<exists>s g c rest. find_slot u pkg (ca_slots ca) = Some s \<and> group_at (ps_group s) ca = Some g \<and> take_column field (pg_cols g) = Some (c, rest)")
  case True
  then obtain s g c rest where s: "find_slot u pkg (ca_slots ca) = Some s" "group_at (ps_group s) ca = Some g"
      "take_column field (pg_cols g) = Some (c, rest)" by blast
  let ?f = "\<lambda>g. g\<lparr>pg_cols := rest\<rparr>"
  let ?ca = "upd_group (ps_group s) ?f ca"
  have form: "arpc_drop_column u pkg field ca = ?ca\<lparr>ca_text := ca_text ca |` (- set (col_list c))\<rparr>"
    using s by (simp add: arpc_drop_column_def free_column_list free_texts upd_group_def)
  have "held ?ca + group_ptrs g = held ca + group_ptrs (?f g)" by (rule upd_group_held [OF ok s(2)])
  moreover have "group_ptrs g = col_ptrs c + group_ptrs (?f g)" using take_column_ptrs [OF s(3)] by (simp add: group_ptrs_def)
  ultimately have "held ca = nonnull (col_list c) + held ?ca" by (simp add: col_ptrs_list ac_simps)
  moreover have addrs: "map pg_addr (ca_groups ?ca) = map pg_addr (ca_groups ca)" by (rule upd_group_addrs) simp
  ultimately show ?thesis unfolding form
  proof (intro step_cleared [OF ok])
    show "distinct (map pg_addr (ca_groups (?ca\<lparr>ca_text := ca_text ca |` (- set (col_list c))\<rparr>)))"
      using ok addrs by (simp add: cache_ok_def)
    show "pg_addr ` set (ca_groups (?ca\<lparr>ca_text := ca_text ca |` (- set (col_list c))\<rparr>)) \<subseteq> pg_addr ` set (ca_groups ca)"
      using arg_cong [OF addrs, of set] by simp
  qed (simp_all add: held_def entries_def upd_group_def)
next
  case False
  then have "arpc_drop_column u pkg field ca = ca"
    by (auto simp: arpc_drop_column_def Option.bind_eq_Some_conv split: option.splits)
  with ok show ?thesis by (simp add: cache_step_refl)
qed

lemma step_grown:
  assumes "cache_ok ca" and "mem_ok (ca_text ca') (held ca')" and "aged ca ca'" and "dom (ca_text ca') \<subseteq> {..<ca_next ca'}"
    and "entries ca' = entries ca" and "distinct (map pg_addr (ca_groups ca'))" and "pg_addr ` set (ca_groups ca') \<subseteq> {..<ca_next ca'}"
  shows "cache_step kept ca ca'"
proof -
  have "0 < ca_next ca'" using assms(1,3) by (auto simp: cache_ok_def aged_def)
  with assms show ?thesis by (simp add: cache_step_def cache_ok_def)
qed

lemma step_add_strings:
  assumes ok: "cache_ok ca" and g: "group_at a ca = Some g"
  shows "cache_step kept ca (add_strings alloc a field n ss ca)"
proof -
  obtain ps ca1 where dup: "dup_all alloc ss ca = (ps, ca1)" by fastforce
  note D = dup_all_mem [OF cache_ok_fresh [OF ok] dup]
  then obtain t m where ca1: "ca1 = ca\<lparr>ca_text := t, ca_next := m\<rparr>" by blast
  let ?c = "\<lparr>col_field = field, col_str = Some (ps @ replicate (n - length ps) 0), col_num = None\<rparr>"
  let ?f = "\<lambda>g. g\<lparr>pg_cols := ?c # pg_cols g\<rparr>"
  have form: "add_strings alloc a field n ss ca = (upd_group a ?f ca)\<lparr>ca_text := t, ca_next := m\<rparr>"
    by (simp add: add_strings_def dup add_column_def ca1 upd_group_def)
  have "held (upd_group a ?f ca) + group_ptrs g = held ca + group_ptrs (?f g)" by (rule upd_group_held [OF ok g])
  moreover have "group_ptrs (?f g) = nonnull ps + group_ptrs g" by (simp add: group_ptrs_def col_ptrs_def)
  ultimately have "held (upd_group a ?f ca) = nonnull ps + held ca" by (simp add: ac_simps)
  then have "held (add_strings alloc a field n ss ca) = nonnull ps + held ca" by (simp add: form held_def)
  moreover have addrs: "map pg_addr (ca_groups (upd_group a ?f ca)) = map pg_addr (ca_groups ca)" by (rule upd_group_addrs) simp
  moreover from this have "pg_addr ` set (ca_groups (upd_group a ?f ca)) = pg_addr ` set (ca_groups ca)" by (metis set_map)
  moreover have "{..<ca_next ca} \<subseteq> {..<m}" using D by (auto simp: aged_def ca1)
  then have "pg_addr ` set (ca_groups ca) \<subseteq> {..<m}" using ok unfolding cache_ok_def by (meson order_trans)
  moreover have "distinct (map pg_addr (ca_groups (upd_group a ?f ca)))" unfolding addrs using ok by (simp add: cache_ok_def)
  moreover have "aged ca ((upd_group a ?f ca)\<lparr>ca_text := t, ca_next := m\<rparr>)" using D by (simp add: aged_def ca1)
  ultimately show ?thesis using D
    by (intro step_grown [OF ok]) (simp_all add: fresh_ok_def ca1 form entries_def)
qed

lemma step_group_new:
  assumes ok: "cache_ok ca" and run: "group_new u alloc ids ca = (g, ca')"
  shows "cache_step kept ca ca'"
proof -
  let ?ca = "\<lambda>s. ca\<lparr>ca_slots := s, ca_next := Suc (ca_next ca), ca_groups := \<lparr>pg_addr = ca_next ca, pg_ids = ids, pg_cols = []\<rparr> # ca_groups ca\<rparr>"
  have "{..<ca_next ca} \<subseteq> {..<Suc (ca_next ca)}" by auto
  with ok have "dom (ca_text ca) \<subseteq> {..<Suc (ca_next ca)}" "pg_addr ` set (ca_groups ca) \<subseteq> {..<Suc (ca_next ca)}"
    unfolding cache_ok_def by (meson order_trans)+
  moreover have "ca_next ca \<notin> pg_addr ` set (ca_groups ca)" using ok unfolding cache_ok_def by (meson lessThan_iff less_irrefl subsetD)
  ultimately have new: "cache_step kept ca (?ca s)" for s
    using ok by (intro step_grown [OF ok]) (simp_all add: cache_ok_def held_def group_ptrs_def entries_def aged_def)
  show ?thesis using run new cache_step_refl [OF ok] by (auto simp: group_new_def Let_def split: if_splits)
qed

section \<open>Sequences of operations\<close>

datatype cache_op =
    Intern "64 word" string "string option" | Cache "64 word" string nat nat | Static "string option"
  | Detach "64 word" bool "string list" | Purge_Owner "64 word" | Purge_Root "64 word"
  | Register "(64 word) list" | For_Pkg "64 word" | Strings "64 word" string "string option list" | Drop_Column "64 word" string

text \<open>\<^const>\<open>Strings\<close> is a column fetched for the group a package is in.\<close>

fun run_cache_op :: "uthash \<Rightarrow> allocator \<Rightarrow> cache_op \<Rightarrow> cache \<Rightarrow> cache" where
  "run_cache_op u alloc (Intern owner key v) ca = snd (intern u alloc owner key v ca)"
| "run_cache_op u alloc (Cache owner key v f) ca = snd (arpc_cache u alloc owner key v f ca)"
| "run_cache_op u alloc (Static so) ca = snd (keep_static alloc so ca)"
| "run_cache_op u alloc (Detach owner whole keys) ca = arpc_detach owner whole keys ca"
| "run_cache_op u alloc (Purge_Owner owner) ca = arpc_purge_owner owner ca"
| "run_cache_op u alloc (Purge_Root handle) ca = forget_root (ARPC_ROOT handle) ca"
| "run_cache_op u alloc (Register ids) ca = arpc_pkg_group_register u alloc ids ca"
| "run_cache_op u alloc (For_Pkg hid) ca = snd (group_for_pkg u alloc hid ca)"
| "run_cache_op u alloc (Strings hid field ss) ca =
     (case group_for_pkg u alloc hid ca of
        (None, ca1) \<Rightarrow> ca1
      | (Some (a, slot), ca1) \<Rightarrow>
          (case group_at a ca1 of None \<Rightarrow> ca1 | Some g \<Rightarrow> add_strings alloc a field (length (pg_ids g)) ss ca1))"
| "run_cache_op u alloc (Drop_Column pkg field) ca = arpc_drop_column u pkg field ca"

fun op_keeps :: "cache_op \<Rightarrow> owned \<Rightarrow> bool" where
  "op_keeps (Purge_Owner owner) e = (o_owner e \<noteq> owner)"
| "op_keeps (Purge_Root handle) e = (ARPC_ROOT (o_owner e) \<noteq> ARPC_ROOT handle)"
| "op_keeps _ e = True"

lemma cache_step_ok: "cache_step kept ca ca' \<Longrightarrow> cache_ok ca'"
  by (simp add: cache_step_def)

lemma step_for_pkg:
  assumes "cache_ok ca" and "group_for_pkg u alloc hid ca = (gs, ca')"
  shows "cache_step kept ca ca'"
  using assms step_group_new [OF assms(1)] by (auto simp: group_for_pkg_def cache_step_refl split: option.splits prod.splits)

lemma cache_op_step:
  assumes ok: "cache_ok ca" and u: "uthash_ok u"
  shows "cache_step (op_keeps op) ca (run_cache_op u alloc op ca)"
proof (cases op)
  case (Purge_Owner owner)
  then show ?thesis using step_purge [OF ok, of "owned_by owner"] by (simp add: arpc_purge_owner_def owned_by_def cache_step_def)
next
  case (Purge_Root handle)
  note p = step_purge [OF ok, of "under_root (ARPC_ROOT handle)"]
  from cache_step_trans [OF p step_free_groups [OF cache_step_ok [OF p]]] Purge_Root
  show ?thesis by (simp add: forget_root_def under_root_def cache_step_def)
next
  case (Intern owner key v)
  then show ?thesis using step_intern [OF ok u] by (metis op_keeps.simps(3) prod.collapse run_cache_op.simps(1) cache_step_mono)
next
  case (Register ids)
  then show ?thesis using step_group_new [OF ok] cache_step_refl [OF ok]
    by (auto simp: arpc_pkg_group_register_def split: if_splits intro: cache_step_mono) (metis prod.collapse)
next
  case (Strings hid field ss)
  obtain gs ca1 where g: "group_for_pkg u alloc hid ca = (gs, ca1)" by fastforce
  note s = step_for_pkg [OF ok g]
  from Strings g s cache_step_trans [OF s step_add_strings [OF cache_step_ok [OF s]]] show ?thesis
    by (auto split: option.splits prod.splits)
qed (use step_cache [OF ok] step_static [OF ok] step_detach [OF ok] step_drop_column [OF ok] step_for_pkg [OF ok] in
    \<open>simp_all, (metis prod.collapse)+\<close>)

text \<open>A string handed out for an owner is there, unchanged, until the owner or its root is purged.\<close>

lemma string_step:
  assumes u: "uthash_ok u" and ok: "cache_ok ca" and e: "string_entry owner key p \<in> entries ca" "ca_text ca p = Some t"
    and op: "op_keeps op (string_entry owner key p)"
  shows "string_entry owner key p \<in> entries (run_cache_op u alloc op ca)" and "ca_text (run_cache_op u alloc op ca) p = Some t"
proof -
  let ?e = "string_entry owner key p" and ?ca = "run_cache_op u alloc op ca"
  note step = cache_op_step [OF ok u, of op alloc]
  show e1: "?e \<in> entries ?ca" using step e(1) op by (auto simp: cache_step_def)
  have p: "p \<noteq> 0" "p < ca_next ca" using ok e(2) by (auto simp: cache_ok_def mem_ok_def intro: ccontr)
  then have "p \<in># entry_ptrs (ca_owned ?ca) + entry_ptrs (ca_detached ?ca)"
    using e1 by (force simp: entry_ptrs_def nonnull_def entries_def string_entry_def)
  then have "p \<in># held ?ca" by (simp add: held_def)
  then have "ca_text ?ca p \<noteq> None" using cache_step_ok [OF step] mem_ok_iff by (auto simp: cache_ok_def)
  then show "ca_text ?ca p = Some t" using step p(2) e(2) by (auto simp: cache_step_def aged_def)
qed

interpretation caches: kept_by "run_cache_op u alloc" "\<lambda>_. True" "\<lambda>ca. uthash_ok u \<and> cache_ok ca"
  by unfold_locales (auto intro: cache_step_ok cache_op_step)

interpretation strings: kept_by "run_cache_op u alloc" "\<lambda>op. op_keeps op (string_entry owner key p)"
    "\<lambda>ca. uthash_ok u \<and> cache_ok ca \<and> string_entry owner key p \<in> entries ca \<and> ca_text ca p = Some t"
  by unfold_locales (auto intro: cache_step_ok cache_op_step string_step)

lemma string_stays:
  assumes "uthash_ok u" and "cache_ok ca" and "string_entry owner key p \<in> entries ca" and "ca_text ca p = Some t"
    and "\<forall>op \<in> set ops. op_keeps op (string_entry owner key p)"
  shows "string_entry owner key p \<in> entries (fold (run_cache_op u alloc) ops ca)"
    and "ca_text (fold (run_cache_op u alloc) ops ca) p = Some t"
  using strings.run_keeps [of u ca owner key p t ops alloc] assms by auto

lemma run_ok: "uthash_ok u \<Longrightarrow> cache_ok ca \<Longrightarrow> cache_ok (fold (run_cache_op u alloc) ops ca)"
  using caches.run_keeps [of u ca ops alloc] by simp

text \<open>A string that was handed out is there until its owner or its root is purged, and goes with either.\<close>

lemma string_until_purged:
  assumes ok: "cache_ok ca" and u: "uthash_ok u" and run: "intern u alloc owner key value ca = (p, ca1)" and p: "p \<noteq> 0"
    and after: "\<forall>op \<in> set after. op_keeps op (string_entry owner key p)"
  shows "\<exists>v. value = Some v \<and> ca_text (fold (run_cache_op u alloc) after ca1) p = Some (cstr v)"
    and "ca_text (arpc_purge_owner owner (fold (run_cache_op u alloc) after ca1)) p = None"
    and "ca_text (forget_root (ARPC_ROOT owner) (fold (run_cache_op u alloc) after ca1)) p = None"
proof -
  let ?ca = "fold (run_cache_op u alloc) after ca1"
  have ok1: "cache_ok ca1" and i: "interned owner key value p ca1" using step_intern [OF ok u run, where kept = "\<lambda>_. True"] cache_step_ok by auto
  then obtain v where v: "value = Some v" "string_entry owner key p \<in> entries ca1" "ca_text ca1 p = Some (cstr v)"
    using p by (auto simp: interned_def entries_def)
  have S: "string_entry owner key p \<in> entries ?ca" "ca_text ?ca p = Some (cstr v)" using string_stays [OF u ok1 v(2,3) after] by auto
  then show "\<exists>v. value = Some v \<and> ca_text ?ca p = Some (cstr v)" using v(1) by blast
  have ok2: "cache_ok ?ca" by (rule run_ok [OF u ok1])
  have "p \<in> o_value ` {e \<in> entries ?ca. o_is_str e \<and> owned_by owner e}" "p \<in> o_value ` {e \<in> entries ?ca. o_is_str e \<and> under_root (ARPC_ROOT owner) e}"
    using S(1) by (force simp: string_entry_def owned_by_def under_root_def)+
  then show "ca_text (arpc_purge_owner owner ?ca) p = None" "ca_text (forget_root (ARPC_ROOT owner) ?ca) p = None"
    unfolding arpc_purge_owner_def forget_root_def purge_form [OF ok2] free_groups_form
    by (auto simp: restrict_map_def entries_def)
qed

end
