(* ===== verification/Cache_Keys.thy ===== *)
theory Cache_Keys
  imports Cache_Inv
begin

text \<open>
  What the keys of the client's caches promise when there is memory: a getter's repeated answer is
  the same pointer, and the slots of packages always refer to their group.

  The names of the getters that return strings are disjoint from the others; \<open>strkey\<close> tells them apart.
\<close>

section \<open>Keys\<close>

definition key_name :: "owned \<Rightarrow> string" where
  "key_name e = drop 8 (o_k e)"

text \<open>No key is in the table twice, and no two strings of one key say the same.\<close>

definition uniq :: "cache \<Rightarrow> bool" where
  "uniq ca \<longleftrightarrow> (\<forall>e \<in> entries ca. \<forall>f \<in> entries ca. o_is_str e \<and> o_is_str f \<and> o_k e = o_k f \<and>
     ca_text ca (o_value e) \<noteq> None \<and> ca_text ca (o_value e) = ca_text ca (o_value f) \<longrightarrow> o_value e = o_value f)"

lemma uniqD:
  assumes "uniq ca" and "e \<in> entries ca" "f \<in> entries ca" and "o_is_str e" "o_is_str f" and "o_k e = o_k f"
    and "ca_text ca (o_value e) = Some t" "ca_text ca (o_value f) = Some t"
  shows "o_value e = o_value f"
  using assms unfolding uniq_def by (metis option.distinct(1))

definition keys_ok :: "(string \<Rightarrow> bool) \<Rightarrow> cache \<Rightarrow> bool" where
  "keys_ok strkey ca \<longleftrightarrow> distinct (map o_k (ca_owned ca)) \<and> (\<forall>e \<in> entries ca. o_is_str e = strkey (key_name e)) \<and> uniq ca"

fun op_typed :: "(string \<Rightarrow> bool) \<Rightarrow> cache_op \<Rightarrow> bool" where
  "op_typed strkey (Intern owner key v) = strkey (cstr key)"
| "op_typed strkey (Cache owner key v f) = (\<not> strkey (cstr key))"
| "op_typed strkey _ = True"

lemma keys_ok_init: "keys_ok strkey cache_init"
  by (simp add: keys_ok_def cache_init_def entries_def uniq_def)

lemma entry_text:
  assumes "cache_ok ca" and "e \<in> entries ca" and "o_is_str e" and "o_value e \<noteq> 0"
  shows "ca_text ca (o_value e) \<noteq> None" and "o_value e < ca_next ca"
proof -
  have "o_value e \<in># entry_ptrs (ca_owned ca) + entry_ptrs (ca_detached ca)"
    using assms(2-4) by (force simp: entry_ptrs_def nonnull_def entries_def)
  then have "o_value e \<in># held ca" by (simp add: held_def)
  then show "ca_text ca (o_value e) \<noteq> None" using assms(1) mem_ok_iff by (auto simp: cache_ok_def)
  then show "o_value e < ca_next ca" using assms(1) by (auto simp: cache_ok_def)
qed

text \<open>What an entry says does not change while it is there.\<close>

lemma entry_text_kept:
  assumes "cache_ok ca" and "cache_ok ca'" and "aged ca ca'" and "e \<in> entries ca" and "o_is_str e" and "ca_text ca' (o_value e) \<noteq> None"
  shows "ca_text ca' (o_value e) = ca_text ca (o_value e)"
proof -
  have "o_value e \<noteq> 0" using assms(2,6) by (auto simp: cache_ok_def mem_ok_def)
  from entry_text(2) [OF assms(1,4,5) this] assms(3,6) show ?thesis by (auto simp: aged_def)
qed

lemma uniq_sub:
  assumes "cache_ok ca" and "cache_ok ca'" and "aged ca ca'" and "entries ca' \<subseteq> entries ca" and "uniq ca"
  shows "uniq ca'"
  unfolding uniq_def
proof (intro ballI impI)
  fix e f assume ef: "e \<in> entries ca'" "f \<in> entries ca'" "o_is_str e \<and> o_is_str f \<and> o_k e = o_k f \<and>
      ca_text ca' (o_value e) \<noteq> None \<and> ca_text ca' (o_value e) = ca_text ca' (o_value f)"
  then have nz: "ca_text ca' (o_value e) \<noteq> None" "ca_text ca' (o_value f) \<noteq> None" and str: "o_is_str e" "o_is_str f" by metis+
  note T = entry_text_kept [OF assms(1-3) subsetD [OF assms(4) ef(1)] str(1) nz(1)]
    entry_text_kept [OF assms(1-3) subsetD [OF assms(4) ef(2)] str(2) nz(2)]
  with ef assms(4,5) show "o_value e = o_value f" unfolding uniq_def by (metis subsetD)
qed

text \<open>Entries go or move out of the table.\<close>

lemma keys_shrunk:
  assumes "cache_ok ca" and "cache_step kept ca ca'" and "keys_ok strkey ca" and "entries ca' \<subseteq> entries ca"
    and "distinct (map o_k (ca_owned ca'))"
  shows "keys_ok strkey ca'"
  using assms uniq_sub [OF assms(1), of ca'] by (auto simp: keys_ok_def cache_step_def)

lemma retake_None: "retake wanted room ds = None \<Longrightarrow> \<forall>q \<in> set ds. \<not> (wanted q \<and> room q)"
  by (induction ds) (auto split: if_splits)

lemma find_owned_None:
  assumes "uthash_ok u" and "\<forall>n. alloc n" and "find_owned u alloc owner key ca = None"
  shows "key_bytes owner key \<notin> o_k ` set (ca_owned ca)"
  using assms unfolding uthash_ok_def find_owned_def Let_def by (metis (mono_tags, lifting) list.set_map option.case(1))

text \<open>With memory an entry is always made.\<close>

lemma add_owned_mem:
  assumes "\<forall>n. alloc n" and "\<forall>ks k. uh_room u ks k"
  shows "add_owned u alloc owner key ca = (Some (length (ca_owned ca)), ca\<lparr>ca_owned := ca_owned ca @
       [\<lparr>o_k = key_bytes owner key, o_owner = owner, o_value = 0, o_release = None, o_is_str = False\<rparr>]\<rparr>)"
  using assms by (simp add: add_owned_def make_key_def)

lemma key_is_name: "o_k e = key_bytes owner key \<Longrightarrow> key_is e key \<and> key_name e = cstr key"
  by (simp add: key_is_def key_name_def key_bytes_def id_bytes_def)

lemma owner_of_key: "entry_ok e \<Longrightarrow> o_k e = key_bytes owner key \<Longrightarrow> o_owner e = owner"
  using key_bytes_ok(1) id_bytes_inj by (metis entry_ok_def)

lemma keys_intern_new:
  assumes ok: "cache_ok ca" and keys: "keys_ok strkey ca" and mem: "\<forall>n. alloc n" "\<forall>ks k. uh_room u ks k"
    and str: "strkey (cstr key)" and free: "key_bytes owner key \<notin> o_k ` set (ca_owned ca)"
    and run: "intern_new u alloc owner key (Some v) ca = (p, ca')"
  shows "keys_ok strkey ca' \<and> p \<noteq> 0"
proof (cases "retake (\<lambda>q. o_is_str q \<and> o_owner q = owner \<and> key_is q key \<and> says ca q (Some v))
             (\<lambda>q. uh_room u (map o_k (ca_owned ca)) (o_k q)) (ca_detached ca)")
  case (Some qr)
  obtain q rest where q: "qr = (q, rest)" by fastforce
  note D = retake_SomeD [OF Some [unfolded q]]
  have r: "p = o_value q" "ca' = ca\<lparr>ca_owned := ca_owned ca @ [q], ca_detached := rest\<rparr>"
    using run Some q by (simp_all add: intern_new_def)
  have "entry_ok q" using ok D by (auto simp: cache_ok_def entries_def)
  then have "o_k q = key_bytes owner key" using D key_is_bytes by metis
  then have "distinct (map o_k (ca_owned ca'))" using keys free by (auto simp: keys_ok_def r(2))
  moreover have "entries ca' \<subseteq> entries ca" using D by (auto simp: entries_def r(2))
  ultimately show ?thesis using keys_shrunk [OF ok _ keys] step_intern_new [OF ok run] D says_text [of ca q "Some v"] r(1) by blast
next
  case None
  let ?e = "\<lparr>o_k = key_bytes owner key, o_owner = owner, o_value = 0, o_release = None, o_is_str = False\<rparr>"
  have r: "p = ca_next ca" "ca' = ca\<lparr>ca_owned := ca_owned ca @ [string_entry owner key p],
      ca_text := (ca_text ca)(p \<mapsto> cstr v), ca_next := Suc (ca_next ca)\<rparr>"
    using run None mem by (auto simp: intern_new_def add_owned_mem arpc_dup_def strdup_def string_entry_def list_update_append nth_append)
  have new: "p \<noteq> 0" "ca_text ca p = None" using ok by (auto simp: cache_ok_def r(1))
  have ents: "entries ca' = insert (string_entry owner key p) (entries ca)" by (auto simp: r(2) entries_def)
  have none: "ca_text ca (o_value e) \<noteq> Some (cstr v)" if e: "e \<in> entries ca" "o_is_str e" "o_k e = key_bytes owner key" for e
  proof
    assume t: "ca_text ca (o_value e) = Some (cstr v)"
    have "e \<in> set (ca_detached ca)" using e free by (auto simp: entries_def image_iff)
    moreover have "o_owner e = owner" using owner_of_key e ok by (auto simp: cache_ok_def)
    moreover have "o_value e \<noteq> 0" using t ok by (auto simp: cache_ok_def mem_ok_def)
    ultimately show False using retake_None [OF None] e t key_is_name [OF e(3)] mem(2) by (auto simp: says_def)
  qed
  have old: "ca_text ca' (o_value e) = ca_text ca (o_value e)" if "e \<in> entries ca" "o_is_str e" for e
    using entry_text(2) [OF ok that] new by (auto simp: r)
  have "uniq ca'"
    unfolding uniq_def
  proof (intro ballI impI)
    fix e f assume ef: "e \<in> entries ca'" "f \<in> entries ca'" "o_is_str e \<and> o_is_str f \<and> o_k e = o_k f \<and>
        ca_text ca' (o_value e) \<noteq> None \<and> ca_text ca' (o_value e) = ca_text ca' (o_value f)"
    have n: "o_k (string_entry owner key p) = key_bytes owner key" "o_value (string_entry owner key p) = p"
        "ca_text ca' p = Some (cstr v)" by (simp_all add: string_entry_def r(2))
    consider "e \<in> entries ca" "f \<in> entries ca" | "e = f" | "e = string_entry owner key p" "f \<in> entries ca"
      | "f = string_entry owner key p" "e \<in> entries ca"
      using ef(1,2) unfolding ents insert_iff by metis
    then show "o_value e = o_value f"
    proof cases
      case 1
      obtain t where "ca_text ca' (o_value e) = Some t" "ca_text ca' (o_value f) = Some t" using ef(3) by (metis not_None_eq)
      with 1 ef(3) have "ca_text ca (o_value e) = Some t" "ca_text ca (o_value f) = Some t" using old [of e] old [of f] by simp_all
      with 1 ef(3) keys show ?thesis by (intro uniqD [of ca e f t]) (simp_all only: keys_ok_def)
    next
      case 3
      with ef(3) n none [of f] old [of f] show ?thesis by simp
    next
      case 4
      with ef(3) n none [of e] old [of e] show ?thesis by simp
    qed simp
  qed
  moreover have "distinct (map o_k (ca_owned ca'))" using keys free by (auto simp: keys_ok_def r(2) string_entry_def)
  moreover have "o_is_str e = strkey (key_name e)" if "e \<in> entries ca'" for e
    using that keys str key_is_name [of "string_entry owner key p" owner key] unfolding ents by (auto simp: keys_ok_def string_entry_def)
  ultimately show ?thesis using new by (simp add: keys_ok_def)
qed

lemma remove_at_distinct:
  assumes "i < length xs" and "distinct (map f xs)"
  shows "distinct (map f (remove_at i xs))" and "f (xs ! i) \<notin> f ` set (remove_at i xs)"
proof -
  have "distinct (map f (take i xs @ xs ! i # drop (Suc i) xs))" using assms by (simp add: id_take_nth_drop [symmetric])
  then show "distinct (map f (remove_at i xs))" "f (xs ! i) \<notin> f ` set (remove_at i xs)" by (auto simp: remove_at_def)
qed

lemma keys_intern:
  assumes ok: "cache_ok ca" and keys: "keys_ok strkey ca" and u: "uthash_ok u" and mem: "\<forall>n. alloc n" "\<forall>ks k. uh_room u ks k"
    and str: "strkey (cstr key)" and run: "intern u alloc owner key (Some v) ca = (p, ca')"
  shows "keys_ok strkey ca' \<and> p \<noteq> 0"
proof (cases "find_owned u alloc owner key ca")
  case None
  with run keys_intern_new [OF ok keys mem str find_owned_None [OF u mem(1) None]] show ?thesis by (simp add: intern_def)
next
  case (Some i)
  note F = find_owned_Some [OF u Some]
  let ?e = "ca_owned ca ! i"
  have "?e \<in> entries ca" using F(1) by (simp add: entries_def)
  then have isstr: "o_is_str ?e" using keys str key_is_name [OF F(2)] by (simp add: keys_ok_def)
  show ?thesis
  proof (cases "says ca ?e (Some v)")
    case True
    with run Some isstr keys says_text show ?thesis by (auto simp: intern_def)
  next
    case False
    note d = step_detach_at [OF ok F(1), where kept = "\<lambda>_. True"]
    have dis: "distinct (map o_k (remove_at i (ca_owned ca)))" "o_k ?e \<notin> o_k ` set (remove_at i (ca_owned ca))"
      using remove_at_distinct [OF F(1), of o_k] keys by (simp_all add: keys_ok_def)
    have "entries (detach_at i ca) \<subseteq> entries ca"
      using remove_at_entries(2) [OF F(1)] by (auto simp: detach_at_def entries_def)
    then have "keys_ok strkey (detach_at i ca)" using keys_shrunk [OF ok d keys] dis(1) by (simp add: detach_at_def)
    from keys_intern_new [OF cache_step_ok [OF d] this mem str, of owner v p ca'] run Some isstr False dis(2) F(2)
    show ?thesis by (simp add: intern_def detach_at_def)
  qed
qed

text \<open>An interned string that is null is not a string: the server sent none.\<close>

fun op_has_value :: "cache_op \<Rightarrow> bool" where
  "op_has_value (Intern owner key v) = (v \<noteq> None)"
| "op_has_value _ = True"

lemma keys_cache:
  assumes ok: "cache_ok ca" and keys: "keys_ok strkey ca" and u: "uthash_ok u" and mem: "\<forall>n. alloc n" "\<forall>ks k. uh_room u ks k"
    and str: "\<not> strkey (cstr key)" and run: "arpc_cache u alloc owner key value f ca = (p, ca')"
  shows "keys_ok strkey ca' \<and> (\<exists>e \<in> set (ca_owned ca'). \<not> o_is_str e \<and> o_k e = key_bytes owner key \<and> o_value e = p)"
proof (cases "find_owned u alloc owner key ca")
  case None
  let ?e = "\<lparr>o_k = key_bytes owner key, o_owner = owner, o_value = value, o_release = Some (Release f), o_is_str = False\<rparr>"
  have r: "p = value" "ca' = ca\<lparr>ca_owned := ca_owned ca @ [?e]\<rparr>"
    using run None mem by (auto simp: arpc_cache_def add_owned_mem list_update_append nth_append)
  have ents: "entries ca' = insert ?e (entries ca)" by (auto simp: r(2) entries_def)
  have "uniq ca'" using keys unfolding uniq_def ents by (auto simp: keys_ok_def uniq_def r(2))
  moreover have "distinct (map o_k (ca_owned ca'))"
    using keys find_owned_None [OF u mem(1) None] by (auto simp: keys_ok_def r(2))
  moreover have "o_is_str e = strkey (key_name e)" if "e \<in> entries ca'" for e
    using that keys str key_is_name [of ?e owner key] unfolding ents by (auto simp: keys_ok_def)
  ultimately show ?thesis using r by (auto simp: keys_ok_def)
next
  case (Some i)
  note F = find_owned_Some [OF u Some]
  have e: "ca_owned ca ! i \<in> set (ca_owned ca)" using F(1) by simp
  then have "\<not> o_is_str (ca_owned ca ! i)" using keys str key_is_name [OF F(2)] by (simp add: keys_ok_def entries_def)
  with run Some have r: "p = o_value (ca_owned ca ! i)" "ca' = ca\<lparr>ca_released := ca_released ca @ [(f, value)]\<rparr>"
    by (auto simp: arpc_cache_def)
  have "uniq ca' = uniq ca" "entries ca' = entries ca" by (simp_all add: r(2) uniq_def entries_def)
  then have "keys_ok strkey ca'" using keys by (simp add: keys_ok_def) (simp add: r(2))
  with e F(2) r \<open>\<not> o_is_str (ca_owned ca ! i)\<close> show ?thesis by auto
qed

text \<open>The operations on groups leave the entries alone.\<close>

lemma dup_all_entries: "dup_all alloc ss ca = (ps, ca') \<Longrightarrow> ca_owned ca' = ca_owned ca \<and> ca_detached ca' = ca_detached ca"
  by (induction ss arbitrary: ca ps) (fastforce simp: arpc_dup_def split: option.splits prod.splits)+

fun on_entries :: "cache_op \<Rightarrow> bool" where
  "on_entries (Intern owner key v) = True"
| "on_entries (Cache owner key v f) = True"
| "on_entries (Detach owner whole keys) = True"
| "on_entries (Purge_Owner owner) = True"
| "on_entries (Purge_Root handle) = True"
| "on_entries _ = False"

lemma free_texts_entries [simp]:
  "ca_owned (fold free_text ps ca) = ca_owned ca" "ca_detached (fold free_text ps ca) = ca_detached ca"
  by (simp_all add: free_texts)

lemma off_entries:
  assumes "\<not> on_entries op"
  shows "ca_owned (run_cache_op u alloc op ca) = ca_owned ca \<and> ca_detached (run_cache_op u alloc op ca) = ca_detached ca"
  using assms
proof (cases op)
  case (Strings hid field ss)
  then show ?thesis
    by (auto simp: group_for_pkg_def group_new_def add_strings_def add_column_def Let_def split: option.splits prod.splits if_splits
        dest!: dup_all_entries)
qed (auto simp: keep_static_def arpc_dup_def arpc_pkg_group_register_def group_new_def group_for_pkg_def arpc_drop_column_def
    free_column_list Let_def split: option.splits prod.splits if_splits)

lemma keys_op:
  assumes ok: "cache_ok ca" and keys: "keys_ok strkey ca" and u: "uthash_ok u" and mem: "\<forall>n. alloc n" "\<forall>ks k. uh_room u ks k"
    and op: "op_typed strkey op" "op_has_value op"
  shows "keys_ok strkey (run_cache_op u alloc op ca)"
proof -
  note shrunk = keys_shrunk [OF ok cache_op_step [OF ok u, of op alloc] keys]
  have d: "distinct (map o_k (filter P (ca_owned ca)))" for P using keys by (simp add: keys_ok_def distinct_map_filter)
  show ?thesis
  proof (cases "on_entries op")
    case False
    from off_entries [OF this, of u alloc ca] show ?thesis
      by (intro shrunk) (use keys in \<open>simp_all add: entries_def keys_ok_def\<close>)
  next
    case True
    then show ?thesis
    proof (cases op)
      case (Intern owner key v)
      then obtain s where "v = Some s" using op(2) by auto
      with keys_intern [OF ok keys u mem, of key owner s] Intern op(1) show ?thesis by (metis op_typed.simps(1) prod.collapse run_cache_op.simps(1))
    next
      case (Cache owner key v f)
      with keys_cache [OF ok keys u mem, of key owner v f] op(1) show ?thesis by (metis op_typed.simps(2) prod.collapse run_cache_op.simps(2))
    next
      case (Detach owner whole ks)
      then show ?thesis by (intro shrunk) (auto simp: arpc_detach_def Let_def entries_def d)
    next
      case (Purge_Owner owner)
      then show ?thesis by (intro shrunk) (auto simp: arpc_purge_owner_def purge_form [OF ok] entries_def d)
    next
      case (Purge_Root handle)
      then show ?thesis by (intro shrunk) (auto simp: forget_root_def free_groups_form purge_form [OF ok] entries_def d)
    qed simp_all
  qed
qed

interpretation keyed: kept_by "run_cache_op u alloc" "\<lambda>op. op_typed strkey op \<and> op_has_value op"
    "\<lambda>ca. uthash_ok u \<and> (\<forall>n. alloc n) \<and> (\<forall>ks k. uh_room u ks k) \<and> cache_ok ca \<and> keys_ok strkey ca"
  by unfold_locales (auto intro: cache_step_ok cache_op_step keys_op)

lemma cache_run:
  assumes "uthash_ok u" and "\<forall>n. alloc n" and "\<forall>ks k. uh_room u ks k" and "cache_ok ca" and "keys_ok strkey ca"
    and "\<forall>op \<in> set ops. op_typed strkey op \<and> op_has_value op"
  shows "cache_ok (fold (run_cache_op u alloc) ops ca) \<and> keys_ok strkey (fold (run_cache_op u alloc) ops ca)"
  using keyed.run_keeps [of u alloc ca strkey ops] assms by auto

text \<open>Interning the same string again gives the pointer that was given out before.\<close>

lemma intern_again:
  assumes ok: "cache_ok ca" and keys: "keys_ok strkey ca" and u: "uthash_ok u" and mem: "\<forall>n. alloc n" "\<forall>ks k. uh_room u ks k"
    and str: "strkey (cstr key)" and e: "string_entry owner key p \<in> entries ca" "ca_text ca p = Some (cstr v)"
    and run: "intern u alloc owner key (Some v) ca = (q, ca')"
  shows "q = p"
proof -
  from keys_intern [OF ok keys u mem str run] have k: "keys_ok strkey ca'" "q \<noteq> 0" by auto
  have step: "cache_step (\<lambda>_. True) ca ca'" "interned owner key (Some v) q ca'" using step_intern [OF ok u run] by auto
  have q: "string_entry owner key q \<in> entries ca'" "ca_text ca' q = Some (cstr v)"
    using step(2) k(2) by (auto simp: interned_def entries_def)
  have e': "string_entry owner key p \<in> entries ca'" using step(1) e(1) by (simp add: cache_step_def)
  have "p \<noteq> 0" using e(2) ok by (auto simp: cache_ok_def mem_ok_def)
  then have "ca_text ca' p \<noteq> None"
    using entry_text(1) [OF cache_step_ok [OF step(1)] e'] by (simp add: string_entry_def)
  then have "ca_text ca' p = Some (cstr v)"
    using entry_text_kept [OF ok cache_step_ok [OF step(1)] _ e(1)] step(1) e(2) by (simp add: string_entry_def cache_step_def)
  then have "o_value (string_entry owner key p) = o_value (string_entry owner key q)"
    using k(1) by (intro uniqD [OF _ e' q(1), of "cstr v"]) (simp_all add: keys_ok_def string_entry_def q(2))
  then show ?thesis by (simp add: string_entry_def)
qed

section \<open>Lists\<close>

text \<open>An entry of the table that is not a string is what the lookup of its key gives.\<close>

lemma cached_value:
  assumes keys: "keys_ok strkey ca" and u: "uthash_ok u" and mem: "\<forall>n. alloc n"
    and e: "e \<in> set (ca_owned ca)" "\<not> o_is_str e" "o_k e = key_bytes owner key"
  shows "arpc_cached u alloc owner key ca = (True, o_value e)"
proof (cases "find_owned u alloc owner key ca")
  case None
  with find_owned_None [OF u mem None] e show ?thesis by (auto simp: image_iff)
next
  case (Some i)
  note F = find_owned_Some [OF u Some]
  have "ca_owned ca ! i = e"
    using keys e(1,3) F unfolding keys_ok_def distinct_map by (metis inj_onD nth_mem)
  with Some e(2) show ?thesis by (simp add: arpc_cached_def)
qed

text \<open>The operations that do not detach or purge the entry.\<close>

fun op_leaves :: "cache_op \<Rightarrow> owned \<Rightarrow> bool" where
  "op_leaves (Detach owner whole keys) e =
     (\<not> ((if whole then ARPC_ROOT (o_owner e) = ARPC_ROOT owner else o_owner e = owner) \<and> list_ex (key_names e) keys))"
| "op_leaves op e = op_keeps op e"

lemma remove_at_other: "i < length xs \<Longrightarrow> x \<in> set xs \<Longrightarrow> x \<noteq> xs ! i \<Longrightarrow> x \<in> set (remove_at i xs)"
  using id_take_nth_drop [of i xs] by (metis (no_types, lifting) Un_iff remove_at_def set_ConsD set_append)

lemma intern_new_owned: "intern_new u alloc owner key v ca = (p, ca') \<Longrightarrow> set (ca_owned ca) \<subseteq> set (ca_owned ca')"
  by (auto simp: intern_new_def add_owned_def make_key_def arpc_dup_def list_update_append split: option.splits if_splits prod.splits)

lemma live_stays:
  assumes ok: "cache_ok ca" and u: "uthash_ok u" and e: "e \<in> set (ca_owned ca)" "\<not> o_is_str e" and op: "op_leaves op e"
  shows "e \<in> set (ca_owned (run_cache_op u alloc op ca))"
proof (cases "on_entries op")
  case False
  with off_entries e(1) show ?thesis by metis
next
  case True
  then show ?thesis
  proof (cases op)
    case (Intern owner key v)
    obtain p ca' where run: "intern u alloc owner key v ca = (p, ca')" by fastforce
    consider "ca' = ca" | "intern_new u alloc owner key v ca = (p, ca')"
      | i where "find_owned u alloc owner key ca = Some i" "o_is_str (ca_owned ca ! i)" "intern_new u alloc owner key v (detach_at i ca) = (p, ca')"
      using run by (auto simp: intern_def Let_def split: option.splits if_splits)
    then have "e \<in> set (ca_owned ca')"
    proof cases
      case 3
      have "e \<in> set (ca_owned (detach_at i ca))"
        using remove_at_other [OF find_owned_Some(1) [OF u 3(1)] e(1)] e(2) 3(2) by (auto simp: detach_at_def)
      with intern_new_owned [OF 3(3)] show ?thesis by blast
    next
      case 2
      from intern_new_owned [OF this] e(1) show ?thesis by blast
    qed (use e(1) in simp)
    with Intern run show ?thesis by simp
  next
    case (Cache owner key v f)
    with e(1) show ?thesis
      by (auto simp: arpc_cache_def add_owned_def make_key_def Let_def list_update_append split: option.splits if_splits)
  next
    case (Purge_Root handle)
    with e(1) op show ?thesis by (auto simp: forget_root_def free_groups_form purge_form [OF ok] under_root_def)
  next
    case (Purge_Owner owner)
    with e(1) op show ?thesis by (auto simp: arpc_purge_owner_def purge_form [OF ok] owned_by_def)
  qed (use e(1) op in \<open>auto simp: arpc_detach_def Let_def\<close>)
qed

interpretation live: kept_by "run_cache_op u alloc" "\<lambda>op. op_leaves op e"
    "\<lambda>ca. uthash_ok u \<and> \<not> o_is_str e \<and> cache_ok ca \<and> e \<in> set (ca_owned ca)"
  by unfold_locales (auto intro: cache_step_ok cache_op_step live_stays)

lemma live_run:
  assumes "uthash_ok u" and "\<not> o_is_str e" and "cache_ok ca" and "e \<in> set (ca_owned ca)" and "\<forall>op \<in> set ops. op_leaves op e"
  shows "e \<in> set (ca_owned (fold (run_cache_op u alloc) ops ca))"
  using live.run_keeps [of u e ca ops alloc] assms by auto

section \<open>Asking again\<close>

text \<open>The same pointer, however many operations on other things came between.\<close>

lemma intern_later:
  assumes ok: "cache_ok ca" and keys: "keys_ok strkey ca" and u: "uthash_ok u" and mem: "\<forall>n. alloc n" "\<forall>ks k. uh_room u ks k"
    and str: "strkey (cstr key)" and run: "intern u alloc owner key (Some v) ca = (p, ca1)"
    and after: "\<forall>op \<in> set after. op_typed strkey op \<and> op_has_value op \<and> op_keeps op (string_entry owner key p)"
  shows "p \<noteq> 0 \<and> fst (intern u alloc owner key (Some v) (fold (run_cache_op u alloc) after ca1)) = p"
proof -
  note s = step_intern [OF ok u run, where kept = "\<lambda>_. True"] and k = keys_intern [OF ok keys u mem str run]
  have e: "string_entry owner key p \<in> entries ca1" "ca_text ca1 p = Some (cstr v)"
    using s k by (auto simp: interned_def entries_def)
  have ok1: "cache_ok ca1" using s cache_step_ok by blast
  let ?ca = "fold (run_cache_op u alloc) after ca1"
  have inv: "cache_ok ?ca" "keys_ok strkey ?ca" using cache_run [OF u mem ok1, of strkey after] k after by auto
  have e': "string_entry owner key p \<in> entries ?ca" "ca_text ?ca p = Some (cstr v)"
    using string_stays [OF u ok1 e, of after] after by auto
  from intern_again [OF inv u mem str e' surjective_pairing] k show ?thesis by blast
qed

lemma cached_later:
  assumes ok: "cache_ok ca" and keys: "keys_ok strkey ca" and u: "uthash_ok u" and mem: "\<forall>n. alloc n" "\<forall>ks k. uh_room u ks k"
    and str: "\<not> strkey (cstr key)" and run: "arpc_cache u alloc owner key value f ca = (p, ca1)"
    and after: "\<forall>op \<in> set after. op_typed strkey op \<and> op_has_value op"
    and leaves: "\<And>e op. o_owner e = owner \<Longrightarrow> o_k e = key_bytes owner key \<Longrightarrow> op \<in> set after \<Longrightarrow> op_leaves op e"
  shows "arpc_cached u alloc owner key (fold (run_cache_op u alloc) after ca1) = (True, p)"
proof -
  have ok1: "cache_ok ca1" using step_cache [OF ok run, where kept = "\<lambda>_. True"] cache_step_ok by blast
  obtain e where k: "keys_ok strkey ca1" and e: "e \<in> set (ca_owned ca1)" "\<not> o_is_str e" "o_k e = key_bytes owner key" "o_value e = p"
    using keys_cache [OF ok keys u mem str run] by blast
  have "o_owner e = owner" using e(1,3) ok1 owner_of_key by (auto simp: cache_ok_def entries_def)
  then have "e \<in> set (ca_owned (fold (run_cache_op u alloc) after ca1))" using live_run [OF u e(2) ok1 e(1)] leaves e(3) by blast
  moreover have "keys_ok strkey (fold (run_cache_op u alloc) after ca1)" using cache_run [OF u mem ok1 k] after by blast
  ultimately show ?thesis using cached_value [OF _ u mem(1) _ e(2,3)] e(4) by blast
qed

section \<open>Releasing a handle\<close>

lemma forget_root_empty:
  assumes "cache_ok ca"
  shows "\<forall>e \<in> entries (forget_root root ca). ARPC_ROOT (o_owner e) \<noteq> root"
    and "\<forall>g \<in> set (ca_groups (forget_root root ca)). group_root g \<noteq> root"
    and "\<forall>s \<in> set (ca_slots (forget_root root ca)). ARPC_ROOT (ps_id s) \<noteq> root"
  using assms by (auto simp: forget_root_def free_groups_form purge_form under_root_def entries_def)

lemma stats_forgotten:
  assumes "cache_ok ca" and "\<forall>e \<in> entries ca. ARPC_ROOT (o_owner e) = root" and "\<forall>g \<in> set (ca_groups ca). group_root g = root"
  shows "arpc_stats_cached (forget_root root ca) = 0"
proof -
  have "filter (\<lambda>e. \<not> under_root root e) (ca_owned ca) = []" "filter (\<lambda>e. \<not> under_root root e) (ca_detached ca) = []"
      "filter (\<lambda>g. group_root g \<noteq> root) (ca_groups ca) = []"
    using assms(2,3) by (auto simp: filter_empty_conv entries_def under_root_def)
  then show ?thesis by (simp add: arpc_stats_cached_def count_groups_def forget_root_def free_groups_form purge_form [OF assms(1)])
qed

section \<open>Slots\<close>

text \<open>Every member of a group is under one root, and a slot refers to its package's place in a group.\<close>

definition same_root :: "(64 word) list \<Rightarrow> bool" where
  "same_root ids \<longleftrightarrow> ids \<noteq> [] \<and> (\<forall>hid \<in> set ids. ARPC_ROOT hid = ARPC_ROOT (hd ids))"

definition slots_ok :: "cache \<Rightarrow> bool" where
  "slots_ok ca \<longleftrightarrow> (\<forall>g \<in> set (ca_groups ca). same_root (pg_ids g)) \<and>
     (\<forall>s \<in> set (ca_slots ca). \<exists>g \<in> set (ca_groups ca). pg_addr g = ps_group s \<and> ps_slot s < length (pg_ids g) \<and> pg_ids g ! ps_slot s = ps_id s)"

lemma place_slots:
  "\<forall>s \<in> set (place u alloc g i ids slots). s \<in> set slots \<or>
     ps_group s = g \<and> i \<le> ps_slot s \<and> ps_slot s < i + length ids \<and> ids ! (ps_slot s - i) = ps_id s"
proof (induction ids arbitrary: i slots)
  case (Cons hid ids)
  let ?sl = "if find_slot u hid slots \<noteq> None \<or> \<not> alloc (sizeof_pkg_slot u) \<or>
           \<not> uh_room u (map (\<lambda>s. id_bytes (ps_id s)) slots) (id_bytes hid)
        then slots else slots @ [\<lparr>ps_id = hid, ps_group = g, ps_slot = i\<rparr>]"
  have "set ?sl \<subseteq> insert \<lparr>ps_id = hid, ps_group = g, ps_slot = i\<rparr> (set slots)" by (simp add: subset_insertI)
  then have new: "s \<in> set slots \<or> s = \<lparr>ps_id = hid, ps_group = g, ps_slot = i\<rparr>" if "s \<in> set ?sl" for s
    using that by (meson insertE subsetD)
  show ?case
  proof
    fix s assume "s \<in> set (place u alloc g i (hid # ids) slots)"
    with Cons.IH [of "Suc i" ?sl] consider "s \<in> set ?sl"
      | "ps_group s = g" "Suc i \<le> ps_slot s" "ps_slot s < Suc i + length ids" "ids ! (ps_slot s - Suc i) = ps_id s"
      unfolding place.simps by blast
    then show "s \<in> set slots \<or> ps_group s = g \<and> i \<le> ps_slot s \<and> ps_slot s < i + length (hid # ids) \<and>
        (hid # ids) ! (ps_slot s - i) = ps_id s"
    proof cases
      case 1
      from new [OF this] show ?thesis by auto
    next
      case 2
      then show ?thesis by (simp add: nth_Cons')
    qed
  qed
qed simp

lemma slots_group_new:
  assumes "slots_ok ca" and "same_root ids" and "group_new u alloc ids ca = (g, ca')"
  shows "slots_ok ca'"
  using assms place_slots [of u alloc "ca_next ca" 0 ids "ca_slots ca"]
  by (fastforce simp: group_new_def Let_def slots_ok_def split: if_splits)

lemma slots_free_groups: "slots_ok ca \<Longrightarrow> slots_ok (free_groups_of root ca)"
proof -
  assume ok: "slots_ok ca"
  have "\<exists>g \<in> set (ca_groups ca). group_root g \<noteq> root \<and> pg_addr g = ps_group s \<and> ps_slot s < length (pg_ids g) \<and> pg_ids g ! ps_slot s = ps_id s"
    if s: "s \<in> set (ca_slots ca)" "ARPC_ROOT (ps_id s) \<noteq> root" for s
  proof -
    obtain g where g: "g \<in> set (ca_groups ca)" "pg_addr g = ps_group s" "ps_slot s < length (pg_ids g)" "pg_ids g ! ps_slot s = ps_id s"
      using ok s(1) by (auto simp: slots_ok_def)
    then have "ps_id s \<in> set (pg_ids g)" by (metis nth_mem)
    moreover have "same_root (pg_ids g)" using ok g(1) unfolding slots_ok_def by blast
    ultimately have "group_root g = ARPC_ROOT (ps_id s)" unfolding same_root_def group_root_def by metis
    with s(2) have "group_root g \<noteq> root" by metis
    with g show ?thesis by blast
  qed
  with ok show ?thesis unfolding slots_ok_def free_groups_form by (simp add: Bex_def)
qed

text \<open>The other operations leave ids, places and slots as they are.\<close>

definition same_ids :: "cache \<Rightarrow> cache \<Rightarrow> bool" where
  "same_ids ca ca' \<longleftrightarrow> ca_slots ca' = ca_slots ca \<and>
     map (\<lambda>g. (pg_addr g, pg_ids g)) (ca_groups ca') = map (\<lambda>g. (pg_addr g, pg_ids g)) (ca_groups ca)"

lemma same_ids_ok:
  assumes "slots_ok ca" and "same_ids ca ca'"
  shows "slots_ok ca'"
proof -
  let ?v = "\<lambda>g. (pg_addr g, pg_ids g)"
  have "map ?v (ca_groups ca') = map ?v (ca_groups ca)" and slots: "ca_slots ca' = ca_slots ca"
    using assms(2) by (simp_all only: same_ids_def)
  from arg_cong [OF this(1), of set] have s: "?v ` set (ca_groups ca') = ?v ` set (ca_groups ca)" by simp
  have ok: "slots_ok ca \<longleftrightarrow> (\<forall>v \<in> ?v ` set (ca_groups ca). same_root (snd v)) \<and>
     (\<forall>s \<in> set (ca_slots ca). \<exists>v \<in> ?v ` set (ca_groups ca). fst v = ps_group s \<and> ps_slot s < length (snd v) \<and> snd v ! ps_slot s = ps_id s)" for ca
    by (simp add: slots_ok_def)
  show ?thesis using assms(1) unfolding ok s slots .
qed

lemma same_ids_upd: "(\<And>g. pg_addr (f g) = pg_addr g \<and> pg_ids (f g) = pg_ids g) \<Longrightarrow> same_ids ca (upd_group a f ca)"
  by (auto simp: same_ids_def upd_group_def)

text \<open>The lists an operation registers are lists of one handle's packages.\<close>

fun op_rooted :: "cache_op \<Rightarrow> bool" where
  "op_rooted (Register ids) = (ids \<noteq> [] \<longrightarrow> same_root ids)"
| "op_rooted _ = True"

lemma slots_for_pkg: "slots_ok ca \<Longrightarrow> group_for_pkg u alloc hid ca = (gs, ca') \<Longrightarrow> slots_ok ca'"
  using slots_group_new [of ca "[hid]" u alloc] by (auto simp: group_for_pkg_def same_root_def split: option.splits prod.splits)

lemma dup_all_ids: "dup_all alloc ss ca = (ps, ca') \<Longrightarrow> ca_groups ca' = ca_groups ca \<and> ca_slots ca' = ca_slots ca"
  by (induction ss arbitrary: ca ps) (fastforce simp: arpc_dup_def split: option.splits prod.splits)+

lemma slots_add_strings:
  assumes "slots_ok ca"
  shows "slots_ok (add_strings alloc a field n ss ca)"
proof -
  obtain ps ca1 where dup: "dup_all alloc ss ca = (ps, ca1)" by fastforce
  have "slots_ok ca1" by (rule same_ids_ok [OF assms]) (simp add: same_ids_def dup_all_ids [OF dup])
  then show ?thesis unfolding add_strings_def dup add_column_def prod.case Let_def
    by (rule same_ids_ok) (rule same_ids_upd, simp)
qed

lemma slots_op:
  assumes ok: "cache_ok ca" and slots: "slots_ok ca" and op: "op_rooted op"
  shows "slots_ok (run_cache_op u alloc op ca)"
proof (cases op)
  case (Purge_Root handle)
  have "slots_ok (purge_where (under_root (ARPC_ROOT handle)) ca)"
    by (rule same_ids_ok [OF slots]) (simp add: same_ids_def purge_form [OF ok])
  with Purge_Root show ?thesis by (simp add: forget_root_def slots_free_groups)
next
  case (Register ids)
  with op slots show ?thesis
    by (auto simp: arpc_pkg_group_register_def intro: slots_group_new [OF slots _ prod.collapse [symmetric]])
next
  case (For_Pkg hid)
  with slots_for_pkg [OF slots] show ?thesis by (metis prod.collapse run_cache_op.simps(8))
next
  case (Strings hid field ss)
  then show ?thesis using slots_for_pkg [OF slots, of u alloc hid] slots_add_strings
    by (auto split: option.splits prod.splits)
next
  case (Drop_Column pkg field)
  then show ?thesis
    using slots by (auto simp: arpc_drop_column_def free_column_list free_texts split: option.splits
      intro!: same_ids_ok [OF slots] simp: same_ids_def upd_group_def)
qed (rule same_ids_ok [OF slots]; auto simp: same_ids_def intern_def intern_new_def arpc_cache_def add_owned_def make_key_def arpc_dup_def
    keep_static_def arpc_detach_def detach_at_def arpc_purge_owner_def purge_form [OF ok] Let_def split: option.splits if_splits prod.splits)+

interpretation slots: kept_by "run_cache_op u alloc" op_rooted "\<lambda>ca. uthash_ok u \<and> cache_ok ca \<and> slots_ok ca"
  by unfold_locales (auto intro: cache_step_ok cache_op_step slots_op)

lemma slots_run:
  assumes "uthash_ok u" and "cache_ok ca" and "slots_ok ca" and "\<forall>op \<in> set ops. op_rooted op"
  shows "cache_ok (fold (run_cache_op u alloc) ops ca) \<and> slots_ok (fold (run_cache_op u alloc) ops ca)"
  using slots.run_keeps [of u ca ops alloc] assms by auto

end
