(* ===== verification/Client_Call.thy ===== *)
theory Client_Call
  imports Methods Wire Client_Cache
begin

text \<open>
  The client's connection and its calls, the first and the last part of
  \<^verbatim>\<open>src/client/arpc_client.c\<close>: finding and starting the server, building a request, waiting for
  the reply while answering callbacks, and reading the reply.

  Windows is a parameter acting on the world, \<open>cl_ext\<close>, on which the caller's functions act
  too. A callback runs the caller's code, which may make calls of its own: the function that
  dispatches one is an argument of the definitions that wait. The lock makes the calls of several
  threads take turns and has no part in what one of them does.

  Where a function of the client has the name of one of the server, it ends in \<open>_c\<close> here.
\<close>

section \<open>State\<close>

text \<open>
  The caller's functions for one handle: function pointers and their contexts, by kind; 0 is the
  null pointer.
\<close>

record creg =
  c_handle :: "64 word"
  c_fn :: "(64 word) list"
  c_ctx :: "(64 word) list"

text \<open>
  \<open>cl_self\<close> is \<^verbatim>\<open>g_self\<close> once \<^verbatim>\<open>g_self_known\<close> is set. \<open>cl_streams\<close> is \<^verbatim>\<open>g_streams\<close> of
  \<^verbatim>\<open>src/client/arpc_mtree.c\<close>, each an archive and its buffer; \<open>cl_bufs\<close> is the buffers in memory, numbered
  as the blocks of the caches are.
\<close>

record ('w, 'pipe) client =
  cl_pipe :: "'pipe option"
  cl_self :: "arpc_identity option"
  cl_next_id :: int
  cl_refs :: int
  cl_err :: string
  cl_regs :: "creg list"
  cl_cache :: cache
  cl_streams :: "(nat \<times> nat) list"
  cl_bufs :: "nat \<Rightarrow> byte list option"
  cl_buf_next :: nat
  cl_ext :: 'w

definition client_init :: "'w \<Rightarrow> ('w, 'pipe) client" where
  "client_init w = \<lparr>cl_pipe = None, cl_self = None, cl_next_id = 1, cl_refs = 0, cl_err = [], cl_regs = [], cl_cache = cache_init,
     cl_streams = [], cl_bufs = Map.empty, cl_buf_next = 1, cl_ext = w\<rparr>"

text \<open>
  \<open>k_getenv\<close> and \<open>k_module_file\<close> are empty where Windows has nothing to say. \<open>k_win32_paths\<close> says
  whether the library was built with \<^verbatim>\<open>ALPMRPC_WIN32_PATHS\<close>.
\<close>

record ('w, 'proc, 'tok, 'pipe) client_env =
  k_win :: "('proc, 'tok, 'pipe) win_id"
  k_io :: "'pipe \<Rightarrow> 'w win_io"
  k_getenv :: "string \<Rightarrow> string"
  k_module_file :: string
  k_file_exists :: "string \<Rightarrow> bool"
  k_open :: "'w \<Rightarrow> string \<Rightarrow> 'pipe option \<times> 'w"
  k_close :: "'w \<Rightarrow> 'pipe \<Rightarrow> 'w"
  k_create_process :: "'w \<Rightarrow> string \<Rightarrow> bool \<times> 'w"
  k_sleep :: "'w \<Rightarrow> nat \<Rightarrow> 'w"
  k_last_error :: "'w \<Rightarrow> nat"
  k_win32_paths :: bool

text \<open>The message is cut to a buffer of 256 bytes.\<close>

definition set_err :: "('w, 'pipe) client \<Rightarrow> string \<Rightarrow> ('w, 'pipe) client" where
  "set_err cl msg = cl\<lparr>cl_err := take 255 msg\<rparr>"

definition disconnect ::
    "('w, 'proc, 'tok, 'pipe) client_env \<Rightarrow> ('w, 'pipe) client \<Rightarrow> ('w, 'pipe) client" where
  "disconnect env cl =
     (case cl_pipe cl of
        None \<Rightarrow> cl
      | Some p \<Rightarrow> cl\<lparr>cl_pipe := None, cl_ext := k_close env (cl_ext cl) p\<rparr>)"

text \<open>Why Windows calls the library's entry point, and what is done with the connection; the lock and the trace switch are left out.\<close>

datatype dll_reason = DLL_PROCESS_ATTACH | DLL_PROCESS_DETACH | DLL_THREAD_ATTACH | DLL_THREAD_DETACH

definition DllMain ::
    "('w, 'proc, 'tok, 'pipe) client_env \<Rightarrow> dll_reason \<Rightarrow> ('w, 'pipe) client \<Rightarrow> ('w, 'pipe) client" where
  "DllMain env reason cl = (if reason = DLL_PROCESS_DETACH then disconnect env cl else cl)"

definition arpc_last_error :: "('w, 'pipe) client \<Rightarrow> string" where
  "arpc_last_error cl = cl_err cl"

section \<open>Finding the server\<close>

definition MAX_PATH_c :: nat where
  "MAX_PATH_c = 260"

text \<open>Trailing separators go, down to one character.\<close>

fun trim_seps :: "nat \<Rightarrow> string \<Rightarrow> string" where
  "trim_seps 0 s = s"
| "trim_seps (Suc n) s =
     (if length s > 1 \<and> is_sep (last s) then trim_seps n (butlast s) else s)"

definition msys_root :: "('w, 'proc, 'tok, 'pipe) client_env \<Rightarrow> nat \<Rightarrow> string option" where
  "msys_root env outsz =
     (let v = k_getenv env ''ALPMRPC_ROOT'' in
      if v \<noteq> [] \<and> length v < outsz then Some (trim_seps (length v) v)
      else
        let path = k_module_file env in
        if path = [] \<or> length path \<ge> MAX_PATH_c then None
        else case arpc_strip_dirs path 3 of
          (False, _) \<Rightarrow> None
        | (True, root) \<Rightarrow> if length root + 1 > outsz then None else Some root)"

text \<open>1 connected, 0 nobody there or busy, -1 refused.\<close>

definition try_open ::
    "('w, 'proc, 'tok, 'pipe) client_env \<Rightarrow> arpc_identity \<Rightarrow> string \<Rightarrow> ('w, 'pipe) client \<Rightarrow> int \<times> ('w, 'pipe) client" where
  "try_open env me name cl =
     (case k_open env (cl_ext cl) name of
        (None, w) \<Rightarrow> (0, cl\<lparr>cl_ext := w\<rparr>)
      | (Some h, w) \<Rightarrow>
          if \<not> arpc_peer_is (k_win env) h False me
          then (-1, set_err (cl\<lparr>cl_ext := k_close env w h\<rparr>)
                 (name @ '' is held by a process that is not this user's at this elevation; refusing it''))
          else (1, cl\<lparr>cl_pipe := Some h, cl_ext := w\<rparr>))"

definition quote :: "string \<Rightarrow> string" where
  "quote s = [CHR 0x22] @ s @ [CHR 0x22]"

definition launch_server ::
    "('w, 'proc, 'tok, 'pipe) client_env \<Rightarrow> string \<Rightarrow> ('w, 'pipe) client \<Rightarrow> bool \<times> ('w, 'pipe) client" where
  "launch_server env root cl =
     (let v = k_getenv env ''ALPMRPC_SERVER'';
          exe = (if v = [] \<or> length v \<ge> 2 * MAX_PATH_c
                 then take (2 * MAX_PATH_c - 1)
                   (root @ [CHR 0x5C] @ ''usr'' @ [CHR 0x5C] @ ''bin'' @ [CHR 0x5C] @ ''alpmrpcd.exe'')
                 else v)
      in if \<not> k_file_exists env exe then (False, set_err cl (''server not found at '' @ exe))
         else
           let cmd = take (4 * MAX_PATH_c + 63) (quote exe @ '' --root '' @ quote root);
               (ok, w) = k_create_process env (cl_ext cl) cmd;
               cl1 = cl\<lparr>cl_ext := w\<rparr>
           in if \<not> ok
              then (False, set_err cl1 (''CreateProcess failed ('' @ int_text (int (k_last_error env w)) @ '')''))
              else (True, cl1))"

text \<open>The rounds of the wait for a new server: \<open>n\<close> are left.\<close>

fun wait_open ::
    "nat \<Rightarrow> ('w, 'proc, 'tok, 'pipe) client_env \<Rightarrow> arpc_identity \<Rightarrow> string \<Rightarrow> ('w, 'pipe) client \<Rightarrow> int \<times> ('w, 'pipe) client" where
  "wait_open 0 env me name cl = (0, cl)"
| "wait_open (Suc n) env me name cl =
     (let (r, cl1) = try_open env me name (cl\<lparr>cl_ext := k_sleep env (cl_ext cl) 25\<rparr>)
      in if r = 0 then wait_open n env me name cl1 else (r, cl1))"

section \<open>Calls\<close>

record arpc_call =
  call_req :: aj_w
  call_rsp :: aj_doc
  call_id :: int
  call_result :: int
  call_parsed :: bool

definition call_zero :: arpc_call where
  "call_zero = \<lparr>call_req = ajw_init, call_rsp = aj_doc_zero, call_id = 0, call_result = -1, call_parsed = False\<rparr>"

text \<open>The part of \<^verbatim>\<open>arpc_begin\<close> after the connection is there.\<close>

definition begin_call :: "allocator \<Rightarrow> string \<Rightarrow> ('w, 'pipe) client \<Rightarrow> arpc_call \<times> ('w, 'pipe) client" where
  "begin_call alloc method cl =
     (let rid = cl_next_id cl;
          w1 = ajw_i64 alloc (ajw_key alloc (ajw_obj_begin alloc ajw_init) ''id'') rid;
          w2 = ajw_str alloc (ajw_key alloc w1 ''method'') (Some method);
          w3 = ajw_arr_begin alloc (ajw_key alloc w2 ''params'')
      in (call_zero\<lparr>call_id := rid, call_req := w3\<rparr>, cl\<lparr>cl_next_id := rid + 1\<rparr>))"

text \<open>Frames on the client's side use no event; a failure ends the connection.\<close>

definition send_frame ::
    "('w, 'proc, 'tok, 'pipe) client_env \<Rightarrow> ('w, 'pipe) client \<Rightarrow> string \<Rightarrow> bool \<times> ('w, 'pipe) client" where
  "send_frame env cl buf =
     (case (case cl_pipe cl of
              None \<Rightarrow> (False, cl_ext cl)
            | Some p \<Rightarrow> arpc_send_frame (k_io env p) False (cl_ext cl) buf) of
        (True, w) \<Rightarrow> (True, cl\<lparr>cl_ext := w\<rparr>)
      | (False, w) \<Rightarrow>
          (False, disconnect env (set_err (cl\<lparr>cl_ext := w\<rparr>)
             (''write failed ('' @ int_text (int (k_last_error env w)) @ '')''))))"

definition recv_frame ::
    "allocator \<Rightarrow> ('w, 'proc, 'tok, 'pipe) client_env \<Rightarrow> ('w, 'pipe) client \<Rightarrow> string option \<times> ('w, 'pipe) client" where
  "recv_frame alloc env cl =
     (case (case cl_pipe cl of
              None \<Rightarrow> (None, 0, cl_ext cl)
            | Some p \<Rightarrow> arpc_recv_frame alloc (k_io env p) False (cl_ext cl)) of
        (Some f, len, w) \<Rightarrow> (Some f, cl\<lparr>cl_ext := w\<rparr>)
      | (None, len, w) \<Rightarrow>
          (None, disconnect env (set_err (cl\<lparr>cl_ext := w\<rparr>)
             (if len \<noteq> 0 then ''server sent a '' @ int_text (int len) @ '' byte frame''
              else ''read failed ('' @ int_text (int (k_last_error env w)) @ '')''))))"

text \<open>
  Dispatching a callback gives the answer's writer and the client's state; \<^const>\<open>None\<close> if the
  caller's function does not return.
\<close>

type_synonym ('w, 'pipe) dispatcher =
  "aj_doc \<Rightarrow> ('w, 'pipe) client \<Rightarrow> (aj_w \<times> ('w, 'pipe) client) option"

partial_function (option) transact_loop ::
    "allocator \<Rightarrow> ('w, 'proc, 'tok, 'pipe) client_env \<Rightarrow> ('w, 'pipe) dispatcher \<Rightarrow> ('w, 'pipe) client \<Rightarrow>
     (string option \<times> ('w, 'pipe) client) option" where
  "transact_loop alloc env dispatch cl =
     (case recv_frame alloc env cl of
        (None, cl1) \<Rightarrow> Some (None, cl1)
      | (Some f, cl1) \<Rightarrow>
          (case aj_parse alloc (cstr f) of
             None \<Rightarrow> Some (None, disconnect env (set_err cl1 ''malformed frame from server''))
           | Some d \<Rightarrow>
               if \<not> 0 \<le> aj_member d 0 ''cb'' then Some (Some f, cl1)
               else do {
                 (reply, cl2) \<leftarrow> dispatch d cl1;
                 if w_err reply then Some (None, cl2)
                 else (let (sent, cl3) = send_frame env cl2 (w_text reply)
                       in if \<not> sent then Some (None, cl3) else transact_loop alloc env dispatch cl3) }))"

definition transact ::
    "allocator \<Rightarrow> ('w, 'proc, 'tok, 'pipe) client_env \<Rightarrow> ('w, 'pipe) dispatcher \<Rightarrow> ('w, 'pipe) client \<Rightarrow> string \<Rightarrow>
     (string option \<times> ('w, 'pipe) client) option" where
  "transact alloc env dispatch cl req =
     (let (sent, cl1) = send_frame env cl req
      in if \<not> sent then Some (None, cl1) else transact_loop alloc env dispatch cl1)"

definition arpc_invoke ::
    "allocator \<Rightarrow> ('w, 'proc, 'tok, 'pipe) client_env \<Rightarrow> ('w, 'pipe) dispatcher \<Rightarrow> arpc_call \<Rightarrow> ('w, 'pipe) client \<Rightarrow>
     (bool \<times> arpc_call \<times> ('w, 'pipe) client) option" where
  "arpc_invoke alloc env dispatch c cl =
     (let req = ajw_obj_end alloc (ajw_arr_end alloc (call_req c)); c1 = c\<lparr>call_req := req\<rparr> in
      if w_err req then Some (False, c1, set_err cl ''out of memory building request'')
      else do {
        (rsp, cl1) \<leftarrow> transact alloc env dispatch cl (w_text req);
        case rsp of
          None \<Rightarrow> Some (False, c1, cl1)
        | Some r \<Rightarrow>
            (case aj_parse alloc (cstr r) of
               None \<Rightarrow> Some (False, c1, set_err cl1 ''malformed response'')
             | Some d \<Rightarrow>
                 let c2 = c1\<lparr>call_rsp := d, call_parsed := True\<rparr>;
                     rid = aj_i64 d (aj_member d 0 ''id'') (-1);
                     err = aj_member d 0 ''error''
                 in if rid \<noteq> call_id c
                    then Some (False, c2, disconnect env
                           (set_err cl1 (''reply to request '' @ int_text rid @ '' arrived out of step'')))
                    else if err \<ge> 0
                    then Some (False, c2, set_err cl1
                           (the (aj_str d (aj_member d err ''message'') (Some ''error'')) @ '' ('' @
                            int_text (aj_i64 d (aj_member d err ''code'') 0) @ '')''))
                    else let n = aj_member d 0 ''result'' in Some (n \<ge> 0, c2\<lparr>call_result := n\<rparr>, cl1)) })"

definition arpc_end :: "arpc_call \<Rightarrow> arpc_call" where
  "arpc_end c = c\<lparr>call_req := ajw_free (call_req c),
     call_rsp := (if call_parsed c then aj_free (call_rsp c) else call_rsp c)\<rparr>"

subsection \<open>Arguments\<close>

definition arpc_put_null :: "allocator \<Rightarrow> arpc_call \<Rightarrow> arpc_call" where
  "arpc_put_null alloc c = c\<lparr>call_req := ajw_null alloc (call_req c)\<rparr>"

definition arpc_obj_begin :: "allocator \<Rightarrow> arpc_call \<Rightarrow> arpc_call" where
  "arpc_obj_begin alloc c = c\<lparr>call_req := ajw_obj_begin alloc (call_req c)\<rparr>"

definition arpc_obj_end :: "allocator \<Rightarrow> arpc_call \<Rightarrow> arpc_call" where
  "arpc_obj_end alloc c = c\<lparr>call_req := ajw_obj_end alloc (call_req c)\<rparr>"

definition arpc_key :: "allocator \<Rightarrow> arpc_call \<Rightarrow> string \<Rightarrow> arpc_call" where
  "arpc_key alloc c key = c\<lparr>call_req := ajw_key alloc (call_req c) key\<rparr>"

definition arpc_put_str :: "allocator \<Rightarrow> arpc_call \<Rightarrow> string option \<Rightarrow> arpc_call" where
  "arpc_put_str alloc c s = c\<lparr>call_req := ajw_str alloc (call_req c) s\<rparr>"

definition arpc_put_i64 :: "allocator \<Rightarrow> arpc_call \<Rightarrow> int \<Rightarrow> arpc_call" where
  "arpc_put_i64 alloc c v = c\<lparr>call_req := ajw_i64 alloc (call_req c) v\<rparr>"

definition arpc_put_handle :: "allocator \<Rightarrow> arpc_call \<Rightarrow> 64 word \<Rightarrow> arpc_call" where
  "arpc_put_handle alloc c hid = c\<lparr>call_req := ajw_i64 alloc (call_req c) (sint hid)\<rparr>"

definition arpc_put_bytes :: "allocator \<Rightarrow> arpc_call \<Rightarrow> byte list option \<Rightarrow> arpc_call" where
  "arpc_put_bytes alloc c bo =
     (case bo of
        None \<Rightarrow> c\<lparr>call_req := ajw_null alloc (call_req c)\<rparr>
      | Some b \<Rightarrow> c\<lparr>call_req := ajw_str alloc (call_req c) (arpc_b64_encode alloc b)\<rparr>)"

text \<open>A list is its data pointers; the null list is empty.\<close>

definition arpc_put_str_list :: "allocator \<Rightarrow> arpc_call \<Rightarrow> string option list \<Rightarrow> arpc_call" where
  "arpc_put_str_list alloc c l =
     c\<lparr>call_req := (if l = [] then ajw_null alloc (call_req c)
        else ajw_arr_end alloc (fold (\<lambda>s w. ajw_str alloc w s) l (ajw_arr_begin alloc (call_req c))))\<rparr>"

definition arpc_put_handle_list :: "allocator \<Rightarrow> arpc_call \<Rightarrow> (64 word) list \<Rightarrow> arpc_call" where
  "arpc_put_handle_list alloc c l =
     c\<lparr>call_req := (if l = [] then ajw_null alloc (call_req c)
        else ajw_arr_end alloc (fold (\<lambda>h w. ajw_i64 alloc w (sint h)) l (ajw_arr_begin alloc (call_req c))))\<rparr>"

subsection \<open>The reply\<close>

definition arpc_ret_node :: "arpc_call \<Rightarrow> int" where
  "arpc_ret_node c = aj_member (call_rsp c) (call_result c) ARPC_RET_KEY"

definition arpc_out_node :: "arpc_call \<Rightarrow> string \<Rightarrow> int" where
  "arpc_out_node c name = aj_member (call_rsp c) (call_result c) name"

definition arpc_ret_i64_c :: "arpc_call \<Rightarrow> int" where
  "arpc_ret_i64_c c = aj_i64 (call_rsp c) (aj_member (call_rsp c) (call_result c) ARPC_RET_KEY) 0"

definition arpc_ret_handle_c :: "arpc_call \<Rightarrow> 64 word" where
  "arpc_ret_handle_c c = word_of_int (aj_i64 (call_rsp c) (aj_member (call_rsp c) (call_result c) ARPC_RET_KEY) 0)"

definition arpc_out_i64_c :: "arpc_call \<Rightarrow> string \<Rightarrow> int" where
  "arpc_out_i64_c c name = aj_i64 (call_rsp c) (aj_member (call_rsp c) (call_result c) name) 0"

definition arpc_take_str :: "allocator \<Rightarrow> arpc_call \<Rightarrow> string option" where
  "arpc_take_str alloc c =
     Option.bind (aj_str (call_rsp c) (aj_member (call_rsp c) (call_result c) ARPC_RET_KEY) None) (strdup alloc)"

text \<open>The bytes and \<^verbatim>\<open>*n\<close>.\<close>

definition arpc_ret_bytes_c :: "allocator \<Rightarrow> arpc_call \<Rightarrow> byte list option \<times> nat" where
  "arpc_ret_bytes_c alloc c =
     (case aj_str (call_rsp c) (aj_member (call_rsp c) (call_result c) ARPC_RET_KEY) None of
        None \<Rightarrow> (None, 0)
      | Some s \<Rightarrow> (case arpc_b64_decode alloc (Some s) of None \<Rightarrow> (None, 0) | Some (b, n) \<Rightarrow> (Some b, n)))"

definition arpc_out_bytes_c :: "allocator \<Rightarrow> arpc_call \<Rightarrow> string \<Rightarrow> byte list option \<times> nat" where
  "arpc_out_bytes_c alloc c name =
     (case aj_str (call_rsp c) (aj_member (call_rsp c) (call_result c) name) None of
        None \<Rightarrow> (None, 0)
      | Some s \<Rightarrow> (case arpc_b64_decode alloc (Some s) of None \<Rightarrow> (None, 0) | Some (b, n) \<Rightarrow> (Some b, n)))"

section \<open>Connecting\<close>

text \<open>
  The pipe is up when this runs, so its own \<^verbatim>\<open>arpc_begin\<close> finds the connection in place.
\<close>

definition set_path_style ::
    "allocator \<Rightarrow> ('w, 'proc, 'tok, 'pipe) client_env \<Rightarrow> ('w, 'pipe) dispatcher \<Rightarrow> ('w, 'pipe) client \<Rightarrow>
     (bool \<times> ('w, 'pipe) client) option" where
  "set_path_style alloc env dispatch cl =
     (if \<not> k_win32_paths env then Some (True, cl)
      else let (c, cl1) = begin_call alloc ''arpc.set_path_style'' cl in
        do {
          (ok, c1, cl2) \<leftarrow> arpc_invoke alloc env dispatch (arpc_put_str alloc c (Some ''win32'')) cl1;
          Some (ok, if ok then cl2 else disconnect env cl2) })"

definition ensure_connected ::
    "allocator \<Rightarrow> ('w, 'proc, 'tok, 'pipe) client_env \<Rightarrow> ('w, 'pipe) dispatcher \<Rightarrow> ('w, 'pipe) client \<Rightarrow>
     (bool \<times> ('w, 'pipe) client) option" where
  "ensure_connected alloc env dispatch cl =
     (if cl_pipe cl \<noteq> None then Some (True, cl)
      else case (case cl_self cl of Some me \<Rightarrow> Some me | None \<Rightarrow> arpc_process_identity (k_win env) None) of
        None \<Rightarrow> Some (False, set_err cl ''cannot tell which user this process runs as'')
      | Some me \<Rightarrow>
          let cl1 = cl\<lparr>cl_self := Some me\<rparr> in
          case msys_root env MAX_PATH_c of
            None \<Rightarrow> Some (False, set_err cl1 ''cannot locate the MSYS2 root from this module's path'')
          | Some root \<Rightarrow>
              (case arpc_pipe_name (k_win env) (Some root) (Some 256) of
                 None \<Rightarrow> Some (False, set_err cl1 ''cannot derive endpoint name'')
               | Some name \<Rightarrow>
                   let (r, cl2) = try_open env me name cl1 in
                   if r \<noteq> 0
                   then (if r > 0 then set_path_style alloc env dispatch cl2 else Some (False, cl2))
                   else
                     let (launched, cl3) = launch_server env root cl2;
                         (r1, cl4) = (if launched then wait_open 400 env me name cl3 else (0, cl3));
                         cl5 = (if r1 = 0 \<and> cl_err cl4 = []
                                then set_err cl4 ''server did not start listening within 10s'' else cl4)
                     in if r1 > 0 then set_path_style alloc env dispatch cl5 else Some (False, cl5)))"

definition arpc_begin ::
    "allocator \<Rightarrow> ('w, 'proc, 'tok, 'pipe) client_env \<Rightarrow> ('w, 'pipe) dispatcher \<Rightarrow> string \<Rightarrow> ('w, 'pipe) client \<Rightarrow>
     (bool \<times> arpc_call \<times> ('w, 'pipe) client) option" where
  "arpc_begin alloc env dispatch method cl =
     do {
       (ok, cl1) \<leftarrow> ensure_connected alloc env dispatch cl;
       if \<not> ok then Some (False, call_zero, cl1)
       else let (c, cl2) = begin_call alloc method cl1 in Some (True, c, cl2) }"

definition arpc_conn_ref :: "('w, 'pipe) client \<Rightarrow> ('w, 'pipe) client" where
  "arpc_conn_ref cl = cl\<lparr>cl_refs := cl_refs cl + 1\<rparr>"

definition arpc_conn_unref ::
    "('w, 'proc, 'tok, 'pipe) client_env \<Rightarrow> ('w, 'pipe) client \<Rightarrow> ('w, 'pipe) client" where
  "arpc_conn_unref env cl =
     (let cl1 = cl\<lparr>cl_refs := cl_refs cl - 1\<rparr> in if cl_refs cl1 > 0 then cl1 else disconnect env cl1)"

section \<open>What a request says\<close>

datatype put_op =
    Put_Null | Put_Str "string option" | Put_I64 int | Put_Handle "64 word" | Put_Bytes "byte list option"
  | Put_Str_List "string option list" | Put_Handle_List "(64 word) list"

fun run_put :: "allocator \<Rightarrow> put_op \<Rightarrow> arpc_call \<Rightarrow> arpc_call" where
  "run_put alloc Put_Null c = arpc_put_null alloc c"
| "run_put alloc (Put_Str s) c = arpc_put_str alloc c s"
| "run_put alloc (Put_I64 v) c = arpc_put_i64 alloc c v"
| "run_put alloc (Put_Handle hid) c = arpc_put_handle alloc c hid"
| "run_put alloc (Put_Bytes b) c = arpc_put_bytes alloc c b"
| "run_put alloc (Put_Str_List l) c = arpc_put_str_list alloc c l"
| "run_put alloc (Put_Handle_List l) c = arpc_put_handle_list alloc c l"

text \<open>The argument each of them stands for.\<close>

fun put_value :: "put_op \<Rightarrow> json" where
  "put_value Put_Null = JNull"
| "put_value (Put_Str s) = str_value s"
| "put_value (Put_I64 v) = JNum v"
| "put_value (Put_Handle hid) = JNum (sint hid)"
| "put_value (Put_Bytes b) = str_value (map_option b64_encode_loop b)"
| "put_value (Put_Str_List l) = (if l = [] then JNull else JArr (map str_value l))"
| "put_value (Put_Handle_List l) = (if l = [] then JNull else JArr (map (\<lambda>h. JNum (sint h)) l))"

fun put_ok :: "put_op \<Rightarrow> bool" where
  "put_ok (Put_I64 v) = i64_range v"
| "put_ok _ = True"

text \<open>Each of them is one call of the writer.\<close>

definition put_writer :: "allocator \<Rightarrow> put_op \<Rightarrow> aj_w \<Rightarrow> aj_w" where
  "put_writer alloc op = (\<lambda>w. call_req (run_put alloc op (call_zero\<lparr>call_req := w\<rparr>)))"

lemma run_put_req: "run_put alloc op c = c\<lparr>call_req := put_writer alloc op (call_req c)\<rparr>"
  by (cases op) (simp_all add: put_writer_def arpc_put_null_def arpc_put_str_def arpc_put_i64_def arpc_put_handle_def arpc_put_bytes_def
      arpc_put_str_list_def arpc_put_handle_list_def split: option.split)

lemma run_puts_req: "fold (run_put alloc) ops c = c\<lparr>call_req := fold (put_writer alloc) ops (call_req c)\<rparr>"
proof (induction ops arbitrary: c)
  case (Cons op ops)
  show ?case unfolding fold.simps comp_apply run_put_req [of alloc op] by (simp add: Cons)
qed simp

lemma writes_put:
  assumes "put_ok op" and "\<forall>n. alloc n"
  shows "writes alloc (put_value op) (put_writer alloc op)"
proof -
  have e: "arpc_b64_encode alloc b = Some (b64_encode_loop b)" for b
    using assms(2) by (simp add: arpc_b64_encode_def)
  have null: "writes alloc JNull (\<lambda>w. ajw_null alloc w)" using writes_null [of alloc] by simp
  have strs: "writes alloc (JArr (map str_value l)) (\<lambda>w. ajw_arr_end alloc (fold (\<lambda>s w. ajw_str alloc w s) l (ajw_arr_begin alloc w)))" for l
    by (rule writes_array) (rule writes_str)
  have nums: "writes alloc (JArr (map (\<lambda>h. JNum (sint h)) l))
      (\<lambda>w. ajw_arr_end alloc (fold (\<lambda>h w. ajw_i64 alloc w (sint h)) l (ajw_arr_begin alloc w)))" for l :: "(64 word) list"
    by (rule writes_array) (simp add: writes_i64)
  show ?thesis
  proof (cases op)
    case (Put_Bytes bo)
    then show ?thesis
      using null writes_str [of alloc "map_option b64_encode_loop bo"]
      by (cases bo) (simp_all add: put_writer_def arpc_put_bytes_def e str_value_def)
  qed (use assms(1) null strs nums in \<open>simp_all add: put_writer_def arpc_put_null_def arpc_put_str_def arpc_put_i64_def arpc_put_handle_def
      arpc_put_str_list_def arpc_put_handle_list_def writes_str writes_i64\<close>)
qed

definition request_json :: "int \<Rightarrow> string \<Rightarrow> put_op list \<Rightarrow> json" where
  "request_json rid method ops =
     JObj [(''id'', JNum rid), (''method'', JStr (cstr method)), (''params'', JArr (map put_value ops))]"

text \<open>The request's writer when the call is made.\<close>

definition request_writer :: "allocator \<Rightarrow> arpc_call \<Rightarrow> aj_w" where
  "request_writer alloc c = ajw_obj_end alloc (ajw_arr_end alloc (call_req c))"

lemma request_text:
  assumes mem: "\<forall>n. alloc n" and ops: "\<forall>op \<in> set ops. put_ok op" and rid: "i64_range (cl_next_id cl)"
    and beg: "begin_call alloc method cl = (c, cl1)"
    and len: "length (json_text (request_json (cl_next_id cl) method ops)) + 32 \<le> 2 ^ 63"
  shows "\<not> w_err (request_writer alloc (fold (run_put alloc) ops c))"
    and "w_text (request_writer alloc (fold (run_put alloc) ops c)) = json_text (request_json (cl_next_id cl) method ops)"
proof -
  let ?p = "\<lambda>w. ajw_arr_end alloc (fold (put_writer alloc) ops (ajw_arr_begin alloc w))"
  have p: "adds_members alloc [(''params'', JArr (map put_value ops))] (\<lambda>w. ?p (ajw_key alloc w ''params''))"
    by (rule adds_member) (use writes_array [of ops alloc put_value "put_writer alloc"] writes_put [OF _ mem] ops in auto)
  have m: "adds_members alloc [(''method'', JStr (cstr method))] (\<lambda>w. ajw_str alloc (ajw_key alloc w ''method'') (Some method))"
    by (rule adds_member) (use writes_str [of alloc "Some method"] in \<open>simp_all add: str_value_def\<close>)
  note w = writes_object [OF adds_members_comp [OF member_id [OF rid] adds_members_comp [OF m p]], unfolded append.simps,
      folded request_json_def]
  have "request_writer alloc (fold (run_put alloc) ops c) = ajw_obj_end alloc (?p (ajw_key alloc (ajw_str alloc (ajw_key alloc
      (ajw_i64 alloc (ajw_key alloc (ajw_obj_begin alloc ajw_init) ''id'') (cl_next_id cl)) ''method'') (Some method)) ''params''))"
    using beg by (auto simp: request_writer_def run_puts_req begin_call_def Let_def)
  with writes_init [OF w len] mem
  show "\<not> w_err (request_writer alloc (fold (run_put alloc) ops c))"
    "w_text (request_writer alloc (fold (run_put alloc) ops c)) = json_text (request_json (cl_next_id cl) method ops)" by simp_all
qed

text \<open>What the server makes of it: the id, the method and the arguments.\<close>

lemma request_read:
  assumes "readable (request_json rid method ops)" and "\<forall>n. alloc n"
  shows "\<exists>d. aj_parse alloc (json_text (request_json rid method ops)) = Some d \<and> doc_ok d \<and>
    aj_i64 d (aj_member d 0 ''id'') 0 = rid \<and> aj_str d (aj_member d 0 ''method'') None = Some (cstr method) \<and>
    req_args \<lparr>rq_doc = d, rq_params = aj_member d 0 ''params'', rq_bad = False\<rparr> (map put_value ops)"
proof -
  obtain d where d: "aj_parse alloc (json_text (request_json rid method ops)) = Some d" "doc_ok d"
      "repr d 0 (request_json rid method ops)" using readable_parses [OF assms] by blast
  note o = d(3) [unfolded request_json_def]
  note m = member_scalars [OF d(2) o, simplified] member_of_object [OF d(2) o, of "''params''", simplified]
  have "req_args \<lparr>rq_doc = d, rq_params = aj_member d 0 ''params'', rq_bad = False\<rparr> (map put_value ops)"
    using d(2) m(3) by (simp add: req_args_def)
  with d(1,2) m(1,2) show ?thesis by (simp add: num_or_def str_or_def)
qed

section \<open>What a reply says\<close>

text \<open>The call's result is the object with the members \<open>kvs\<close>.\<close>

definition result_is :: "arpc_call \<Rightarrow> (string \<times> json) list \<Rightarrow> bool" where
  "result_is c kvs \<longleftrightarrow> doc_ok (call_rsp c) \<and> (\<exists>n. call_result c = int n \<and> repr (call_rsp c) n (JObj kvs))"

lemma result_values:
  assumes "result_is c kvs"
  shows "arpc_ret_i64_c c = num_or (map_of kvs ARPC_RET_KEY) 0"
    and "arpc_ret_handle_c c = word_of_int (num_or (map_of kvs ARPC_RET_KEY) 0)"
    and "arpc_out_i64_c c name = num_or (map_of kvs name) 0"
    and "arpc_take_str alloc c = Option.bind (str_or (map_of kvs ARPC_RET_KEY) None) (strdup alloc)"
    and "\<forall>n. alloc n \<Longrightarrow> map_of kvs ARPC_RET_KEY = Some (JStr (b64_encode_loop b)) \<Longrightarrow> arpc_ret_bytes_c alloc c = (Some b, length b)"
    and "\<forall>n. alloc n \<Longrightarrow> map_of kvs name = Some (JStr (b64_encode_loop b)) \<Longrightarrow> arpc_out_bytes_c alloc c name = (Some b, length b)"
proof -
  from assms obtain n where n: "doc_ok (call_rsp c)" "call_result c = int n" "repr (call_rsp c) n (JObj kvs)"
    by (auto simp: result_is_def)
  note m = member_scalars [OF n(1,3)]
  show "arpc_ret_i64_c c = num_or (map_of kvs ARPC_RET_KEY) 0" "arpc_out_i64_c c name = num_or (map_of kvs name) 0"
    "arpc_ret_handle_c c = word_of_int (num_or (map_of kvs ARPC_RET_KEY) 0)"
    "arpc_take_str alloc c = Option.bind (str_or (map_of kvs ARPC_RET_KEY) None) (strdup alloc)"
    by (simp_all add: arpc_ret_i64_c_def arpc_out_i64_c_def arpc_ret_handle_c_def arpc_take_str_def n(2) m)
  assume mem: "\<forall>n. alloc n"
  have b: "arpc_b64_decode alloc (Some (b64_encode_loop b)) = Some (b, length b)"
    using b64_round_trip [of alloc b "b64_encode_loop b" alloc] mem by (simp add: arpc_b64_encode_def)
  show "map_of kvs ARPC_RET_KEY = Some (JStr (b64_encode_loop b)) \<Longrightarrow> arpc_ret_bytes_c alloc c = (Some b, length b)"
    "map_of kvs name = Some (JStr (b64_encode_loop b)) \<Longrightarrow> arpc_out_bytes_c alloc c name = (Some b, length b)"
    by (simp_all add: arpc_ret_bytes_c_def arpc_out_bytes_c_def n(2) m str_or_def b)
qed

lemma invoke_reply:
  assumes mem: "\<forall>n. alloc n" and ok: "\<not> w_err (request_writer alloc c)"
    and t: "transact alloc env dispatch cl (w_text (request_writer alloc c)) = Some (Some (reply_text rid oc), cl1)"
    and r: "readable (reply_json rid oc)"
  shows "\<exists>c'. arpc_invoke alloc env dispatch c cl =
      (if rid \<noteq> call_id c
       then Some (False, c', disconnect env (set_err cl1 (''reply to request '' @ int_text rid @ '' arrived out of step'')))
       else case oc of
         Result kvs \<Rightarrow> Some (True, c', cl1)
       | Error code msg \<Rightarrow> Some (False, c', set_err cl1 (msg @ '' ('' @ int_text code @ '')''))) \<and>
      (\<forall>kvs. rid = call_id c \<and> oc = Result kvs \<longrightarrow> result_is c' kvs)"
proof -
  obtain d where d: "aj_parse alloc (reply_text rid oc) = Some d" "doc_ok d" "repr d 0 (reply_json rid oc)"
    using readable_parses [OF r mem] unfolding reply_text_def by blast
  have c: "cstr (reply_text rid oc) = reply_text rid oc"
    using r unfolding reply_text_def by (intro cstr_of_cstr json_text_cstr) (simp add: readable_def)
  have run: "arpc_invoke alloc env dispatch c cl =
      (let c2 = c\<lparr>call_req := request_writer alloc c, call_rsp := d, call_parsed := True\<rparr>;
           err = aj_member d 0 ''error'' in
       if aj_i64 d (aj_member d 0 ''id'') (-1) \<noteq> call_id c
       then Some (False, c2, disconnect env (set_err cl1
              (''reply to request '' @ int_text (aj_i64 d (aj_member d 0 ''id'') (-1)) @ '' arrived out of step'')))
       else if err \<ge> 0
       then Some (False, c2, set_err cl1 (the (aj_str d (aj_member d err ''message'') (Some ''error'')) @ '' ('' @
              int_text (aj_i64 d (aj_member d err ''code'') 0) @ '')''))
       else let n = aj_member d 0 ''result'' in Some (n \<ge> 0, c2\<lparr>call_result := n\<rparr>, cl1))"
    using ok t d(1) by (simp add: arpc_invoke_def request_writer_def c Let_def)
  show ?thesis
  proof (cases oc)
    case (Result kvs)
    note o = d(3) [unfolded Result reply_json.simps]
    note m = member_scalars(1) [OF d(2) o, of "''id''" "-1", simplified] member_of_object [OF d(2) o, of "''error''", simplified]
    obtain k where k: "aj_member d 0 ''result'' = int k" "repr d k (JObj kvs)"
      using member_of_object [OF d(2) o, of "''result''", simplified] by auto
    let ?c = "c\<lparr>call_req := request_writer alloc c, call_rsp := d, call_parsed := True, call_result := int k\<rparr>"
    show ?thesis
    proof (cases "rid = call_id c")
      case True
      have "result_is ?c kvs" using d(2) k(2) by (auto simp: result_is_def)
      with run True Result m k(1) show ?thesis
        by (intro exI [of _ ?c]) (simp add: num_or_def Let_def)
    next
      case False
      then show ?thesis using run m by (simp add: num_or_def Let_def)
    qed
  next
    case (Error code msg)
    note o = d(3) [unfolded Error reply_json.simps]
    note m = member_scalars(1) [OF d(2) o, of "''id''" "-1", simplified]
    obtain k where k: "aj_member d 0 ''error'' = int k" "repr d k (JObj [(''code'', JNum code), (''message'', JStr msg)])"
      using member_of_object [OF d(2) o, of "''error''", simplified] by auto
    note e = member_scalars [OF d(2) k(2)]
    show ?thesis using run Error m k(1) e by (auto simp: num_or_def str_or_def Let_def)
  qed
qed

end
