(* ===== verification/Client_Callbacks.thy ===== *)
theory Client_Callbacks
  imports Client_Call
begin

text \<open>
  The client half of the callback bridge, \<^verbatim>\<open>src/client/arpc_callbacks.c\<close>: the registry of the
  caller's functions, telling the server which callbacks to send, and answering one. The table of
  kinds is generated: a name on the wire and the function that unpacks the arguments and calls the
  caller's; it runs the caller's code, so it acts on the client's state and may not return.
\<close>

type_synonym ('w, 'pipe) cb_call =
  "64 word \<Rightarrow> 64 word \<Rightarrow> aj_doc \<Rightarrow> int \<Rightarrow> ('w, 'pipe) client \<Rightarrow> (int \<times> ('w, 'pipe) client) option"

definition ARPC_CB_SLOTS :: nat where
  "ARPC_CB_SLOTS = 32"

section \<open>The registry\<close>

fun reg_at_c :: "nat \<Rightarrow> creg list \<Rightarrow> 64 word \<Rightarrow> nat option" where
  "reg_at_c i [] handle = None"
| "reg_at_c i (r # rs) handle = (if c_handle r = handle then Some i else reg_at_c (Suc i) rs handle)"

definition sizeof_creg :: nat where
  "sizeof_creg = 528"

definition reg_for_c :: "allocator \<Rightarrow> creg list \<Rightarrow> 64 word \<Rightarrow> bool \<Rightarrow> nat option \<times> creg list" where
  "reg_for_c alloc regs handle create =
     (case reg_at_c 0 regs handle of
        Some i \<Rightarrow> (Some i, regs)
      | None \<Rightarrow>
          if \<not> create then (None, regs)
          else if alloc sizeof_creg
          then (Some 0, \<lparr>c_handle = handle, c_fn = replicate ARPC_CB_SLOTS 0, c_ctx = replicate ARPC_CB_SLOTS 0\<rparr> # regs)
          else (None, regs))"

definition arpc_callbacks_purge :: "creg list \<Rightarrow> 64 word \<Rightarrow> creg list" where
  "arpc_callbacks_purge regs handle = filter (\<lambda>r. c_handle r \<noteq> handle) regs"

definition slot_ok :: "int \<Rightarrow> bool" where
  "slot_ok kind \<longleftrightarrow> kind \<ge> 0 \<and> kind < int ARPC_CB_SLOTS"

definition arpc_cb_fn :: "allocator \<Rightarrow> creg list \<Rightarrow> 64 word \<Rightarrow> int \<Rightarrow> 64 word" where
  "arpc_cb_fn alloc regs handle kind =
     (case fst (reg_for_c alloc regs handle False) of
        None \<Rightarrow> 0
      | Some i \<Rightarrow> if slot_ok kind then c_fn (regs ! i) ! nat kind else 0)"

definition arpc_cb_ctx :: "allocator \<Rightarrow> creg list \<Rightarrow> 64 word \<Rightarrow> int \<Rightarrow> 64 word" where
  "arpc_cb_ctx alloc regs handle kind =
     (case fst (reg_for_c alloc regs handle False) of
        None \<Rightarrow> 0
      | Some i \<Rightarrow> if slot_ok kind then c_ctx (regs ! i) ! nat kind else 0)"

text \<open>\<^verbatim>\<open>(int)arpc_ret_i64(&c)\<close> keeps the low 32 bits.\<close>

definition set_remote ::
    "allocator \<Rightarrow> ('w, 'proc, 'tok, 'pipe) client_env \<Rightarrow> ('w, 'pipe) dispatcher \<Rightarrow> 64 word \<Rightarrow> string \<Rightarrow> bool \<Rightarrow>
     ('w, 'pipe) client \<Rightarrow> (int \<times> ('w, 'pipe) client) option" where
  "set_remote alloc env dispatch handle which enabled cl =
     do {
       (ok, c, cl1) \<leftarrow> arpc_begin alloc env dispatch ''arpc.set_callback'' cl;
       if \<not> ok then Some (-1, cl1)
       else
         let c1 = arpc_put_i64 alloc (arpc_put_str alloc (arpc_put_handle alloc c handle) (Some which)) (of_bool enabled) in
         do {
           (done, c2, cl2) \<leftarrow> arpc_invoke alloc env dispatch c1 cl1;
           Some (if done then signed_take_bit 31 (arpc_ret_i64_c c2) else -1, cl2) } }"

definition set_slot :: "nat \<Rightarrow> 64 word \<Rightarrow> 64 word \<Rightarrow> creg \<Rightarrow> creg" where
  "set_slot kind fn ctx r = r\<lparr>c_fn := (c_fn r)[kind := fn], c_ctx := (c_ctx r)[kind := ctx]\<rparr>"

definition arpc_cb_register ::
    "allocator \<Rightarrow> ('w, 'proc, 'tok, 'pipe) client_env \<Rightarrow> ('w, 'pipe) dispatcher \<Rightarrow> 64 word \<Rightarrow> int \<Rightarrow> string \<Rightarrow>
     64 word \<Rightarrow> 64 word \<Rightarrow> ('w, 'pipe) client \<Rightarrow> (int \<times> ('w, 'pipe) client) option" where
  "arpc_cb_register alloc env dispatch handle kind wire fn ctx cl =
     (case reg_for_c alloc (cl_regs cl) handle True of
        (None, regs) \<Rightarrow> Some (-1, cl\<lparr>cl_regs := regs\<rparr>)
      | (Some i, regs) \<Rightarrow>
          if \<not> slot_ok kind then Some (-1, cl\<lparr>cl_regs := regs\<rparr>)
          else set_remote alloc env dispatch handle wire (fn \<noteq> 0)
                 (cl\<lparr>cl_regs := regs[i := set_slot (nat kind) fn ctx (regs ! i)]\<rparr>))"

section \<open>Answering\<close>

fun kind_at :: "nat \<Rightarrow> (string \<times> 'f) list \<Rightarrow> string \<Rightarrow> (nat \<times> 'f) option" where
  "kind_at i [] which = None"
| "kind_at i (k # ks) which = (if fst k = which then Some (i, snd k) else kind_at (Suc i) ks which)"

text \<open>The answer, written to an empty writer.\<close>

definition cb_reply :: "allocator \<Rightarrow> int \<Rightarrow> int \<Rightarrow> aj_w" where
  "cb_reply alloc sq ret =
     (let w1 = ajw_i64 alloc (ajw_key alloc (ajw_obj_begin alloc ajw_init) ''cbseq'') sq;
          w2 = ajw_i64 alloc (ajw_key alloc w1 ARPC_RET_KEY) ret
      in ajw_obj_end alloc w2)"

definition arpc_dispatch_callback ::
    "allocator \<Rightarrow> (string \<times> ('w, 'pipe) cb_call) list \<Rightarrow> ('w, 'pipe) dispatcher" where
  "arpc_dispatch_callback alloc kinds d cl =
     (let which = the (aj_str d (aj_member d 0 ''cb'') (Some []));
          sq = aj_i64 d (aj_member d 0 ''seq'') 0;
          handle = word_of_int (aj_i64 d (aj_member d 0 ''handle'') 0);
          args = aj_member d 0 ''args''
      in do {
        (ret, cl1) \<leftarrow> (case kind_at 0 kinds which of
             None \<Rightarrow> Some (0, cl)
           | Some (i, call) \<Rightarrow>
               let fn = arpc_cb_fn alloc (cl_regs cl) handle (int i)
               in if fn \<noteq> 0 then call fn (arpc_cb_ctx alloc (cl_regs cl) handle (int i)) d args cl else Some (0, cl));
        Some (cb_reply alloc sq ret, cl1) })"

section \<open>Every callback is answered\<close>

definition answer_json :: "int \<Rightarrow> int \<Rightarrow> json" where
  "answer_json sq ret = JObj [(''cbseq'', JNum sq), (ARPC_RET_KEY, JNum ret)]"

lemma answer_wire: "i64_range sq \<Longrightarrow> i64_range ret \<Longrightarrow> wire_value (answer_json sq ret)"
  using rev_digits_short [of sq] rev_digits_short [of ret]
  by (simp add: wire_value_def answer_json_def i64_range_def AJ_MAX_DEPTH_def ARPC_RET_KEY_def str_text_def esc_char_def)

lemma cb_reply_text:
  assumes "\<forall>n. alloc n" and "i64_range sq" and "i64_range ret"
  shows "\<not> w_err (cb_reply alloc sq ret)" and "w_text (cb_reply alloc sq ret) = json_text (answer_json sq ret)"
proof -
  have s: "adds_members alloc [(''cbseq'', JNum sq)] (\<lambda>w. ajw_i64 alloc (ajw_key alloc w ''cbseq'') sq)"
    and r: "adds_members alloc [(ARPC_RET_KEY, JNum ret)] (\<lambda>w. ajw_i64 alloc (ajw_key alloc w ARPC_RET_KEY) ret)"
    by (rule adds_member; simp add: writes_i64 assms ARPC_RET_KEY_def)+
  note w = writes_object [OF adds_members_comp [OF s r], unfolded append.simps, folded answer_json_def]
  have "length (json_text (answer_json sq ret)) + 32 \<le> 2 ^ 63"
    using answer_wire [OF assms(2,3)] by (simp add: wire_value_def)
  from writes_init [OF w this] assms(1)
  show "\<not> w_err (cb_reply alloc sq ret)" "w_text (cb_reply alloc sq ret) = json_text (answer_json sq ret)"
    by (simp_all add: cb_reply_def Let_def)
qed

text \<open>
  What is relied on of the caller's functions: they return, and the ones considered here make no
  calls of their own, so they leave the connection and its two streams alone.
\<close>

definition callbacks_ok ::
    "('w \<Rightarrow> string) \<Rightarrow> ('w \<Rightarrow> string) \<Rightarrow> (string \<times> ('w, 'pipe) cb_call) list \<Rightarrow> bool" where
  "callbacks_ok inp outp kinds \<longleftrightarrow>
     (\<forall>k \<in> set kinds. \<forall>fn ctx d args cl. \<exists>ret cl'. snd k fn ctx d args cl = Some (ret, cl') \<and> i64_range ret \<and>
        cl_pipe cl' = cl_pipe cl \<and> cl_regs cl' = cl_regs cl \<and>
        inp (cl_ext cl') = inp (cl_ext cl) \<and> outp (cl_ext cl') = outp (cl_ext cl))"

text \<open>A callback as the server sends it: its name, number, handle and arguments.\<close>

type_synonym cb_event = "string \<times> int \<times> 64 word \<times> json"

fun event_json :: "cb_event \<Rightarrow> json" where
  "event_json (name, sq, handle, v) = cb_json name sq handle v"

text \<open>
  What a callback is answered with: what the function registered for its handle and name returned
  for the context registered with it and the arguments sent, or 0 if there is no such function.
\<close>

definition callback_ran :: "allocator \<Rightarrow> (string \<times> ('w, 'pipe) cb_call) list \<Rightarrow> creg list \<Rightarrow> cb_event \<Rightarrow> int \<Rightarrow> bool" where
  "callback_ran alloc kinds regs e ret \<longleftrightarrow>
     (case e of (name, sq, handle, v) \<Rightarrow>
        (case kind_at 0 kinds (cstr name) of
           None \<Rightarrow> ret = 0
         | Some (i, call) \<Rightarrow>
             if arpc_cb_fn alloc regs handle (int i) = 0 then ret = 0
             else (\<exists>d cl1 cl2. doc_ok d \<and> repr d 0 (event_json e) \<and> cl_regs cl1 = regs \<and>
               call (arpc_cb_fn alloc regs handle (int i)) (arpc_cb_ctx alloc regs handle (int i)) d (aj_member d 0 ''args'') cl1 = Some (ret, cl2))))"

lemma kind_at_set: "kind_at i ks which = Some (j, f) \<Longrightarrow> (which, f) \<in> set ks"
  by (induction ks arbitrary: i) (auto split: if_splits prod.splits)

lemma dispatch_answers:
  assumes kinds: "callbacks_ok inp outp kinds" and mem: "\<forall>n. alloc n"
    and d: "doc_ok d" "repr d 0 (cb_json name sq handle v)" and sq: "i64_range sq"
  shows "\<exists>ret cl' reply. arpc_dispatch_callback alloc kinds d cl = Some (reply, cl') \<and> \<not> w_err reply \<and>
    w_text reply = json_text (answer_json sq ret) \<and> i64_range ret \<and>
    callback_ran alloc kinds (cl_regs cl) (name, sq, handle, v) ret \<and> cl_regs cl' = cl_regs cl \<and>
    cl_pipe cl' = cl_pipe cl \<and> inp (cl_ext cl') = inp (cl_ext cl) \<and> outp (cl_ext cl') = outp (cl_ext cl)"
proof -
  note m = member_scalars [OF d(1) d(2) [unfolded cb_json_def], simplified]
  let ?args = "aj_member d 0 ''args''"
  let ?run = "case kind_at 0 kinds (cstr name) of
      None \<Rightarrow> Some (0, cl)
    | Some (i, call) \<Rightarrow>
        let fn = arpc_cb_fn alloc (cl_regs cl) handle (int i)
        in if fn \<noteq> 0 then call fn (arpc_cb_ctx alloc (cl_regs cl) handle (int i)) d ?args cl else Some (0, cl)"
  have "\<exists>ret cl'. ?run = Some (ret, cl') \<and> i64_range ret \<and> callback_ran alloc kinds (cl_regs cl) (name, sq, handle, v) ret \<and> cl_regs cl' = cl_regs cl \<and>
      cl_pipe cl' = cl_pipe cl \<and> inp (cl_ext cl') = inp (cl_ext cl) \<and> outp (cl_ext cl') = outp (cl_ext cl)"
  proof (cases "kind_at 0 kinds (cstr name)")
    case (Some ic)
    obtain i call where ic: "ic = (i, call)" by fastforce
    with Some have "(cstr name, call) \<in> set kinds" using kind_at_set by fastforce
    then have "\<exists>ret cl'. call fn ctx d ?args cl = Some (ret, cl') \<and> i64_range ret \<and> cl_regs cl' = cl_regs cl \<and>
        cl_pipe cl' = cl_pipe cl \<and> inp (cl_ext cl') = inp (cl_ext cl) \<and> outp (cl_ext cl') = outp (cl_ext cl)" for fn ctx
      using kinds unfolding callbacks_ok_def by fastforce
    then show ?thesis using Some ic d by (auto simp: Let_def callback_ran_def) metis+
  qed (simp add: callback_ran_def)
  then obtain ret cl' where r: "?run = Some (ret, cl')" "i64_range ret" "callback_ran alloc kinds (cl_regs cl) (name, sq, handle, v) ret" "cl_regs cl' = cl_regs cl" "cl_pipe cl' = cl_pipe cl"
      "inp (cl_ext cl') = inp (cl_ext cl)" "outp (cl_ext cl') = outp (cl_ext cl)" by blast
  have "arpc_dispatch_callback alloc kinds d cl = Some (cb_reply alloc sq ret, cl')"
    using r(1) by (simp add: arpc_dispatch_callback_def m num_or_def str_or_def)
  with r(2-7) cb_reply_text [OF mem sq r(2)] show ?thesis by blast
qed

section \<open>Waiting for a reply\<close>

definition event_ok :: "cb_event \<Rightarrow> bool" where
  "event_ok e \<longleftrightarrow> readable (event_json e) \<and> frame_ok (json_text (event_json e)) \<and> i64_range (fst (snd e))"

definition answers_text :: "cb_event list \<Rightarrow> int list \<Rightarrow> string" where
  "answers_text es rets = concat (map2 (\<lambda>e ret. sent_text (json_text (answer_json (fst (snd e)) ret))) es rets)"

lemma answers_text_simps [simp]:
  "answers_text [] rets = []"
  "answers_text (e # es) (ret # rets) = sent_text (json_text (answer_json (fst (snd e)) ret)) @ answers_text es rets"
  by (simp_all add: answers_text_def)

text \<open>The client's end of a pipe: \<open>inp\<close> is what the server has sent, \<open>outp\<close> what the client sends.\<close>

definition client_pipe ::
    "('w, 'proc, 'tok, 'pipe) client_env \<Rightarrow> 'pipe \<Rightarrow> ('w \<Rightarrow> string) \<Rightarrow> ('w \<Rightarrow> string) \<Rightarrow> bool" where
  "client_pipe env p inp outp \<longleftrightarrow> write_ok (k_io env p) False outp inp \<and> read_ok (k_io env p) False inp outp"

lemma client_send:
  assumes "client_pipe env p inp outp" and "cl_pipe cl = Some p"
  shows "\<exists>w. send_frame env cl b = (True, cl\<lparr>cl_ext := w\<rparr>) \<and> outp w = outp (cl_ext cl) @ sent_text b \<and> inp w = inp (cl_ext cl)"
  using send_frame_text [of "k_io env p" False outp inp "cl_ext cl" b] assms
  by (auto simp: client_pipe_def send_frame_def)

lemma client_recv:
  assumes "client_pipe env p inp outp" and "cl_pipe cl = Some p" and "frame_ok b" and "\<forall>n. alloc n"
    and "inp (cl_ext cl) = frame_header (length b) @ b @ rest"
  shows "\<exists>w. recv_frame alloc env cl = (Some b, cl\<lparr>cl_ext := w\<rparr>) \<and> inp w = rest \<and> outp w = outp (cl_ext cl)"
  using recv_frame_ok [of "k_io env p" False inp outp b alloc "cl_ext cl" rest] assms
  by (auto simp: client_pipe_def recv_frame_def)

lemma readable_cstr: "readable v \<Longrightarrow> cstr (json_text v) = json_text v"
  by (intro cstr_of_cstr json_text_cstr) (simp add: readable_def)

lemma reply_not_cb:
  assumes "repr d 0 (reply_json rid oc)" and "doc_ok d"
  shows "\<not> 0 \<le> aj_member d 0 ''cb''"
proof (cases oc)
  case (Result kvs)
  from member_of_object [OF assms(2) assms(1) [unfolded Result reply_json.simps], of "''cb''"] show ?thesis by simp
next
  case (Error code msg)
  from member_of_object [OF assms(2) assms(1) [unfolded Error reply_json.simps], of "''cb''"] show ?thesis by simp
qed

lemma transact_loop_exact:
  assumes pipe: "client_pipe env p inp outp" and kinds: "callbacks_ok inp outp kinds" and mem: "\<forall>n. alloc n"
    and reply: "readable (reply_json rid oc)" "frame_ok (reply_text rid oc)"
  shows "cl_pipe cl = Some p \<Longrightarrow> \<forall>e \<in> set es. event_ok e \<Longrightarrow>
    inp (cl_ext cl) = frames_text (map (\<lambda>e. json_text (event_json e)) es @ [reply_text rid oc]) @ rest \<Longrightarrow>
    \<exists>rets cl'. transact_loop alloc env (arpc_dispatch_callback alloc kinds) cl = Some (Some (reply_text rid oc), cl') \<and>
      list_all2 (callback_ran alloc kinds (cl_regs cl)) es rets \<and> (\<forall>ret \<in> set rets. i64_range ret) \<and> cl_pipe cl' = Some p \<and> inp (cl_ext cl') = rest \<and>
      outp (cl_ext cl') = outp (cl_ext cl) @ answers_text es rets"
proof (induction es arbitrary: cl)
  case Nil
  then obtain w where w: "recv_frame alloc env cl = (Some (reply_text rid oc), cl\<lparr>cl_ext := w\<rparr>)" "inp w = rest"
      "outp w = outp (cl_ext cl)"
    using client_recv [OF pipe _ reply(2) mem, of cl rest] by (auto simp: frames_text_def)
  obtain d where d: "aj_parse alloc (reply_text rid oc) = Some d" "doc_ok d" "repr d 0 (reply_json rid oc)"
    using readable_parses [OF reply(1) mem] unfolding reply_text_def by blast
  show ?case
    using w d(1) reply_not_cb [OF d(3,2)] Nil.prems(1) readable_cstr [OF reply(1), folded reply_text_def]
    by (subst transact_loop.simps) simp
next
  case (Cons e es)
  obtain name sq handle v where e: "e = (name, sq, handle, v)" by (metis prod_cases4)
  let ?f = "json_text (cb_json name sq handle v)"
  have ok: "readable (cb_json name sq handle v)" "frame_ok ?f" "i64_range sq"
    using Cons.prems(2) by (simp_all add: event_ok_def e)
  obtain w where w: "recv_frame alloc env cl = (Some ?f, cl\<lparr>cl_ext := w\<rparr>)"
      "inp w = frames_text (map (\<lambda>e. json_text (event_json e)) es @ [reply_text rid oc]) @ rest" "outp w = outp (cl_ext cl)"
    using client_recv [OF pipe Cons.prems(1) ok(2) mem] Cons.prems(3) by (auto simp: frames_text_def e)
  obtain d where d: "aj_parse alloc ?f = Some d" "doc_ok d" "repr d 0 (cb_json name sq handle v)"
    using readable_parses [OF ok(1) mem] by blast
  have cb: "0 \<le> aj_member d 0 ''cb''"
    using member_of_object [OF d(2) d(3) [unfolded cb_json_def], of "''cb''"] by auto
  obtain ret cl2 reply where r: "arpc_dispatch_callback alloc kinds d (cl\<lparr>cl_ext := w\<rparr>) = Some (reply, cl2)" "\<not> w_err reply"
      "w_text reply = json_text (answer_json sq ret)" "i64_range ret" "cl_pipe cl2 = Some p" "inp (cl_ext cl2) = inp w" "outp (cl_ext cl2) = outp w"
      "callback_ran alloc kinds (cl_regs cl) e ret" "cl_regs cl2 = cl_regs cl"
    using dispatch_answers [OF kinds mem d(2,3) ok(3), of "cl\<lparr>cl_ext := w\<rparr>"] Cons.prems(1) by (auto simp: e)
  obtain w3 where s: "send_frame env cl2 (w_text reply) = (True, cl2\<lparr>cl_ext := w3\<rparr>)"
      "outp w3 = outp (cl_ext cl2) @ sent_text (w_text reply)" "inp w3 = inp (cl_ext cl2)"
    using client_send [OF pipe r(5), of "w_text reply"] by blast
  obtain rets cl' where "transact_loop alloc env (arpc_dispatch_callback alloc kinds) (cl2\<lparr>cl_ext := w3\<rparr>) = Some (Some (reply_text rid oc), cl')"
      "list_all2 (callback_ran alloc kinds (cl_regs cl)) es rets" "\<forall>ret \<in> set rets. i64_range ret" "cl_pipe cl' = Some p" "inp (cl_ext cl') = rest" "outp (cl_ext cl') = outp w3 @ answers_text es rets"
    using Cons.IH [of "cl2\<lparr>cl_ext := w3\<rparr>"] Cons.prems(2) w(2) r(5,6,9) s(3) by auto
  with w d(1) cb r s readable_cstr [OF ok(1)] show ?case
    by (subst transact_loop.simps) (auto simp: e intro!: exI [of _ "ret # rets"])
qed

lemma transact_exact:
  assumes pipe: "client_pipe env p inp outp" and kinds: "callbacks_ok inp outp kinds" and mem: "\<forall>n. alloc n"
    and reply: "readable (reply_json rid oc)" "frame_ok (reply_text rid oc)"
    and cl: "cl_pipe cl = Some p" and es: "\<forall>e \<in> set es. event_ok e"
    and inp: "inp (cl_ext cl) = frames_text (map (\<lambda>e. json_text (event_json e)) es @ [reply_text rid oc]) @ rest"
  shows "\<exists>rets cl'. transact alloc env (arpc_dispatch_callback alloc kinds) cl req = Some (Some (reply_text rid oc), cl') \<and>
      list_all2 (callback_ran alloc kinds (cl_regs cl)) es rets \<and> (\<forall>ret \<in> set rets. i64_range ret) \<and> cl_pipe cl' = Some p \<and> inp (cl_ext cl') = rest \<and>
      outp (cl_ext cl') = outp (cl_ext cl) @ sent_text req @ answers_text es rets"
proof -
  obtain w where s: "send_frame env cl req = (True, cl\<lparr>cl_ext := w\<rparr>)" "outp w = outp (cl_ext cl) @ sent_text req"
      "inp w = inp (cl_ext cl)"
    using client_send [OF pipe cl, of req] by blast
  from transact_loop_exact [OF pipe kinds mem reply, of "cl\<lparr>cl_ext := w\<rparr>" es rest] cl es inp s
  show ?thesis by (auto simp: transact_def)
qed

end
