(* ===== verification/Client_Fields.thy ===== *)
theory Client_Fields
  imports Client_Callbacks Cache_Keys
begin

text \<open>
  Where the client's calls and its caches meet, in \<^verbatim>\<open>src/client/arpc_client.c\<close>: interning what a
  reply returned, releasing a handle, and the package fields fetched for a whole list at once.

  A callback served during a call may release what the caller goes on to use. Where the code then
  reads freed memory, or writes through a null pointer, the definitions return \<^const>\<open>None\<close>, as for a
  call that does not return.
\<close>

definition arpc_intern_str :: "uthash \<Rightarrow> allocator \<Rightarrow> arpc_call \<Rightarrow> 64 word \<Rightarrow> string \<Rightarrow> cache \<Rightarrow> nat \<times> cache" where
  "arpc_intern_str u alloc c owner key ca =
     (case aj_str (call_rsp c) (aj_member (call_rsp c) (call_result c) ARPC_RET_KEY) None of
        None \<Rightarrow> (0, ca)
      | Some s \<Rightarrow> intern u alloc owner key (Some s) ca)"

definition arpc_intern_static :: "allocator \<Rightarrow> arpc_call \<Rightarrow> cache \<Rightarrow> nat \<times> cache" where
  "arpc_intern_static alloc c ca =
     keep_static alloc (aj_str (call_rsp c) (aj_member (call_rsp c) (call_result c) ARPC_RET_KEY) None) ca"

definition arpc_purge_root :: "64 word \<Rightarrow> ('w, 'pipe) client \<Rightarrow> ('w, 'pipe) client" where
  "arpc_purge_root handle cl =
     cl\<lparr>cl_cache := forget_root (ARPC_ROOT handle) (cl_cache cl), cl_regs := arpc_callbacks_purge (cl_regs cl) handle\<rparr>"

section \<open>Fields\<close>

definition sizeof_column :: nat where
  "sizeof_column = 32"

text \<open>The elements of the reply's array, at most \<open>n\<close>.\<close>

fun column_nodes :: "aj_doc \<Rightarrow> nat \<Rightarrow> int \<Rightarrow> int list" where
  "column_nodes d 0 e = []"
| "column_nodes d (Suc n) e = (if e \<ge> 0 then e # column_nodes d n (aj_next d e) else [])"

text \<open>The array of ids and the field.\<close>

definition fields_request :: "allocator \<Rightarrow> (64 word) list \<Rightarrow> string \<Rightarrow> arpc_call \<Rightarrow> arpc_call" where
  "fields_request alloc ids field c =
     (let w1 = fold (\<lambda>h w. ajw_i64 alloc w (sint h)) ids (ajw_arr_begin alloc (call_req c))
      in arpc_put_str alloc (c\<lparr>call_req := ajw_arr_end alloc w1\<rparr>) (Some field))"

text \<open>The column from the reply, added to the group at \<open>a\<close>, which has \<open>n\<close> members.\<close>

definition store_column ::
    "allocator \<Rightarrow> nat \<Rightarrow> nat \<Rightarrow> string \<Rightarrow> bool \<Rightarrow> arpc_call \<Rightarrow> cache \<Rightarrow> (column option \<times> cache) option" where
  "store_column alloc a n field want_str c ca =
     (let d = call_rsp c;
          nodes = column_nodes d n (aj_first d (arpc_ret_node c));
          nums = map (\<lambda>e. aj_i64 d e 0) nodes;
          added = (\<lambda>ca. map_option (\<lambda>g. hd (pg_cols g)) (group_at a ca))
      in if \<not> alloc sizeof_column then Some (None, ca)
         else if \<not> alloc (n * 8)
         then (if nodes \<noteq> [] then None
               else let ca1 = add_column a \<lparr>col_field = field, col_str = None, col_num = None\<rparr> ca in Some (added ca1, ca1))
         else if want_str
         then let ca1 = add_strings alloc a field n (map (\<lambda>e. aj_str d e None) nodes) ca in Some (added ca1, ca1)
         else let ca1 = add_column a \<lparr>col_field = field, col_str = None,
                                      col_num = Some (nums @ replicate (n - length nums) 0)\<rparr> ca
              in Some (added ca1, ca1))"

definition fetch_column ::
    "allocator \<Rightarrow> ('w, 'proc, 'tok, 'pipe) client_env \<Rightarrow> ('w, 'pipe) dispatcher \<Rightarrow> nat \<Rightarrow> string \<Rightarrow> bool \<Rightarrow>
     ('w, 'pipe) client \<Rightarrow> (column option \<times> ('w, 'pipe) client) option" where
  "fetch_column alloc env dispatch a field want_str cl =
     do {
       (ok, c, cl1) \<leftarrow> arpc_begin alloc env dispatch ''arpc.pkg_fields'' cl;
       if \<not> ok then Some (None, cl1)
       else do {
         g \<leftarrow> group_at a (cl_cache cl1);
         (done, c1, cl2) \<leftarrow> arpc_invoke alloc env dispatch (fields_request alloc (pg_ids g) field c) cl1;
         if \<not> done then Some (None, cl2)
         else do {
           g' \<leftarrow> group_at a (cl_cache cl2);
           (col, ca) \<leftarrow> store_column alloc a (length (pg_ids g')) field want_str c1 (cl_cache cl2);
           Some (col, cl2\<lparr>cl_cache := ca\<rparr>) } } }"

definition column_for ::
    "allocator \<Rightarrow> ('w, 'proc, 'tok, 'pipe) client_env \<Rightarrow> ('w, 'pipe) dispatcher \<Rightarrow> nat \<Rightarrow> string \<Rightarrow> bool \<Rightarrow>
     ('w, 'pipe) client \<Rightarrow> (column option \<times> ('w, 'pipe) client) option" where
  "column_for alloc env dispatch a field want_str cl =
     do {
       g \<leftarrow> group_at a (cl_cache cl);
       case find (\<lambda>c. col_field c = field) (pg_cols g) of
         Some c \<Rightarrow> Some (Some c, cl)
       | None \<Rightarrow> fetch_column alloc env dispatch a field want_str cl }"

definition arpc_pkg_field_str ::
    "uthash \<Rightarrow> allocator \<Rightarrow> ('w, 'proc, 'tok, 'pipe) client_env \<Rightarrow> ('w, 'pipe) dispatcher \<Rightarrow> 64 word \<Rightarrow> string \<Rightarrow>
     ('w, 'pipe) client \<Rightarrow> (nat \<times> ('w, 'pipe) client) option" where
  "arpc_pkg_field_str u alloc env dispatch hid field cl =
     (if hid = 0 then Some (0, cl)
      else case group_for_pkg u alloc hid (cl_cache cl) of
        (None, ca) \<Rightarrow> Some (0, cl\<lparr>cl_cache := ca\<rparr>)
      | (Some (a, slot), ca) \<Rightarrow>
          do {
            (col, cl1) \<leftarrow> column_for alloc env dispatch a field True (cl\<lparr>cl_cache := ca\<rparr>);
            Some (case Option.bind col col_str of None \<Rightarrow> 0 | Some ps \<Rightarrow> ps ! slot, cl1) })"

definition arpc_pkg_field_i64 ::
    "uthash \<Rightarrow> allocator \<Rightarrow> ('w, 'proc, 'tok, 'pipe) client_env \<Rightarrow> ('w, 'pipe) dispatcher \<Rightarrow> 64 word \<Rightarrow> string \<Rightarrow>
     ('w, 'pipe) client \<Rightarrow> (int \<times> ('w, 'pipe) client) option" where
  "arpc_pkg_field_i64 u alloc env dispatch hid field cl =
     (if hid = 0 then Some (0, cl)
      else case group_for_pkg u alloc hid (cl_cache cl) of
        (None, ca) \<Rightarrow> Some (0, cl\<lparr>cl_cache := ca\<rparr>)
      | (Some (a, slot), ca) \<Rightarrow>
          do {
            (col, cl1) \<leftarrow> column_for alloc env dispatch a field False (cl\<lparr>cl_cache := ca\<rparr>);
            Some (case Option.bind col col_num of None \<Rightarrow> 0 | Some ns \<Rightarrow> ns ! slot, cl1) })"

section \<open>One round trip for a list\<close>

text \<open>A call during which no callback arrives.\<close>

lemma transact_plain:
  assumes pipe: "client_pipe env p inp outp" and mem: "\<forall>n. alloc n"
    and reply: "readable (reply_json rid oc)" "frame_ok (reply_text rid oc)"
    and cl: "cl_pipe cl = Some p" and inp: "inp (cl_ext cl) = sent_text (reply_text rid oc) @ rest"
  shows "\<exists>w. transact alloc env dispatch cl req = Some (Some (reply_text rid oc), cl\<lparr>cl_ext := w\<rparr>) \<and>
    inp w = rest \<and> outp w = outp (cl_ext cl) @ sent_text req"
proof -
  obtain w1 where s: "send_frame env cl req = (True, cl\<lparr>cl_ext := w1\<rparr>)" "outp w1 = outp (cl_ext cl) @ sent_text req"
      "inp w1 = inp (cl_ext cl)"
    using client_send [OF pipe cl, of req] by blast
  then obtain w where w: "recv_frame alloc env (cl\<lparr>cl_ext := w1\<rparr>) = (Some (reply_text rid oc), cl\<lparr>cl_ext := w\<rparr>)" "inp w = rest"
      "outp w = outp w1"
    using client_recv [OF pipe _ reply(2) mem, of "cl\<lparr>cl_ext := w1\<rparr>" rest] cl inp sent_text_ok [OF reply(2)] by auto
  obtain d where d: "aj_parse alloc (reply_text rid oc) = Some d" "doc_ok d" "repr d 0 (reply_json rid oc)"
    using readable_parses [OF reply(1) mem] unfolding reply_text_def by blast
  have "transact_loop alloc env dispatch (cl\<lparr>cl_ext := w1\<rparr>) = Some (Some (reply_text rid oc), cl\<lparr>cl_ext := w\<rparr>)"
    using w d(1) reply_not_cb [OF d(3,2)] readable_cstr [OF reply(1), folded reply_text_def]
    by (subst transact_loop.simps) simp
  with s w show ?thesis by (intro exI [of _ w]) (simp add: transact_def)
qed

text \<open>The walk over the reply's array meets its elements.\<close>

lemma column_nodes_chain: "chain d e ks \<Longrightarrow> column_nodes d n e = map int (take n ks)"
proof (induction n arbitrary: e ks)
  case (Suc n)
  show ?case
  proof (cases ks)
    case Nil
    with Suc.prems show ?thesis by simp
  next
    case (Cons k ks')
    with Suc.prems have k: "e = int k" "k < d_count d" "chain d (next_sibling (d_nodes d ! k)) ks'" by simp_all
    then have "aj_next d e = next_sibling (d_nodes d ! k)" by (simp add: aj_next_def aj_at_nat)
    with Suc.IH [OF k(3)] Cons k(1) show ?thesis by simp
  qed
qed simp

lemma column_values:
  assumes res: "result_is c [(ARPC_RET_KEY, JArr vs)]"
  defines "nodes \<equiv> column_nodes (call_rsp c) (length vs) (aj_first (call_rsp c) (arpc_ret_node c))"
  shows "map (\<lambda>e. aj_i64 (call_rsp c) e 0) nodes = map (\<lambda>v. num_or (Some v) 0) vs"
    and "map (\<lambda>e. aj_str (call_rsp c) e None) nodes = map (\<lambda>v. str_or (Some v) None) vs"
    and "length nodes = length vs"
proof -
  let ?d = "call_rsp c"
  obtain n where n: "doc_ok ?d" "call_result c = int n" "repr ?d n (JObj [(ARPC_RET_KEY, JArr vs)])"
    using res by (auto simp: result_is_def)
  obtain m where m: "aj_member ?d (int n) ARPC_RET_KEY = int m" "repr ?d m (JArr vs)"
    using member_of_object [OF n(1,3), of ARPC_RET_KEY] by auto
  then obtain ks where ks: "m < d_count ?d" "n_type (d_nodes ?d ! m) = AJ_ARR"
      "chain ?d (first_child (d_nodes ?d ! m)) ks" "repr_elems ?d ks vs" by auto
  have "aj_first ?d (arpc_ret_node c) = first_child (d_nodes ?d ! m)"
    using ks(1,2) by (simp add: arpc_ret_node_def n(2) m(1) aj_first_def aj_at_nat is_container_def)
  then have nodes: "nodes = map int ks"
    unfolding nodes_def using column_nodes_chain [OF ks(3), of "length vs"] repr_elems_nth [OF ks(4)] by simp
  have vals: "aj_i64 ?d (int (ks ! i)) 0 = num_or (Some (vs ! i)) 0" "aj_str ?d (int (ks ! i)) None = str_or (Some (vs ! i)) None"
    if "i < length vs" for i
  proof -
    have "repr ?d (ks ! i) (vs ! i)" using repr_elems_nth [OF ks(4)] that by simp
    from scalar_access [OF this] show "aj_i64 ?d (int (ks ! i)) 0 = num_or (Some (vs ! i)) 0"
      "aj_str ?d (int (ks ! i)) None = str_or (Some (vs ! i)) None" by (simp_all add: num_or_def str_or_def)
  qed
  show "length nodes = length vs" unfolding nodes using repr_elems_nth [OF ks(4)] by simp
  show "map (\<lambda>e. aj_i64 ?d e 0) nodes = map (\<lambda>v. num_or (Some v) 0) vs"
    "map (\<lambda>e. aj_str ?d e None) nodes = map (\<lambda>v. str_or (Some v) None) vs"
    unfolding nodes using vals repr_elems_nth [OF ks(4)] by (auto intro!: nth_equalityI)
qed

lemma fields_request_puts:
  "ids \<noteq> [] \<Longrightarrow> fields_request alloc ids field c = fold (run_put alloc) [Put_Handle_List ids, Put_Str (Some field)] c"
  by (simp add: fields_request_def arpc_put_handle_list_def)

definition fields_json :: "int \<Rightarrow> (64 word) list \<Rightarrow> string \<Rightarrow> json" where
  "fields_json rid ids field = request_json rid ''arpc.pkg_fields'' [Put_Handle_List ids, Put_Str (Some field)]"

lemma fetch_exact:
  assumes pipe: "client_pipe env p inp outp" and mem: "\<forall>n. alloc n" and cl: "cl_pipe cl = Some p"
    and g: "group_at a (cl_cache cl) = Some g" "pg_ids g \<noteq> []" "length vs = length (pg_ids g)"
    and rid: "i64_range (cl_next_id cl)" "length (json_text (fields_json (cl_next_id cl) (pg_ids g) field)) + 32 \<le> 2 ^ 63"
    and reply: "readable (reply_json (cl_next_id cl) (Result [(ARPC_RET_KEY, JArr vs)]))"
      "frame_ok (reply_text (cl_next_id cl) (Result [(ARPC_RET_KEY, JArr vs)]))"
    and inp: "inp (cl_ext cl) = sent_text (reply_text (cl_next_id cl) (Result [(ARPC_RET_KEY, JArr vs)])) @ rest"
  obtains w c where "result_is c [(ARPC_RET_KEY, JArr vs)]" and "inp w = rest"
    and "outp w = outp (cl_ext cl) @ sent_text (json_text (fields_json (cl_next_id cl) (pg_ids g) field))"
    and "fetch_column alloc env dispatch a field want_str cl =
      map_option (\<lambda>(col, ca). (col, cl\<lparr>cl_next_id := cl_next_id cl + 1, cl_ext := w, cl_cache := ca\<rparr>))
        (store_column alloc a (length vs) field want_str c (cl_cache cl))"
proof -
  obtain c cl1 where beg: "begin_call alloc ''arpc.pkg_fields'' cl = (c, cl1)" by fastforce
  then have cl1: "cl1 = cl\<lparr>cl_next_id := cl_next_id cl + 1\<rparr>" "call_id c = cl_next_id cl"
    by (auto simp: begin_call_def Let_def)
  let ?c = "fields_request alloc (pg_ids g) field c"
  have id: "call_id ?c = cl_next_id cl" using cl1(2) by (simp add: fields_request_def arpc_put_str_def Let_def)
  note req = request_text [OF mem _ rid(1) beg, of "[Put_Handle_List (pg_ids g), Put_Str (Some field)]", folded fields_request_puts [OF g(2)] fields_json_def, OF _ rid(2), simplified]
  obtain w where w: "transact alloc env dispatch cl1 (w_text (request_writer alloc ?c)) =
        Some (Some (reply_text (cl_next_id cl) (Result [(ARPC_RET_KEY, JArr vs)])), cl1\<lparr>cl_ext := w\<rparr>)"
      "inp w = rest" "outp w = outp (cl_ext cl) @ sent_text (json_text (fields_json (cl_next_id cl) (pg_ids g) field))"
    using transact_plain [OF pipe mem reply, of cl1 rest dispatch "w_text (request_writer alloc ?c)"] cl inp req(2) cl1(1) by auto
  from invoke_reply [OF mem req(1) w(1) reply(1)] id obtain c'
    where inv: "arpc_invoke alloc env dispatch ?c cl1 = Some (True, c', cl1\<lparr>cl_ext := w\<rparr>)" "result_is c' [(ARPC_RET_KEY, JArr vs)]"
    by auto
  have "fetch_column alloc env dispatch a field want_str cl =
      map_option (\<lambda>(col, ca). (col, cl\<lparr>cl_next_id := cl_next_id cl + 1, cl_ext := w, cl_cache := ca\<rparr>))
        (store_column alloc a (length vs) field want_str c' (cl_cache cl))"
    using cl g inv(1) beg
    by (cases "store_column alloc a (length vs) field want_str c' (cl_cache cl)")
      (auto simp: fetch_column_def arpc_begin_def ensure_connected_def cl1(1))
  with inv(2) w(2,3) that show ?thesis by blast
qed

lemma find_map_upd: "find P gs = Some g \<Longrightarrow> P (f g) \<Longrightarrow> find P (map (\<lambda>g. if P g then f g else g) gs) = Some (f g)"
  by (induction gs) (auto split: if_splits)

lemma group_at_add:
  assumes "group_at a ca = Some g"
  shows "group_at a (add_column a c ca) = Some (g\<lparr>pg_cols := c # pg_cols g\<rparr>)"
proof -
  have "pg_addr g = a" using assms by (auto simp: group_at_def find_Some_iff)
  with assms find_map_upd [of "\<lambda>g. pg_addr g = a" "ca_groups ca" g "\<lambda>g. g\<lparr>pg_cols := c # pg_cols g\<rparr>"] show ?thesis
    by (simp add: group_at_def add_column_def upd_group_def)
qed

text \<open>A package that has a slot.\<close>

lemma for_pkg_slot: "find_slot u hid (ca_slots ca) = Some s \<Longrightarrow> group_for_pkg u alloc hid ca = (Some (ps_group s, ps_slot s), ca)"
  by (simp add: group_for_pkg_def)

lemma field_i64_known:
  assumes "find_slot u hid (ca_slots (cl_cache cl)) = Some s" and "hid \<noteq> 0"
    and "group_at (ps_group s) (cl_cache cl) = Some g" and "find (\<lambda>c. col_field c = field) (pg_cols g) = Some c" and "col_num c = Some ns"
  shows "arpc_pkg_field_i64 u alloc env dispatch hid field cl = Some (ns ! ps_slot s, cl)"
  using assms by (simp add: arpc_pkg_field_i64_def for_pkg_slot column_for_def)

lemma field_str_known:
  assumes "find_slot u hid (ca_slots (cl_cache cl)) = Some s" and "hid \<noteq> 0"
    and "group_at (ps_group s) (cl_cache cl) = Some g" and "find (\<lambda>c. col_field c = field) (pg_cols g) = Some c" and "col_str c = Some ps"
  shows "arpc_pkg_field_str u alloc env dispatch hid field cl = Some (ps ! ps_slot s, cl)"
  using assms by (simp add: arpc_pkg_field_str_def for_pkg_slot column_for_def)

lemma dup_all_texts:
  assumes mem: "\<forall>n. alloc n"
  shows "0 < ca_next ca \<Longrightarrow> dup_all alloc ss ca = (ps, ca') \<Longrightarrow>
    length ps = length ss \<and> ca_next ca \<le> ca_next ca' \<and> (\<forall>q < ca_next ca. ca_text ca' q = ca_text ca q) \<and>
    (\<forall>i < length ss. case ss ! i of None \<Rightarrow> ps ! i = 0 | Some s \<Rightarrow> ps ! i \<noteq> 0 \<and> ca_text ca' (ps ! i) = Some (cstr s))"
proof (induction ss arbitrary: ca ps)
  case (Cons s ss)
  obtain p ca1 where p: "arpc_dup alloc s ca = (p, ca1)" by fastforce
  obtain qs where q: "dup_all alloc ss ca1 = (qs, ca')" "ps = p # qs" using Cons.prems(2) p by (auto split: prod.splits)
  have n: "0 < ca_next ca1" "ca_next ca \<le> ca_next ca1" "\<forall>r < ca_next ca. ca_text ca1 r = ca_text ca r"
      "case s of None \<Rightarrow> p = 0 | Some t \<Rightarrow> p \<noteq> 0 \<and> p < ca_next ca1 \<and> ca_text ca1 p = Some (cstr t)"
    using p Cons.prems(1) mem by (cases s; auto simp: arpc_dup_def strdup_def)+
  note I = Cons.IH [OF n(1) q(1)]
  have "case s of None \<Rightarrow> p = 0 | Some t \<Rightarrow> p \<noteq> 0 \<and> ca_text ca' p = Some (cstr t)" using n(4) I by (auto split: option.splits)
  moreover have "\<forall>r < ca_next ca. ca_text ca' r = ca_text ca r" using n(2,3) I by simp
  ultimately show ?case using I n(2) q(2) by (auto simp: less_Suc_eq_0_disj split: option.splits)
qed simp

text \<open>The first read of a field of a package in a list, and every read of that field after it.\<close>

lemma field_i64_exact:
  assumes pipe: "client_pipe env p inp outp" and mem: "\<forall>n. alloc n" and cl: "cl_pipe cl = Some p"
    and hid: "hid \<noteq> 0" "find_slot u hid (ca_slots (cl_cache cl)) = Some s"
    and g: "group_at (ps_group s) (cl_cache cl) = Some g" "ps_slot s < length (pg_ids g)" "length vs = length (pg_ids g)"
    and new: "find (\<lambda>c. col_field c = field) (pg_cols g) = None"
    and rid: "i64_range (cl_next_id cl)" "length (json_text (fields_json (cl_next_id cl) (pg_ids g) field)) + 32 \<le> 2 ^ 63"
    and reply: "readable (reply_json (cl_next_id cl) (Result [(ARPC_RET_KEY, JArr vs)]))"
      "frame_ok (reply_text (cl_next_id cl) (Result [(ARPC_RET_KEY, JArr vs)]))"
    and inp: "inp (cl_ext cl) = sent_text (reply_text (cl_next_id cl) (Result [(ARPC_RET_KEY, JArr vs)])) @ rest"
  shows "\<exists>cl'. arpc_pkg_field_i64 u alloc env dispatch hid field cl = Some (num_or (Some (vs ! ps_slot s)) 0, cl') \<and>
    inp (cl_ext cl') = rest \<and> outp (cl_ext cl') = outp (cl_ext cl) @ sent_text (json_text (fields_json (cl_next_id cl) (pg_ids g) field)) \<and>
    (\<forall>hid' s'. hid' \<noteq> 0 \<and> find_slot u hid' (ca_slots (cl_cache cl)) = Some s' \<and> ps_group s' = ps_group s \<and> ps_slot s' < length vs \<longrightarrow>
       arpc_pkg_field_i64 u alloc env dispatch hid' field cl' = Some (num_or (Some (vs ! ps_slot s')) 0, cl'))"
proof -
  let ?a = "ps_group s"
  have ids: "pg_ids g \<noteq> []" using g(2) by auto
  obtain w c where f: "result_is c [(ARPC_RET_KEY, JArr vs)]" "inp w = rest"
      "outp w = outp (cl_ext cl) @ sent_text (json_text (fields_json (cl_next_id cl) (pg_ids g) field))"
      "fetch_column alloc env dispatch ?a field False cl =
        map_option (\<lambda>(col, ca). (col, cl\<lparr>cl_next_id := cl_next_id cl + 1, cl_ext := w, cl_cache := ca\<rparr>))
          (store_column alloc ?a (length vs) field False c (cl_cache cl))"
    by (rule fetch_exact [OF pipe mem cl g(1) ids g(3) rid reply inp, where dispatch = dispatch and want_str = False])
  let ?ns = "map (\<lambda>v. num_or (Some v) 0) vs"
  let ?col = "\<lparr>col_field = field, col_str = None, col_num = Some ?ns\<rparr>"
  let ?ca = "add_column ?a ?col (cl_cache cl)"
  let ?cl = "cl\<lparr>cl_next_id := cl_next_id cl + 1, cl_ext := w, cl_cache := ?ca\<rparr>"
  have "store_column alloc ?a (length vs) field False c (cl_cache cl) = Some (Some ?col, ?ca)"
    using mem by (simp add: store_column_def Let_def column_values [OF f(1)] group_at_add [OF g(1)] del: map_map)
  then have fetched: "arpc_pkg_field_i64 u alloc env dispatch hid field cl = Some (?ns ! ps_slot s, ?cl)"
    using f(4) g(1) new hid by (simp add: arpc_pkg_field_i64_def for_pkg_slot column_for_def)
  have "arpc_pkg_field_i64 u alloc env dispatch hid' field ?cl = Some (?ns ! ps_slot s', ?cl)"
    if "hid' \<noteq> 0" "find_slot u hid' (ca_slots (cl_cache cl)) = Some s'" "ps_group s' = ?a" for hid' s'
    using that group_at_add [OF g(1)] by (intro field_i64_known [where c = ?col and g = "g\<lparr>pg_cols := ?col # pg_cols g\<rparr>"]) (simp_all add: add_column_def)
  with fetched f(2,3) g(2,3) show ?thesis by (intro exI [of _ ?cl]) simp
qed

definition text_is :: "cache \<Rightarrow> nat \<Rightarrow> json \<Rightarrow> bool" where
  "text_is ca q v \<longleftrightarrow> (case str_or (Some v) None of None \<Rightarrow> q = 0 | Some t \<Rightarrow> q \<noteq> 0 \<and> ca_text ca q = Some (cstr t))"

lemma field_str_exact:
  assumes pipe: "client_pipe env p inp outp" and mem: "\<forall>n. alloc n" and cl: "cl_pipe cl = Some p" and ok: "cache_ok (cl_cache cl)"
    and hid: "hid \<noteq> 0" "find_slot u hid (ca_slots (cl_cache cl)) = Some s"
    and g: "group_at (ps_group s) (cl_cache cl) = Some g" "ps_slot s < length (pg_ids g)" "length vs = length (pg_ids g)"
    and new: "find (\<lambda>c. col_field c = field) (pg_cols g) = None"
    and rid: "i64_range (cl_next_id cl)" "length (json_text (fields_json (cl_next_id cl) (pg_ids g) field)) + 32 \<le> 2 ^ 63"
    and reply: "readable (reply_json (cl_next_id cl) (Result [(ARPC_RET_KEY, JArr vs)]))"
      "frame_ok (reply_text (cl_next_id cl) (Result [(ARPC_RET_KEY, JArr vs)]))"
    and inp: "inp (cl_ext cl) = sent_text (reply_text (cl_next_id cl) (Result [(ARPC_RET_KEY, JArr vs)])) @ rest"
  shows "\<exists>q cl'. arpc_pkg_field_str u alloc env dispatch hid field cl = Some (q, cl') \<and> text_is (cl_cache cl') q (vs ! ps_slot s) \<and>
    inp (cl_ext cl') = rest \<and> outp (cl_ext cl') = outp (cl_ext cl) @ sent_text (json_text (fields_json (cl_next_id cl) (pg_ids g) field)) \<and>
    (\<forall>hid' s'. hid' \<noteq> 0 \<and> find_slot u hid' (ca_slots (cl_cache cl)) = Some s' \<and> ps_group s' = ps_group s \<and> ps_slot s' < length vs \<longrightarrow>
       (\<exists>q'. arpc_pkg_field_str u alloc env dispatch hid' field cl' = Some (q', cl') \<and> text_is (cl_cache cl') q' (vs ! ps_slot s')))"
proof -
  let ?a = "ps_group s"
  have ids: "pg_ids g \<noteq> []" using g(2) by auto
  obtain w c where f: "result_is c [(ARPC_RET_KEY, JArr vs)]" "inp w = rest"
      "outp w = outp (cl_ext cl) @ sent_text (json_text (fields_json (cl_next_id cl) (pg_ids g) field))"
      "fetch_column alloc env dispatch ?a field True cl =
        map_option (\<lambda>(col, ca). (col, cl\<lparr>cl_next_id := cl_next_id cl + 1, cl_ext := w, cl_cache := ca\<rparr>))
          (store_column alloc ?a (length vs) field True c (cl_cache cl))"
    by (rule fetch_exact [OF pipe mem cl g(1) ids g(3) rid reply inp, where dispatch = dispatch and want_str = True])
  let ?ss = "map (\<lambda>v. str_or (Some v) None) vs"
  obtain ps ca1 where dup: "dup_all alloc ?ss (cl_cache cl) = (ps, ca1)" by fastforce
  have T: "length ps = length vs" "\<And>i. i < length vs \<Longrightarrow> text_is ca1 (ps ! i) (vs ! i)"
    using dup_all_texts [OF mem _ dup] ok by (auto simp: text_is_def cache_ok_def)
  have same: "ca_groups ca1 = ca_groups (cl_cache cl)" "ca_slots ca1 = ca_slots (cl_cache cl)" using dup_all_ids [OF dup] by auto
  let ?col = "\<lparr>col_field = field, col_str = Some ps, col_num = None\<rparr>"
  let ?ca = "add_column ?a ?col ca1"
  let ?cl = "cl\<lparr>cl_next_id := cl_next_id cl + 1, cl_ext := w, cl_cache := ?ca\<rparr>"
  have g1: "group_at ?a ca1 = Some g" using g(1) same(1) by (simp add: group_at_def)
  have "store_column alloc ?a (length vs) field True c (cl_cache cl) = Some (Some ?col, ?ca)"
    using mem dup T(1) by (simp add: store_column_def Let_def column_values [OF f(1)] group_at_add [OF g1] add_strings_def del: map_map)
  then have fetched: "arpc_pkg_field_str u alloc env dispatch hid field cl = Some (ps ! ps_slot s, ?cl)"
    using f(4) g(1) new hid by (simp add: arpc_pkg_field_str_def for_pkg_slot column_for_def)
  have "arpc_pkg_field_str u alloc env dispatch hid' field ?cl = Some (ps ! ps_slot s', ?cl)"
    if "hid' \<noteq> 0" "find_slot u hid' (ca_slots (cl_cache cl)) = Some s'" "ps_group s' = ?a" for hid' s'
    using that group_at_add [OF g1] same(2) by (intro field_str_known [where c = ?col and g = "g\<lparr>pg_cols := ?col # pg_cols g\<rparr>"]) (simp_all add: add_column_def)
  moreover have "text_is ?ca (ps ! i) (vs ! i)" if "i < length vs" for i using T(2) [OF that] by (simp add: text_is_def add_column_def split: option.splits)
  ultimately show ?thesis using fetched f(2,3) g(2,3) by (intro exI [of _ "ps ! ps_slot s"] exI [of _ ?cl]) simp
qed

end
