(* ===== verification/Client_Local.thy ===== *)
theory Client_Local
  imports Client_Fields
begin

text \<open>
  What the client does by itself: searching a file list (\<^verbatim>\<open>src/client/arpc_local.c\<close>) and reading a
  package's mtree (\<^verbatim>\<open>src/client/arpc_mtree.c\<close>), which comes over in one call and is parsed here by
  libarchive, a parameter.
\<close>

section \<open>File lists\<close>

text \<open>A file is its name and the rest of the struct.\<close>

definition alpm_filelist_contains :: "(string \<times> 'f) list option \<Rightarrow> string \<Rightarrow> (string \<times> 'f) option" where
  "alpm_filelist_contains filelist path =
     (case filelist of
        None \<Rightarrow> None
      | Some files \<Rightarrow> if files = [] then None else bsearch path files 0 (length files))"

lemma filelist_contains:
  assumes "table_sorted files"
  shows "alpm_filelist_contains (Some files) path = find (\<lambda>f. fst f = path) files"
proof -
  have "find (\<lambda>f. fst f = path) files = map_option (\<lambda>v. (path, v)) (map_of files path)" by (induction files) auto
  then show ?thesis using bsearch_spec [OF assms, where key = path and lo = 0 and hi = "length files"] bsearch_map_of [OF assms, of path, symmetric]
    by (auto simp: alpm_filelist_contains_def split: option.splits)
qed

section \<open>Mtrees\<close>

text \<open>
  Archives are pointers, 0 the null pointer. \<open>ar_open\<close> gives the archive a buffer, by its number
  and its bytes; it does not copy it.
\<close>

datatype ar_result = AR_OK | AR_EOF | AR_OTHER

record 'w libarchive =
  ar_new :: "'w \<Rightarrow> nat \<times> 'w"
  ar_filter_all :: "'w \<Rightarrow> nat \<Rightarrow> 'w"
  ar_format_mtree :: "'w \<Rightarrow> nat \<Rightarrow> 'w"
  ar_open :: "'w \<Rightarrow> nat \<Rightarrow> nat \<Rightarrow> byte list \<Rightarrow> ar_result \<times> 'w"
  ar_next_header :: "'w \<Rightarrow> nat \<Rightarrow> ar_result \<times> 'w"
  ar_free :: "'w \<Rightarrow> nat \<Rightarrow> ar_result \<times> 'w"

definition sizeof_stream :: nat where
  "sizeof_stream = 24"

definition free_buf :: "nat \<Rightarrow> ('w, 'pipe) client \<Rightarrow> ('w, 'pipe) client" where
  "free_buf buf cl = cl\<lparr>cl_bufs := (cl_bufs cl)(buf := None)\<rparr>"

definition remember :: "allocator \<Rightarrow> nat \<Rightarrow> nat \<Rightarrow> ('w, 'pipe) client \<Rightarrow> ('w, 'pipe) client" where
  "remember alloc a buf cl =
     (if alloc sizeof_stream then cl\<lparr>cl_streams := (a, buf) # cl_streams cl\<rparr> else free_buf buf cl)"

text \<open>The first stream of the archive, and the others.\<close>

fun take_stream :: "nat \<Rightarrow> (nat \<times> nat) list \<Rightarrow> (nat \<times> (nat \<times> nat) list) option" where
  "take_stream a [] = None"
| "take_stream a (s # ss) =
     (if fst s = a then Some (snd s, ss)
      else map_option (\<lambda>(b, rest). (b, s # rest)) (take_stream a ss))"

definition forget :: "nat \<Rightarrow> ('w, 'pipe) client \<Rightarrow> ('w, 'pipe) client" where
  "forget a cl =
     (case take_stream a (cl_streams cl) of
        None \<Rightarrow> cl
      | Some (buf, rest) \<Rightarrow> free_buf buf (cl\<lparr>cl_streams := rest\<rparr>))"

text \<open>The decoded reply, in a buffer of its own; 0 if there is none.\<close>

definition new_buf :: "byte list option \<Rightarrow> ('w, 'pipe) client \<Rightarrow> nat \<times> ('w, 'pipe) client" where
  "new_buf bo cl =
     (case bo of
        None \<Rightarrow> (0, cl)
      | Some b \<Rightarrow> (cl_buf_next cl, cl\<lparr>cl_bufs := (cl_bufs cl)(cl_buf_next cl \<mapsto> b), cl_buf_next := cl_buf_next cl + 1\<rparr>))"

text \<open>An archive over the buffer, or the null pointer.\<close>

definition open_archive :: "'w libarchive \<Rightarrow> nat \<Rightarrow> byte list \<Rightarrow> 'w \<Rightarrow> nat \<times> 'w" where
  "open_archive ar buf b w =
     (case ar_new ar w of
        (a, w1) \<Rightarrow>
          if a = 0 then (0, w1)
          else case ar_open ar (ar_format_mtree ar (ar_filter_all ar w1 a) a) a buf b of
            (AR_OK, w2) \<Rightarrow> (a, w2)
          | (_, w2) \<Rightarrow> (0, snd (ar_free ar w2 a)))"

text \<open>What happens once the reply is there.\<close>

definition mtree_archive ::
    "allocator \<Rightarrow> 'w libarchive \<Rightarrow> arpc_call \<Rightarrow> ('w, 'pipe) client \<Rightarrow> nat \<times> ('w, 'pipe) client" where
  "mtree_archive alloc ar c cl =
     (let (bo, n) = arpc_ret_bytes_c alloc c; (buf, cl1) = new_buf bo cl in
      case bo of
        None \<Rightarrow> (0, cl1)
      | Some b \<Rightarrow>
          let (a, w) = open_archive ar buf (take n b) (cl_ext cl1); cl2 = cl1\<lparr>cl_ext := w\<rparr>
          in if a \<noteq> 0 then (a, remember alloc a buf cl2) else (0, free_buf buf cl2))"

definition alpm_pkg_mtree_open ::
    "allocator \<Rightarrow> ('w, 'proc, 'tok, 'pipe) client_env \<Rightarrow> ('w, 'pipe) dispatcher \<Rightarrow> 'w libarchive \<Rightarrow> 64 word \<Rightarrow>
     ('w, 'pipe) client \<Rightarrow> (nat \<times> ('w, 'pipe) client) option" where
  "alpm_pkg_mtree_open alloc env dispatch ar pkg cl =
     do {
       (ok, c, cl1) \<leftarrow> arpc_begin alloc env dispatch ''arpc.mtree'' cl;
       if \<not> ok then Some (0, cl1)
       else do {
         (done, c1, cl2) \<leftarrow> arpc_invoke alloc env dispatch (arpc_put_handle alloc c pkg) cl1;
         Some (if \<not> done then (0, cl2) else mtree_archive alloc ar c1 cl2) } }"

text \<open>\<open>entry\<close> says whether there is somewhere to put the entry.\<close>

definition alpm_pkg_mtree_next :: "'w libarchive \<Rightarrow> nat \<Rightarrow> bool \<Rightarrow> 'w \<Rightarrow> int \<times> 'w" where
  "alpm_pkg_mtree_next ar archive entry w =
     (if archive = 0 \<or> \<not> entry then (-1, w)
      else case ar_next_header ar w archive of
        (AR_OK, w1) \<Rightarrow> (0, w1)
      | (AR_EOF, w1) \<Rightarrow> (1, w1)
      | (AR_OTHER, w1) \<Rightarrow> (-1, w1))"

definition alpm_pkg_mtree_close :: "'w libarchive \<Rightarrow> nat \<Rightarrow> ('w, 'pipe) client \<Rightarrow> int \<times> ('w, 'pipe) client" where
  "alpm_pkg_mtree_close ar archive cl =
     (if archive = 0 then (-1, cl)
      else case ar_free ar (cl_ext cl) archive of
        (rc, w) \<Rightarrow> (if rc = AR_OK then 0 else -1, forget archive (cl\<lparr>cl_ext := w\<rparr>)))"

section \<open>Buffers\<close>

text \<open>The buffers in memory are exactly the ones the streams keep, each for one archive.\<close>

definition streams_ok :: "('w, 'pipe) client \<Rightarrow> bool" where
  "streams_ok cl \<longleftrightarrow> distinct (map snd (cl_streams cl)) \<and> dom (cl_bufs cl) = set (map snd (cl_streams cl)) \<and>
     0 < cl_buf_next cl \<and> (\<forall>b \<in> snd ` set (cl_streams cl). b < cl_buf_next cl)"

lemma streams_init: "streams_ok (client_init w)"
  by (simp add: streams_ok_def client_init_def)

lemma take_stream_SomeD: "take_stream a ss = Some (b, rest) \<Longrightarrow> \<exists>xs ys. ss = xs @ (a, b) # ys \<and> rest = xs @ ys \<and> a \<notin> fst ` set xs"
proof (induction ss arbitrary: rest)
  case (Cons s ss)
  show ?case
  proof (cases "fst s = a")
    case True
    with Cons.prems show ?thesis by (intro exI [of _ "[]"] exI [of _ rest]) (auto simp: prod_eq_iff)
  next
    case False
    with Cons.prems obtain r where r: "take_stream a ss = Some (b, r)" "rest = s # r" by auto
    from Cons.IH [OF r(1)] obtain xs ys where "ss = xs @ (a, b) # ys" "r = xs @ ys" "a \<notin> fst ` set xs" by blast
    with r(2) False show ?thesis by (intro exI [of _ "s # xs"] exI [of _ ys]) auto
  qed
qed simp

lemma streams_forget:
  assumes "streams_ok cl"
  shows "streams_ok (forget a cl)"
proof (cases "take_stream a (cl_streams cl)")
  case (Some br)
  obtain b rest where br: "br = (b, rest)" by fastforce
  from take_stream_SomeD [OF Some [unfolded br]] obtain xs ys where "cl_streams cl = xs @ (a, b) # ys" "rest = xs @ ys" by blast
  with assms Some br show ?thesis by (auto simp: forget_def streams_ok_def free_buf_def)
qed (simp add: forget_def assms)

text \<open>The buffer just made is kept with its archive.\<close>

lemma streams_remember:
  assumes "streams_ok cl" and "alloc sizeof_stream"
  shows "streams_ok (remember alloc a (cl_buf_next cl) (cl\<lparr>cl_bufs := (cl_bufs cl)(cl_buf_next cl \<mapsto> b), cl_buf_next := Suc (cl_buf_next cl), cl_ext := w\<rparr>))"
proof -
  have "cl_buf_next cl \<notin> set (map snd (cl_streams cl))" using assms(1) unfolding streams_ok_def by (metis less_irrefl set_map)
  then show ?thesis using assms by (auto simp: remember_def streams_ok_def)
qed

lemma open_archive_opened:
  "open_archive ar buf b w = (a, w') \<Longrightarrow> a \<noteq> 0 \<Longrightarrow> \<exists>w0. ar_open ar w0 a buf b = (AR_OK, w')"
  by (auto simp: open_archive_def split: prod.splits if_splits ar_result.splits)

lemma mtree_archive_cases:
  assumes "mtree_archive alloc ar c cl = (a, cl')" and "a \<noteq> 0"
  obtains b n w w0 where "arpc_ret_bytes_c alloc c = (Some b, n)" and "ar_open ar w0 a (cl_buf_next cl) (take n b) = (AR_OK, w)"
    and "cl' = remember alloc a (cl_buf_next cl) (cl\<lparr>cl_bufs := (cl_bufs cl)(cl_buf_next cl \<mapsto> b), cl_buf_next := Suc (cl_buf_next cl), cl_ext := w\<rparr>)"
  using assms
  by (auto simp: mtree_archive_def new_buf_def Let_def split: prod.splits option.splits if_splits dest: open_archive_opened)

text \<open>A failed open leaves no buffer behind.\<close>

lemma mtree_archive_failed:
  assumes "mtree_archive alloc ar c cl = (0, cl')" and "streams_ok cl"
  shows "streams_ok cl' \<and> cl_bufs cl' = cl_bufs cl \<and> cl_streams cl' = cl_streams cl"
proof -
  have "cl_bufs cl (cl_buf_next cl) = None" using assms(2) unfolding streams_ok_def by (metis domIff less_irrefl set_map)
  then have "(cl_bufs cl)(cl_buf_next cl := None) = cl_bufs cl" by (simp add: fun_upd_idem_iff)
  with assms(1) have "cl' = cl \<or> (\<exists>w. cl' = cl\<lparr>cl_buf_next := Suc (cl_buf_next cl), cl_ext := w\<rparr>)"
    by (auto simp: mtree_archive_def new_buf_def free_buf_def Let_def split: prod.splits option.splits if_splits)
  moreover have "streams_ok (cl\<lparr>cl_buf_next := Suc (cl_buf_next cl), cl_ext := w\<rparr>)" for w
    using assms(2) by (simp add: streams_ok_def less_SucI)
  ultimately show ?thesis using assms(2) by auto
qed

text \<open>Without memory for the stream the archive is handed out, and the buffer it reads is not there.\<close>

lemma mtree_buffer_lost:
  assumes "mtree_archive alloc ar c cl = (a, cl')" and "a \<noteq> 0" and "\<not> alloc sizeof_stream"
  shows "\<exists>w0 w b. ar_open ar w0 a (cl_buf_next cl) b = (AR_OK, w) \<and> cl_bufs cl' (cl_buf_next cl) = None"
proof (rule mtree_archive_cases [OF assms(1,2)])
  fix b n w w0
  assume "ar_open ar w0 a (cl_buf_next cl) (take n b) = (AR_OK, w)"
    and "cl' = remember alloc a (cl_buf_next cl) (cl\<lparr>cl_bufs := (cl_bufs cl)(cl_buf_next cl \<mapsto> b), cl_buf_next := Suc (cl_buf_next cl), cl_ext := w\<rparr>)"
  then show ?thesis using assms(3) by (intro exI [of _ w0] exI [of _ w] exI [of _ "take n b"]) (simp add: remember_def free_buf_def)
qed

end
