(* ===== verification/Client_Safe.thy ===== *)
theory Client_Safe
  imports Client_Local
begin

text \<open>
  The client talks to nobody it has not checked: whatever pipe it holds, the process at its other end
  is this user's at this elevation, this process's own as Windows tells it. Every step of a call keeps
  this, so it holds while callbacks run.
\<close>

text \<open>The identity the client keeps, once it has one, is this process's; a pipe it holds is checked against it.\<close>

definition checked :: "('w, 'proc, 'tok, 'pipe) client_env \<Rightarrow> ('w, 'pipe) client \<Rightarrow> bool" where
  "checked env cl \<longleftrightarrow>
     (\<forall>me. cl_self cl = Some me \<longrightarrow> arpc_process_identity (k_win env) None = Some me) \<and>
     (\<forall>h. cl_pipe cl = Some h \<longrightarrow>
        (\<exists>me. arpc_process_identity (k_win env) None = Some me \<and> arpc_peer_is (k_win env) h False me))"

definition keeps_checked :: "('w, 'proc, 'tok, 'pipe) client_env \<Rightarrow> ('w, 'pipe) dispatcher \<Rightarrow> bool" where
  "keeps_checked env dispatch \<longleftrightarrow>
     (\<forall>d cl r cl'. checked env cl \<and> dispatch d cl = Some (r, cl') \<longrightarrow> checked env cl')"

lemma checked_init: "checked env (client_init w)"
  by (simp add: checked_def client_init_def)

lemma checked_err [simp]: "checked env (set_err cl msg) = checked env cl" "cl_pipe (set_err cl msg) = cl_pipe cl"
  by (simp_all add: checked_def set_err_def)

lemma checked_ext [simp]:
  "checked env (cl\<lparr>cl_ext := w\<rparr>) = checked env cl" "checked env (cl\<lparr>cl_next_id := i\<rparr>) = checked env cl"
  by (simp_all add: checked_def)

lemma disconnected [simp]: "checked env cl \<Longrightarrow> checked env (disconnect env cl)" "cl_pipe (disconnect env cl) = None"
  by (auto simp: checked_def disconnect_def split: option.split)

lemma checked_send: "checked env cl \<Longrightarrow> send_frame env cl b = (ok, cl') \<Longrightarrow> checked env cl'"
  by (auto simp: send_frame_def split: option.splits prod.splits bool.splits if_splits)

lemma checked_recv: "checked env cl \<Longrightarrow> recv_frame alloc env cl = (f, cl') \<Longrightarrow> checked env cl'"
  by (auto simp: recv_frame_def split: option.splits prod.splits)

lemma checked_transact_loop:
  assumes "keeps_checked env dispatch" and "checked env cl" and "transact_loop alloc env dispatch cl = Some (r, cl')"
  shows "checked env cl'"
proof -
  have "keeps_checked env dispatch \<longrightarrow> checked env cl \<longrightarrow> checked env (snd (r, cl'))"
  proof (rule transact_loop.raw_induct [where P = "\<lambda>_ env dispatch cl r. keeps_checked env dispatch \<longrightarrow> checked env cl \<longrightarrow> checked env (snd r)", OF _ assms(3)])
    fix loop alloc env dispatch cl r
    assume IH: "\<And>alloc env dispatch cl r. loop alloc env dispatch cl = Some r \<Longrightarrow> keeps_checked env dispatch \<longrightarrow> checked env cl \<longrightarrow> checked env (snd r)"
      and body: "(case recv_frame alloc env cl of
        (None, cl1) \<Rightarrow> Some (None, cl1)
      | (Some f, cl1) \<Rightarrow>
          (case aj_parse alloc (cstr f) of
             None \<Rightarrow> Some (None, disconnect env (set_err cl1 ''malformed frame from server''))
           | Some d \<Rightarrow>
               if \<not> 0 \<le> aj_member d 0 ''cb'' then Some (Some f, cl1)
               else do {
                 (reply, cl2) \<leftarrow> dispatch d cl1;
                 if w_err reply then Some (None, cl2)
                 else (let (sent, cl3) = send_frame env cl2 (w_text reply)
                       in if \<not> sent then Some (None, cl3) else loop alloc env dispatch cl3) })) = Some r"
    show "keeps_checked env dispatch \<longrightarrow> checked env cl \<longrightarrow> checked env (snd r)"
    proof (intro impI)
      assume k: "keeps_checked env dispatch" and c: "checked env cl"
      obtain fo cl1 where rf: "recv_frame alloc env cl = (fo, cl1)" by fastforce
      note c1 = checked_recv [OF c rf]
      show "checked env (snd r)"
      proof (cases fo)
        case (Some f)
        consider "r = (None, disconnect env (set_err cl1 ''malformed frame from server''))" | "r = (Some f, cl1)"
          | d reply cl2 where "dispatch d cl1 = Some (reply, cl2)" "r = (None, cl2)"
          | d reply cl2 cl3 where "dispatch d cl1 = Some (reply, cl2)" "send_frame env cl2 (w_text reply) = (False, cl3)" "r = (None, cl3)"
          | d reply cl2 cl3 where "dispatch d cl1 = Some (reply, cl2)" "send_frame env cl2 (w_text reply) = (True, cl3)"
              "loop alloc env dispatch cl3 = Some r"
          using body rf Some by (auto split: option.splits if_splits prod.splits simp: Option.bind_eq_Some_conv)
        moreover have c2: "checked env cl2" if "dispatch d cl1 = Some (reply, cl2)" for d reply cl2
          using k c1 that unfolding keeps_checked_def by blast
        moreover have "checked env cl3" if "dispatch d cl1 = Some (reply, cl2)" "send_frame env cl2 b = (ok, cl3)" for d reply cl2 b ok cl3
          using checked_send [OF c2 [OF that(1)] that(2)] .
        ultimately show ?thesis using c1 IH k by cases auto
      qed (use body rf c1 in auto)
    qed
  qed
  with assms(1,2) show ?thesis by simp
qed

lemma checked_transact:
  "keeps_checked env dispatch \<Longrightarrow> checked env cl \<Longrightarrow> transact alloc env dispatch cl req = Some (r, cl') \<Longrightarrow> checked env cl'"
  by (auto simp: transact_def split: prod.splits if_splits dest: checked_send checked_transact_loop)

lemma checked_invoke:
  assumes "keeps_checked env dispatch" and "checked env cl" and "arpc_invoke alloc env dispatch c cl = Some (ok, c', cl')"
  shows "checked env cl'"
proof (cases "w_err (ajw_obj_end alloc (ajw_arr_end alloc (call_req c)))")
  case True
  with assms(2,3) show ?thesis by (auto simp: arpc_invoke_def)
next
  case False
  then obtain rsp cl1 where t: "transact alloc env dispatch cl (w_text (ajw_obj_end alloc (ajw_arr_end alloc (call_req c)))) = Some (rsp, cl1)"
    using assms(3) by (cases "transact alloc env dispatch cl (w_text (ajw_obj_end alloc (ajw_arr_end alloc (call_req c))))")
      (auto simp: arpc_invoke_def)
  note c1 = checked_transact [OF assms(1,2) t]
  show ?thesis
  proof (cases rsp)
    case None
    with assms(3) False t c1 show ?thesis by (simp add: arpc_invoke_def)
  next
    case (Some f)
    show ?thesis
    proof (cases "aj_parse alloc (cstr f)")
      case None
      with assms(3) False t c1 Some show ?thesis by (auto simp: arpc_invoke_def)
    next
      case (Some d)
      with assms(3) False t c1 \<open>rsp = Some f\<close> show ?thesis
        by (auto simp: arpc_invoke_def Let_def split: if_splits)
    qed
  qed
qed

text \<open>The dispatcher keeps this if the caller's functions do.\<close>

lemma keeps_checked_dispatch:
  assumes "\<forall>k \<in> set kinds. \<forall>fn ctx d args cl ret cl'. checked env cl \<and> snd k fn ctx d args cl = Some (ret, cl') \<longrightarrow> checked env cl'"
  shows "keeps_checked env (arpc_dispatch_callback alloc kinds)"
proof -
  have "checked env cl'" if "checked env cl" "kind_at 0 kinds n = Some (i, call)" "call fn ctx d a cl = Some (ret, cl')" for n i call fn ctx d a cl ret cl'
    using that assms kind_at_set [OF that(2)] by fastforce
  then show ?thesis
    by (auto simp: keeps_checked_def arpc_dispatch_callback_def Let_def Option.bind_eq_Some_conv split: option.splits prod.splits if_splits)
qed

lemma checked_try_open:
  assumes "try_open env me name cl = (r, cl')" and "checked env cl" and "cl_pipe cl = None" and "cl_self cl = Some me"
  shows "checked env cl' \<and> cl_self cl' = Some me \<and> (cl_pipe cl' \<noteq> None \<longleftrightarrow> r > 0)"
  using assms by (auto simp: try_open_def checked_def set_err_def split: option.splits prod.splits if_splits)

lemma checked_wait_open:
  "wait_open n env me name cl = (r, cl') \<Longrightarrow> checked env cl \<Longrightarrow> cl_pipe cl = None \<Longrightarrow> cl_self cl = Some me \<Longrightarrow>
     checked env cl' \<and> cl_self cl' = Some me \<and> (cl_pipe cl' \<noteq> None \<longleftrightarrow> r > 0)"
proof (induction n arbitrary: cl)
  case (Suc n)
  obtain r1 cl1 where t: "try_open env me name (cl\<lparr>cl_ext := k_sleep env (cl_ext cl) 25\<rparr>) = (r1, cl1)" by fastforce
  note C = checked_try_open [OF t, simplified, OF Suc.prems(2-4)]
  show ?case
  proof (cases "r1 = 0")
    case True
    with Suc.IH [of cl1] Suc.prems(1) t C show ?thesis by simp
  next
    case False
    with Suc.prems(1) t C show ?thesis by simp
  qed
qed (auto simp: checked_def)

lemma checked_path_style:
  assumes "keeps_checked env dispatch" and "checked env cl" and "set_path_style alloc env dispatch cl = Some (ok, cl')"
  shows "checked env cl'"
proof (cases "k_win32_paths env")
  case True
  obtain c cl1 where b: "begin_call alloc ''arpc.set_path_style'' cl = (c, cl1)" by fastforce
  then have "checked env cl1" using assms(2) by (auto simp: begin_call_def Let_def)
  with True assms b checked_invoke [OF assms(1)] show ?thesis
    by (auto simp: set_path_style_def Option.bind_eq_Some_conv split: if_splits)
qed (use assms in \<open>simp add: set_path_style_def\<close>)

lemma launch_server_fields:
  "launch_server env root cl = (ok, cl') \<Longrightarrow> cl_pipe cl' = cl_pipe cl \<and> cl_self cl' = cl_self cl"
  by (auto simp: launch_server_def set_err_def Let_def split: if_splits prod.splits)

lemma checked_connect:
  assumes k: "keeps_checked env dispatch" and c: "checked env cl" and run: "ensure_connected alloc env dispatch cl = Some (ok, cl')"
  shows "checked env cl'"
proof (cases "cl_pipe cl")
  case None
  show ?thesis
  proof (cases "case cl_self cl of Some me \<Rightarrow> Some me | None \<Rightarrow> arpc_process_identity (k_win env) None")
    case None
    with run \<open>cl_pipe cl = None\<close> c show ?thesis by (simp add: ensure_connected_def) auto
  next
    case (Some me)
    note self = this
    let ?cl = "cl\<lparr>cl_self := Some me\<rparr>"
    have "arpc_process_identity (k_win env) None = Some me"
      using Some c by (auto simp: checked_def split: option.splits)
    then have un: "checked env ?cl" "cl_pipe ?cl = None" "cl_self ?cl = Some me"
      using \<open>cl_pipe cl = None\<close> by (simp_all add: checked_def)
    show ?thesis
    proof (cases "Option.bind (msys_root env MAX_PATH_c) (\<lambda>root. map_option (Pair root) (arpc_pipe_name (k_win env) (Some root) (Some 256)))")
      case None
      with run Some \<open>cl_pipe cl = None\<close> un(1) show ?thesis
        by (auto simp: ensure_connected_def Let_def split: option.splits)
    next
      case (Some rn)
      then obtain root name where rn: "msys_root env MAX_PATH_c = Some root" "arpc_pipe_name (k_win env) (Some root) (Some 256) = Some name"
        by (auto simp: Option.bind_eq_Some_conv)
      obtain r cl2 where t: "try_open env me name ?cl = (r, cl2)" by fastforce
      note T = checked_try_open [OF t un]
      obtain l cl3 where la: "launch_server env root cl2 = (l, cl3)" by fastforce
      obtain r1 cl4 where w: "(if l then wait_open 400 env me name cl3 else (0, cl3)) = (r1, cl4)" by fastforce
      let ?cl5 = "if r1 = 0 \<and> cl_err cl4 = [] then set_err cl4 ''server did not start listening within 10s'' else cl4"
      have body: "(if r \<noteq> 0 then (if r > 0 then set_path_style alloc env dispatch cl2 else Some (False, cl2))
          else if r1 > 0 then set_path_style alloc env dispatch ?cl5 else Some (False, ?cl5)) = Some (ok, cl')"
        using run unfolding ensure_connected_def Let_def self rn t la w option.case prod.case \<open>cl_pipe cl = None\<close> by simp
      have c5: "checked env ?cl5" if "r = 0"
      proof -
        have "checked env cl3" "cl_pipe cl3 = None" "cl_self cl3 = Some me"
          using T launch_server_fields [OF la] that by (auto simp: checked_def)
        with w checked_wait_open [of 400 env me name cl3 r1 cl4] have "checked env cl4"
          by (auto split: if_splits)
        then show ?thesis by simp
      qed
      show ?thesis using body T c5 checked_path_style [OF k] by (auto split: if_splits)
    qed
  qed
next
  case (Some h)
  with run c show ?thesis by (simp add: ensure_connected_def)
qed

end
