(* ===== verification/Round_Trip.thy ===== *)
theory Round_Trip
  imports Client_Safe Serve
begin

text \<open>
  A call from the client's first byte to its last: what the client writes is what the server's
  dispatcher reads, and what the dispatcher answers is what the client's accessors return.
\<close>

section \<open>The client's side\<close>

text \<open>What a call that was answered leaves for its caller.\<close>

definition answered :: "outcome \<Rightarrow> arpc_call \<Rightarrow> ('w, 'pipe) client \<Rightarrow> bool" where
  "answered oc c cl \<longleftrightarrow>
     (case oc of
        Error code msg \<Rightarrow> cl_err cl = take 255 (msg @ '' ('' @ int_text code @ '')'')
      | Result kvs \<Rightarrow>
          arpc_ret_i64_c c = num_or (map_of kvs ARPC_RET_KEY) 0 \<and>
          arpc_ret_handle_c c = word_of_int (num_or (map_of kvs ARPC_RET_KEY) 0) \<and>
          arpc_take_str (\<lambda>_. True) c = map_option cstr (str_or (map_of kvs ARPC_RET_KEY) None) \<and>
          (\<forall>name. arpc_out_i64_c c name = num_or (map_of kvs name) 0))"

fun is_result :: "outcome \<Rightarrow> bool" where
  "is_result (Result kvs) = True"
| "is_result (Error code msg) = False"

lemma begin_connected:
  assumes "cl_pipe cl = Some p"
  shows "arpc_begin alloc env dispatch method cl = (case begin_call alloc method cl of (c, cl1) \<Rightarrow> Some (True, c, cl1))"
  using assms by (simp add: arpc_begin_def ensure_connected_def)

lemma begin_call_fields:
  "begin_call alloc method cl = (c, cl1) \<Longrightarrow> cl1 = cl\<lparr>cl_next_id := cl_next_id cl + 1\<rparr> \<and> call_id c = cl_next_id cl"
  by (auto simp: begin_call_def Let_def)

lemma run_puts_id: "call_id (fold (run_put alloc) ops c) = call_id c"
  by (simp add: run_puts_req)

lemma call_exact:
  assumes pipe: "client_pipe env p inp outp" and cl: "cl_pipe cl = Some p" and rid: "i64_range (cl_next_id cl)"
    and ops: "\<forall>op \<in> set ops. put_ok op" and len: "length (json_text (request_json (cl_next_id cl) method ops)) + 32 \<le> 2 ^ 63"
    and reply: "readable (reply_json (cl_next_id cl) oc)" "frame_ok (reply_text (cl_next_id cl) oc)"
    and inp: "inp (cl_ext cl) = sent_text (reply_text (cl_next_id cl) oc) @ rest"
    and beg: "begin_call (\<lambda>_. True) method cl = (c, cl1)"
  shows "\<exists>c' cl'. arpc_invoke (\<lambda>_. True) env dispatch (fold (run_put (\<lambda>_. True)) ops c) cl1 = Some (is_result oc, c', cl') \<and>
    answered oc c' cl' \<and> cl_pipe cl' = Some p \<and> inp (cl_ext cl') = rest \<and>
    outp (cl_ext cl') = outp (cl_ext cl) @ sent_text (json_text (request_json (cl_next_id cl) method ops)) \<and>
    (\<forall>kvs. oc = Result kvs \<longrightarrow> result_is c' kvs \<and> (\<exists>w. cl' = cl\<lparr>cl_next_id := cl_next_id cl + 1, cl_ext := w\<rparr>))"
proof -
  let ?c = "fold (run_put (\<lambda>_. True)) ops c"
  have mem: "\<forall>n. (\<lambda>_ :: nat. True) n" by simp
  note b = begin_call_fields [OF beg]
  note req = request_text [OF mem ops rid beg len]
  obtain w where w: "transact (\<lambda>_. True) env dispatch cl1 (w_text (request_writer (\<lambda>_. True) ?c)) =
        Some (Some (reply_text (cl_next_id cl) oc), cl1\<lparr>cl_ext := w\<rparr>)" "inp w = rest"
      "outp w = outp (cl_ext cl) @ sent_text (json_text (request_json (cl_next_id cl) method ops))"
    using transact_plain [OF pipe mem reply, of cl1 rest dispatch "w_text (request_writer (\<lambda>_. True) ?c)"] cl inp req(2) b by auto
  obtain c' where inv: "arpc_invoke (\<lambda>_. True) env dispatch ?c cl1 =
      (case oc of Result kvs \<Rightarrow> Some (True, c', cl1\<lparr>cl_ext := w\<rparr>)
       | Error code msg \<Rightarrow> Some (False, c', set_err (cl1\<lparr>cl_ext := w\<rparr>) (msg @ '' ('' @ int_text code @ '')'')))"
      "\<forall>kvs. oc = Result kvs \<longrightarrow> result_is c' kvs"
    using invoke_reply [OF mem req(1) w(1) reply(1)] b run_puts_id [of "\<lambda>_. True" ops c] by auto
  show ?thesis
  proof (cases oc)
    case (Result kvs)
    note v = result_values [OF inv(2) [rule_format, OF Result]]
    have "answered oc c' (cl1\<lparr>cl_ext := w\<rparr>)"
      by (cases "str_or (map_of kvs ARPC_RET_KEY) None") (simp_all add: answered_def Result v strdup_def)
    with Result inv w b cl show ?thesis by auto
  next
    case (Error code msg)
    with inv w b cl show ?thesis by (auto simp: answered_def set_err_def)
  qed
qed

section \<open>The server's side\<close>

lemma request_handled:
  assumes "hinv (sv_tab sv)" and "methods_ok senv sv" and "readable (request_json rid method ops)"
  shows "\<exists>oc sv'. arpc_handle_frame (\<lambda>_. True) senv (json_text (request_json rid method ops)) sv = Some (Some (reply_text rid oc), sv') \<and>
    hinv (sv_tab sv') \<and> readable (reply_json rid oc)"
proof -
  obtain d where d: "aj_parse (\<lambda>_. True) (json_text (request_json rid method ops)) = Some d" "doc_ok d"
      "aj_i64 d (aj_member d 0 ''id'') 0 = rid"
    using request_read [OF assms(3), of "\<lambda>_. True"] by auto
  from parsed_replies [OF assms(1) d(2) assms(2)] d(1,3) show ?thesis by (auto simp: arpc_handle_frame_def)
qed

context rpc_method
begin

text \<open>A method's contract, seen from the request's text: it runs on the client's arguments.\<close>

lemma served:
  assumes inv: "hinv (sv_tab sv)" and ok: "\<And>h. ok_server (follow_gpg (\<lambda>_. True) senv sv h)"
    and found: "find_method (\<lambda>_. True) senv (cstr method) = Some fn" "cstr method \<noteq> ''arpc.shutdown''"
    and r: "readable (request_json rid method ops)" and rid: "i64_range rid"
  shows "\<exists>rq h oc sv'. arpc_handle_frame (\<lambda>_. True) senv (json_text (request_json rid method ops)) sv = Some (Some (reply_text rid oc), sv') \<and>
    req_args rq (map put_value ops) \<and> \<not> rq_bad rq \<and> does rq (follow_gpg (\<lambda>_. True) senv sv h) oc sv' \<and> hinv (sv_tab sv') \<and> readable (reply_json rid oc)"
proof -
  have mem: "\<forall>n. (\<lambda>_ :: nat. True) n" by simp
  obtain d where d: "aj_parse (\<lambda>_. True) (json_text (request_json rid method ops)) = Some d" "doc_ok d"
      "aj_i64 d (aj_member d 0 ''id'') 0 = rid" "aj_str d (aj_member d 0 ''method'') None = Some (cstr method)"
      "req_args \<lparr>rq_doc = d, rq_params = aj_member d 0 ''params'', rq_bad = False\<rparr> (map put_value ops)"
    using request_read [OF r mem] by blast
  let ?rq = "\<lparr>rq_doc = d, rq_params = aj_member d 0 ''params'', rq_bad = False\<rparr>"
  have "arpc_handle_frame (\<lambda>_. True) senv (json_text (request_json rid method ops)) sv = run_method (\<lambda>_. True) senv rid ?rq fn sv"
    using d found by (simp add: arpc_handle_frame_def arpc_handle_parsed_def)
  with run_replies [OF inv ok _ mem rid, of ?rq] d(2,5) show ?thesis by fastforce
qed

end

section \<open>Agreeing on paths\<close>

definition style_json :: "int \<Rightarrow> json" where
  "style_json rid = request_json rid ''arpc.set_path_style'' [Put_Str (Some ''win32'')]"

lemma readable_request:
  assumes rid: "i64_range rid" and m: "is_cstr method" "length method \<le> 1000"
    and a: "json_ok (JArr (map put_value ops))" "json_depth (JArr (map put_value ops)) < AJ_MAX_DEPTH"
      "length (json_text (JArr (map put_value ops))) \<le> 2 ^ 62"
  shows "readable (request_json rid method ops)" and "length (json_text (request_json rid method ops)) + 32 \<le> 2 ^ 63"
proof -
  let ?args = "JArr (map put_value ops)"
  have "length (json_text (request_json rid method ops)) = 27 + length (int_text rid) + length (str_text method) + length (json_text ?args)"
    using m(1) by (simp add: request_json_def str_text_def [of "''id''"] str_text_def [of "''method''"] str_text_def [of "''params''"] esc_char_def
      cstr_of_cstr del: json_text.simps(5))
  moreover have "length (int_text rid) \<le> 21" by (rule rev_digits_short [OF rid])
  moreover have "length (str_text method) \<le> 6002" using str_text_le [of "method"] m(2) by simp
  ultimately show "length (json_text (request_json rid method ops)) + 32 \<le> 2 ^ 63" using a(3) by simp
  then show "readable (request_json rid method ops)"
    using rid m(1) a(1,2) by (auto simp: readable_def request_json_def i64_range_def cstr_of_cstr AJ_MAX_DEPTH_def)
qed

lemma ok_reply:
  assumes "i64_range rid"
  shows "readable (reply_json rid (Result [(ARPC_RET_KEY, JNum 0)]))" and "frame_ok (reply_text rid (Result [(ARPC_RET_KEY, JNum 0)]))"
proof -
  show "readable (reply_json rid (Result [(ARPC_RET_KEY, JNum 0)]))"
    by (rule readable_result [OF assms])
      (simp_all add: fits_def member_text_def str_text_def esc_char_def ARPC_RET_KEY_def int_text_def rev_digits.simps LLONG_MAX_def AJ_MAX_DEPTH_def)
  have "length (int_text rid) \<le> 21" by (rule rev_digits_short [OF assms])
  then show "frame_ok (reply_text rid (Result [(ARPC_RET_KEY, JNum 0)]))"
    by (simp add: frame_ok_def ARPC_MAX_FRAME_def reply_text_def str_text_def esc_char_def ARPC_RET_KEY_def int_text_def [of 0] rev_digits.simps)
qed

lemma path_style_agreed:
  assumes pipe: "client_pipe env p inp outp" and cl: "cl_pipe cl = Some p" "k_win32_paths env" and rid: "i64_range (cl_next_id cl)"
    and inv: "hinv (sv_tab sv)"
    and inp: "inp (cl_ext cl) = sent_text (reply_text (cl_next_id cl) (Result [(ARPC_RET_KEY, JNum 0)])) @ rest"
  shows "(\<exists>h. arpc_handle_frame (\<lambda>_. True) senv (json_text (style_json (cl_next_id cl))) sv =
      Some (Some (reply_text (cl_next_id cl) (Result [(ARPC_RET_KEY, JNum 0)])), (follow_gpg (\<lambda>_. True) senv sv h)\<lparr>sv_win32 := True\<rparr>)) \<and>
    (\<exists>cl'. set_path_style (\<lambda>_. True) env dispatch cl = Some (True, cl') \<and> cl_pipe cl' = Some p \<and> inp (cl_ext cl') = rest \<and>
      outp (cl_ext cl') = outp (cl_ext cl) @ sent_text (json_text (style_json (cl_next_id cl))))"
proof
  let ?ops = "[Put_Str (Some ''win32'')]" and ?m = "''arpc.set_path_style''" and ?oc = "Result [(ARPC_RET_KEY, JNum 0)]"
  have r: "readable (request_json (cl_next_id cl) ?m ?ops)" "length (json_text (request_json (cl_next_id cl) ?m ?ops)) + 32 \<le> 2 ^ 63"
    by (intro readable_request [OF rid]; simp add: str_value_def cstr_def str_text_def esc_char_def AJ_MAX_DEPTH_def)+
  have found: "find_method (\<lambda>_. True) senv (cstr ?m) = Some (arpc_set_path_style (\<lambda>_. True))"
    by (simp add: find_method_def builtins_def cstr_def)
  obtain rq h oc sv' where s: "arpc_handle_frame (\<lambda>_. True) senv (json_text (request_json (cl_next_id cl) ?m ?ops)) sv = Some (Some (reply_text (cl_next_id cl) oc), sv')"
      "req_args rq (map put_value ?ops)" "\<not> rq_bad rq" "path_style_does rq (follow_gpg (\<lambda>_. True) senv sv h) oc sv'"
    using set_path_style.served [OF inv _ found _ r(1) rid] by (auto simp: cstr_def)
  have "arpc_arg_str rq 0 = (Some ''win32'', rq)"
    using arg_str_value [OF s(2), of 0] by (simp add: arg_at_def str_value_def cstr_def)
  with s(3,4) have "oc = ?oc" "sv' = (follow_gpg (\<lambda>_. True) senv sv h)\<lparr>sv_win32 := True\<rparr>" by (simp_all add: path_style_does_def)
  with s(1) show "\<exists>h. arpc_handle_frame (\<lambda>_. True) senv (json_text (style_json (cl_next_id cl))) sv =
      Some (Some (reply_text (cl_next_id cl) ?oc), (follow_gpg (\<lambda>_. True) senv sv h)\<lparr>sv_win32 := True\<rparr>)"
    unfolding style_json_def by blast
  obtain c cl1 where b: "begin_call (\<lambda>_. True) ?m cl = (c, cl1)" by fastforce
  have reply: "readable (reply_json (cl_next_id cl) ?oc)" "frame_ok (reply_text (cl_next_id cl) ?oc)" by (rule ok_reply [OF rid])+
  from call_exact [OF pipe cl(1) rid _ r(2) reply inp b, of dispatch] b cl(2)
  show "\<exists>cl'. set_path_style (\<lambda>_. True) env dispatch cl = Some (True, cl') \<and> cl_pipe cl' = Some p \<and> inp (cl_ext cl') = rest \<and>
      outp (cl_ext cl') = outp (cl_ext cl) @ sent_text (json_text (style_json (cl_next_id cl)))"
    by (auto simp: set_path_style_def style_json_def)
qed

section \<open>Delivering an mtree\<close>

definition mtree_json :: "int \<Rightarrow> 64 word \<Rightarrow> json" where
  "mtree_json rid pkg = request_json rid ''arpc.mtree'' [Put_Handle pkg]"

lemma mtree_request:
  assumes "i64_range rid"
  shows "readable (mtree_json rid pkg)" and "length (json_text (mtree_json rid pkg)) + 32 \<le> 2 ^ 63"
proof -
  have "i64_range (sint pkg)" by (rule sint_range)
  then have "length (int_text (sint pkg)) \<le> 21" "json_ok (JNum (sint pkg))" by (simp_all add: rev_digits_short i64_range_def)
  then show "readable (mtree_json rid pkg)" "length (json_text (mtree_json rid pkg)) + 32 \<le> 2 ^ 63"
    unfolding mtree_json_def by (intro readable_request [OF assms]; simp add: AJ_MAX_DEPTH_def)+
qed

text \<open>The client's end: the bytes of the reply are in the buffer the archive reads.\<close>

lemma mtree_open_exact:
  assumes pipe: "client_pipe env p inp outp" and cl: "cl_pipe cl = Some p" and rid: "i64_range (cl_next_id cl)"
    and reply: "readable (reply_json (cl_next_id cl) (Result [(ARPC_RET_KEY, JStr (b64_encode_loop s))]))"
      "frame_ok (reply_text (cl_next_id cl) (Result [(ARPC_RET_KEY, JStr (b64_encode_loop s))]))"
    and inp: "inp (cl_ext cl) = sent_text (reply_text (cl_next_id cl) (Result [(ARPC_RET_KEY, JStr (b64_encode_loop s))])) @ rest"
  shows "\<exists>a cl' w. alpm_pkg_mtree_open (\<lambda>_. True) env dispatch ar pkg cl = Some (a, cl') \<and> inp w = rest \<and>
    open_archive ar (cl_buf_next cl) s w = (a, cl_ext cl') \<and>
    (a \<noteq> 0 \<longrightarrow> cl_bufs cl' (cl_buf_next cl) = Some s \<and> cl_streams cl' = (a, cl_buf_next cl) # cl_streams cl)"
proof -
  obtain c cl1 where b: "begin_call (\<lambda>_. True) ''arpc.mtree'' cl = (c, cl1)" by fastforce
  note len = mtree_request(2) [OF rid, unfolded mtree_json_def]
  obtain c' cl2 where i: "arpc_invoke (\<lambda>_. True) env dispatch (arpc_put_handle (\<lambda>_. True) c pkg) cl1 = Some (True, c', cl2)"
      "inp (cl_ext cl2) = rest" "result_is c' [(ARPC_RET_KEY, JStr (b64_encode_loop s))]"
      "\<exists>w. cl2 = cl\<lparr>cl_next_id := cl_next_id cl + 1, cl_ext := w\<rparr>"
    using call_exact [OF pipe cl rid _ len [of pkg] reply inp b, where dispatch = dispatch] by auto
  have bytes: "arpc_ret_bytes_c (\<lambda>_. True) c' = (Some s, length s)" using result_values(5) [OF i(3)] by simp
  have keep: "cl_buf_next cl2 = cl_buf_next cl" "cl_bufs cl2 = cl_bufs cl" "cl_streams cl2 = cl_streams cl"
    using i(4) by auto
  obtain a w where o: "open_archive ar (cl_buf_next cl) s (cl_ext cl2) = (a, w)" by fastforce
  have "alpm_pkg_mtree_open (\<lambda>_. True) env dispatch ar pkg cl = Some (mtree_archive (\<lambda>_. True) ar c' cl2)"
    using cl b i(1) by (simp add: alpm_pkg_mtree_open_def begin_connected)
  moreover have "mtree_archive (\<lambda>_. True) ar c' cl2 = (let cl3 = cl2\<lparr>cl_bufs := (cl_bufs cl)(cl_buf_next cl \<mapsto> s), cl_buf_next := Suc (cl_buf_next cl), cl_ext := w\<rparr>
      in if a \<noteq> 0 then (a, remember (\<lambda>_. True) a (cl_buf_next cl) cl3) else (0, free_buf (cl_buf_next cl) cl3))"
    by (simp add: mtree_archive_def bytes new_buf_def keep o)
  ultimately show ?thesis using i(2) o keep(3)
    by (intro exI [of _ a] exI [of _ "snd (mtree_archive (\<lambda>_. True) ar c' cl2)"] exI [of _ "cl_ext cl2"])
      (auto simp: remember_def free_buf_def Let_def)
qed

text \<open>The bytes of the listing of the package the id names.\<close>

definition is_listing :: "('w, 'e) server_env \<Rightarrow> 'w server \<Rightarrow> 64 word \<Rightarrow> byte list \<Rightarrow> bool" where
  "is_listing senv sv pkg s \<longleftrightarrow> pkg \<noteq> 0 \<and>
     (\<exists>ptr. arpc_handle_get (sv_tab sv) pkg (e_pkg senv) = Some ptr \<and> ptr \<noteq> 0 \<and>
        listing_of (e_archive senv) (sv_ext sv) ptr = Some s)"

lemma encode_inj:
  assumes "b64_encode_loop a = b64_encode_loop b"
  shows "a = b"
proof -
  have "arpc_b64_decode (\<lambda>_. True) (Some (b64_encode_loop x)) = Some (x, length x)" for x
    by (rule b64_round_trip) (simp_all add: arpc_b64_encode_def)
  then show ?thesis using assms by (metis option.inject prod.inject)
qed

lemma arg_handle_id:
  assumes "req_args rq [JNum (sint pkg)]" and "\<not> rq_bad rq" and "hinv t"
  obtains ptr rq1 where "arpc_arg_handle t rq 0 tp = Some (ptr, rq1)" and "if pkg = 0 then ptr = 0 else arpc_handle_get t pkg tp = Some ptr"
    and "ptr \<noteq> 0 \<longrightarrow> \<not> arpc_req_bad rq1"
proof -
  have arg: "arpc_arg_id rq 0 = (pkg, rq)" using arg_id_value [OF assms(1), of 0] by (simp add: arg_at_def)
  obtain ptr where "arpc_handle_get t pkg tp = Some ptr" using get_view [OF assms(3), of pkg tp] by blast
  with arg assms(2) show thesis
    by (cases "pkg = 0") (auto simp: arpc_arg_handle_def arpc_req_bad_def intro!: that)
qed

text \<open>The server's end: a package's listing is what its reply carries, and nothing else is.\<close>

lemma mtree_served:
  assumes inv: "hinv (sv_tab sv)" and arch: "archive_ok (e_archive senv)" and rid: "i64_range rid"
  shows "\<exists>h oc sv'. arpc_handle_frame (\<lambda>_. True) senv (json_text (mtree_json rid pkg)) sv = Some (Some (reply_text rid oc), sv') \<and>
    readable (reply_json rid oc) \<and> hinv (sv_tab sv') \<and>
    (\<forall>s. s \<noteq> [] \<longrightarrow> (oc = Result [(ARPC_RET_KEY, JStr (b64_encode_loop s))] \<longleftrightarrow> is_listing senv (follow_gpg (\<lambda>_. True) senv sv h) pkg s))"
proof -
  have found: "find_method (\<lambda>_. True) senv (cstr ''arpc.mtree'') = Some (arpc_mtree_get (\<lambda>_. True) (e_pkg senv) (e_archive senv))"
    by (simp add: find_method_def builtins_def cstr_def)
  obtain rq h oc sv' where s: "arpc_handle_frame (\<lambda>_. True) senv (json_text (mtree_json rid pkg)) sv = Some (Some (reply_text rid oc), sv')"
      "req_args rq [JNum (sint pkg)]" "\<not> rq_bad rq" "mtree_does (e_pkg senv) (e_archive senv) rq (follow_gpg (\<lambda>_. True) senv sv h) oc sv'"
      "hinv (sv_tab sv')" "readable (reply_json rid oc)"
    using mtree.served [OF inv arch found _ mtree_request(1) [OF rid, of pkg, unfolded mtree_json_def] rid]
    by (auto simp: cstr_def mtree_json_def)
  let ?sv = "follow_gpg (\<lambda>_. True) senv sv h"
  have hinv: "hinv (sv_tab ?sv)" using inv by (simp add: follow_gpg_def split: prod.splits)
  obtain ptr rq1 where a: "arpc_arg_handle (sv_tab ?sv) rq 0 (e_pkg senv) = Some (ptr, rq1)"
      "if pkg = 0 then ptr = 0 else arpc_handle_get (sv_tab ?sv) pkg (e_pkg senv) = Some ptr" "ptr \<noteq> 0 \<longrightarrow> \<not> arpc_req_bad rq1"
    using arg_handle_id [OF s(2,3) hinv, where tp = "e_pkg senv"] by blast
  have "oc = Result [(ARPC_RET_KEY, JStr (b64_encode_loop b))] \<longleftrightarrow> is_listing senv ?sv pkg b" if "b \<noteq> []" for b
  proof (cases "pkg = 0 \<or> ptr = 0")
    case True
    with s(4) a show ?thesis by (auto simp: mtree_does_def is_listing_def split: if_splits)
  next
    case False
    then have get: "arpc_handle_get (sv_tab ?sv) pkg (e_pkg senv) = Some ptr" "\<not> arpc_req_bad rq1" using a(2,3) by auto
    then have l: "is_listing senv ?sv pkg b \<longleftrightarrow> listing_of (e_archive senv) (sv_ext ?sv) ptr = Some b"
      using False by (simp add: is_listing_def)
    have m: "case oc of Error code msg \<Rightarrow> listing_of (e_archive senv) (sv_ext ?sv) ptr = None
      | Result kvs \<Rightarrow> (case listing_of (e_archive senv) (sv_ext ?sv) ptr of None \<Rightarrow> kvs = [(ARPC_RET_KEY, JNull)]
          | Some s \<Rightarrow> kvs = [(ARPC_RET_KEY, JStr (b64_encode_loop s))] \<or> kvs = [(ARPC_RET_KEY, JNull)] \<and> s = [])"
      using s(4) a(1) get(2) False by (auto simp: mtree_does_def split: outcome.splits option.splits)
    show ?thesis unfolding l using m that encode_inj by (auto split: outcome.splits option.splits)
  qed
  with s show ?thesis by blast
qed

end
