(* ===== verification/Conversation.thy ===== *)
theory Conversation
  imports Round_Trip Result_Ops
begin

text \<open>
  What the two programs say to each other. A call may be interrupted: before its reply the server
  sends callbacks, and before it answers one the client may make calls of its own, which may be
  interrupted in turn. A session is such a conversation without its wire form; its transcript is
  every frame that crosses the pipe, in order, with the numbers the two programs give them.
\<close>

section \<open>Sessions\<close>

text \<open>
  \<open>Request method ops es oc ss\<close> is a call, the callbacks \<open>es\<close> made during it, its outcome and what
  follows it. \<open>Event name handle v ss ret es\<close> is a callback with the arguments \<open>v\<close>, the calls \<open>ss\<close>
  the client makes before it answers \<open>ret\<close>, and the callbacks that follow.
\<close>

datatype session = Over | Request string "put_op list" events outcome session
  and events = Replied | Event string "64 word" json session int events

text \<open>How many requests and how many callbacks there are in them, and how deep callbacks nest.\<close>

primrec session_calls :: "session \<Rightarrow> int" and events_calls :: "events \<Rightarrow> int" where
  "session_calls Over = 0"
| "session_calls (Request method ops es oc ss) = 1 + events_calls es + session_calls ss"
| "events_calls Replied = 0"
| "events_calls (Event name handle v ss ret es) = session_calls ss + events_calls es"

primrec session_cbs :: "session \<Rightarrow> int" and events_cbs :: "events \<Rightarrow> int" where
  "session_cbs Over = 0"
| "session_cbs (Request method ops es oc ss) = events_cbs es + session_cbs ss"
| "events_cbs Replied = 0"
| "events_cbs (Event name handle v ss ret es) = 1 + session_cbs ss + events_cbs es"

primrec session_depth :: "session \<Rightarrow> nat" and events_depth :: "events \<Rightarrow> nat" where
  "session_depth Over = 0"
| "session_depth (Request method ops es oc ss) = max (events_depth es) (session_depth ss)"
| "events_depth Replied = 0"
| "events_depth (Event name handle v ss ret es) = max (Suc (session_depth ss)) (events_depth es)"

section \<open>The transcript\<close>

text \<open>A frame from the client to the server, or one back.\<close>

datatype line = Up json | Down json

text \<open>
  \<open>i\<close> is the number of the client's next request and \<open>q\<close> that of the server's next callback. A
  callback is answered under its own number, whatever was said in between.
\<close>

primrec session_lines :: "int \<Rightarrow> int \<Rightarrow> session \<Rightarrow> line list" and events_lines :: "int \<Rightarrow> int \<Rightarrow> events \<Rightarrow> line list" where
  "session_lines i q Over = []"
| "session_lines i q (Request method ops es oc ss) =
     Up (request_json i method ops) # events_lines (i + 1) q es @ Down (reply_json i oc) #
       session_lines (i + 1 + events_calls es) (q + events_cbs es) ss"
| "events_lines i q Replied = []"
| "events_lines i q (Event name handle v ss ret es) =
     Down (cb_json name q handle v) # session_lines i (q + 1) ss @ Up (answer_json q ret) #
       events_lines (i + session_calls ss) (q + 1 + session_cbs ss) es"

text \<open>The bytes in each direction.\<close>

fun up_bytes :: "line \<Rightarrow> string" where
  "up_bytes (Up v) = sent_text (json_text v)"
| "up_bytes (Down v) = []"

fun down_bytes :: "line \<Rightarrow> string" where
  "down_bytes (Down v) = sent_text (json_text v)"
| "down_bytes (Up v) = []"

definition ups :: "line list \<Rightarrow> string" where
  "ups ls = concat (map up_bytes ls)"

definition downs :: "line list \<Rightarrow> string" where
  "downs ls = concat (map down_bytes ls)"

lemma bytes_simps [simp]:
  "ups [] = []" "ups (l # ls) = up_bytes l @ ups ls" "ups (ls @ ms) = ups ls @ ups ms"
  "downs [] = []" "downs (l # ls) = down_bytes l @ downs ls" "downs (ls @ ms) = downs ls @ downs ms"
  by (simp_all add: ups_def downs_def)

text \<open>
  The two ends take turns: after every frame the next one goes the other way, so no two frames cross
  and neither end writes while the other has something to say.
\<close>

fun is_up :: "line \<Rightarrow> bool" where
  "is_up (Up v) = True"
| "is_up (Down v) = False"

definition turns :: "bool \<Rightarrow> int \<Rightarrow> bool list" where
  "turns first n = concat (replicate (nat n) [first, \<not> first])"

lemma turns_simps [simp]: "turns first 0 = []" "turns first 1 = [first, \<not> first]"
  by (simp_all add: turns_def)

lemma turns_add: "0 \<le> m \<Longrightarrow> 0 \<le> n \<Longrightarrow> turns first (m + n) = turns first m @ turns first n"
  by (simp add: turns_def nat_add_distrib replicate_add)

lemma turns_shift: "first # turns (\<not> first) n = turns first n @ [first]"
proof -
  have "first # concat (replicate k [\<not> first, first]) = concat (replicate k [first, \<not> first]) @ [first]" for k
    by (induction k) auto
  then show ?thesis by (simp add: turns_def)
qed

lemma counts_pos: "0 \<le> session_calls ss \<and> 0 \<le> session_cbs ss" "0 \<le> events_calls es \<and> 0 \<le> events_cbs es"
  by (induction ss and es) auto

lemma lines_take_turns:
  "map is_up (session_lines i q ss) = turns True (session_calls ss + session_cbs ss)"
  "map is_up (events_lines i q es) = turns False (events_calls es + events_cbs es)"
proof (induction ss and es arbitrary: i q and i q)
  case (Request m ops es oc ss)
  have "turns True (session_calls (Request m ops es oc ss) + session_cbs (Request m ops es oc ss)) =
      turns True (events_calls es + events_cbs es) @ turns True 1 @ turns True (session_calls ss + session_cbs ss)"
    using counts_pos by (simp add: turns_add [symmetric] algebra_simps del: turns_simps)
  then show ?case using Request turns_shift [of True "events_calls es + events_cbs es"] by simp
next
  case (Event name handle v ss ret es)
  have "turns False (events_calls (Event name handle v ss ret es) + events_cbs (Event name handle v ss ret es)) =
      turns False (session_calls ss + session_cbs ss) @ turns False 1 @ turns False (events_calls es + events_cbs es)"
    using counts_pos by (simp add: turns_add [symmetric] algebra_simps del: turns_simps)
  then show ?case using Event turns_shift [of False "session_calls ss + session_cbs ss"] by simp
qed simp_all

section \<open>What fits the wire\<close>

text \<open>A frame the other side takes: within the limits of the reader and of the framing.\<close>

definition sendable :: "json \<Rightarrow> bool" where
  "sendable v \<longleftrightarrow> readable v \<and> frame_ok (json_text v)"

primrec session_ok :: "int \<Rightarrow> int \<Rightarrow> session \<Rightarrow> bool" and events_ok :: "int \<Rightarrow> int \<Rightarrow> events \<Rightarrow> bool" where
  "session_ok i q Over = True"
| "session_ok i q (Request method ops es oc ss) =
     (i64_range i \<and> (\<forall>op \<in> set ops. put_ok op) \<and> sendable (request_json i method ops) \<and> events_ok (i + 1) q es \<and>
      sendable (reply_json i oc) \<and> session_ok (i + 1 + events_calls es) (q + events_cbs es) ss)"
| "events_ok i q Replied = True"
| "events_ok i q (Event name handle v ss ret es) =
     (i64_range q \<and> sendable (cb_json name q handle v) \<and> session_ok i (q + 1) ss \<and> i64_range ret \<and>
      events_ok (i + session_calls ss) (q + 1 + session_cbs ss) es)"

lemma sendable_sent: "sendable v \<Longrightarrow> sent_text (json_text v) = frame_header (length (json_text v)) @ json_text v"
  by (simp add: sendable_def sent_text_ok)

lemma sendable_room: "sendable v \<Longrightarrow> length (json_text v) + 32 \<le> 2 ^ 63"
  by (simp add: sendable_def frame_ok_def ARPC_MAX_FRAME_def)

lemma sendable_cstr: "sendable v \<Longrightarrow> cstr (json_text v) = json_text v"
  by (simp add: sendable_def readable_cstr)

lemma sendable_parses:
  assumes "sendable v"
  obtains d where "aj_parse (\<lambda>_. True) (json_text v) = Some d" and "doc_ok d" and "repr d 0 v"
  using readable_parses [of v "\<lambda>_. True"] assms unfolding sendable_def by blast

lemma answer_sendable:
  assumes "i64_range q" and "i64_range ret"
  shows "sendable (answer_json q ret)"
proof -
  have "length (json_text (answer_json q ret)) \<le> 100"
    using rev_digits_short [OF assms(1)] rev_digits_short [OF assms(2)]
    by (simp add: answer_json_def ARPC_RET_KEY_def str_text_def esc_char_def)
  moreover have "json_text (answer_json q ret) \<noteq> []" by (simp add: answer_json_def)
  ultimately show ?thesis
    using answer_wire [OF assms] by (simp add: sendable_def readable_def wire_value_def frame_ok_def ARPC_MAX_FRAME_def)
qed

end
