(* ===== verification/Client_Talk.thy ===== *)
theory Client_Talk
  imports Conversation
begin

text \<open>
  The client's side of a conversation. The caller's code is a program: between its own work it makes
  calls and goes on with what they returned. A callback runs such a program too, so the dispatcher a
  call waits with is made from the programs of the callbacks, down to a depth of nesting.
\<close>

section \<open>The caller's programs\<close>

datatype ('w, 'pipe) caller =
    Return int
  | Local "('w, 'pipe) client \<Rightarrow> ('w, 'pipe) client" "('w, 'pipe) client \<Rightarrow> ('w, 'pipe) caller"
  | Call string "put_op list" "bool \<Rightarrow> arpc_call \<Rightarrow> string \<Rightarrow> ('w, 'pipe) caller"

text \<open>
  A call is \<^const>\<open>arpc_begin\<close>, the arguments and \<^const>\<open>arpc_invoke\<close>, as in every generated stub; the
  program sees whether it succeeded, the reply and the last error.
\<close>

primrec run_caller ::
    "('w, 'proc, 'tok, 'pipe) client_env \<Rightarrow> ('w, 'pipe) dispatcher \<Rightarrow> ('w, 'pipe) caller \<Rightarrow> ('w, 'pipe) client \<Rightarrow>
     (int \<times> ('w, 'pipe) client) option" where
  "run_caller env dispatch (Return ret) cl = Some (ret, cl)"
| "run_caller env dispatch (Local f k) cl = run_caller env dispatch (k (f cl)) (f cl)"
| "run_caller env dispatch (Call method ops k) cl =
     do {
       (ok, c, cl1) \<leftarrow> arpc_begin (\<lambda>_. True) env dispatch method cl;
       (if \<not> ok then run_caller env dispatch (k False c (cl_err cl1)) cl1
        else do {
          (done, c2, cl2) \<leftarrow> arpc_invoke (\<lambda>_. True) env dispatch (fold (run_put (\<lambda>_. True)) ops c) cl1;
          run_caller env dispatch (k done c2 (cl_err cl2)) cl2 }) }"

text \<open>The program of a kind of callback, given the caller's function, its context and the arguments.\<close>

type_synonym ('w, 'pipe) cb_prog = "64 word \<Rightarrow> 64 word \<Rightarrow> aj_doc \<Rightarrow> int \<Rightarrow> ('w, 'pipe) caller"

text \<open>The table of kinds whose functions may nest \<open>n\<close> callbacks deep.\<close>

primrec kinds_of ::
    "nat \<Rightarrow> ('w, 'proc, 'tok, 'pipe) client_env \<Rightarrow> (string \<times> ('w, 'pipe) cb_prog) list \<Rightarrow> (string \<times> ('w, 'pipe) cb_call) list" where
  "kinds_of 0 env progs = map (\<lambda>(name, prog). (name, \<lambda>fn ctx d args cl. None)) progs"
| "kinds_of (Suc n) env progs =
     map (\<lambda>(name, prog). (name, \<lambda>fn ctx d args cl.
       run_caller env (arpc_dispatch_callback (\<lambda>_. True) (kinds_of n env progs)) (prog fn ctx d args) cl)) progs"

definition disp_of ::
    "nat \<Rightarrow> ('w, 'proc, 'tok, 'pipe) client_env \<Rightarrow> (string \<times> ('w, 'pipe) cb_prog) list \<Rightarrow> ('w, 'pipe) dispatcher" where
  "disp_of n env progs = arpc_dispatch_callback (\<lambda>_. True) (kinds_of n env progs)"

lemma kind_at_map: "kind_at i (map (\<lambda>(name, p). (name, f p)) ps) which = map_option (\<lambda>(j, p). (j, f p)) (kind_at i ps which)"
  by (induction ps arbitrary: i) auto

section \<open>Which sessions a program has\<close>

text \<open>What the program's own work may read and change: the registry, the caches and its part of the world.\<close>

type_synonym 'l cstate = "creg list \<times> cache \<times> 'l"

definition cview :: "('w \<Rightarrow> 'l) \<Rightarrow> ('w, 'pipe) client \<Rightarrow> 'l cstate" where
  "cview lib cl = (cl_regs cl, cl_cache cl, lib (cl_ext cl))"

text \<open>What it leaves alone: the connection, its numbers and the bytes on it.\<close>

definition off_line :: "('w \<Rightarrow> string) \<Rightarrow> ('w \<Rightarrow> string) \<Rightarrow> ('w, 'pipe) client \<Rightarrow> ('w, 'pipe) client \<Rightarrow> bool" where
  "off_line inp outp cl cl' \<longleftrightarrow> cl_pipe cl' = cl_pipe cl \<and> cl_next_id cl' = cl_next_id cl \<and>
     inp (cl_ext cl') = inp (cl_ext cl) \<and> outp (cl_ext cl') = outp (cl_ext cl)"

text \<open>What a program is told of an outcome.\<close>

definition told :: "outcome \<Rightarrow> arpc_call \<Rightarrow> string \<Rightarrow> bool" where
  "told oc c err \<longleftrightarrow>
     (case oc of Result kvs \<Rightarrow> result_is c kvs | Error code msg \<Rightarrow> err = take 255 (msg @ '' ('' @ int_text code @ '')''))"

text \<open>
  \<open>makes a prog ss ret b\<close>: from the view \<open>a\<close> the program has the session \<open>ss\<close>, returns \<open>ret\<close> and leaves
  the view \<open>b\<close>. \<open>takes a es b\<close>: so do the callbacks \<open>es\<close>, each run by the program of its kind if its
  handle has a function for it, and answered 0 otherwise.
\<close>

inductive makes ::
    "('w \<Rightarrow> string) \<Rightarrow> ('w \<Rightarrow> string) \<Rightarrow> ('w \<Rightarrow> 'l) \<Rightarrow> (string \<times> ('w, 'pipe) cb_prog) list \<Rightarrow>
     'l cstate \<Rightarrow> ('w, 'pipe) caller \<Rightarrow> session \<Rightarrow> int \<Rightarrow> 'l cstate \<Rightarrow> bool"
  and takes ::
    "('w \<Rightarrow> string) \<Rightarrow> ('w \<Rightarrow> string) \<Rightarrow> ('w \<Rightarrow> 'l) \<Rightarrow> (string \<times> ('w, 'pipe) cb_prog) list \<Rightarrow>
     'l cstate \<Rightarrow> events \<Rightarrow> 'l cstate \<Rightarrow> bool"
  for inp outp lib progs where
  makes_Return: "makes inp outp lib progs a (Return ret) Over ret a"
| makes_Local: "\<forall>cl. cview lib cl = a \<longrightarrow> off_line inp outp cl (f cl) \<and> cview lib (f cl) = a1 \<and> makes inp outp lib progs a1 (k (f cl)) ss ret b \<Longrightarrow>
    makes inp outp lib progs a (Local f k) ss ret b"
| makes_Call: "takes inp outp lib progs a es a1 \<Longrightarrow> \<forall>c err. told oc c err \<longrightarrow> makes inp outp lib progs a1 (k (is_result oc) c err) ss ret b \<Longrightarrow>
    makes inp outp lib progs a (Call method ops k) (Request method ops es oc ss) ret b"
| takes_Replied: "takes inp outp lib progs a Replied a"
| takes_None: "case kind_at 0 progs (cstr name) of None \<Rightarrow> True | Some (j, prog) \<Rightarrow> arpc_cb_fn (\<lambda>_. True) (fst a) handle (int j) = 0 \<Longrightarrow>
    takes inp outp lib progs a es b \<Longrightarrow> takes inp outp lib progs a (Event name handle v Over 0 es) b"
| takes_Run: "kind_at 0 progs (cstr name) = Some (j, prog) \<Longrightarrow> arpc_cb_fn (\<lambda>_. True) (fst a) handle (int j) \<noteq> 0 \<Longrightarrow>
    \<forall>d q. doc_ok d \<and> repr d 0 (cb_json name q handle v) \<longrightarrow>
      makes inp outp lib progs a (prog (arpc_cb_fn (\<lambda>_. True) (fst a) handle (int j)) (arpc_cb_ctx (\<lambda>_. True) (fst a) handle (int j)) d
        (aj_member d 0 ''args'')) ss ret a1 \<Longrightarrow>
    takes inp outp lib progs a1 es b \<Longrightarrow> takes inp outp lib progs a (Event name handle v ss ret es) b"

section \<open>On the line\<close>

text \<open>The client's end of the pipe; moving bytes leaves the rest of the world alone.\<close>

definition client_line ::
    "('w, 'proc, 'tok, 'pipe) client_env \<Rightarrow> 'pipe \<Rightarrow> ('w \<Rightarrow> string) \<Rightarrow> ('w \<Rightarrow> string) \<Rightarrow> ('w \<Rightarrow> 'l) \<Rightarrow> bool" where
  "client_line env p inp outp lib \<longleftrightarrow>
     write_ok (k_io env p) False outp (\<lambda>w. (inp w, lib w)) \<and> read_ok (k_io env p) False inp (\<lambda>w. (outp w, lib w))"

text \<open>The state of a client in a conversation: what is to come on the line and what has been sent.\<close>

definition at_line ::
    "('w \<Rightarrow> string) \<Rightarrow> ('w \<Rightarrow> string) \<Rightarrow> ('w \<Rightarrow> 'l) \<Rightarrow> 'pipe \<Rightarrow> int \<Rightarrow> 'l cstate \<Rightarrow> string \<Rightarrow> string \<Rightarrow> ('w, 'pipe) client \<Rightarrow> bool" where
  "at_line inp outp lib p i a todo sent cl \<longleftrightarrow> cl_pipe cl = Some p \<and> cl_next_id cl = i \<and> cview lib cl = a \<and>
     inp (cl_ext cl) = todo \<and> outp (cl_ext cl) = sent"

lemma line_send:
  assumes "client_line env p inp outp lib" and "at_line inp outp lib p i a todo sent cl"
  obtains cl' where "send_frame env cl b = (True, cl')" and "at_line inp outp lib p i a todo (sent @ sent_text b) cl'"
  using send_frame_text [of "k_io env p" False outp "\<lambda>w. (inp w, lib w)" "cl_ext cl" b] assms
  by (auto simp: client_line_def at_line_def send_frame_def cview_def)

lemma line_recv:
  assumes "client_line env p inp outp lib" and "sendable v" and "at_line inp outp lib p i a (sent_text (json_text v) @ todo) sent cl"
  obtains cl' where "recv_frame (\<lambda>_. True) env cl = (Some (json_text v), cl')" and "at_line inp outp lib p i a todo sent cl'"
  using recv_frame_ok [of "k_io env p" False inp "\<lambda>w. (outp w, lib w)" "json_text v" "\<lambda>_. True" "cl_ext cl" todo] assms
  by (auto simp: client_line_def at_line_def recv_frame_def cview_def sendable_sent sendable_def [of v])

text \<open>The reply ends the wait.\<close>

lemma wait_reply:
  assumes line: "client_line env p inp outp lib" and ok: "sendable (reply_json rid oc)"
    and cl: "at_line inp outp lib p i a (sent_text (reply_text rid oc) @ todo) sent cl"
  obtains cl' where "transact_loop (\<lambda>_. True) env dispatch cl = Some (Some (reply_text rid oc), cl')"
    and "at_line inp outp lib p i a todo sent cl'"
proof -
  obtain cl' where r: "recv_frame (\<lambda>_. True) env cl = (Some (json_text (reply_json rid oc)), cl')" "at_line inp outp lib p i a todo sent cl'"
    using line_recv [OF line ok] cl unfolding reply_text_def by blast
  obtain d where d: "aj_parse (\<lambda>_. True) (json_text (reply_json rid oc)) = Some d" "doc_ok d" "repr d 0 (reply_json rid oc)"
    using sendable_parses [OF ok] by blast
  have "transact_loop (\<lambda>_. True) env dispatch cl = Some (Some (reply_text rid oc), cl')"
    using r(1) d(1) sendable_cstr [OF ok] reply_not_cb [OF d(3,2)]
    by (subst transact_loop.simps) (simp add: reply_text_def)
  with r(2) that show thesis by blast
qed

text \<open>A callback's answer, once its function has run.\<close>

lemma wait_callback:
  assumes line: "client_line env p inp outp lib" and ok: "sendable (cb_json name q handle v)" "i64_range q" "i64_range ret"
    and cl: "at_line inp outp lib p i a (sent_text (json_text (cb_json name q handle v)) @ todo) sent cl"
    and run: "\<And>d cl1. doc_ok d \<Longrightarrow> repr d 0 (cb_json name q handle v) \<Longrightarrow> at_line inp outp lib p i a todo sent cl1 \<Longrightarrow>
      \<exists>cl2. (case kind_at 0 kinds (cstr name) of
          None \<Rightarrow> Some (0, cl1)
        | Some (j, call) \<Rightarrow>
            let fn = arpc_cb_fn (\<lambda>_. True) (cl_regs cl1) handle (int j)
            in if fn \<noteq> 0 then call fn (arpc_cb_ctx (\<lambda>_. True) (cl_regs cl1) handle (int j)) d (aj_member d 0 ''args'') cl1
               else Some (0, cl1)) = Some (ret, cl2) \<and> at_line inp outp lib p i2 a2 todo2 sent2 cl2"
  obtains cl' where "transact_loop (\<lambda>_. True) env (arpc_dispatch_callback (\<lambda>_. True) kinds) cl =
      transact_loop (\<lambda>_. True) env (arpc_dispatch_callback (\<lambda>_. True) kinds) cl'"
    and "at_line inp outp lib p i2 a2 todo2 (sent2 @ sent_text (json_text (answer_json q ret))) cl'"
proof -
  obtain cl1 where r: "recv_frame (\<lambda>_. True) env cl = (Some (json_text (cb_json name q handle v)), cl1)" "at_line inp outp lib p i a todo sent cl1"
    using line_recv [OF line ok(1) cl] by blast
  obtain d where d: "aj_parse (\<lambda>_. True) (json_text (cb_json name q handle v)) = Some d" "doc_ok d" "repr d 0 (cb_json name q handle v)"
    using sendable_parses [OF ok(1)] by blast
  note m = member_scalars [OF d(2) d(3) [unfolded cb_json_def], simplified]
  have cb: "0 \<le> aj_member d 0 ''cb''"
    using member_of_object [OF d(2) d(3) [unfolded cb_json_def], of "''cb''"] by auto
  obtain cl2 where c: "arpc_dispatch_callback (\<lambda>_. True) kinds d cl1 = Some (cb_reply (\<lambda>_. True) q ret, cl2)"
      "at_line inp outp lib p i2 a2 todo2 sent2 cl2"
    using run [OF d(2,3) r(2)] by (auto simp: arpc_dispatch_callback_def m num_or_def str_or_def)
  note t = cb_reply_text [of "\<lambda>_. True", OF _ ok(2,3)]
  obtain cl3 where "send_frame env cl2 (json_text (answer_json q ret)) = (True, cl3)"
      "at_line inp outp lib p i2 a2 todo2 (sent2 @ sent_text (json_text (answer_json q ret))) cl3"
    using line_send [OF line c(2)] by blast
  with r(1) d(1) cb c(1) t sendable_cstr [OF ok(1)] show thesis
    by (intro that [of cl3]) (subst transact_loop.simps, simp)
qed

section \<open>A program has its session\<close>

text \<open>One call, given that the callbacks before its reply are taken.\<close>

lemma call_made:
  assumes line: "client_line env p inp outp lib" and cl: "at_line inp outp lib p i a todo sent cl"
    and ok: "i64_range i" "\<forall>op \<in> set ops. put_ok op" "sendable (request_json i method ops)" "sendable (reply_json i oc)"
    and wait: "\<And>cl1. at_line inp outp lib p (i + 1) a todo (sent @ sent_text (json_text (request_json i method ops))) cl1 \<Longrightarrow>
      \<exists>cl2. transact_loop (\<lambda>_. True) env dispatch cl1 = transact_loop (\<lambda>_. True) env dispatch cl2 \<and>
        at_line inp outp lib p i2 a2 (sent_text (reply_text i oc) @ todo2) sent2 cl2"
  obtains c0 cl0 c cl' where "arpc_begin (\<lambda>_. True) env dispatch method cl = Some (True, c0, cl0)"
    and "arpc_invoke (\<lambda>_. True) env dispatch (fold (run_put (\<lambda>_. True)) ops c0) cl0 = Some (is_result oc, c, cl')"
    and "told oc c (cl_err cl')" and "at_line inp outp lib p i2 a2 todo2 sent2 cl'"
proof -
  have mem: "\<forall>n. (\<lambda>_ :: nat. True) n" by simp
  obtain c0 cl0 where b: "begin_call (\<lambda>_. True) method cl = (c0, cl0)" by fastforce
  note f = begin_call_fields [OF b]
  have id: "cl_next_id cl = i" "cl_pipe cl = Some p" using cl by (simp_all add: at_line_def)
  let ?c = "fold (run_put (\<lambda>_. True)) ops c0"
  note req = request_text [OF mem ok(2) _ b, unfolded id(1), OF ok(1) sendable_room [OF ok(3)]]
  have "at_line inp outp lib p (i + 1) a todo sent cl0" using cl f by (simp add: at_line_def cview_def)
  then obtain cl1 where s: "send_frame env cl0 (json_text (request_json i method ops)) = (True, cl1)"
      "at_line inp outp lib p (i + 1) a todo (sent @ sent_text (json_text (request_json i method ops))) cl1"
    using line_send [OF line] by blast
  obtain cl2 where w: "transact_loop (\<lambda>_. True) env dispatch cl1 = transact_loop (\<lambda>_. True) env dispatch cl2"
      "at_line inp outp lib p i2 a2 (sent_text (reply_text i oc) @ todo2) sent2 cl2" using wait [OF s(2)] by blast
  obtain cl3 where r: "transact_loop (\<lambda>_. True) env dispatch cl2 = Some (Some (reply_text i oc), cl3)" "at_line inp outp lib p i2 a2 todo2 sent2 cl3"
    using wait_reply [OF line ok(4) w(2), where dispatch = dispatch] by blast
  have t: "transact (\<lambda>_. True) env dispatch cl0 (w_text (request_writer (\<lambda>_. True) ?c)) = Some (Some (reply_text i oc), cl3)"
    using s(1) w(1) r(1) req(2) by (simp add: transact_def)
  have cid: "call_id ?c = i" using f id(1) run_puts_id by metis
  obtain c where inv: "arpc_invoke (\<lambda>_. True) env dispatch ?c cl0 =
      (case oc of Result kvs \<Rightarrow> Some (True, c, cl3) | Error code msg \<Rightarrow> Some (False, c, set_err cl3 (msg @ '' ('' @ int_text code @ '')'')))"
      "\<forall>kvs. oc = Result kvs \<longrightarrow> result_is c kvs"
    using invoke_reply [OF mem req(1) t] ok(4) cid unfolding sendable_def by auto
  have beg: "arpc_begin (\<lambda>_. True) env dispatch method cl = Some (True, c0, cl0)" using b id(2) by (simp add: begin_connected)
  show thesis
  proof (cases oc)
    case (Result kvs)
    with inv r(2) show thesis by (intro that [OF beg]) (auto simp: told_def)
  next
    case (Error code msg)
    with inv r(2) show thesis by (intro that [OF beg, of c "set_err cl3 (msg @ '' ('' @ int_text code @ '')'')"])
      (simp_all add: told_def at_line_def cview_def set_err_def)
  qed
qed

text \<open>
  Run over the line, from any numbers and any place in the two streams, the program has the session
  \<open>ss\<close>; a call that waits takes the callbacks \<open>es\<close> and goes on waiting.
\<close>

definition runs_session ::
    "('w, 'proc, 'tok, 'pipe) client_env \<Rightarrow> 'pipe \<Rightarrow> ('w \<Rightarrow> string) \<Rightarrow> ('w \<Rightarrow> string) \<Rightarrow> ('w \<Rightarrow> 'l) \<Rightarrow> (string \<times> ('w, 'pipe) cb_prog) list \<Rightarrow>
     'l cstate \<Rightarrow> ('w, 'pipe) caller \<Rightarrow> session \<Rightarrow> int \<Rightarrow> 'l cstate \<Rightarrow> bool" where
  "runs_session env p inp outp lib progs a prog ss ret b \<longleftrightarrow>
     (\<forall>n i q todo sent cl. session_depth ss \<le> n \<longrightarrow> session_ok i q ss \<longrightarrow>
        at_line inp outp lib p i a (downs (session_lines i q ss) @ todo) sent cl \<longrightarrow>
        (\<exists>cl'. run_caller env (disp_of n env progs) prog cl = Some (ret, cl') \<and>
          at_line inp outp lib p (i + session_calls ss) b todo (sent @ ups (session_lines i q ss)) cl'))"

definition waits_events ::
    "('w, 'proc, 'tok, 'pipe) client_env \<Rightarrow> 'pipe \<Rightarrow> ('w \<Rightarrow> string) \<Rightarrow> ('w \<Rightarrow> string) \<Rightarrow> ('w \<Rightarrow> 'l) \<Rightarrow> (string \<times> ('w, 'pipe) cb_prog) list \<Rightarrow>
     'l cstate \<Rightarrow> events \<Rightarrow> 'l cstate \<Rightarrow> bool" where
  "waits_events env p inp outp lib progs a es b \<longleftrightarrow>
     (\<forall>n i q todo sent cl. events_depth es \<le> n \<longrightarrow> events_ok i q es \<longrightarrow>
        at_line inp outp lib p i a (downs (events_lines i q es) @ todo) sent cl \<longrightarrow>
        (\<exists>cl'. transact_loop (\<lambda>_. True) env (disp_of n env progs) cl = transact_loop (\<lambda>_. True) env (disp_of n env progs) cl' \<and>
          at_line inp outp lib p (i + events_calls es) b todo (sent @ ups (events_lines i q es)) cl'))"

lemma runs_sessionD:
  assumes "runs_session env p inp outp lib progs a prog ss ret b" and "session_depth ss \<le> n" and "session_ok i q ss"
    and "at_line inp outp lib p i a (downs (session_lines i q ss) @ todo) sent cl"
  shows "\<exists>cl'. run_caller env (disp_of n env progs) prog cl = Some (ret, cl') \<and>
    at_line inp outp lib p (i + session_calls ss) b todo (sent @ ups (session_lines i q ss)) cl'"
  using assms unfolding runs_session_def by blast

lemma waits_eventsD:
  assumes "waits_events env p inp outp lib progs a es b" and "events_depth es \<le> n" and "events_ok i q es"
    and "at_line inp outp lib p i a (downs (events_lines i q es) @ todo) sent cl"
  shows "\<exists>cl'. transact_loop (\<lambda>_. True) env (disp_of n env progs) cl = transact_loop (\<lambda>_. True) env (disp_of n env progs) cl' \<and>
    at_line inp outp lib p (i + events_calls es) b todo (sent @ ups (events_lines i q es)) cl'"
  using assms unfolding waits_events_def by blast

lemma at_line_view: "at_line inp outp lib p i a todo sent cl \<Longrightarrow> cview lib cl = a" "at_line inp outp lib p i a todo sent cl \<Longrightarrow> fst a = cl_regs cl"
  by (auto simp: at_line_def cview_def)

lemma runs_Local:
  assumes "\<And>cl. cview lib cl = a \<Longrightarrow> off_line inp outp cl (f cl) \<and> cview lib (f cl) = a1 \<and>
      runs_session env p inp outp lib progs a1 (k (f cl)) ss ret b"
  shows "runs_session env p inp outp lib progs a (Local f k) ss ret b"
  unfolding runs_session_def
proof (intro allI impI)
  fix n i q todo sent cl
  assume d: "session_depth ss \<le> n" "session_ok i q ss" and cl: "at_line inp outp lib p i a (downs (session_lines i q ss) @ todo) sent cl"
  note f = assms [OF at_line_view(1) [OF cl]]
  have "at_line inp outp lib p i a1 (downs (session_lines i q ss) @ todo) sent (f cl)"
    using cl f by (simp add: at_line_def off_line_def)
  from runs_sessionD [OF f [THEN conjunct2, THEN conjunct2] d this]
  show "\<exists>cl'. run_caller env (disp_of n env progs) (Local f k) cl = Some (ret, cl') \<and>
      at_line inp outp lib p (i + session_calls ss) b todo (sent @ ups (session_lines i q ss)) cl'" by simp
qed

lemma runs_Call:
  assumes line: "client_line env p inp outp lib" and es: "waits_events env p inp outp lib progs a es a1"
    and k: "\<And>c err. told oc c err \<Longrightarrow> runs_session env p inp outp lib progs a1 (k (is_result oc) c err) ss ret b"
  shows "runs_session env p inp outp lib progs a (Call m ops k) (Request m ops es oc ss) ret b"
  unfolding runs_session_def
proof (intro allI impI)
  fix n i q todo sent cl
  let ?r = "Request m ops es oc ss" and ?i = "i + 1 + events_calls es" and ?q = "q + events_cbs es"
  let ?req = "sent_text (json_text (request_json i m ops))"
  assume d: "session_depth ?r \<le> n" and ok: "session_ok i q ?r" and cl: "at_line inp outp lib p i a (downs (session_lines i q ?r) @ todo) sent cl"
  let ?todo = "downs (session_lines ?i ?q ss) @ todo"
  have cl': "at_line inp outp lib p i a (downs (events_lines (i + 1) q es) @ sent_text (reply_text i oc) @ ?todo) sent cl"
    using cl by (simp add: reply_text_def)
  have o: "i64_range i" "\<forall>op \<in> set ops. put_ok op" "sendable (request_json i m ops)" "sendable (reply_json i oc)"
      "events_depth es \<le> n" "events_ok (i + 1) q es" "session_depth ss \<le> n" "session_ok ?i ?q ss" using ok d by auto
  have wait: "\<exists>cl2. transact_loop (\<lambda>_. True) env (disp_of n env progs) cl1 = transact_loop (\<lambda>_. True) env (disp_of n env progs) cl2 \<and>
      at_line inp outp lib p ?i a1 (sent_text (reply_text i oc) @ ?todo) ((sent @ ?req) @ ups (events_lines (i + 1) q es)) cl2"
    if "at_line inp outp lib p (i + 1) a (downs (events_lines (i + 1) q es) @ sent_text (reply_text i oc) @ ?todo) (sent @ ?req) cl1" for cl1
    by (rule waits_eventsD [OF es o(5,6) that])
  obtain c0 cl0 c cl1 where c: "arpc_begin (\<lambda>_. True) env (disp_of n env progs) m cl = Some (True, c0, cl0)"
      "arpc_invoke (\<lambda>_. True) env (disp_of n env progs) (fold (run_put (\<lambda>_. True)) ops c0) cl0 = Some (is_result oc, c, cl1)"
      "told oc c (cl_err cl1)" "at_line inp outp lib p ?i a1 ?todo ((sent @ ?req) @ ups (events_lines (i + 1) q es)) cl1"
    using call_made [OF line cl' o(1-4) wait] by blast
  obtain cl' where "run_caller env (disp_of n env progs) (k (is_result oc) c (cl_err cl1)) cl1 = Some (ret, cl')"
      "at_line inp outp lib p (?i + session_calls ss) b todo (((sent @ ?req) @ ups (events_lines (i + 1) q es)) @ ups (session_lines ?i ?q ss)) cl'"
    using runs_sessionD [OF k [OF c(3)] o(7,8) c(4)] by blast
  with c(1,2) show "\<exists>cl'. run_caller env (disp_of n env progs) (Call m ops k) cl = Some (ret, cl') \<and>
      at_line inp outp lib p (i + session_calls ?r) b todo (sent @ ups (session_lines i q ?r)) cl'" by (simp add: algebra_simps)
qed

text \<open>A callback of either sort: what runs before the answer has the session and gives the value.\<close>

lemma waits_Event:
  assumes line: "client_line env p inp outp lib"
    and run: "\<And>k i q todo sent d cl. session_depth ss \<le> k \<Longrightarrow> session_ok i q ss \<Longrightarrow> doc_ok d \<Longrightarrow> \<exists>q. repr d 0 (cb_json name q handle v) \<Longrightarrow>
      at_line inp outp lib p i a (downs (session_lines i q ss) @ todo) sent cl \<Longrightarrow>
      \<exists>cl'. (case kind_at 0 progs (cstr name) of
          None \<Rightarrow> Some (0, cl)
        | Some (j, prog) \<Rightarrow>
            if arpc_cb_fn (\<lambda>_. True) (fst a) handle (int j) = 0 then Some (0, cl)
            else run_caller env (disp_of k env progs) (prog (arpc_cb_fn (\<lambda>_. True) (fst a) handle (int j))
              (arpc_cb_ctx (\<lambda>_. True) (fst a) handle (int j)) d (aj_member d 0 ''args'')) cl) = Some (ret, cl') \<and>
        at_line inp outp lib p (i + session_calls ss) a1 todo (sent @ ups (session_lines i q ss)) cl'"
    and rest: "waits_events env p inp outp lib progs a1 es b"
  shows "waits_events env p inp outp lib progs a (Event name handle v ss ret es) b"
  unfolding waits_events_def
proof (intro allI impI)
  fix n i q todo sent cl
  let ?e = "Event name handle v ss ret es" and ?i = "i + session_calls ss" and ?q = "q + 1 + session_cbs ss"
  assume d: "events_depth ?e \<le> n" and ok: "events_ok i q ?e" and cl: "at_line inp outp lib p i a (downs (events_lines i q ?e) @ todo) sent cl"
  from d obtain k where k: "n = Suc k" "session_depth ss \<le> k" by (cases n) auto
  let ?es = "downs (events_lines ?i ?q es) @ todo"
  let ?sent = "sent @ ups (session_lines i (q + 1) ss)"
  have cl': "at_line inp outp lib p i a (sent_text (json_text (cb_json name q handle v)) @ downs (session_lines i (q + 1) ss) @ ?es) sent cl"
    using cl by simp
  have o: "sendable (cb_json name q handle v)" "i64_range q" "i64_range ret" "session_ok i (q + 1) ss" "events_depth es \<le> n" "events_ok ?i ?q es"
    using ok d by auto
  obtain cl1 where w: "transact_loop (\<lambda>_. True) env (disp_of n env progs) cl = transact_loop (\<lambda>_. True) env (disp_of n env progs) cl1"
      "at_line inp outp lib p ?i a1 ?es (?sent @ sent_text (json_text (answer_json q ret))) cl1"
  proof (rule wait_callback [OF line o(1-3) cl', where kinds = "kinds_of n env progs", folded disp_of_def])
    fix d0 cl2
    assume d0: "doc_ok d0" "repr d0 0 (cb_json name q handle v)" and cl2: "at_line inp outp lib p i a (downs (session_lines i (q + 1) ss) @ ?es) sent cl2"
    have "\<exists>q. repr d0 0 (cb_json name q handle v)" using d0(2) by blast
    from run [OF k(2) o(4) d0(1) this cl2] at_line_view(2) [OF cl2]
    show "\<exists>cl3. (case kind_at 0 (kinds_of n env progs) (cstr name) of
          None \<Rightarrow> Some (0, cl2)
        | Some (j, call) \<Rightarrow>
            let fn = arpc_cb_fn (\<lambda>_. True) (cl_regs cl2) handle (int j)
            in if fn \<noteq> 0 then call fn (arpc_cb_ctx (\<lambda>_. True) (cl_regs cl2) handle (int j)) d0 (aj_member d0 0 ''args'') cl2
               else Some (0, cl2)) = Some (ret, cl3) \<and> at_line inp outp lib p ?i a1 ?es ?sent cl3"
      by (auto simp: k(1) kind_at_map disp_of_def Let_def split: option.splits prod.splits)
  qed blast
  from waits_eventsD [OF rest o(5,6) w(2)] w(1)
  show "\<exists>cl'. transact_loop (\<lambda>_. True) env (disp_of n env progs) cl = transact_loop (\<lambda>_. True) env (disp_of n env progs) cl' \<and>
      at_line inp outp lib p (i + events_calls ?e) b todo (sent @ ups (events_lines i q ?e)) cl'" by (auto simp: algebra_simps)
qed

lemma makes_takes_run:
  fixes env :: "('w, 'proc, 'tok, 'pipe) client_env"
  assumes line: "client_line env p inp outp lib"
  shows "makes inp outp lib progs a prog ss ret b \<Longrightarrow> runs_session env p inp outp lib progs a prog ss ret b"
    and "takes inp outp lib progs a es b \<Longrightarrow> waits_events env p inp outp lib progs a es b"
proof (induction rule: makes_takes.inducts)
  case (makes_Local a f a1 k ss ret b)
  show ?case by (rule runs_Local [where ?a1.0 = a1]) (use makes_Local in simp)
next
  case (makes_Call a es a1 oc k ss ret b m ops)
  show ?case by (rule runs_Call [OF line makes_Call(2)]) (use makes_Call(3) in blast)
next
  case (takes_None name a handle es b v)
  show ?case by (rule waits_Event [OF line _ takes_None(3)]) (use takes_None(1) in \<open>simp split: option.splits prod.splits\<close>)
next
  case (takes_Run name j prog a handle v ss ret a1 es b)
  let ?fn = "arpc_cb_fn (\<lambda>_. True) (fst a) handle (int j)" and ?ctx = "arpc_cb_ctx (\<lambda>_. True) (fst a) handle (int j)"
  have k: "kind_at 0 progs (cstr name) = Some (j, prog)" "?fn \<noteq> 0" by fact+
  have r: "runs_session env p inp outp lib progs a (prog ?fn ?ctx d (aj_member d 0 ''args'')) ss ret a1"
    if "doc_ok d" "\<exists>q. repr d 0 (cb_json name q handle v)" for d
    using takes_Run(2) that by blast
  show ?case
    by (rule waits_Event [OF line _ takes_Run(4)]) (simp add: k, rule runs_sessionD [OF r])
qed (auto simp: runs_session_def waits_events_def)

end
