(* ===== verification/Server_Talk.thy ===== *)
theory Server_Talk
  imports Conversation
begin

text \<open>
  The server's side of a conversation. A method of the generated table is a program: it works in
  libalpm, which may call a trampoline, which sends a callback and waits. While it waits the server
  serves the requests that arrive, with the same table, down to a depth of nesting.
\<close>

section \<open>The methods' programs\<close>

datatype 'w handler =
    Finish "'w arpc_handler"
  | Work "'w server \<Rightarrow> 'w server option" "'w server \<Rightarrow> 'w handler"
  | Send nat "64 word" "aj_w option" int "int \<Rightarrow> 'w handler"

type_synonym 'w exchange = "'w server \<Rightarrow> string \<Rightarrow> (string option \<times> 'w server) option"

primrec run_handler ::
    "'w exchange \<Rightarrow> 'w cb_kind list \<Rightarrow> 'w handler \<Rightarrow> 'w arpc_handler" where
  "run_handler exch kinds (Finish fn) rq rs sv = fn rq rs sv"
| "run_handler exch kinds (Work f k) rq rs sv = do { sv1 \<leftarrow> f sv; run_handler exch kinds (k sv1) rq rs sv1 }"
| "run_handler exch kinds (Send kind handle args dflt k) rq rs sv =
     do { (ret, sv1) \<leftarrow> arpc_cb_send (\<lambda>_. True) kinds exch kind handle args dflt sv; run_handler exch kinds (k ret) rq rs sv1 }"

text \<open>
  A trampoline: nothing is sent that was not asked for. \<open>marshal\<close> builds the arguments, which may put
  objects on file, and \<open>args\<close> is their writer.
\<close>

definition trampoline ::
    "nat \<Rightarrow> 64 word \<Rightarrow> ('w server \<Rightarrow> 'w server option) \<Rightarrow> ('w server \<Rightarrow> aj_w option) \<Rightarrow> int \<Rightarrow> (int \<Rightarrow> 'w handler) \<Rightarrow> 'w handler" where
  "trampoline kind handle marshal args dflt k =
     Work Some (\<lambda>sv.
       if \<not> arpc_cb_wanted (\<lambda>_. True) (sv_regs sv) handle kind then k dflt
       else Work marshal (\<lambda>sv1. Send kind handle (args sv1) dflt k))"

text \<open>The table whose methods exchange frames by \<open>exch\<close>.\<close>

definition with_methods ::
    "('w, 'e) server_env \<Rightarrow> (string \<times> (arpc_req \<Rightarrow> 'w handler)) list \<Rightarrow> 'w exchange \<Rightarrow> ('w, 'e) server_env" where
  "with_methods base methods exch =
     base\<lparr>e_methods := map (\<lambda>(name, prog). (name, \<lambda>rq. run_handler exch (e_kinds base) (prog rq) rq)) methods\<rparr>"

text \<open>The exchange of methods that may nest \<open>n\<close> callbacks deep, and the server they are in.\<close>

primrec exch_of ::
    "nat \<Rightarrow> 'w win_io \<Rightarrow> ('w, 'e) server_env \<Rightarrow> (string \<times> (arpc_req \<Rightarrow> 'w handler)) list \<Rightarrow> 'w exchange" where
  "exch_of 0 io base methods = (\<lambda>sv msg. None)"
| "exch_of (Suc n) io base methods = arpc_conn_exchange (\<lambda>_. True) io (with_methods base methods (exch_of n io base methods))"

definition env_of ::
    "nat \<Rightarrow> 'w win_io \<Rightarrow> ('w, 'e) server_env \<Rightarrow> (string \<times> (arpc_req \<Rightarrow> 'w handler)) list \<Rightarrow> ('w, 'e) server_env" where
  "env_of n io base methods = with_methods base methods (exch_of n io base methods)"

text \<open>The program a method's name finds: a built-in one runs to its end, as its own function.\<close>

definition program ::
    "('w, 'e) server_env \<Rightarrow> (string \<times> (arpc_req \<Rightarrow> 'w handler)) list \<Rightarrow> string \<Rightarrow> arpc_req \<Rightarrow> 'w handler option" where
  "program base methods name rq =
     (case map_of (builtins (\<lambda>_. True) base) name of
        Some fn \<Rightarrow> Some (Finish fn)
      | None \<Rightarrow> map_option (\<lambda>prog. prog rq) (map_of methods name))"

lemma with_methods_simps [simp]:
  "builtins alloc (with_methods base methods exch) = builtins alloc base"
  "e_gpg (with_methods base methods exch) = e_gpg base" "e_kinds (with_methods base methods exch) = e_kinds base"
  "e_handle (with_methods base methods exch) = e_handle base"
  by (simp_all add: with_methods_def builtins_def)

lemma program_found:
  assumes "table_sorted methods" and "program base methods name rq = Some prog"
  obtains fn where "find_method (\<lambda>_. True) (with_methods base methods exch) name = Some fn"
    and "fn rq = run_handler exch (e_kinds base) prog rq"
proof -
  have m: "map_of (map (\<lambda>(n, p). (n, \<lambda>rq. run_handler exch (e_kinds base) (p rq) rq)) methods) name =
      map_option (\<lambda>p rq. run_handler exch (e_kinds base) (p rq) rq) (map_of methods name)"
    by (induction methods) auto
  have s: "table_sorted (e_methods (with_methods base methods exch))"
    using assms(1) by (simp add: table_sorted_def with_methods_def sorted_wrt_map case_prod_beta)
  have b: "builtins (\<lambda>_. True) (with_methods base methods exch) @ e_methods (with_methods base methods exch) =
      builtins (\<lambda>_. True) base @ map (\<lambda>(n, p). (n, \<lambda>rq. run_handler exch (e_kinds base) (p rq) rq)) methods"
    by (simp add: with_methods_def builtins_def)
  have f: "find_method (\<lambda>_. True) (with_methods base methods exch) name = (case map_of (builtins (\<lambda>_. True) base) name of
        Some fn \<Rightarrow> Some fn | None \<Rightarrow> map_option (\<lambda>p rq. run_handler exch (e_kinds base) (p rq) rq) (map_of methods name))"
    unfolding find_method_spec [OF s] b by (simp add: map_add_def m split: option.split)
  show thesis
  proof (cases "map_of (builtins (\<lambda>_. True) base) name")
    case None
    with assms(2) obtain p where "map_of methods name = Some p" "prog = p rq" by (auto simp: program_def)
    with None f that show thesis by simp
  next
    case (Some fn)
    with assms(2) f that [of fn] show thesis by (auto simp: program_def fun_eq_iff)
  qed
qed

section \<open>Which sessions a server has\<close>

text \<open>What a method may read and change: the handles, the registrations, the client's choice of paths and the libraries.\<close>

type_synonym 'l sstate = "htab \<times> cbreg list \<times> bool \<times> 'l"

definition sview :: "('w \<Rightarrow> 'l) \<Rightarrow> 'w server \<Rightarrow> 'l sstate" where
  "sview lib sv = (sv_tab sv, sv_regs sv, sv_win32 sv, lib (sv_ext sv))"

definition off_pipe :: "('w \<Rightarrow> string) \<Rightarrow> ('w \<Rightarrow> string) \<Rightarrow> 'w server \<Rightarrow> 'w server \<Rightarrow> bool" where
  "off_pipe inp outp sv sv' \<longleftrightarrow> sv_conn sv' = sv_conn sv \<and> sv_seq sv' = sv_seq sv \<and> pipe_alone inp outp (sv_ext sv) (sv_ext sv')"

text \<open>
  \<open>serves a ss b\<close>: from the view \<open>a\<close> the server has its part of the session \<open>ss\<close> and comes to the view
  \<open>b\<close>. \<open>plays rq oc a prog es b\<close>: the program sends the callbacks \<open>es\<close> and ends with the outcome \<open>oc\<close>.
\<close>

inductive serves ::
    "('w \<Rightarrow> string) \<Rightarrow> ('w \<Rightarrow> string) \<Rightarrow> ('w \<Rightarrow> 'l) \<Rightarrow> ('w, 'e) server_env \<Rightarrow> (string \<times> (arpc_req \<Rightarrow> 'w handler)) list \<Rightarrow>
     'l sstate \<Rightarrow> session \<Rightarrow> 'l sstate \<Rightarrow> bool"
  and plays ::
    "('w \<Rightarrow> string) \<Rightarrow> ('w \<Rightarrow> string) \<Rightarrow> ('w \<Rightarrow> 'l) \<Rightarrow> ('w, 'e) server_env \<Rightarrow> (string \<times> (arpc_req \<Rightarrow> 'w handler)) list \<Rightarrow>
     arpc_req \<Rightarrow> outcome \<Rightarrow> 'l sstate \<Rightarrow> 'w handler \<Rightarrow> events \<Rightarrow> 'l sstate \<Rightarrow> bool"
  for inp outp lib base methods where
  serves_Over: "serves inp outp lib base methods a Over a"
| serves_Request: "cstr meth \<noteq> ''arpc.shutdown'' \<Longrightarrow>
    \<forall>rq. req_args rq (map put_value ops) \<and> \<not> rq_bad rq \<longrightarrow>
      (\<exists>prog. program base methods (cstr meth) rq = Some prog \<and> plays inp outp lib base methods rq oc a prog es a1) \<Longrightarrow>
    serves inp outp lib base methods a1 ss b \<Longrightarrow> serves inp outp lib base methods a (Request meth ops es oc ss) b"
| plays_Finish: "\<forall>sv. hinv (sv_tab sv) \<and> sview lib sv = a \<longrightarrow>
      ends_with (fn rq arpc_res_zero sv) (\<lambda>oc' sv'. oc' = oc \<and> sview lib sv' = b \<and> off_pipe inp outp sv sv') \<Longrightarrow>
    plays inp outp lib base methods rq oc a (Finish fn) Replied b"
| plays_Work: "\<forall>sv. hinv (sv_tab sv) \<and> sview lib sv = a \<longrightarrow>
      (\<exists>sv1. f sv = Some sv1 \<and> hinv (sv_tab sv1) \<and> sview lib sv1 = a1 \<and> off_pipe inp outp sv sv1 \<and>
        plays inp outp lib base methods rq oc a1 (k sv1) es b) \<Longrightarrow>
    plays inp outp lib base methods rq oc a (Work f k) es b"
| plays_Send: "fst (e_kinds base ! kind) = name \<Longrightarrow> args_value args v \<Longrightarrow> serves inp outp lib base methods a ss a1 \<Longrightarrow>
    plays inp outp lib base methods rq oc a1 (k ret) es b \<Longrightarrow>
    plays inp outp lib base methods rq oc a (Send kind handle args dflt k) (Event name handle v ss ret es) b"

text \<open>A trampoline, asked for or not.\<close>

lemma plays_look:
  assumes "\<And>sv. hinv (sv_tab sv) \<Longrightarrow> sview lib sv = a \<Longrightarrow> plays inp outp lib base methods rq oc a (k sv) es b"
  shows "plays inp outp lib base methods rq oc a (Work Some k) es b"
  by (rule plays_Work [where ?a1.0 = a]) (use assms in \<open>auto simp: off_pipe_def pipe_alone_def\<close>)

lemma plays_trampoline:
  assumes wanted: "arpc_cb_wanted (\<lambda>_. True) (fst (snd a)) handle kind" and kind: "fst (e_kinds base ! kind) = name"
    and marshal: "\<And>sv. hinv (sv_tab sv) \<Longrightarrow> sview lib sv = a \<Longrightarrow>
      \<exists>sv1. marshal sv = Some sv1 \<and> args_value (args sv1) v \<and> hinv (sv_tab sv1) \<and> sview lib sv1 = a1 \<and> off_pipe inp outp sv sv1"
    and rest: "serves inp outp lib base methods a1 ss a2" "plays inp outp lib base methods rq oc a2 (k ret) es b"
  shows "plays inp outp lib base methods rq oc a (trampoline kind handle marshal args dflt k) (Event name handle v ss ret es) b"
  unfolding trampoline_def
proof (rule plays_look)
  fix sv
  assume "hinv (sv_tab sv)" "sview lib sv = a"
  then have "arpc_cb_wanted (\<lambda>_. True) (sv_regs sv) handle kind" using wanted by (auto simp: sview_def)
  moreover have "plays inp outp lib base methods rq oc a (Work marshal (\<lambda>sv1. Send kind handle (args sv1) dflt k)) (Event name handle v ss ret es) b"
  proof (rule plays_Work [where ?a1.0 = a1], intro allI impI)
    fix sv
    assume "hinv (sv_tab sv) \<and> sview lib sv = a"
    then obtain sv1 where m: "marshal sv = Some sv1" "args_value (args sv1) v" "hinv (sv_tab sv1)" "sview lib sv1 = a1" "off_pipe inp outp sv sv1"
      using marshal by blast
    from plays_Send [where k = k and ret = ret, OF kind m(2) rest] m(1,3-5)
    show "\<exists>sv1. marshal sv = Some sv1 \<and> hinv (sv_tab sv1) \<and> sview lib sv1 = a1 \<and> off_pipe inp outp sv sv1 \<and>
        plays inp outp lib base methods rq oc a1 (Send kind handle (args sv1) dflt k) (Event name handle v ss ret es) b" by blast
  qed
  ultimately show "plays inp outp lib base methods rq oc a
     (if \<not> arpc_cb_wanted (\<lambda>_. True) (sv_regs sv) handle kind then k dflt
      else Work marshal (\<lambda>sv1. Send kind handle (args sv1) dflt k)) (Event name handle v ss ret es) b" by simp
qed

lemma plays_unwanted:
  assumes "\<not> arpc_cb_wanted (\<lambda>_. True) (fst (snd a)) handle kind" and "plays inp outp lib base methods rq oc a (k dflt) es b"
  shows "plays inp outp lib base methods rq oc a (trampoline kind handle marshal args dflt k) es b"
  unfolding trampoline_def by (rule plays_look) (use assms in \<open>auto simp: sview_def\<close>)

section \<open>On the pipe\<close>

definition server_line :: "'w win_io \<Rightarrow> ('w \<Rightarrow> string) \<Rightarrow> ('w \<Rightarrow> string) \<Rightarrow> ('w \<Rightarrow> 'l) \<Rightarrow> bool" where
  "server_line io inp outp lib \<longleftrightarrow>
     write_ok io True outp (\<lambda>w. (inp w, lib w)) \<and> read_ok io True inp (\<lambda>w. (outp w, lib w)) \<and>
     (\<forall>w n. inp w = [] \<longrightarrow> (\<exists>w'. read_some io True w n = ([], w') \<and> inp w' = [] \<and> outp w' = outp w \<and> lib w' = lib w))"

text \<open>Following the keyring asks gpgme, which knows of neither the pipe nor the rest.\<close>

definition apart :: "('w \<Rightarrow> string) \<Rightarrow> ('w \<Rightarrow> string) \<Rightarrow> ('w \<Rightarrow> 'l) \<Rightarrow> 'w \<Rightarrow> 'w \<Rightarrow> bool" where
  "apart inp outp lib w w' \<longleftrightarrow> pipe_alone inp outp w w' \<and> lib w' = lib w"

definition at_pipe ::
    "('w \<Rightarrow> string) \<Rightarrow> ('w \<Rightarrow> string) \<Rightarrow> ('w \<Rightarrow> 'l) \<Rightarrow> int \<Rightarrow> 'l sstate \<Rightarrow> string \<Rightarrow> string \<Rightarrow> 'w server \<Rightarrow> bool" where
  "at_pipe inp outp lib q a todo sent sv \<longleftrightarrow> sv_conn sv \<and> hinv (sv_tab sv) \<and> sv_seq sv = q \<and> sview lib sv = a \<and>
     inp (sv_ext sv) = todo \<and> outp (sv_ext sv) = sent"

lemma pipe_send:
  assumes "server_line io inp outp lib" and "at_pipe inp outp lib q a todo sent sv"
  obtains sv' where "send_framed io sv b = (True, sv')" and "at_pipe inp outp lib q a todo (sent @ sent_text b) sv'"
  using send_frame_text [of io True outp "\<lambda>w. (inp w, lib w)" "sv_ext sv" b] assms
  by (auto simp: server_line_def at_pipe_def send_framed_def sview_def)

lemma pipe_recv:
  assumes "server_line io inp outp lib" and "sendable v" and "at_pipe inp outp lib q a (sent_text (json_text v) @ todo) sent sv"
  obtains sv' where "recv_framed (\<lambda>_. True) io sv = (Some (json_text v), sv')" and "at_pipe inp outp lib q a todo sent sv'"
  using recv_frame_ok [of io True inp "\<lambda>w. (outp w, lib w)" "json_text v" "\<lambda>_. True" "sv_ext sv" todo] assms
  by (auto simp: server_line_def at_pipe_def recv_framed_def sview_def sendable_sent sendable_def [of v])

lemma pipe_end:
  assumes "server_line io inp outp lib" and "at_pipe inp outp lib q a [] sent sv"
  obtains sv' where "recv_framed (\<lambda>_. True) io sv = (None, sv')" and "at_pipe inp outp lib q a [] sent sv'"
proof -
  obtain w' where "read_some io True (sv_ext sv) 4 = ([], w')" "inp w' = []" "outp w' = outp (sv_ext sv)" "lib w' = lib (sv_ext sv)"
    using assms by (auto simp: server_line_def at_pipe_def)
  with assms(2) show thesis
    by (intro that [of "sv\<lparr>sv_ext := w'\<rparr>"]) (auto simp: recv_framed_def arpc_recv_frame_def read_exact.simps at_pipe_def sview_def)
qed

text \<open>One request is served once its method's program has been played.\<close>

lemma request_played:
  fixes base :: "('w, 'e) server_env"
  assumes line: "server_line io inp outp lib" and gpg: "gpg_keeps (apart inp outp lib) (e_gpg base)" and sorted: "table_sorted methods"
    and m: "cstr meth \<noteq> ''arpc.shutdown''" and i: "i64_range i"
    and ok: "sendable (request_json i meth ops)"
    and prog: "\<And>rq. req_args rq (map put_value ops) \<Longrightarrow> \<not> rq_bad rq \<Longrightarrow>
      \<exists>prog. program base methods (cstr meth) rq = Some prog \<and>
        (\<forall>sv. at_pipe inp outp lib q a todo sent sv \<longrightarrow>
          ends_with (run_handler exch (e_kinds base) prog rq arpc_res_zero sv) (\<lambda>oc' sv'. oc' = oc \<and> at_pipe inp outp lib q1 a1 todo1 sent1 sv'))"
    and sv: "at_pipe inp outp lib q a (sent_text (json_text (request_json i meth ops)) @ todo) sent sv"
  obtains sv' where "exchange_loop (\<lambda>_. True) io (with_methods base methods exch) sv = exchange_loop (\<lambda>_. True) io (with_methods base methods exch) sv'"
    and "serve_loop (\<lambda>_. True) io (with_methods base methods exch) sv = serve_loop (\<lambda>_. True) io (with_methods base methods exch) sv'"
    and "at_pipe inp outp lib q1 a1 todo1 (sent1 @ sent_text (reply_text i oc)) sv'"
proof -
  have mem: "\<forall>n. (\<lambda>_ :: nat. True) n" by simp
  let ?env = "with_methods base methods exch"
  obtain sv1 where r: "recv_framed (\<lambda>_. True) io sv = (Some (json_text (request_json i meth ops)), sv1)" "at_pipe inp outp lib q a todo sent sv1"
    using pipe_recv [OF line ok sv] by blast
  obtain d where d: "aj_parse (\<lambda>_. True) (json_text (request_json i meth ops)) = Some d" "doc_ok d"
      "aj_i64 d (aj_member d 0 ''id'') 0 = i" "aj_str d (aj_member d 0 ''method'') None = Some (cstr meth)"
      "req_args \<lparr>rq_doc = d, rq_params = aj_member d 0 ''params'', rq_bad = False\<rparr> (map put_value ops)"
    using request_read [of i meth ops "\<lambda>_. True"] ok unfolding sendable_def by blast
  let ?rq = "\<lparr>rq_doc = d, rq_params = aj_member d 0 ''params'', rq_bad = False\<rparr>"
  obtain prog where p: "program base methods (cstr meth) ?rq = Some prog"
      "\<forall>sv. at_pipe inp outp lib q a todo sent sv \<longrightarrow>
        ends_with (run_handler exch (e_kinds base) prog ?rq arpc_res_zero sv) (\<lambda>oc' sv'. oc' = oc \<and> at_pipe inp outp lib q1 a1 todo1 sent1 sv')"
    using prog [OF d(5)] by auto
  obtain fn where fn: "find_method (\<lambda>_. True) ?env (cstr meth) = Some fn" "fn ?rq = run_handler exch (e_kinds base) prog ?rq"
    by (rule program_found [OF sorted p(1)])
  have "at_pipe inp outp lib q a todo sent (follow_gpg (\<lambda>_. True) ?env sv1 h)" for h
    using r(2) follow_keeps [OF gpg, where alloc = "\<lambda>_. True" and st = "sv_gpg sv1" and w = "sv_ext sv1" and h = h]
    by (auto simp: at_pipe_def sview_def follow_gpg_def apart_def pipe_alone_def case_prod_beta)
  then have e: "ends_with (fn ?rq arpc_res_zero (follow_gpg (\<lambda>_. True) ?env sv1 h)) (\<lambda>oc' sv'. oc' = oc \<and> at_pipe inp outp lib q1 a1 todo1 sent1 sv')" for h
    using p(2) fn(2) by simp
  have inv: "hinv (sv_tab sv1)" using r(2) by (simp add: at_pipe_def)
  from run_method_ends [where alloc = "\<lambda>_. True" and fn = fn and env = ?env and rq = ?rq and Q = "\<lambda>h oc' sv'. oc' = oc \<and> at_pipe inp outp lib q1 a1 todo1 sent1 sv'", OF inv mem i e]
  obtain sv2 where h: "run_method (\<lambda>_. True) ?env i ?rq fn sv1 = Some (Some (reply_text i oc), sv2)" "at_pipe inp outp lib q1 a1 todo1 sent1 sv2"
    by auto
  have parsed: "arpc_handle_parsed (\<lambda>_. True) ?env d sv1 = Some (Some (reply_text i oc), sv2)"
    using d m fn(1) h(1) by (simp add: arpc_handle_parsed_def)
  obtain sv3 where s: "send_framed io sv2 (reply_text i oc) = (True, sv3)" "at_pipe inp outp lib q1 a1 todo1 (sent1 @ sent_text (reply_text i oc)) sv3"
    using pipe_send [OF line h(2)] by blast
  have meth: "\<not> aj_member d 0 ''method'' < 0"
    using d(4) by (auto simp: aj_str_def aj_at_def split: if_splits)
  note c = sendable_cstr [OF ok]
  show thesis
  proof (rule that [OF _ _ s(2)])
    show "exchange_loop (\<lambda>_. True) io ?env sv = exchange_loop (\<lambda>_. True) io ?env sv3"
      using r(1) c d(1) meth parsed s(1) by (subst exchange_loop.simps) simp
    show "serve_loop (\<lambda>_. True) io ?env sv = serve_loop (\<lambda>_. True) io ?env sv3"
      using r(1) c d(1) parsed s(1) by (subst serve_loop.simps) (simp add: arpc_handle_frame_def)
  qed
qed

text \<open>A callback is sent and its answer read, once the requests before the answer have been served.\<close>

lemma callback_sent:
  assumes line: "server_line io inp outp lib" and args: "args_value args v" and q: "i64_range q"
    and ok: "sendable (cb_json (fst (kinds ! kind)) q handle v)" "i64_range ret"
    and sv: "at_pipe inp outp lib q a todo sent sv"
    and wait: "\<And>sv1. at_pipe inp outp lib (q + 1) a todo (sent @ sent_text (json_text (cb_json (fst (kinds ! kind)) q handle v))) sv1 \<Longrightarrow>
      \<exists>sv2. exchange_loop (\<lambda>_. True) io env sv1 = exchange_loop (\<lambda>_. True) io env sv2 \<and>
        at_pipe inp outp lib q2 a2 (sent_text (json_text (answer_json q ret)) @ todo2) sent2 sv2"
  obtains sv' where "arpc_cb_send (\<lambda>_. True) kinds (arpc_conn_exchange (\<lambda>_. True) io env) kind handle args dflt sv = Some (ret, sv')"
    and "at_pipe inp outp lib q2 a2 todo2 sent2 sv'"
proof -
  have mem: "\<forall>n. (\<lambda>_ :: nat. True) n" by simp
  let ?msg = "json_text (cb_json (fst (kinds ! kind)) q handle v)"
  have sq: "sv_seq sv = q" "sv_conn sv" using sv by (simp_all add: at_pipe_def)
  have "at_pipe inp outp lib (q + 1) a todo sent (sv\<lparr>sv_seq := q + 1\<rparr>)" using sv by (simp add: at_pipe_def sview_def)
  then obtain sv1 where s: "send_framed io (sv\<lparr>sv_seq := q + 1\<rparr>) ?msg = (True, sv1)" "at_pipe inp outp lib (q + 1) a todo (sent @ sent_text ?msg) sv1"
    using pipe_send [OF line] by blast
  obtain sv2 where w: "exchange_loop (\<lambda>_. True) io env sv1 = exchange_loop (\<lambda>_. True) io env sv2"
      "at_pipe inp outp lib q2 a2 (sent_text (json_text (answer_json q ret)) @ todo2) sent2 sv2" using wait [OF s(2)] by blast
  note as = answer_sendable [OF q ok(2)]
  obtain sv3 where r: "recv_framed (\<lambda>_. True) io sv2 = (Some (json_text (answer_json q ret)), sv3)" "at_pipe inp outp lib q2 a2 todo2 sent2 sv3"
    using pipe_recv [OF line as w(2)] by blast
  have "\<not> is_request (json_text (answer_json q ret))"
    using request_object [of "[(''cbseq'', JNum q), (ARPC_RET_KEY, JNum ret)]"] as
    by (simp add: sendable_def answer_json_def ARPC_RET_KEY_def del: json_text.simps)
  then have "exchange_loop (\<lambda>_. True) io env sv2 = Some (Some (json_text (answer_json q ret)), sv3)"
    using r(1) by (subst exchange_loop.simps) (auto simp: is_request_def split: option.splits)
  then have ex: "arpc_conn_exchange (\<lambda>_. True) io env (sv\<lparr>sv_seq := q + 1\<rparr>) ?msg = Some (Some (json_text (answer_json q ret)), sv3)"
    using s(1) w(1) sq by (simp add: arpc_conn_exchange_def)
  note ex' = ex [unfolded sq(1) [symmetric]]
  have a: "cb_answer (\<lambda>_. True) q dflt (json_text (answer_json q ret)) = ret"
    using cb_answer_value [OF answer_wire [OF q ok(2), unfolded answer_json_def], of "\<lambda>_. True" q dflt]
    by (simp add: answer_json_def num_or_def ARPC_RET_KEY_def del: json_text.simps)
  have "arpc_cb_send (\<lambda>_. True) kinds (arpc_conn_exchange (\<lambda>_. True) io env) kind handle args dflt sv = Some (ret, sv3)"
    using cb_send_exact [where alloc = "\<lambda>_. True" and kinds = kinds and kind = kind and handle = handle and dflt = dflt
        and exch = "arpc_conn_exchange (\<lambda>_. True) io env", OF sq(2) args _ mem _ ex'] sq(1) q sendable_room [OF ok(1)] a by simp
  with r(2) that show thesis by blast
qed

section \<open>A server has its session\<close>

text \<open>
  Run on the pipe, from any numbers and any place in the two streams, both loops serve the session
  \<open>ss\<close> and go on; a method's program sends the callbacks \<open>es\<close> and ends with its outcome.
\<close>

definition serves_session ::
    "'w win_io \<Rightarrow> ('w \<Rightarrow> string) \<Rightarrow> ('w \<Rightarrow> string) \<Rightarrow> ('w \<Rightarrow> 'l) \<Rightarrow> ('w, 'e) server_env \<Rightarrow> (string \<times> (arpc_req \<Rightarrow> 'w handler)) list \<Rightarrow>
     'l sstate \<Rightarrow> session \<Rightarrow> 'l sstate \<Rightarrow> bool" where
  "serves_session io inp outp lib base methods a ss b \<longleftrightarrow>
     (\<forall>n i q todo sent sv. session_depth ss \<le> n \<longrightarrow> session_ok i q ss \<longrightarrow>
        at_pipe inp outp lib q a (ups (session_lines i q ss) @ todo) sent sv \<longrightarrow>
        (\<exists>sv'. exchange_loop (\<lambda>_. True) io (env_of n io base methods) sv = exchange_loop (\<lambda>_. True) io (env_of n io base methods) sv' \<and>
          serve_loop (\<lambda>_. True) io (env_of n io base methods) sv = serve_loop (\<lambda>_. True) io (env_of n io base methods) sv' \<and>
          at_pipe inp outp lib (q + session_cbs ss) b todo (sent @ downs (session_lines i q ss)) sv'))"

definition plays_events ::
    "'w win_io \<Rightarrow> ('w \<Rightarrow> string) \<Rightarrow> ('w \<Rightarrow> string) \<Rightarrow> ('w \<Rightarrow> 'l) \<Rightarrow> ('w, 'e) server_env \<Rightarrow> (string \<times> (arpc_req \<Rightarrow> 'w handler)) list \<Rightarrow>
     arpc_req \<Rightarrow> outcome \<Rightarrow> 'l sstate \<Rightarrow> 'w handler \<Rightarrow> events \<Rightarrow> 'l sstate \<Rightarrow> bool" where
  "plays_events io inp outp lib base methods rq oc a prog es b \<longleftrightarrow>
     (\<forall>n i q todo sent sv. events_depth es \<le> n \<longrightarrow> events_ok i q es \<longrightarrow>
        at_pipe inp outp lib q a (ups (events_lines i q es) @ todo) sent sv \<longrightarrow>
        ends_with (run_handler (exch_of n io base methods) (e_kinds base) prog rq arpc_res_zero sv)
          (\<lambda>oc' sv'. oc' = oc \<and> at_pipe inp outp lib (q + events_cbs es) b todo (sent @ downs (events_lines i q es)) sv'))"

lemma serves_sessionD:
  assumes "serves_session io inp outp lib base methods a ss b" and "session_depth ss \<le> n" and "session_ok i q ss"
    and "at_pipe inp outp lib q a (ups (session_lines i q ss) @ todo) sent sv"
  shows "\<exists>sv'. exchange_loop (\<lambda>_. True) io (env_of n io base methods) sv = exchange_loop (\<lambda>_. True) io (env_of n io base methods) sv' \<and>
    serve_loop (\<lambda>_. True) io (env_of n io base methods) sv = serve_loop (\<lambda>_. True) io (env_of n io base methods) sv' \<and>
    at_pipe inp outp lib (q + session_cbs ss) b todo (sent @ downs (session_lines i q ss)) sv'"
  using assms unfolding serves_session_def by blast

lemma plays_eventsD:
  assumes "plays_events io inp outp lib base methods rq oc a prog es b" and "events_depth es \<le> n" and "events_ok i q es"
    and "at_pipe inp outp lib q a (ups (events_lines i q es) @ todo) sent sv"
  shows "ends_with (run_handler (exch_of n io base methods) (e_kinds base) prog rq arpc_res_zero sv)
    (\<lambda>oc' sv'. oc' = oc \<and> at_pipe inp outp lib (q + events_cbs es) b todo (sent @ downs (events_lines i q es)) sv')"
  using assms unfolding plays_events_def by blast

lemma at_pipe_view: "at_pipe inp outp lib q a todo sent sv \<Longrightarrow> hinv (sv_tab sv)" "at_pipe inp outp lib q a todo sent sv \<Longrightarrow> sview lib sv = a"
  by (simp_all add: at_pipe_def)

lemma at_pipe_off:
  assumes "at_pipe inp outp lib q a todo sent sv" and "off_pipe inp outp sv sv'" and "hinv (sv_tab sv')" and "sview lib sv' = b"
  shows "at_pipe inp outp lib q b todo sent sv'"
  using assms by (auto simp: at_pipe_def off_pipe_def pipe_alone_def)

lemma serves_session_Request:
  fixes base :: "('w, 'e) server_env"
  assumes line: "server_line io inp outp lib" and gpg: "gpg_keeps (apart inp outp lib) (e_gpg base)" and sorted: "table_sorted methods"
    and m: "cstr m \<noteq> ''arpc.shutdown''"
    and prog: "\<And>rq. req_args rq (map put_value ops) \<Longrightarrow> \<not> rq_bad rq \<Longrightarrow>
      \<exists>prog. program base methods (cstr m) rq = Some prog \<and> plays_events io inp outp lib base methods rq oc a prog es a1"
    and rest: "serves_session io inp outp lib base methods a1 ss b"
  shows "serves_session io inp outp lib base methods a (Request m ops es oc ss) b"
  unfolding serves_session_def
proof (intro allI impI)
  fix n i q todo sent sv
  let ?r = "Request m ops es oc ss" and ?i = "i + 1 + events_calls es" and ?q = "q + events_cbs es"
  assume d: "session_depth ?r \<le> n" and ok: "session_ok i q ?r" and sv: "at_pipe inp outp lib q a (ups (session_lines i q ?r) @ todo) sent sv"
  let ?ss = "session_lines ?i ?q ss"
  have sv': "at_pipe inp outp lib q a (sent_text (json_text (request_json i m ops)) @ ups (events_lines (i + 1) q es) @ ups ?ss @ todo) sent sv"
    using sv by simp
  have o: "i64_range i" "sendable (request_json i m ops)" "events_depth es \<le> n" "events_ok (i + 1) q es" "session_depth ss \<le> n" "session_ok ?i ?q ss"
    using ok d by auto
  have played: "\<exists>prog. program base methods (cstr m) rq = Some prog \<and>
      (\<forall>sv. at_pipe inp outp lib q a (ups (events_lines (i + 1) q es) @ ups ?ss @ todo) sent sv \<longrightarrow>
        ends_with (run_handler (exch_of n io base methods) (e_kinds base) prog rq arpc_res_zero sv) (\<lambda>oc' sv'. oc' = oc \<and>
          at_pipe inp outp lib ?q a1 (ups ?ss @ todo) (sent @ downs (events_lines (i + 1) q es)) sv'))"
    if r: "req_args rq (map put_value ops)" "\<not> rq_bad rq" for rq
    using prog [OF r] plays_eventsD [OF _ o(3,4)] by blast
  obtain sv1 where e: "exchange_loop (\<lambda>_. True) io (env_of n io base methods) sv = exchange_loop (\<lambda>_. True) io (env_of n io base methods) sv1"
      "serve_loop (\<lambda>_. True) io (env_of n io base methods) sv = serve_loop (\<lambda>_. True) io (env_of n io base methods) sv1"
      "at_pipe inp outp lib ?q a1 (ups ?ss @ todo) ((sent @ downs (events_lines (i + 1) q es)) @ sent_text (reply_text i oc)) sv1"
    using request_played [OF line gpg sorted m o(1,2) played sv', folded env_of_def] by blast
  from serves_sessionD [OF rest o(5,6) e(3)] e(1,2)
  show "\<exists>sv'. exchange_loop (\<lambda>_. True) io (env_of n io base methods) sv = exchange_loop (\<lambda>_. True) io (env_of n io base methods) sv' \<and>
      serve_loop (\<lambda>_. True) io (env_of n io base methods) sv = serve_loop (\<lambda>_. True) io (env_of n io base methods) sv' \<and>
      at_pipe inp outp lib (q + session_cbs ?r) b todo (sent @ downs (session_lines i q ?r)) sv'"
    by (auto simp: reply_text_def algebra_simps)
qed

lemma plays_events_Finish:
  assumes "\<And>sv. hinv (sv_tab sv) \<Longrightarrow> sview lib sv = a \<Longrightarrow>
      ends_with (fn rq arpc_res_zero sv) (\<lambda>oc' sv'. oc' = oc \<and> sview lib sv' = b \<and> off_pipe inp outp sv sv')"
  shows "plays_events io inp outp lib base methods rq oc a (Finish fn) Replied b"
  unfolding plays_events_def
proof (intro allI impI)
  fix n i q todo sent sv
  assume "at_pipe inp outp lib q a (ups (events_lines i q Replied) @ todo) sent sv"
  then have sv: "at_pipe inp outp lib q a todo sent sv" by simp
  obtain rc rq' rs sv' where r: "fn rq arpc_res_zero sv = Some (rc, rq', rs, sv')" "hinv (sv_tab sv')" "res_ready rs oc" "sview lib sv' = b"
      "off_pipe inp outp sv sv'"
    using assms [OF at_pipe_view [OF sv]] by (auto simp: ends_with_def)
  from ends_withI [OF r(3,2), where Q = "\<lambda>oc' sv'. oc' = oc \<and> at_pipe inp outp lib q b todo sent sv'"] at_pipe_off [OF sv r(5,2,4)] r(1)
  show "ends_with (run_handler (exch_of n io base methods) (e_kinds base) (Finish fn) rq arpc_res_zero sv)
      (\<lambda>oc' sv'. oc' = oc \<and> at_pipe inp outp lib (q + events_cbs Replied) b todo (sent @ downs (events_lines i q Replied)) sv')"
    by simp
qed

lemma plays_events_Work:
  assumes "\<And>sv. hinv (sv_tab sv) \<Longrightarrow> sview lib sv = a \<Longrightarrow> \<exists>sv1. f sv = Some sv1 \<and> hinv (sv_tab sv1) \<and> sview lib sv1 = a1 \<and>
      off_pipe inp outp sv sv1 \<and> plays_events io inp outp lib base methods rq oc a1 (k sv1) es b"
  shows "plays_events io inp outp lib base methods rq oc a (Work f k) es b"
  unfolding plays_events_def
proof (intro allI impI)
  fix n i q todo sent sv
  assume d: "events_depth es \<le> n" "events_ok i q es" and sv: "at_pipe inp outp lib q a (ups (events_lines i q es) @ todo) sent sv"
  obtain sv1 where f: "f sv = Some sv1" "hinv (sv_tab sv1)" "sview lib sv1 = a1" "off_pipe inp outp sv sv1"
      "plays_events io inp outp lib base methods rq oc a1 (k sv1) es b"
    using assms [OF at_pipe_view [OF sv]] by blast
  from plays_eventsD [OF f(5) d at_pipe_off [OF sv f(4,2,3)]] f(1)
  show "ends_with (run_handler (exch_of n io base methods) (e_kinds base) (Work f k) rq arpc_res_zero sv)
      (\<lambda>oc' sv'. oc' = oc \<and> at_pipe inp outp lib (q + events_cbs es) b todo (sent @ downs (events_lines i q es)) sv')" by simp
qed

lemma plays_events_Send:
  assumes line: "server_line io inp outp lib" and name: "fst (e_kinds base ! kind) = name" and args: "args_value args v"
    and ss: "serves_session io inp outp lib base methods a ss a1"
    and k: "plays_events io inp outp lib base methods rq oc a1 (k ret) es b"
  shows "plays_events io inp outp lib base methods rq oc a (Send kind handle args dflt k) (Event name handle v ss ret es) b"
  unfolding plays_events_def
proof (intro allI impI)
  fix n i q todo sent sv
  let ?e = "Event name handle v ss ret es" and ?i = "i + session_calls ss" and ?q = "q + 1 + session_cbs ss"
  assume d: "events_depth ?e \<le> n" and ok: "events_ok i q ?e" and sv: "at_pipe inp outp lib q a (ups (events_lines i q ?e) @ todo) sent sv"
  from d obtain j where j: "n = Suc j" "session_depth ss \<le> j" by (cases n) auto
  let ?todo = "ups (events_lines ?i ?q es) @ todo"
  let ?cb = "json_text (cb_json (fst (e_kinds base ! kind)) q handle v)" and ?ans = "sent_text (json_text (answer_json q ret))"
  have sv': "at_pipe inp outp lib q a (ups (session_lines i (q + 1) ss) @ ?ans @ ?todo) sent sv" using sv by simp
  have o: "i64_range q" "sendable (cb_json (fst (e_kinds base ! kind)) q handle v)" "i64_range ret" "session_ok i (q + 1) ss"
      "events_depth es \<le> n" "events_ok ?i ?q es" using ok d name by auto
  have wait: "\<exists>sv2. exchange_loop (\<lambda>_. True) io (env_of j io base methods) sv1 = exchange_loop (\<lambda>_. True) io (env_of j io base methods) sv2 \<and>
      at_pipe inp outp lib ?q a1 (?ans @ ?todo) ((sent @ sent_text ?cb) @ downs (session_lines i (q + 1) ss)) sv2"
    if "at_pipe inp outp lib (q + 1) a (ups (session_lines i (q + 1) ss) @ ?ans @ ?todo) (sent @ sent_text ?cb) sv1" for sv1
    using serves_sessionD [OF ss j(2) o(4) that] by blast
  have exch: "exch_of n io base methods = arpc_conn_exchange (\<lambda>_. True) io (env_of j io base methods)" by (simp add: j(1) env_of_def)
  obtain sv1 where c: "arpc_cb_send (\<lambda>_. True) (e_kinds base) (exch_of n io base methods) kind handle args dflt sv = Some (ret, sv1)"
      "at_pipe inp outp lib ?q a1 ?todo ((sent @ sent_text ?cb) @ downs (session_lines i (q + 1) ss)) sv1"
    unfolding exch using callback_sent [OF line args o(1-3) sv' wait] by blast
  from plays_eventsD [OF k o(5,6) c(2)] c(1) name
  show "ends_with (run_handler (exch_of n io base methods) (e_kinds base) (Send kind handle args dflt k) rq arpc_res_zero sv)
      (\<lambda>oc' sv'. oc' = oc \<and> at_pipe inp outp lib (q + events_cbs ?e) b todo (sent @ downs (events_lines i q ?e)) sv')"
    by (simp add: algebra_simps)
qed

lemma serves_plays_run:
  fixes base :: "('w, 'e) server_env"
  assumes line: "server_line io inp outp lib" and gpg: "gpg_keeps (apart inp outp lib) (e_gpg base)" and sorted: "table_sorted methods"
  shows "serves inp outp lib base methods a ss b \<Longrightarrow> serves_session io inp outp lib base methods a ss b"
    and "plays inp outp lib base methods rq oc a prog es b \<Longrightarrow> plays_events io inp outp lib base methods rq oc a prog es b"
proof (induction rule: serves_plays.inducts)
  case (serves_Over a)
  then show ?case by (auto simp: serves_session_def)
next
  case (serves_Request m ops oc a es a1 ss b)
  show ?case
    by (rule serves_session_Request [OF line gpg sorted serves_Request(1) _ serves_Request(4)]) (use serves_Request(2) in blast)
next
  case (plays_Finish a fn rq oc b)
  then show ?case by (simp add: plays_events_Finish)
next
  case (plays_Work a f a1 rq oc k es b)
  show ?case by (rule plays_events_Work [where ?a1.0 = a1]) (use plays_Work in blast)
next
  case (plays_Send kind name args v a ss a1 rq oc k ret es b handle dflt)
  show ?case by (rule plays_events_Send [OF line]) (fact plays_Send)+
qed

text \<open>The whole connection: the client leaves when the session is over.\<close>

lemma connection_served:
  fixes base :: "('w, 'e) server_env"
  assumes line: "server_line io inp outp lib" and gpg: "gpg_keeps (apart inp outp lib) (e_gpg base)" and sorted: "table_sorted methods"
    and s: "serves inp outp lib base methods (sview lib (sv\<lparr>sv_win32 := False\<rparr>)) ss b" "session_depth ss \<le> n" "session_ok i (sv_seq sv) ss"
    and sv: "hinv (sv_tab sv)" "inp (sv_ext sv) = ups (session_lines i (sv_seq sv) ss)"
  shows "\<exists>sv'. serve_connection (\<lambda>_. True) io (env_of n io base methods) sv = Some sv' \<and> sview lib sv' = b \<and>
    sv_seq sv' = sv_seq sv + session_cbs ss \<and> outp (sv_ext sv') = outp (sv_ext sv) @ downs (session_lines i (sv_seq sv) ss)"
proof -
  let ?sv = "sv\<lparr>sv_conn := True, sv_win32 := False\<rparr>"
  have "at_pipe inp outp lib (sv_seq sv) (sview lib (sv\<lparr>sv_win32 := False\<rparr>)) (ups (session_lines i (sv_seq sv) ss) @ []) (outp (sv_ext sv)) ?sv"
    using sv by (simp add: at_pipe_def sview_def)
  from serves_sessionD [OF serves_plays_run(1) [OF line gpg sorted s(1)] s(2,3) this]
  obtain sv1 where e: "serve_loop (\<lambda>_. True) io (env_of n io base methods) ?sv = serve_loop (\<lambda>_. True) io (env_of n io base methods) sv1"
      "at_pipe inp outp lib (sv_seq sv + session_cbs ss) b [] (outp (sv_ext sv) @ downs (session_lines i (sv_seq sv) ss)) sv1" by blast
  obtain sv2 where r: "recv_framed (\<lambda>_. True) io sv1 = (None, sv2)"
      "at_pipe inp outp lib (sv_seq sv + session_cbs ss) b [] (outp (sv_ext sv) @ downs (session_lines i (sv_seq sv) ss)) sv2"
    using pipe_end [OF line e(2)] by blast
  have "serve_loop (\<lambda>_. True) io (env_of n io base methods) sv1 = Some sv2" using r(1) by (subst serve_loop.simps) simp
  with e(1) r(2) show ?thesis by (auto simp: serve_connection_def at_pipe_def sview_def)
qed

end
