(* ===== verification/Registration.thy ===== *)
theory Registration
  imports Round_Trip Result_Ops
begin

text \<open>
  Registering a callback, from both ends: the client keeps the caller's function and its context, the
  server which callbacks to send, and the two agree.
\<close>

section \<open>The client's registry\<close>

text \<open>Every registration has room for all the slots, as \<open>reg_for_c\<close> makes them.\<close>

definition cregs_ok :: "creg list \<Rightarrow> bool" where
  "cregs_ok regs \<longleftrightarrow> (\<forall>r \<in> set regs. length (c_fn r) = ARPC_CB_SLOTS \<and> length (c_ctx r) = ARPC_CB_SLOTS)"

definition slots_of :: "creg list \<Rightarrow> 64 word \<Rightarrow> creg option" where
  "slots_of regs handle = find (\<lambda>r. c_handle r = handle) regs"

lemma reg_at_c_find:
  "case reg_at_c i regs handle of
     None \<Rightarrow> slots_of regs handle = None
   | Some j \<Rightarrow> i \<le> j \<and> j - i < length regs \<and> c_handle (regs ! (j - i)) = handle \<and> slots_of regs handle = Some (regs ! (j - i))"
proof (induction regs arbitrary: i)
  case (Cons r regs)
  from Cons.IH [of "Suc i"] show ?case by (auto simp: slots_of_def nth_Cons' split: option.splits)
qed (simp add: slots_of_def)

lemma cb_fn_slots:
  "arpc_cb_fn alloc regs handle kind = (case slots_of regs handle of None \<Rightarrow> 0 | Some r \<Rightarrow> if slot_ok kind then c_fn r ! nat kind else 0)"
  "arpc_cb_ctx alloc regs handle kind = (case slots_of regs handle of None \<Rightarrow> 0 | Some r \<Rightarrow> if slot_ok kind then c_ctx r ! nat kind else 0)"
  using reg_at_c_find [where i = 0 and regs = regs and handle = handle] by (auto simp: arpc_cb_fn_def arpc_cb_ctx_def reg_for_c_def split: option.splits)

lemma slots_upd:
  "reg_at_c i regs handle = Some j \<Longrightarrow> c_handle r = handle \<Longrightarrow>
     i \<le> j \<and> j - i < length regs \<and> slots_of (regs[j - i := r]) h = (if h = handle then Some r else slots_of regs h)"
proof (induction regs arbitrary: i)
  case (Cons a regs)
  show ?case
  proof (cases "c_handle a = handle")
    case False
    with Cons.IH [of "Suc i"] Cons.prems have "Suc i \<le> j" "j - Suc i < length regs"
        "slots_of (regs[j - Suc i := r]) h = (if h = handle then Some r else slots_of regs h)" by auto
    moreover from this have "j - i = Suc (j - Suc i)" by simp
    ultimately show ?thesis using False by (auto simp: slots_of_def)
  qed (use Cons.prems in \<open>auto simp: slots_of_def\<close>)
qed simp

text \<open>Registering changes one slot of one handle.\<close>

lemma registered_slot:
  fixes handle fn ctx :: "64 word" and kind :: nat
  assumes ok: "cregs_ok regs" and kind: "kind < ARPC_CB_SLOTS" and r: "reg_for_c (\<lambda>_. True) regs handle True = (Some i, regs1)"
  defines "regs' \<equiv> regs1[i := set_slot kind fn ctx (regs1 ! i)]"
  shows "cregs_ok regs'"
    and "arpc_cb_fn alloc regs' h (int j) = (if h = handle \<and> j = kind then fn else arpc_cb_fn alloc regs h (int j))"
    and "arpc_cb_ctx alloc regs' h (int j) = (if h = handle \<and> j = kind then ctx else arpc_cb_ctx alloc regs h (int j))"
proof -
  let ?new = "\<lparr>c_handle = handle, c_fn = replicate ARPC_CB_SLOTS 0, c_ctx = replicate ARPC_CB_SLOTS 0\<rparr>"
  have "i < length regs1 \<and> cregs_ok regs1 \<and> c_handle (regs1 ! i) = handle \<and>
      (\<forall>r. c_handle r = handle \<longrightarrow> slots_of (regs1[i := r]) h = (if h = handle then Some r else slots_of regs h)) \<and>
      (slots_of regs handle = Some (regs1 ! i) \<or> slots_of regs handle = None \<and> regs1 ! i = ?new)"
  proof (cases "reg_at_c 0 regs handle")
    case None
    with r reg_at_c_find [where i = 0 and regs = regs and handle = handle] ok show ?thesis by (auto simp: reg_for_c_def slots_of_def cregs_ok_def)
  next
    case (Some j)
    with r slots_upd [where i = 0 and regs = regs and handle = handle and j = j] reg_at_c_find [where i = 0 and regs = regs and handle = handle] ok show ?thesis by (auto simp: reg_for_c_def)
  qed
  then have i: "i < length regs1" "cregs_ok regs1" "c_handle (regs1 ! i) = handle"
      "\<And>r. c_handle r = handle \<Longrightarrow> slots_of (regs1[i := r]) h = (if h = handle then Some r else slots_of regs h)"
      "slots_of regs handle = Some (regs1 ! i) \<or> slots_of regs handle = None \<and> regs1 ! i = ?new" by blast+
  have len: "length (c_fn (regs1 ! i)) = ARPC_CB_SLOTS" "length (c_ctx (regs1 ! i)) = ARPC_CB_SLOTS"
    using i(1,2) nth_mem by (auto simp: cregs_ok_def)
  show "cregs_ok regs'"
    using i(1,2) len unfolding regs'_def cregs_ok_def by (auto simp: set_slot_def dest!: set_update_subset_insert [THEN subsetD])
  have s: "slots_of regs' h = (if h = handle then Some (set_slot kind fn ctx (regs1 ! i)) else slots_of regs h)"
    unfolding regs'_def by (rule i(4)) (simp add: set_slot_def i(3))
  show "arpc_cb_fn alloc regs' h (int j) = (if h = handle \<and> j = kind then fn else arpc_cb_fn alloc regs h (int j))"
    "arpc_cb_ctx alloc regs' h (int j) = (if h = handle \<and> j = kind then ctx else arpc_cb_ctx alloc regs h (int j))"
    using i(5) len kind unfolding cb_fn_slots s by (auto simp: set_slot_def slot_ok_def nth_list_update)
qed

section \<open>The two registries\<close>

text \<open>The server sends exactly the callbacks the client has a function for.\<close>

definition in_step :: "creg list \<Rightarrow> cbreg list \<Rightarrow> bool" where
  "in_step cregs sregs \<longleftrightarrow>
     (\<forall>handle kind. kind < ARPC_CB_SLOTS \<longrightarrow>
        (arpc_cb_wanted (\<lambda>_. True) sregs handle kind \<longleftrightarrow> arpc_cb_fn (\<lambda>_. True) cregs handle (int kind) \<noteq> 0))"

definition register_ops :: "64 word \<Rightarrow> string \<Rightarrow> bool \<Rightarrow> put_op list" where
  "register_ops handle wire on = [Put_Handle handle, Put_Str (Some wire), Put_I64 (of_bool on)]"

lemma register_request:
  assumes "i64_range rid" and "is_cstr wire" and "length wire \<le> 1000"
  shows "readable (request_json rid ''arpc.set_callback'' (register_ops handle wire on))"
    and "length (json_text (request_json rid ''arpc.set_callback'' (register_ops handle wire on))) + 32 \<le> 2 ^ 63"
proof -
  have h: "length (int_text (sint handle)) \<le> 21" "json_ok (JNum (sint handle))"
    using rev_digits_short [OF sint_range, of handle] sint_range [of handle] by (simp_all add: i64_range_def)
  have w: "length (str_text wire) \<le> 6002" using str_text_le [of wire] assms(3) by simp
  have b: "length (int_text (of_bool on)) \<le> 21" by (rule rev_digits_short) (simp add: i64_range_def LLONG_MAX_def)
  show "readable (request_json rid ''arpc.set_callback'' (register_ops handle wire on))"
    "length (json_text (request_json rid ''arpc.set_callback'' (register_ops handle wire on))) + 32 \<le> 2 ^ 63"
    by (intro readable_request [OF assms(1)];
        use h w b assms(2) in \<open>simp add: register_ops_def str_value_def AJ_MAX_DEPTH_def cstr_of_cstr LLONG_MAX_def\<close>)+
qed

text \<open>The server's end.\<close>

lemma registration_served:
  assumes inv: "hinv (sv_tab sv)" and regs: "regs_ok (sv_regs sv)" and rid: "i64_range rid"
    and kinds: "distinct (map fst (e_kinds senv))" "kinds_ok (e_kinds senv)" "k < length (e_kinds senv)" "k < ARPC_CB_SLOTS"
    and wire: "fst (e_kinds senv ! k) = wire" "is_cstr wire" "length wire \<le> 1000"
    and live: "arg_pointer (sv_tab sv) (e_handle senv) handle \<noteq> 0"
  shows "\<exists>v sv'. arpc_handle_frame (\<lambda>_. True) senv (json_text (request_json rid ''arpc.set_callback'' (register_ops handle wire on))) sv =
      Some (Some (reply_text rid (Result [(ARPC_RET_KEY, JNum v)])), sv') \<and> i64_range v \<and>
    (\<exists>w. v = fst (snd (e_kinds senv ! k) (arg_pointer (sv_tab sv) (e_handle senv) handle) (of_bool on) handle w)) \<and>
    hinv (sv_tab sv') \<and> regs_ok (sv_regs sv') \<and>
    (\<forall>h j. j < ARPC_CB_SLOTS \<longrightarrow> arpc_cb_wanted (\<lambda>_. True) (sv_regs sv') h j =
       (if h = handle \<and> j = k then on else arpc_cb_wanted (\<lambda>_. True) (sv_regs sv) h j))"
proof -
  have mem: "\<forall>n. (\<lambda>_ :: nat. True) n" by simp
  let ?req = "json_text (request_json rid ''arpc.set_callback'' (register_ops handle wire on))"
  let ?fn = "arpc_cb_set (\<lambda>_. True) (e_handle senv) (e_kinds senv)"
  obtain d where d: "aj_parse (\<lambda>_. True) ?req = Some d" "aj_i64 d (aj_member d 0 ''id'') 0 = rid"
      "aj_str d (aj_member d 0 ''method'') None = Some (cstr ''arpc.set_callback'')"
      "req_args \<lparr>rq_doc = d, rq_params = aj_member d 0 ''params'', rq_bad = False\<rparr> (map put_value (register_ops handle wire on))"
    using request_read [OF register_request(1) [OF rid wire(2,3)] mem] by blast
  let ?rq = "\<lparr>rq_doc = d, rq_params = aj_member d 0 ''params'', rq_bad = False\<rparr>"
  let ?Q = "\<lambda>oc sv'. \<exists>v. oc = Result [(ARPC_RET_KEY, JNum v)] \<and> i64_range v \<and>
    (\<exists>w. v = fst (snd (e_kinds senv ! k) (arg_pointer (sv_tab sv) (e_handle senv) handle) (of_bool on) handle w)) \<and> regs_ok (sv_regs sv') \<and>
    (\<forall>h j. j < ARPC_CB_SLOTS \<longrightarrow> arpc_cb_wanted (\<lambda>_. True) (sv_regs sv') h j =
       (if h = handle \<and> j = k then on else arpc_cb_wanted (\<lambda>_. True) (sv_regs sv) h j))"
  have args: "req_args ?rq [JNum (sint handle), JStr (fst (e_kinds senv ! k)), JNum (of_bool on)]" "\<not> rq_bad ?rq"
    using d(4) wire(1,2) by (simp_all add: register_ops_def str_value_def cstr_of_cstr)
  have bit: "signed_take_bit 31 (of_bool on :: int) = of_bool on" by (cases on) (simp_all add: signed_take_bit_def)
  have "ends_with (?fn ?rq arpc_res_zero (follow_gpg (\<lambda>_. True) senv sv h)) ?Q" for h
  proof -
    let ?sv = "follow_gpg (\<lambda>_. True) senv sv h"
    have f: "sv_tab ?sv = sv_tab sv" "sv_regs ?sv = sv_regs sv" by (simp_all add: follow_gpg_def split: prod.splits)
    obtain v sv' where s: "?fn ?rq arpc_res_zero ?sv = Some (0, ?rq, arpc_ret_i64 (\<lambda>_. True) arpc_res_zero v, sv')"
        "v = fst (snd (e_kinds senv ! k) (arg_pointer (sv_tab ?sv) (e_handle senv) (word_of_int (sint handle)))
          (signed_take_bit 31 (of_bool on)) (word_of_int (sint handle)) (sv_ext ?sv))" "regs_ok (sv_regs sv')" "sv_tab sv' = sv_tab ?sv"
        "\<forall>h j. j < 32 \<longrightarrow> arpc_cb_wanted (\<lambda>_. True) (sv_regs sv') h j =
          (if h = word_of_int (sint handle) \<and> j = k then signed_take_bit 31 (of_bool on :: int) \<noteq> 0 else arpc_cb_wanted (\<lambda>_. True) (sv_regs ?sv) h j)"
      using cb_set_exact [of ?sv "\<lambda>_. True" ?rq "sint handle" "e_kinds senv" k "of_bool on" "e_handle senv" arpc_res_zero "\<lambda>_. True"]
        inv regs f args live kinds by (auto simp: ARPC_CB_SLOTS_def)
    have v: "i64_range v" using kinds(2) nth_mem [OF kinds(3)] s(2) by (fastforce simp: kinds_ok_def)
    have "hinv (sv_tab sv')" using s(4) f inv by simp
    moreover have "?Q (Result [(ARPC_RET_KEY, JNum v)]) sv'" using s(2,3,5) v f by (auto simp: ARPC_CB_SLOTS_def bit)
    ultimately show ?thesis unfolding s(1) by (rule ends_withI [OF ready_i64 [OF v]])
  qed
  from run_method_ends [where alloc = "\<lambda>_. True" and fn = ?fn and env = senv and rq = ?rq and Q = "\<lambda>_. ?Q", OF inv mem rid this]
  obtain oc sv' where "run_method (\<lambda>_. True) senv rid ?rq ?fn sv = Some (Some (reply_text rid oc), sv')" "hinv (sv_tab sv')" "?Q oc sv'" by blast
  moreover have "find_method (\<lambda>_. True) senv (cstr ''arpc.set_callback'') = Some ?fn"
    by (simp add: find_method_def builtins_def cstr_def)
  ultimately show ?thesis using d by (auto simp: arpc_handle_frame_def arpc_handle_parsed_def cstr_def)
qed

lemma num_reply:
  assumes "i64_range rid" and "i64_range v"
  shows "readable (reply_json rid (Result [(ARPC_RET_KEY, JNum v)]))" and "frame_ok (reply_text rid (Result [(ARPC_RET_KEY, JNum v)]))"
proof -
  have l: "length (int_text rid) \<le> 21" "length (int_text v) \<le> 21" using rev_digits_short assms by simp_all
  show "readable (reply_json rid (Result [(ARPC_RET_KEY, JNum v)]))"
    by (rule readable_result [OF assms(1)])
      (use l assms(2) in \<open>simp_all add: fits_def member_text_def str_text_def esc_char_def ARPC_RET_KEY_def i64_range_def AJ_MAX_DEPTH_def\<close>)
  show "frame_ok (reply_text rid (Result [(ARPC_RET_KEY, JNum v)]))"
    using l by (simp add: frame_ok_def ARPC_MAX_FRAME_def reply_text_def str_text_def esc_char_def ARPC_RET_KEY_def)
qed

text \<open>The client's end.\<close>

lemma registration_made:
  fixes fn ctx :: "64 word"
  assumes pipe: "client_pipe env p inp outp" and cl: "cl_pipe cl = Some p" and rid: "i64_range (cl_next_id cl)"
    and ok: "cregs_ok (cl_regs cl)" and kind: "k < ARPC_CB_SLOTS" and wire: "is_cstr wire" "length wire \<le> 1000" and v: "i64_range v"
    and inp: "inp (cl_ext cl) = sent_text (reply_text (cl_next_id cl) (Result [(ARPC_RET_KEY, JNum v)])) @ rest"
  shows "\<exists>cl'. arpc_cb_register (\<lambda>_. True) env dispatch handle (int k) wire fn ctx cl = Some (signed_take_bit 31 v, cl') \<and>
    cl_pipe cl' = Some p \<and> cregs_ok (cl_regs cl') \<and> inp (cl_ext cl') = rest \<and>
    outp (cl_ext cl') = outp (cl_ext cl) @
      sent_text (json_text (request_json (cl_next_id cl) ''arpc.set_callback'' (register_ops handle wire (fn \<noteq> 0)))) \<and>
    (\<forall>h j. arpc_cb_fn alloc (cl_regs cl') h (int j) = (if h = handle \<and> j = k then fn else arpc_cb_fn alloc (cl_regs cl) h (int j)) \<and>
       arpc_cb_ctx alloc (cl_regs cl') h (int j) = (if h = handle \<and> j = k then ctx else arpc_cb_ctx alloc (cl_regs cl) h (int j)))"
proof -
  let ?oc = "Result [(ARPC_RET_KEY, JNum v)]" and ?ops = "register_ops handle wire (fn \<noteq> 0)"
  obtain i regs1 where r: "reg_for_c (\<lambda>_. True) (cl_regs cl) handle True = (Some i, regs1)"
    by (cases "reg_at_c 0 (cl_regs cl) handle") (simp_all add: reg_for_c_def)
  let ?regs = "regs1[i := set_slot k fn ctx (regs1 ! i)]"
  let ?cl = "cl\<lparr>cl_regs := ?regs\<rparr>"
  note s = registered_slot [where fn = fn and ctx = ctx, OF ok kind r]
  have reply: "readable (reply_json (cl_next_id cl) ?oc)" "frame_ok (reply_text (cl_next_id cl) ?oc)"
    using num_reply [OF rid v] by simp_all
  obtain c cl1 where b: "begin_call (\<lambda>_. True) ''arpc.set_callback'' ?cl = (c, cl1)" by fastforce
  have puts: "\<forall>op \<in> set ?ops. put_ok op" by (simp add: register_ops_def i64_range_def LLONG_MAX_def)
  obtain c' cl' where i: "arpc_invoke (\<lambda>_. True) env dispatch (fold (run_put (\<lambda>_. True)) ?ops c) cl1 = Some (True, c', cl')"
      "cl_pipe cl' = Some p" "inp (cl_ext cl') = rest"
      "outp (cl_ext cl') = outp (cl_ext cl) @ sent_text (json_text (request_json (cl_next_id cl) ''arpc.set_callback'' ?ops))"
      "result_is c' [(ARPC_RET_KEY, JNum v)]" "cl_regs cl' = ?regs"
    using call_exact [OF pipe, of ?cl ?ops "''arpc.set_callback''" ?oc rest c cl1 dispatch] cl rid puts
      register_request(2) [OF rid wire] reply inp b by auto
  have "arpc_ret_i64_c c' = v" using result_values(1) [OF i(5)] by (simp add: num_or_def)
  with i b cl kind have "arpc_cb_register (\<lambda>_. True) env dispatch handle (int k) wire fn ctx cl = Some (signed_take_bit 31 v, cl')"
    by (simp add: arpc_cb_register_def r slot_ok_def set_remote_def begin_connected register_ops_def)
  with i s show ?thesis by auto
qed

text \<open>The two ends stay in step when a callback is registered, and when a handle is forgotten.\<close>

lemma in_step_registered:
  assumes "in_step cregs sregs"
    and "\<And>h j. arpc_cb_fn (\<lambda>_. True) cregs' h (int j) = (if h = handle \<and> j = k then fn else arpc_cb_fn (\<lambda>_. True) cregs h (int j))"
    and "\<And>h j. j < ARPC_CB_SLOTS \<Longrightarrow> arpc_cb_wanted (\<lambda>_. True) sregs' h j =
       (if h = handle \<and> j = k then fn \<noteq> 0 else arpc_cb_wanted (\<lambda>_. True) sregs h j)"
  shows "in_step cregs' sregs'"
  using assms by (simp add: in_step_def)

lemma in_step_init: "in_step (cl_regs (client_init w)) (sv_regs (server_init w'))"
  by (simp add: in_step_def client_init_def server_init_def cb_fn_slots slots_of_def wanted_enabled enabled_of_def)

lemma in_step_purge:
  assumes "in_step cregs sregs"
  shows "in_step (arpc_callbacks_purge cregs handle) (arpc_cb_purge sregs handle)"
proof -
  have "slots_of (arpc_callbacks_purge cregs handle) h = (if h = handle then None else slots_of cregs h)" for h
    unfolding slots_of_def arpc_callbacks_purge_def by (induction cregs) auto
  then have "arpc_cb_fn (\<lambda>_. True) (arpc_callbacks_purge cregs handle) h j = (if h = handle then 0 else arpc_cb_fn (\<lambda>_. True) cregs h j)" for h j
    by (simp add: cb_fn_slots)
  with assms purge_wanted(1,2) show ?thesis unfolding in_step_def by metis
qed

end
