(* ===== verification/Spec2Isabelle.thy ===== *)
theory Spec2Isabelle
  imports Codec Json_Access Json_Depth Wire Handle_Ledger Invalidate Result_Ops Main_Loop Cache_Keys Round_Trip Client_Talk Server_Talk Registration
begin

text \<open>
  alpmrpc lets a native Windows program use libalpm, which only exists inside MSYS2. A client DLL
  with libalpm's interface (\<^verbatim>\<open>src/client\<close>) sends each call as a JSON frame over a named pipe to a
  server process (\<^verbatim>\<open>src/server\<close>), which runs the call against the real libalpm and sends the result
  back. Objects stay on the server; the client holds 64-bit ids of them as if they were pointers.
  While a call runs the server may call back, and a callback may make calls of its own, all over
  the same pipe. \<^verbatim>\<open>src/common\<close> is what both ends share.

  \<^bold>\<open>Conventions.\<close> Text is a \<^typ>\<open>string\<close> of bytes and a C string is read up to its NUL (\<^const>\<open>cstr\<close>).
  Ids and pointers are 64-bit words, sizes are naturals with the wrap-around of \<^verbatim>\<open>size_t\<close> written
  out where it can happen, a \<^verbatim>\<open>long long\<close> is an integer kept in range (\<^const>\<open>i64_range\<close>). State is
  passed explicitly, in records with the sources' variables as fields. Every operation that
  allocates takes \<open>alloc\<close>, which says whether a request of so many bytes is granted. What is not in
  the repository is a record of functions: Windows (\<^typ>\<open>('a, 'b, 'c) win_id\<close>, \<^typ>\<open>'w win_io\<close> and the
  records of the server's main program and of the client), libalpm and gpgme, libarchive, Cygwin's
  path conversion, uthash, and the generated tables of methods and of callback kinds. What the
  proofs rely on of them is a named hypothesis of the theorem (\<^verbatim>\<open>pipe_ok\<close>, \<^verbatim>\<open>client_pipe\<close>, \<^verbatim>\<open>duplex\<close>,
  \<^verbatim>\<open>gpgme_ok\<close>, \<^verbatim>\<open>gpg_keeps\<close>, \<^verbatim>\<open>archive_ok\<close>, \<^verbatim>\<open>methods_ok\<close>, \<^verbatim>\<open>uthash_ok\<close>, \<^verbatim>\<open>callbacks_ok\<close>), and its witness
  has an instance.

  \<^bold>\<open>The shared code.\<close>
  \<^item> \<open>Json_Reader\<close> and \<open>Json_Writer\<close> are \<^verbatim>\<open>common/arpc_json.c\<close>. \<open>Json_Doc\<close> proves what every parsed
    document satisfies, \<open>Json_Spec\<close> has the abstract values and their text, \<open>Json_Complete\<close> proves
    that the reader accepts the text of every value that fits, \<open>Json_Depth\<close> that it accepts no text
    that nests too deeply, \<open>Json_Access\<close> and \<open>Json_Emit\<close> how documents are read and written piece by piece.
  \<^item> \<open>Base64\<close> is \<^verbatim>\<open>common/arpc_b64.c\<close>. \<open>Codec\<close> states the contract of an encoding as a locale and
    interprets it on both codecs.
  \<^item> \<open>Wire\<close> is \<^verbatim>\<open>common/arpc_wire.c\<close>: the endpoint's name, the identity of a peer, frames.

  \<^bold>\<open>The server.\<close>
  \<^item> \<open>Handles\<close> is the handle table of \<^verbatim>\<open>server/arpc_server.c\<close>. \<open>Open_Addressing\<close> has linear probing as
    a locale, which \<open>Handle_Inv\<close> interprets on the two indexes of the table and builds the invariant
    of the table on; \<open>Handle_Ops\<close> describes the operations on the map from ids to objects, as a
    transition system with its reachable states, and \<open>Handle_Ledger\<close> keeps account of the adopted
    objects over the whole life of the table.
  \<^item> \<open>Request\<close>, \<open>Response\<close>, \<open>Result_Ops\<close>, \<open>Server_State\<close> and \<open>Dispatch\<close> are the rest of
    \<^verbatim>\<open>arpc_server.c\<close>: arguments, results, finding and running a method. \<open>Methods\<close> has the contract of
    a method as a locale, interpreted on the three methods these sources define.
  \<^item> \<open>Callbacks\<close>, \<open>Invalidate\<close>, \<open>Gpgdir\<close>, \<open>Paths\<close> and \<open>Mtree\<close> are the files of those names.
  \<^item> \<open>Serve\<close> and \<open>Main_Loop\<close> are \<^verbatim>\<open>server/main.c\<close>: serving a connection, the exchange around a
    callback, the accept loop, the options, \<^verbatim>\<open>--stop\<close>.

  \<^bold>\<open>The client.\<close>
  \<^item> \<open>Client_Call\<close> is the connection and the calls of \<^verbatim>\<open>client/arpc_client.c\<close>; \<open>Client_Callbacks\<close> is
    \<^verbatim>\<open>client/arpc_callbacks.c\<close>.
  \<^item> \<open>Client_Cache\<close> is the caches of \<^verbatim>\<open>arpc_client.c\<close>: borrowed strings and lists, live and detached,
    static strings, groups of packages with their columns and slots. A string is an address in a
    map from addresses to texts, so that what is shared, freed and still held is visible.
    \<open>Cache_Inv\<close> proves the invariant of that memory for every sequence of operations, \<open>Cache_Keys\<close>
    that the same question gets the same pointer and that slots and groups agree.
  \<^item> \<open>Client_Fields\<close> is where calls and caches meet, the batched package fields above all;
    \<open>Client_Local\<close> is \<^verbatim>\<open>client/arpc_local.c\<close> and \<^verbatim>\<open>client/arpc_mtree.c\<close>.
  \<^item> \<open>Client_Safe\<close> proves that every pipe the client holds has been checked. \<open>Round_Trip\<close> puts the two
    ends together: a call from the client's arguments to the client's result, the path style both
    ends agree on when they connect, and a package's listing from libarchive to libarchive. \<open>Registration\<close>
    does it for registering a callback: the two registries stay in step.

  \<^bold>\<open>Conversations.\<close> \<open>Conversation\<close> has the sessions two programs can have, calls and callbacks nested
  in each other, and their transcript, every frame with its numbers. \<open>Client_Talk\<close> and \<open>Server_Talk\<close> have
  the programs at the two ends, which stand for the generated stubs, methods and trampolines: a caller
  that makes calls between its own work, a method that works and sends callbacks. Each has two
  semantics: a relation that says which session the program has when the other end is local
  (\<^verbatim>\<open>makes\<close> and \<^verbatim>\<open>takes\<close>, \<^verbatim>\<open>serves\<close> and \<^verbatim>\<open>plays\<close>), and a run through the code's loops, frames and JSON. That
  the second has the first's session, with exactly the transcript on the pipe, is C2, which also says
  that the frames take turns. A run nests
  callbacks only to a given depth; the session's own depth is enough.

  \<^bold>\<open>The properties.\<close> C1 to C4: calls, conversations and requests from end to end. C5 to C7: the handle
  table. C8 to C12: the client's caches, batched fields and the mtree stream. C13 to C18: the wire
  and who is at its ends. C19 to C21: nesting, ending and stopping. C22 to C32: objects libalpm
  frees, single operations of the table, callbacks, keyrings and paths. C33 to C40: dispatch,
  arguments, results, endpoints, refusals and base64. Some theorems without a number state
  smaller facts on the way, or what goes wrong when memory runs out.

  \<^bold>\<open>Bounds and loops.\<close> A loop that doubles a capacity has 64 iterations, enough for any \<^verbatim>\<open>size_t\<close>, and
  the probing of an index as many as the table has places; the walks over owners are bounded as in
  the source (8 levels) and the walk over databases by the number of nodes of the request. The wait
  for a server is the source's 400 attempts. The loops that a peer controls are
  \<^verbatim>\<open>partial_function (option)\<close>: that they end is a theorem (C20 on the server; C2 for both
  ends of every conversation). Parsing recurses to the source's own depth limit. The reader's node
  count and capacity (\<^verbatim>\<open>int\<close>), its string offsets (\<^verbatim>\<open>long\<close>) and the client's count of users
  (\<^verbatim>\<open>long\<close>) are numbers without bounds here: they differ from C's only past $2^{30}$ nodes or $2^{31}$
  bytes of strings, which no frame of at most 64 MiB holds, or $2^{31}$ users.

  \<^bold>\<open>Not modelled.\<close> The generator (\<^verbatim>\<open>tools/gen\<close>, Python) and what it generates, which is not in the
  repository: the generated methods and stubs are what the tables above stand for. The vendored
  \<^verbatim>\<open>alpm_list.c\<close>, and \<^verbatim>\<open>arpc_free_list\<close>, which only calls it. Logs and traces. The client's lock, which
  a stub holds for a whole call, callbacks included, so that calls of two threads never interleave:
  the model is the sequence of calls the lock makes. The variadic shim of the log callback. The
  tests and benchmarks.
\<close>

section \<open>Sample inputs\<close>

text \<open>Concrete inputs on which the properties below are exercised.\<close>

definition sample :: json where
  "sample = JObj [(''id'', JNum (- 17)), (''params'', JArr [JStr ''a b'', JNull])]"

definition sample_win :: "32 word \<Rightarrow> (unit, unit, unit) win_id" where
  "sample_win label = \<lparr>current_process = (), open_process_token = (\<lambda>_. Some ()),
     token_user = (\<lambda>_. Some ''S-1-5-21-1''), token_label = (\<lambda>_. Some [label]),
     pipe_client_pid = (\<lambda>_. Some 1), pipe_server_pid = (\<lambda>_. Some 2), open_process = (\<lambda>_. Some ())\<rparr>"

text \<open>A pipe that moves at most three bytes at a time.\<close>

definition sample_io :: "string win_io" where
  "sample_io = \<lparr>write_sync = (\<lambda>st p. (True, length (take 3 p), st @ take 3 p)),
     read_sync = (\<lambda>st n. (True, take (min 3 n) st, drop (min 3 n) st)),
     write_start = (\<lambda>st p. (True, st)), read_start = (\<lambda>st n. (True, st)),
     write_result = (\<lambda>st. (True, 0, st)), read_result = (\<lambda>st. (True, [], st))\<rparr>"

definition sample_handler :: "'w arpc_handler" where
  "sample_handler rq rs sv = Some (0, rq, arpc_ret_i64 (\<lambda>_. True) rs 7, sv)"

definition sample_env :: "('w, unit) server_env" where
  "sample_env = \<lparr>e_handle = 1, e_pkg = 2,
     e_gpg = \<lparr>errno_ok = (\<lambda>w h. True), get_gpgdir = (\<lambda>w h. (None, w)), check_version = (\<lambda>w. w),
       set_engine_info = (\<lambda>w d. (False, w))\<rparr>,
     e_kinds = [(''log'', \<lambda>h on ctx w. (0, w)), (''question'', \<lambda>h on ctx w. (0, w))],
     e_archive = \<lparr>mtree_open = (\<lambda>w p. (None, w)), mtree_close = (\<lambda>w p. w), write_new = (\<lambda>w. (True, w)),
       write_open = (\<lambda>w. (True, w)), write_header = (\<lambda>w e. ([], True, w)), write_close = (\<lambda>w. ([], w)),
       write_free = (\<lambda>w. w)\<rparr>,
     e_methods = [(''alpm_version'', sample_handler)]\<rparr>"

definition sample_cyg :: cygwin where
  "sample_cyg = \<lparr>conv_size = (\<lambda>_ _. 0), conv_path = (\<lambda>_ _ _. None)\<rparr>"

definition sample_gpg :: "string option gpg_env" where
  "sample_gpg = \<lparr>errno_ok = (\<lambda>w h. True), get_gpgdir = (\<lambda>w h. (Some (if h = 1 then ''/etc/a'' else ''/etc/b''), w)),
     check_version = (\<lambda>w. w), set_engine_info = (\<lambda>w d. (False, d))\<rparr>"

definition sample_alpm :: "unit alpm_env" where
  "sample_alpm = \<lparr>trans_get_add = (\<lambda>w h. ([], w)), trans_get_remove = (\<lambda>w h. ([0x1000], w)),
     pkg_from_file = (\<lambda>w p. (True, w)), pkg_get_name = (\<lambda>w p. (''zlib'', w)), pkg_find = (\<lambda>w l n. (0x1000, w)),
     get_localdb = (\<lambda>w h. (0x2000, w)), db_get_pkgcache = (\<lambda>w db. ([0x1000], w)), get_syncdbs = (\<lambda>w h. ([0x1000], w)),
     alpm_errno = (\<lambda>w h. ALPM_ERR_FILE_CONFLICTS)\<rparr>"

text \<open>A pipe that moves at most two bytes at a time: what is to be read, what was written, and the transfer under way.\<close>

definition sample_pipe :: "(string \<times> string \<times> nat \<times> string) win_io" where
  "sample_pipe = \<lparr>write_sync = (\<lambda>w p. (False, 0, w)), read_sync = (\<lambda>w n. (False, [], w)),
     write_start = (\<lambda>(i, t, n, p) q. (True, i, t, n, q)), read_start = (\<lambda>(i, t, n, p) m. (True, i, t, m, p)),
     write_result = (\<lambda>(i, t, n, p). (True, length (take 2 p), i, t @ take 2 p, n, p)),
     read_result = (\<lambda>(i, t, n, p). (True, take (min 2 n) i, drop (min 2 n) i, t, n, p))\<rparr>"

definition sample_main :: "(string \<times> string \<times> nat \<times> string, unit, unit, unit) main_env" where
  "sample_main = \<lparr>m_win = sample_win 0x2000, m_io = (\<lambda>_. sample_pipe), module_file = ''C:/m/usr/bin/alpmrpcd.exe'',
     create_event = (\<lambda>w. (True, w)), sddl_valid = (\<lambda>_. True), create_pipe = (\<lambda>w n s. (Some (), w)),
     connect_pipe = (\<lambda>w p. (Connected, w)), wait_event = (\<lambda>w n. (True, w)), overlapped_result = (\<lambda>w p. (True, w)),
     cancel_io = (\<lambda>w p. w), flush_pipe = (\<lambda>w p. w), disconnect_pipe = (\<lambda>w p. w), close_pipe = (\<lambda>w p. w),
     open_pipe = (\<lambda>w n. (Not_Found, w)), open_for_wait = (\<lambda>n. None), wait_process = (\<lambda>w p n. (True, w)),
     sleep = (\<lambda>w n. w)\<rparr>"

definition sample_link :: "(string \<times> string) win_io" where
  "sample_link = \<lparr>write_sync = (\<lambda>(i, t) p. (True, length (take 2 p), i, t @ take 2 p)),
     read_sync = (\<lambda>(i, t) n. (True, take (min 2 n) i, drop (min 2 n) i, t)),
     write_start = (\<lambda>w p. (False, w)), read_start = (\<lambda>w n. (False, w)),
     write_result = (\<lambda>w. (False, 0, w)), read_result = (\<lambda>w. (False, [], w))\<rparr>"

definition sample_client :: "(string \<times> string, unit, unit, unit) client_env" where
  "sample_client = \<lparr>k_win = sample_win 0x2000, k_io = (\<lambda>_. sample_link), k_getenv = (\<lambda>_. []),
     k_module_file = ''C:/m/ucrt64/bin/a.dll'', k_file_exists = (\<lambda>_. True), k_open = (\<lambda>w n. (None, w)), k_close = (\<lambda>w p. w),
     k_create_process = (\<lambda>w c. (True, w)), k_sleep = (\<lambda>w n. w), k_last_error = (\<lambda>w. 0), k_win32_paths = True\<rparr>"

definition sample_hash :: uthash where
  "sample_hash = \<lparr>uh_find = (\<lambda>ks k. if k \<in> set ks then Some (length (takeWhile (\<lambda>l. l \<noteq> k) ks)) else None),
     uh_room = (\<lambda>_ _. True), uh_handle = 56\<rparr>"

definition sample_archive :: "'w libarchive" where
  "sample_archive = \<lparr>ar_new = (\<lambda>w. (0x1000, w)), ar_filter_all = (\<lambda>w a. w), ar_format_mtree = (\<lambda>w a. w),
     ar_open = (\<lambda>w a n b. (AR_OK, w)), ar_next_header = (\<lambda>w a. (AR_EOF, w)), ar_free = (\<lambda>w a. (AR_OK, w))\<rparr>"

text \<open>A client with a pipe, on which a reply has come.\<close>

definition sample_waiting :: "string \<Rightarrow> (string \<times> string, unit) client" where
  "sample_waiting reply = (client_init (sent_text reply, []))\<lparr>cl_pipe := Some ()\<rparr>"

text \<open>A log callback with a function for it, then the reply.\<close>

definition sample_call :: "(string \<times> string, unit) client" where
  "sample_call = (client_init (frames_text [json_text (event_json (''log'', 1, 5, JNull)), reply_text 1 (Result [(ARPC_RET_KEY, JNum 0)])], []))
     \<lparr>cl_pipe := Some (), cl_regs := [\<lparr>c_handle = 5, c_fn = [9], c_ctx = [8]\<rparr>]\<rparr>"

definition sample_logger :: "(string \<times> (string \<times> string, unit) cb_call) list" where
  "sample_logger = [(''log'', \<lambda>fn ctx d args cl. Some (of_bool (fn = 9 \<and> ctx = 8) * 17, cl))]"

text \<open>Two packages of one list, and the reply to a field of both.\<close>

definition sample_listed :: "(string \<times> string, unit) client" where
  "sample_listed = (sample_waiting (reply_text 1 (Result [(ARPC_RET_KEY, JArr [JNum 7, JNum 8])])))
     \<lparr>cl_cache := arpc_pkg_group_register sample_hash (\<lambda>_. True) [5, 6] cache_init\<rparr>"

text \<open>A server whose packages all have a listing of three bytes.\<close>

definition sample_listing_env :: "(unit, unit) server_env" where
  "sample_listing_env = sample_env\<lparr>e_pkg := 1, e_archive := (e_archive sample_env)
     \<lparr>mtree_open := (\<lambda>w p. (Some [()], w)), write_close := (\<lambda>w. ([[1, 2, 3]], w))\<rparr>\<rparr>"

text \<open>Work makes the server log, and the function for that asks for the version before it answers with it.\<close>

definition sample_version :: outcome where
  "sample_version = Result [(ARPC_RET_KEY, JNum 7)]"

definition sample_talk :: session where
  "sample_talk = Request ''work'' [] (Event ''log'' 5 JNull (Request ''alpm_version'' [] Replied sample_version Over) 17 Replied)
     (Result [(ARPC_RET_KEY, JNum 18)]) Over"

definition sample_ask :: "string \<Rightarrow> int \<Rightarrow> (string \<times> string, unit) caller" where
  "sample_ask method extra = Call method [] (\<lambda>ok c err. Return (arpc_ret_i64_c c + extra))"

definition sample_progs :: "(string \<times> (string \<times> string, unit) cb_prog) list" where
  "sample_progs = [(''log'', \<lambda>fn ctx d args. sample_ask ''alpm_version'' (if fn = 9 \<and> ctx = 8 then 10 else 0))]"

definition sample_methods :: "(string \<times> (arpc_req \<Rightarrow> (string \<times> string \<times> nat \<times> string) handler)) list" where
  "sample_methods = [(''alpm_version'', \<lambda>rq. Finish sample_handler),
     (''work'', \<lambda>rq. Send 0 5 None 0 (\<lambda>ret. Finish (\<lambda>rq rs sv. Some (0, rq, arpc_ret_i64 (\<lambda>_. True) rs (ret + 1), sv))))]"

definition sample_caller_side :: "(string \<times> string, unit) client" where
  "sample_caller_side = (client_init (downs (session_lines 1 1 sample_talk), []))
     \<lparr>cl_pipe := Some (), cl_regs := [\<lparr>c_handle = 5, c_fn = [9], c_ctx = [8]\<rparr>]\<rparr>"

definition sample_server_side :: "(string \<times> string \<times> nat \<times> string) server" where
  "sample_server_side = server_init (ups (session_lines 1 1 sample_talk), [], 0, [])"

definition sample_thief :: "(bool, bool, unit) win_id" where
  "sample_thief = \<lparr>current_process = True, open_process_token = Some,
     token_user = (\<lambda>own. Some (if own then ''S-1-5-21-1'' else ''S-1-5-21-9'')), token_label = (\<lambda>_. Some [0x2000]),
     pipe_client_pid = (\<lambda>_. Some 1), pipe_server_pid = (\<lambda>_. Some 2), open_process = (\<lambda>_. Some False)\<rparr>"

text \<open>A client whose endpoint a process of another user holds.\<close>

definition sample_stolen :: "(string \<times> string, bool, bool, unit) client_env" where
  "sample_stolen = \<lparr>k_win = sample_thief, k_io = (\<lambda>_. sample_link), k_getenv = (\<lambda>_. ''C:/m''),
     k_module_file = ''C:/m/ucrt64/bin/a.dll'', k_file_exists = (\<lambda>_. True), k_open = (\<lambda>w n. (Some (), w)), k_close = (\<lambda>w p. w),
     k_create_process = (\<lambda>w c. (True, w)), k_sleep = (\<lambda>w n. w), k_last_error = (\<lambda>w. 0), k_win32_paths = True\<rparr>"

section \<open>The JSON codec\<close>

text \<open>
  C13. A value written with the writer's calls and parsed by the reader is represented by the
  root of the document it gives: the two halves of \<^verbatim>\<open>arpc_json.c\<close> agree, for every value
  within the nesting limit, and neither fails while there is memory.
\<close>

theorem wire_round_trip:
  assumes "wire_value v" and "\<forall>n. alloc n" and "\<forall>n. alloc' n"
  shows "\<not> w_err (write_json alloc ajw_init v) \<and>
    (\<exists>d. aj_parse alloc' (w_text (write_json alloc ajw_init v)) = Some d \<and> doc_ok d \<and> repr d 0 v)"
  using json_round_trip [OF assms(1), of alloc alloc'] assms(2,3) unfolding json_enc_def by blast

lemma sample_wire: "wire_value sample"
  by (simp add: wire_value_def sample_def LLONG_MAX_def AJ_MAX_DEPTH_def str_text_def esc_char_def
      int_text_def rev_digits.simps)

theorem wire_round_trip_witness:
  "\<exists>d. aj_parse (\<lambda>_. True) (w_text (write_json (\<lambda>_. True) ajw_init sample)) = Some d \<and> doc_ok d \<and> repr d 0 sample"
  using wire_round_trip [OF sample_wire, of "\<lambda>_. True" "\<lambda>_. True"] by simp

text \<open>
  Two values with the same text on the wire are the same value, so that nothing a peer
  parses can stand for something else that was sent.
\<close>

theorem wire_text_injective:
  assumes "wire_value v" and "wire_value v'" and "json_enc (\<lambda>_. True) v = json_enc (\<lambda>_. True) v'"
  shows "v = v'"
  by (rule json.enc_inj [OF assms])

theorem wire_text_injective_witness: "json_enc (\<lambda>_. True) sample \<noteq> json_enc (\<lambda>_. True) JNull"
proof
  assume "json_enc (\<lambda>_. True) sample = json_enc (\<lambda>_. True) JNull"
  then have "sample = JNull"
    by (rule wire_text_injective [OF sample_wire, rotated]) (simp add: wire_value_def)
  then show False by (simp add: sample_def)
qed

text \<open>
  C15. Whatever bytes the reader is given, a document it accepts has its links inside the node
  array and pointing forward, its strings inside the string buffer and terminated there, and
  its numbers in range, so that no accessor leaves the document or loops.
\<close>

theorem parsed_document_ok:
  assumes "aj_parse alloc s = Some d"
  shows "doc_ok d"
  by (rule aj_parse_ok [OF assms])

theorem parsed_document_ok_witness: "\<exists>d. aj_parse (\<lambda>_. True) ''[1, {}]'' = Some d \<and> doc_ok d"
proof -
  have "aj_parse (\<lambda>_. True) ''[1, {}]'' \<noteq> None" by code_simp
  then obtain d where "aj_parse (\<lambda>_. True) ''[1, {}]'' = Some d" by blast
  with parsed_document_ok [OF this] show ?thesis by blast
qed

text \<open>
  Looking a member up in a parsed object finds the first member of that name, or nothing
  when there is none.
\<close>

theorem member_lookup:
  assumes "doc_ok d" and "repr d i (JObj kvs)"
  shows "case map_of kvs key of
      None \<Rightarrow> aj_member d (int i) key = -1
    | Some v \<Rightarrow> \<exists>k. aj_member d (int i) key = int k \<and> repr d k v"
  by (rule member_of_object [OF assms])

lemma sample_doc: "\<exists>d. doc_ok d \<and> repr d 0 sample"
  using json_round_trip(2) [OF sample_wire, of "\<lambda>_. True" "\<lambda>_. True"] by auto

theorem member_lookup_witness:
  "\<exists>d k. repr d 0 sample \<and> aj_member d 0 ''id'' = int k \<and> repr d k (JNum (- 17)) \<and> aj_member d 0 ''x'' = -1"
proof -
  obtain d where d: "doc_ok d" "repr d 0 sample" using sample_doc by blast
  from member_lookup [OF d(1) d(2) [unfolded sample_def], of "''id''"]
    member_lookup [OF d(1) d(2) [unfolded sample_def], of "''x''"] d(2)
  show ?thesis by (simp del: repr.simps) blast
qed

text \<open>
  Counting and indexing a parsed array agree with the list it stands for, and an index
  past its end finds nothing.
\<close>

theorem array_access:
  assumes "doc_ok d" and "repr d i (JArr vs)"
  shows "aj_count d (int i) = length vs \<and>
    (\<forall>m. if m < length vs then \<exists>k. aj_elem d (int i) (int m) = int k \<and> repr d k (vs ! m)
         else aj_elem d (int i) (int m) = -1)"
  using elem_of_array [OF assms] by simp

theorem array_access_witness:
  "\<exists>d k. doc_ok d \<and> repr d k (JArr [JStr ''a b'', JNull]) \<and> aj_count d (int k) = 2"
proof -
  obtain d where d: "doc_ok d" "repr d 0 sample" using sample_doc by blast
  obtain k where k: "repr d k (JArr [JStr ''a b'', JNull])"
    using member_of_object [OF d(1) d(2) [unfolded sample_def], of "''params''"] by auto
  have "aj_count d (int k) = 2" using array_access [OF d(1) k] by simp
  with k d(1) show ?thesis by blast
qed

text \<open>
  C14. The writer is memory safe and exact for every sequence of its calls: it never writes
  outside its buffer, whether or not allocations fail; its text is the calls' texts with
  commas between values; and it only flags an error when an allocation failed.
\<close>

theorem writer_calls:
  assumes "\<forall>c \<in> set cs. call_ok c" and "length (calls_text False cs) + 32 \<le> 2 ^ 63"
  shows "w_inv (fold (run_call alloc) cs ajw_init) \<and>
    (w_err (fold (run_call alloc) cs ajw_init) \<or>
     w_text (fold (run_call alloc) cs ajw_init) = calls_text False cs) \<and>
    ((\<forall>n. alloc n) \<longrightarrow> \<not> w_err (fold (run_call alloc) cs ajw_init))"
  using calls_from_init [OF assms, of alloc] by blast

theorem writer_calls_witness:
  "w_text (fold (run_call (\<lambda>_. True)) [WObjBegin, WKey ''a'', WI64 1, WKey ''b'', WNull, WObjEnd] ajw_init) =
     ''{\"a\":1,\"b\":null}''"
proof -
  let ?cs = "[WObjBegin, WKey ''a'', WI64 1, WKey ''b'', WNull, WObjEnd]"
  have ok: "\<forall>c \<in> set ?cs. call_ok c" by (simp add: call_ok_def LLONG_MAX_def)
  have t: "calls_text False ?cs = ''{\"a\":1,\"b\":null}''"
    by (simp add: sep_text_def str_text_def esc_char_def cstr_def int_text_def rev_digits.simps
        char_of_def bit_0)
  have len: "length (calls_text False ?cs) + 32 \<le> 2 ^ 63" unfolding t by simp
  from writer_calls [OF ok len, of "\<lambda>_. True"] show ?thesis unfolding t by blast
qed

text \<open>
  C38. Text that nests lists and objects deeper than the limit, in any mix, at any place and whatever
  else it holds, is refused: the nesting is read off the text alone, brackets in strings left out.
\<close>

theorem deep_input_refused:
  assumes "AJ_MAX_DEPTH < nesting False 0 s"
  shows "aj_parse alloc s = None"
  using accepted_depth [of alloc s] assms by (cases "aj_parse alloc s") auto

theorem deep_input_refused_witness:
  "aj_parse (\<lambda>_. True) (''{\"a]\":[0],\"b\":'' @ concat (replicate 150 ''[0,{\"k\":'') @ ''1'') = None"
proof (rule deep_input_refused)
  have "nesting False k (concat (replicate n ''[0,{\"k\":'') @ s) = nesting False (k + 2 * n) s" for k n s
    by (induction n arbitrary: k) auto
  then show "AJ_MAX_DEPTH < nesting False 0 (''{\"a]\":[0],\"b\":'' @ concat (replicate 150 ''[0,{\"k\":'') @ ''1'')"
    by (simp add: AJ_MAX_DEPTH_def)
qed

section \<open>Base64\<close>

text \<open>C39. Decoding what was encoded gives the same bytes and their number.\<close>

theorem b64_decode_encode:
  assumes "arpc_b64_encode alloc src = Some s" and "alloc' (if src \<noteq> [] then length src else 1)"
  shows "arpc_b64_decode alloc' (Some s) = Some (src, length src)"
  using assms by (rule b64_round_trip)

theorem b64_decode_encode_witness:
  "arpc_b64_decode (\<lambda>_. True) (Some (b64_encode_loop [0, 255])) = Some ([0, 255], 2)"
  using b64_decode_encode [of "\<lambda>_. True" "[0, 255]" "b64_encode_loop [0, 255]" "\<lambda>_. True"]
  by (simp add: arpc_b64_encode_def)

text \<open>
  C40. The decoder accepts exactly the well-formed texts: whole groups of four, digits only,
  and at most two characters of padding at the very end; and it reports three bytes per group
  less one per padding character.
\<close>

theorem b64_accepts_exactly:
  assumes "is_cstr s" and "\<forall>n. alloc n"
  shows "(\<exists>out. arpc_b64_decode alloc (Some s) = Some (out, n)) \<longleftrightarrow>
    (\<exists>p. b64_wf s p \<and> n = length s div 4 * 3 - p)"
  using decode_accepts [OF assms(1), of alloc n] assms(2) by blast

theorem b64_accepts_exactly_witness: "\<exists>out. arpc_b64_decode (\<lambda>_. True) (Some ''AA=='') = Some (out, 1)"
proof -
  have "b64_wf ''AA=='' 2" by (simp add: b64_wf_def b64val_def numeral_2_eq_2)
  then show ?thesis
    using b64_accepts_exactly [of "''AA==''" "\<lambda>_. True" 1] by auto
qed

text \<open>
  The length reported for a decoded buffer is the number of bytes written to it: the
  caller is never handed bytes the decoder did not set.
\<close>

theorem b64_buffer_filled:
  assumes "arpc_b64_decode alloc (Some s) = Some (out, n)"
  shows "length out = n"
  by (rule decode_length [OF assms])

theorem b64_buffer_filled_witness:
  "\<exists>out. arpc_b64_decode (\<lambda>_. True) (Some (b64_encode_loop [0, 255])) = Some (out, 2) \<and> length out = 2"
proof -
  have d: "arpc_b64_decode (\<lambda>_. True) (Some (b64_encode_loop [0, 255])) = Some ([0, 255], 2)"
    using b64_round_trip [of "\<lambda>_. True" "[0, 255]" "b64_encode_loop [0, 255]" "\<lambda>_. True"]
    by (simp add: arpc_b64_encode_def)
  from b64_buffer_filled [OF d] d show ?thesis by blast
qed

section \<open>Endpoints and frames\<close>

text \<open>
  Client and server that spell the same MSYS2 root with different separators or letter
  case meet at the same endpoint.
\<close>

theorem endpoint_spelling:
  assumes "list_all2 same_path_char root root'"
  shows "arpc_pipe_name win (Some root) out = arpc_pipe_name win (Some root') out"
  using endpoint_hash_same_root [OF assms] by (simp add: arpc_pipe_name_def split: option.split)

theorem endpoint_spelling_witness:
  "arpc_pipe_name (sample_win 0x2000) (Some ''C:/msys64'') (Some 64) =
   arpc_pipe_name (sample_win 0x2000) (Some (''c:'' @ [CHR 0x5C] @ ''MSYS64'')) (Some 64)"
  by (rule endpoint_spelling) (simp add: same_path_char_def is_sep_def)

text \<open>
  C36. The same user at two integrity levels never gets the same endpoint: names made from
  labels that differ only in their second byte, as all the levels Windows defines do, are
  different, whatever the root.
\<close>

theorem endpoint_separates_levels:
  assumes "arpc_process_identity win None = Some me" and "arpc_process_identity win' None = Some me'"
    and "sid me = sid me'" and "integrity me AND 0xFFFF00FF = integrity me' AND 0xFFFF00FF"
    and "integrity me \<noteq> integrity me'"
    and "arpc_pipe_name win (Some root) (Some n) = Some name"
    and "arpc_pipe_name win' (Some root) (Some n') = Some name'"
  shows "name \<noteq> name'"
proof -
  obtain a b c d e where u: "a \<noteq> b" "u32_bytes (integrity me) = [c] @ [a] @ [d, e]"
      "u32_bytes (integrity me') = [c] @ [b] @ [d, e]"
    using u32_bytes_second [OF assms(4,5)] by blast
  have "endpoint_hash root ARPC_PROTO_VERSION me \<noteq> endpoint_hash root ARPC_PROTO_VERSION me'"
    unfolding endpoint_hash_def Let_def u assms(3) by (rule fnv1a_one_byte [OF u(1)])
  with pipe_name_hash [OF assms(6,7,1,2)] show ?thesis by simp
qed

lemma sample_name: "\<exists>s. arpc_pipe_name (sample_win l) (Some r) (Some 64) = Some s"
  by (simp add: arpc_pipe_name_def arpc_process_identity_def sample_win_def sizeof_sid_def Let_def
      hex16_length pipe_prefix_def)

theorem endpoint_separates_levels_witness:
  "arpc_pipe_name (sample_win 0x2000) (Some ''C:/msys64'') (Some 64) \<noteq>
   arpc_pipe_name (sample_win 0x3000) (Some ''C:/msys64'') (Some 64)"
proof -
  obtain s s' where s: "arpc_pipe_name (sample_win 0x2000) (Some ''C:/msys64'') (Some 64) = Some s"
      "arpc_pipe_name (sample_win 0x3000) (Some ''C:/msys64'') (Some 64) = Some s'"
    using sample_name by meson
  have i: "arpc_process_identity (sample_win l) None = Some \<lparr>sid = ''S-1-5-21-1'', integrity = l\<rparr>" for l
    by (simp add: arpc_process_identity_def sample_win_def sizeof_sid_def)
  from endpoint_separates_levels [OF i i _ _ _ s] s show ?thesis by simp
qed

text \<open>
  Cutting \<open>n\<close> components off a path that has them leaves exactly what is before them,
  either separator counting, and a path with too few is refused.
\<close>

theorem strip_dirs_exact:
  assumes "components_ok cs"
  shows "arpc_strip_dirs (path_below root cs) (length cs) = (True, root) \<and>
    ((\<forall>x \<in> set root. \<not> is_sep x) \<longrightarrow>
       arpc_strip_dirs (path_below root cs) (length cs + Suc n) = (False, root))"
  using strip_components [OF assms, of root 0] strip_components [OF assms, of root "Suc n"]
    strip_none [of root n] by simp

theorem strip_dirs_exact_witness:
  "arpc_strip_dirs ''C:/m/usr/bin/alpmrpcd.exe'' 3 = (True, ''C:/m'')"
  using strip_dirs_exact [of "[(CHR ''/'', ''usr''), (CHR ''/'', ''bin''), (CHR ''/'', ''alpmrpcd.exe'')]" "''C:/m''"]
  by (simp add: components_ok_def is_sep_def path_below_def numeral_3_eq_3 del: arpc_strip_dirs.simps)

text \<open>
  C16. Frames sent over a pipe that may move any part of a request at a time arrive whole and
  in order, and leave what follows them in the pipe untouched.
\<close>

theorem frames_in_order:
  assumes "pipe_ok io ev content" and "\<forall>b \<in> set bs. frame_ok b" and "content st = []"
    and "\<forall>n \<le> ARPC_MAX_FRAME + 1. alloc n"
  shows "\<exists>st1 st2. send_frames io ev st bs = (True, st1) \<and>
    recv_frames alloc io ev st1 (length bs) = (bs, st2) \<and> content st2 = []"
proof -
  obtain st1 where st1: "send_frames io ev st bs = (True, st1)" "content st1 = frames_text bs @ []"
    using send_frames_ok [OF assms(1,2), of st] assms(3) by auto
  with recv_frames_ok [OF assms(1) _ assms(2) st1(2), of alloc] assms(4) show ?thesis by auto
qed

lemma sample_io_ok: "pipe_ok sample_io False (\<lambda>st. st)"
  by (auto simp: pipe_ok_def write_ok_def read_ok_def write_some_def read_some_def sample_io_def min_def)

theorem frames_in_order_witness:
  "\<exists>st1 st2. send_frames sample_io False [] [''{}'', ''[1,2,3]''] = (True, st1) \<and>
     recv_frames (\<lambda>_. True) sample_io False st1 2 = ([''{}'', ''[1,2,3]''], st2) \<and> st2 = []"
  using frames_in_order [OF sample_io_ok, of "[''{}'', ''[1,2,3]'']" "[]" "\<lambda>_. True"]
  by (simp add: frame_ok_def ARPC_MAX_FRAME_def numeral_2_eq_2)

text \<open>
  C37. A frame of size 0 or above the limit is refused before anything is allocated for it,
  with its size reported and its header consumed.
\<close>

theorem frame_size_refused:
  assumes "pipe_ok io ev content" and "len = 0 \<or> ARPC_MAX_FRAME < len" and "len < 2 ^ 32"
    and "content st = frame_header len @ rest"
  shows "\<exists>st'. arpc_recv_frame alloc io ev st = (None, len, st') \<and> content st' = rest"
  by (rule recv_frame_refused [OF assms])

theorem frame_size_refused_witness:
  "\<exists>st'. arpc_recv_frame (\<lambda>_. False) sample_io False (frame_header 0x10000000 @ ''x'') = (None, 0x10000000, st') \<and> st' = ''x''"
  by (rule frame_size_refused [OF sample_io_ok]) (simp_all add: ARPC_MAX_FRAME_def)

section \<open>The handle table\<close>

text \<open>
  C25. An object seen before keeps its id, however often it is filed and whatever the
  allocator does, and nothing else in the table changes; its owner moves only to one below
  the owner it had.
\<close>

theorem same_object_same_id:
  assumes "hinv h" and "filed h ptr tag s"
  shows "\<exists>h'. arpc_handle_put alloc th h ptr tag owner = Some (s_id s, h') \<and> hinv h' \<and>
    hview h' = (hview h)(s_id s \<mapsto> s\<lparr>s_owner :=
      (if owner \<noteq> 0 \<and> owner \<noteq> s_owner s \<and> under_in 8 (hview h) owner (s_owner s)
       then owner else s_owner s)\<rparr>)"
  using put_known [OF assms, of alloc th owner] by blast

text \<open>A table with one object in it, filed with no owner.\<close>

lemma filed_init: "\<not> filed htab_init ptr tag s"
  by (simp add: filed_def hview_def htab_init_def)

lemma sample_table:
  "\<exists>hid h s. arpc_handle_put (\<lambda>_. True) 1 htab_init 0x1000 1 0 = Some (hid, h) \<and> hinv h \<and>
     filed h 0x1000 1 s \<and> s_id s = hid \<and> hview h = [hid \<mapsto> s] \<and> seq_of hid = 1 \<and> h_next_seq h = 2 \<and> hid \<noteq> 0 \<and>
     s_owner s = 0 \<and> s_tag s = 1 \<and> s_ptr s = 0x1000"
proof -
  have seq: "unat (h_next_seq htab_init) < 2 ^ 40" by (simp add: htab_init_def)
  have new: "\<nexists>s. filed htab_init 0x1000 1 s" by (simp add: filed_init)
  let ?hid = "push_bit ARPC_ROOT_SHIFT (root_for 1 htab_init 1 0) OR h_next_seq htab_init"
  have ptr: "(0x1000 :: 64 word) \<noteq> 0" by simp
  note p = put_unknown [OF hinv_init ptr new seq, where th = 1 and owner = 0]
  from p(1) [where alloc = "\<lambda>_. True"] obtain h where
    h: "arpc_handle_put (\<lambda>_. True) 1 htab_init 0x1000 1 0 = Some (?hid, h)" "hinv h"
      "hview h = (hview htab_init)(?hid \<mapsto> new_slot ?hid 0x1000 1 0)" "h_next_seq h = h_next_seq htab_init + 1"
    by auto
  have i: "hview htab_init = Map.empty" "h_next_seq htab_init = 1" by (auto simp: hview_def htab_init_def)
  show ?thesis
    using h p(2,4) unfolding i
    by (intro exI [of _ ?hid] exI [of _ h] exI [of _ "new_slot ?hid 0x1000 1 0"])
      (simp add: i filed_def new_slot_def)
qed

theorem same_object_same_id_witness:
  "\<exists>h s h'. hinv h \<and> filed h 0x1000 1 s \<and> arpc_handle_put (\<lambda>_. False) 1 h 0x1000 1 0 = Some (s_id s, h')"
proof -
  obtain h s where "hinv h" "filed h 0x1000 1 s" using sample_table by blast
  with same_object_same_id [OF this, of "\<lambda>_. False" 1 0] show ?thesis by blast
qed

text \<open>
  C26. An object not in the table gets an id no object has, with its owner's root in the high
  bits; it resolves by that id from then on and every other id resolves as before. Without
  memory the id is 0 and the table is unchanged.
\<close>

theorem new_object_new_id:
  assumes "hinv h" and "ptr \<noteq> 0" and "\<nexists>s. filed h ptr tag s" and "unat (h_next_seq h) < 2 ^ 40"
    and "unat (root_for th h tag owner) < 2 ^ 24"
  shows "arpc_handle_put alloc th h ptr tag owner = Some (0, h) \<and> \<not> (\<forall>n. alloc n) \<or>
    (\<exists>hid h'. arpc_handle_put alloc th h ptr tag owner = Some (hid, h') \<and> hinv h' \<and>
       hid \<noteq> 0 \<and> hview h hid = None \<and> ARPC_ROOT hid = root_for th h tag owner \<and>
       hview h' = (hview h)(hid \<mapsto> new_slot hid ptr tag owner))"
  using put_unknown(1) [OF assms(1-4), where alloc = alloc and th = th and owner = owner]
    put_unknown(2,3) [OF assms(1-4), where th = th and owner = owner] new_id(2) [OF assms(4,5)] by blast

theorem new_object_new_id_witness:
  "\<exists>hid h'. arpc_handle_put (\<lambda>_. True) 1 htab_init 0x1000 1 0 = Some (hid, h') \<and>
     hid \<noteq> 0 \<and> hview h' hid = Some (new_slot hid 0x1000 1 0)"
proof -
  have "unat (h_next_seq htab_init) < 2 ^ 40" "unat (root_for 1 htab_init 1 0) < 2 ^ 24"
    by (simp_all add: htab_init_def root_for_def)
  from new_object_new_id [OF hinv_init _ _ this, of "0x1000" "\<lambda>_. True"]
  show ?thesis by (auto simp: filed_init)
qed

text \<open>
  C6. An id that was given out and does not resolve any more never resolves again, whatever
  operations follow: ids are not reused, so a stale one misses instead of finding another
  object.
\<close>

theorem stale_id_misses:
  assumes "handle_steps th st st'" and "hinv (fst st)"
    and "hview (fst st) hid = None" and "seq_of hid < unat (h_next_seq (fst st))"
  shows "hview (fst st') hid = None \<and> arpc_handle_get (fst st') hid tag = Some 0"
proof -
  have ok: "step_ok (fst st) (fst st')" by (rule handle_steps_ok [OF assms(1,2)])
  then have "hview (fst st') hid = None" using assms(3,4) by (auto simp: step_ok_def)
  moreover have "hinv (fst st')" using ok by (simp add: step_ok_def)
  ultimately show ?thesis by (simp add: get_view)
qed

theorem stale_id_misses_witness:
  "\<exists>hid h h1. arpc_handle_put (\<lambda>_. True) 1 htab_init 0x1000 1 0 = Some (hid, h) \<and>
     arpc_handle_drop (\<lambda>_. True) h hid = Some h1 \<and>
     (\<forall>st. handle_steps 1 (h1, []) st \<longrightarrow> arpc_handle_get (fst st) hid 1 = Some 0)"
proof -
  obtain hid h where h: "arpc_handle_put (\<lambda>_. True) 1 htab_init 0x1000 1 0 = Some (hid, h)" "hinv h"
      "seq_of hid = 1" "h_next_seq h = 2" using sample_table by blast
  from drop_view [OF h(2), of "\<lambda>_. True" hid] obtain h1 where h1: "arpc_handle_drop (\<lambda>_. True) h hid = Some h1"
      "hinv h1" "h_next_seq h1 = h_next_seq h" "hview h1 hid = None" by auto
  have "arpc_handle_get (fst st) hid 1 = Some 0" if "handle_steps 1 (h1, []) st" for st
    using stale_id_misses [OF that, of hid 1] h h1 by simp
  with h h1 show ?thesis by blast
qed

text \<open>
  C5. In every table a server can reach, both indexes are intact and there is always a free
  place, so every lookup by id or by pointer ends, and a lookup by id gives the pointer of
  the object filed under it exactly when the type asked for is the object's.
\<close>

theorem reachable_lookups_end:
  assumes "handle_steps th (htab_init, []) (h, regs)"
  shows "hinv h \<and> hfind_ptr h ptr tag \<noteq> None \<and>
    arpc_handle_get h hid tag =
      Some (case hview h hid of None \<Rightarrow> 0 | Some s \<Rightarrow> if s_tag s = tag then s_ptr s else 0)"
proof -
  have inv: "hinv h" using handle_steps_ok [OF assms] by (simp add: step_ok_def hinv_init)
  have "hfind_ptr h ptr tag \<noteq> None"
  proof (cases "ptr = 0")
    case True
    then show ?thesis by (simp add: hfind_ptr_def)
  next
    case False
    then show ?thesis using hfind_ptr_view [OF inv False, of tag] by auto
  qed
  with inv get_view [OF inv] show ?thesis by simp
qed

theorem reachable_lookups_end_witness:
  "\<exists>hid h. handle_steps 1 (htab_init, []) (h, []) \<and> arpc_handle_get h hid 1 = Some 0x1000"
proof -
  obtain hid h s where h: "arpc_handle_put (\<lambda>_. True) 1 htab_init 0x1000 1 0 = Some (hid, h)"
      "hview h = [hid \<mapsto> s]" "s_tag s = 1" "s_ptr s = 0x1000" using sample_table by blast
  have seq: "unat (h_next_seq htab_init) < 2 ^ 40" by (simp add: htab_init_def)
  have "handle_steps 1 (htab_init, []) (h, [])"
    by (rule steps_step [OF steps_refl handle_step.operate [OF table_op.put [OF seq h(1)]]])
  with reachable_lookups_end [OF this, where hid = hid and tag = 1] h show ?thesis by auto
qed

text \<open>
  C27. Dropping an owner removes exactly the objects at or below it (up to the eight levels
  the source follows) and its callback registrations, and leaves every other id as it was.
\<close>

theorem drop_owner_exact:
  assumes "hinv h" and "owner \<noteq> 0" and "\<forall>n. alloc n"
  shows "\<exists>h'. arpc_handle_drop_owner alloc (h, regs) owner = Some (h', arpc_cb_purge regs owner) \<and> hinv h' \<and>
    (\<forall>hid. hview h' hid = (if under_in 8 (hview h) hid owner then None else hview h hid)) \<and>
    (\<forall>r \<in> set (arpc_cb_purge regs owner). r_handle r \<noteq> owner)"
  using drop_owner_view [OF assms(1,2), of alloc regs] assms(3)
  by (auto simp: prune_def arpc_cb_purge_def)

theorem drop_owner_exact_witness:
  "\<exists>hid h h'. arpc_handle_put (\<lambda>_. True) 1 htab_init 0x1000 1 0 = Some (hid, h) \<and>
     arpc_handle_drop_owner (\<lambda>_. True) (h, [\<lparr>r_handle = hid, r_enabled = 1\<rparr>]) hid = Some (h', []) \<and>
     hview h' hid = None"
proof -
  obtain hid h where h: "arpc_handle_put (\<lambda>_. True) 1 htab_init 0x1000 1 0 = Some (hid, h)" "hinv h" "hid \<noteq> 0"
    using sample_table by blast
  from drop_owner_exact [OF h(2,3), of "\<lambda>_. True" "[\<lparr>r_handle = hid, r_enabled = 1\<rparr>]"] h
  show ?thesis by (auto simp: arpc_cb_purge_def numeral_eq_Suc split: if_splits)
qed

text \<open>
  C7. Every object the server adopted is released once, over the whole life of the table, with any
  answers of the allocator: at every moment the adopted objects are those released so far and those
  on file. A drop releases what it takes off the file and nothing else; a reset, which ends the
  server, releases all that is left. An object adopted anew while on file counts once.
\<close>

theorem released_exactly_once:
  assumes "ledger th A (h, regs)"
  shows "A = mset (h_freed h) + slot_releases (hview h) (dom (hview h)) \<and>
    mset (h_freed (arpc_handle_reset h)) = A \<and> hview (arpc_handle_reset h) = Map.empty \<and> pending (arpc_handle_reset h) = {#} \<and>
    ((\<forall>n. alloc n) \<longrightarrow>
      (\<exists>h1. arpc_handle_drop alloc h hid = Some h1 \<and>
         mset (h_freed h1) = mset (h_freed h) + (case hview h hid of None \<Rightarrow> {#} | Some s \<Rightarrow> mset (released s))) \<and>
      (owner \<noteq> 0 \<longrightarrow>
         (\<exists>h2. arpc_handle_drop_owner alloc (h, regs) owner = Some (h2, arpc_cb_purge regs owner) \<and>
            mset (h_freed h2) = mset (h_freed h) + slot_releases (hview h) {hid \<in> dom (hview h). under_in 8 (hview h) hid owner}) \<and>
         (\<exists>h3. arpc_handle_drop_under alloc h owner = Some h3 \<and>
            mset (h_freed h3) = mset (h_freed h) +
              slot_releases (hview h) {hid \<in> dom (hview h). under_in 8 (hview h) hid owner \<and> hid \<noteq> owner})))"
proof -
  have b: "hinv h" "A = mset (h_freed h) + pending h" using ledger_balance [OF assms] by simp_all
  then show ?thesis
    using drop_releases [OF b(1)] drop_owner_releases [OF b(1)] drop_under_releases [OF b(1)]
      reset_view(2) [OF b(1)] reset_releases [of h] pending_view [OF b(1)] by simp
qed

theorem released_exactly_once_witness:
  "\<exists>hid h. arpc_handle_adopt (\<lambda>_. True) 1 htab_init 0x1000 0 7 = Some (hid, h) \<and>
     h_freed h = [] \<and> h_freed (arpc_handle_reset h) = [(7, 0x1000)]"
proof -
  have seq: "unat (h_next_seq htab_init) < 2 ^ 40" by (simp add: htab_init_def)
  from adopt_cases [OF hinv_init this, of "\<lambda>_. True" 1 "0x1000" 0 7]
  obtain hid h where h: "arpc_handle_adopt (\<lambda>_. True) 1 htab_init 0x1000 0 7 = Some (hid, h)" "hid \<noteq> 0" "h_freed h = []"
    by (auto simp: htab_init_def)
  have "superseded htab_init 0x1000 = {#}" by (simp add: superseded_def hfind_ptr_def htab_init_def)
  with ledger.adopted [OF ledger.opened seq h(1)] h(2) have "ledger 1 {#(7, 0x1000)#} (h, [])" by simp
  from released_exactly_once [OF this] h show ?thesis by auto
qed

text \<open>
  C28. What dropping does not do: when the allocation of the new table fails, the drop is
  silently skipped, and an id whose object libalpm has freed still resolves to its pointer.
\<close>

theorem drop_without_memory:
  assumes "hinv h" and "hview h hid = Some s" and "\<forall>n. \<not> alloc n"
  shows "arpc_handle_drop alloc h hid = Some h \<and> arpc_handle_get h hid (s_tag s) = Some (s_ptr s)"
proof -
  have "rebuild alloc h (h_cap h) (keep_not hid) = Some (False, h)" using assms(3) by (simp add: rebuild_def)
  moreover obtain r where "hfind h hid = Some r" using hfind_view [OF assms(1), of hid] by blast
  ultimately have "arpc_handle_drop alloc h hid = Some h"
    by (simp add: arpc_handle_drop_def drop_matching_def)
  with get_view [OF assms(1), of hid "s_tag s"] assms(2) show ?thesis by simp
qed

theorem drop_without_memory_witness:
  "\<exists>hid h. arpc_handle_put (\<lambda>_. True) 1 htab_init 0x1000 1 0 = Some (hid, h) \<and>
     arpc_handle_drop (\<lambda>_. False) h hid = Some h \<and> arpc_handle_get h hid 1 = Some 0x1000"
proof -
  obtain hid h s where h: "arpc_handle_put (\<lambda>_. True) 1 htab_init 0x1000 1 0 = Some (hid, h)" "hinv h"
      "hview h = [hid \<mapsto> s]" "s_tag s = 1" "s_ptr s = 0x1000" using sample_table by blast
  then have "hview h hid = Some s" by simp
  with drop_without_memory [OF h(2) this, of "\<lambda>_. False"] h show ?thesis by auto
qed

section \<open>Serving requests\<close>

text \<open>
  C4. Every frame, whatever is in it, is answered: the dispatcher ends with one reply that
  parses and carries the request's id, the table stays intact, a frame that is not JSON, a
  request without a method and one for a method nobody has are refused with the codes of
  the protocol and change nothing, and a shutdown request is granted and noted. The generated
  methods are relied on to end, to leave the table intact and to leave a result or an error.
\<close>

theorem request_answered:
  assumes "hinv (sv_tab sv)" and "methods_ok env sv"
  shows "\<exists>rid oc sv' reply. arpc_handle_frame (\<lambda>_. True) env req sv = Some (Some (reply_text rid oc), sv') \<and>
    hinv (sv_tab sv') \<and> aj_parse (\<lambda>_. True) (reply_text rid oc) = Some reply \<and> repr reply 0 (reply_json rid oc) \<and>
    (case aj_parse (\<lambda>_. True) req of
       None \<Rightarrow> rid = 0 \<and> oc = Error ARPC_E_PARSE ''malformed JSON'' \<and> sv' = sv
     | Some d \<Rightarrow> rid = aj_i64 d (aj_member d 0 ''id'') 0 \<and>
         (let name = aj_str d (aj_member d 0 ''method'') None
          in (\<forall>e. dispatch_error env name = Some e \<longrightarrow> oc = e \<and> sv' = sv) \<and>
             (name = Some ''arpc.shutdown'' \<longrightarrow>
                oc = Result [(ARPC_RET_KEY, JNum 0)] \<and> sv' = sv\<lparr>sv_shutdown := True\<rparr>)))"
proof (cases "aj_parse (\<lambda>_. True) req")
  case None
  let ?msg = "''malformed JSON''"
  have m: "is_cstr ?msg" "length ?msg < sizeof_msg" by (simp_all add: sizeof_msg_def)
  have "readable (reply_json 0 (Error ARPC_E_PARSE ?msg))" by (rule readable_error [OF _ _ m]) simp_all
  from readable_parses [OF this, of "\<lambda>_. True"] obtain d where
    "aj_parse (\<lambda>_. True) (reply_text 0 (Error ARPC_E_PARSE ?msg)) = Some d" "repr d 0 (reply_json 0 (Error ARPC_E_PARSE ?msg))"
    by (auto simp: reply_text_def)
  moreover have "arpc_handle_frame (\<lambda>_. True) env req sv = Some (Some (reply_text 0 (Error ARPC_E_PARSE ?msg)), sv)"
    using error_reply [OF _ _ _ m, of "\<lambda>_. True" 0 ARPC_E_PARSE] None by (simp add: arpc_handle_frame_def)
  ultimately show ?thesis unfolding None option.case using assms(1) by blast
next
  case (Some d)
  let ?rid = "aj_i64 d (aj_member d 0 ''id'') 0"
  obtain oc sv' where r: "arpc_handle_parsed (\<lambda>_. True) env d sv = Some (Some (reply_text ?rid oc), sv')"
      "hinv (sv_tab sv')" "readable (reply_json ?rid oc)"
      "case dispatch_error env (aj_str d (aj_member d 0 ''method'') None) of Some e \<Rightarrow> oc = e \<and> sv' = sv | None \<Rightarrow> True"
      "aj_str d (aj_member d 0 ''method'') None = Some ''arpc.shutdown'' \<longrightarrow>
         oc = Result [(ARPC_RET_KEY, JNum 0)] \<and> sv' = sv\<lparr>sv_shutdown := True\<rparr>"
    using parsed_replies [OF assms(1) aj_parse_ok [OF Some] assms(2)] by blast
  moreover obtain e where "aj_parse (\<lambda>_. True) (reply_text ?rid oc) = Some e" "repr e 0 (reply_json ?rid oc)"
    using readable_parses [OF r(3), of "\<lambda>_. True"] by (auto simp: reply_text_def)
  moreover have "arpc_handle_frame (\<lambda>_. True) env req sv = arpc_handle_parsed (\<lambda>_. True) env d sv"
    using Some by (simp add: arpc_handle_frame_def)
  ultimately show ?thesis unfolding Some option.case Let_def by fastforce
qed

lemma sample_methods_ok: "methods_ok sample_env (sv :: 'w server)"
proof -
  have "rpc_method (sample_handler :: 'w arpc_handler) (\<lambda>_. True) (\<lambda>rq sv oc sv'. True)"
  proof unfold_locales
    fix sv :: "'w server" and rq
    assume "hinv (sv_tab sv)"
    moreover have "res_ready (arpc_ret_i64 (\<lambda>_. True) arpc_res_zero 7) (Result [(ARPC_RET_KEY, JNum 7)])"
      by (rule ready_i64) (simp add: i64_range_def LLONG_MAX_def)
    ultimately show "ends_with (sample_handler rq arpc_res_zero sv) (\<lambda>oc sv'. True)"
      unfolding sample_handler_def by (auto intro: ends_withI)
  qed
  then show ?thesis
    by (auto simp: methods_ok_def sample_env_def table_sorted_def kinds_ok_def archive_ok_def)
qed

theorem request_answered_witness:
  "\<exists>rid oc sv'. arpc_handle_frame (\<lambda>_. True) sample_env ''{'' (server_init ()) = Some (Some (reply_text rid oc), sv') \<and>
     hinv (sv_tab sv')"
  using request_answered [OF _ sample_methods_ok, of "server_init ()" "''{''"]
  by (auto simp: server_init_def hinv_init)

text \<open>
  C33. The search for a method agrees with looking its name up in the built-in methods and then
  in the generated table, read as a list: the binary search over the names in \<^verbatim>\<open>strcmp\<close> order
  finds exactly the methods the table has.
\<close>

theorem method_lookup:
  assumes "table_sorted (e_methods env)"
  shows "find_method alloc env name = map_of (builtins alloc env @ e_methods env) name"
  by (rule find_method_spec [OF assms])

theorem method_lookup_witness:
  "find_method (\<lambda>_. True) sample_env ''alpm_version'' = Some sample_handler"
proof -
  have t: "table_sorted (e_methods sample_env)" by (simp add: table_sorted_def sample_env_def)
  show ?thesis unfolding method_lookup [OF t] by (simp add: builtins_def sample_env_def)
qed

text \<open>
  C34. What a handler reads of its arguments, for every argument there can be. A string, a number
  and bytes of the right type are the argument's value; of another type, or past the end of the
  list, they are marked, with a harmless value in their place. An id is read without a check of its
  type: a string, a list or an object is id 0, unmarked, so that in the place of a handle it passes
  for the null handle; only an id that is missing or resolves to no object of the type asked for is
  marked.
\<close>

theorem argument_values:
  assumes "req_args rq vs" and "hinv h"
  shows "arpc_arg_str rq (int i) =
      (case arg_at vs i of Some (JStr s) \<Rightarrow> (Some s, rq) | Some JNull \<Rightarrow> (None, rq) | _ \<Rightarrow> (None, marked True rq)) \<and>
    arpc_arg_i64 rq (int i) =
      (case arg_at vs i of Some (JNum v) \<Rightarrow> (v, rq) | Some (JBool b) \<Rightarrow> (of_bool b, rq) | _ \<Rightarrow> (0, marked True rq)) \<and>
    arpc_arg_bytes alloc rq (int i) =
      (case arg_at vs i of
         Some (JStr s) \<Rightarrow> (case arpc_b64_decode alloc (Some s) of None \<Rightarrow> (None, 0, marked True rq) | Some (b, n) \<Rightarrow> (Some b, n, rq))
       | Some JNull \<Rightarrow> (None, 0, rq) | _ \<Rightarrow> (None, 0, marked True rq)) \<and>
    arpc_arg_id rq (int i) =
      (case arg_at vs i of Some (JNum v) \<Rightarrow> (word_of_int v, rq) | Some (JBool b) \<Rightarrow> (word_of_int (of_bool b), rq)
       | Some _ \<Rightarrow> (0, rq) | None \<Rightarrow> (0, marked True rq)) \<and>
    arpc_arg_handle h rq (int i) tag =
      (let hid = fst (arpc_arg_id rq (int i)); p = arg_pointer h tag hid
       in Some (if hid = 0 then 0 else p, marked (arg_at vs i = None \<or> hid \<noteq> 0 \<and> p = 0) rq))"
proof (intro conjI)
  obtain hid rq1 where r: "arpc_arg_id rq (int i) = (hid, rq1)" by fastforce
  with arg_id_value [OF assms(1), of i] have m: "rq1 = marked (arg_at vs i = None) rq" "arg_at vs i = None \<Longrightarrow> hid = 0"
    by (auto split: option.splits json.splits)
  show "arpc_arg_handle h rq (int i) tag =
      (let hid = fst (arpc_arg_id rq (int i)); p = arg_pointer h tag hid
       in Some (if hid = 0 then 0 else p, marked (arg_at vs i = None \<or> hid \<noteq> 0 \<and> p = 0) rq))"
    using arg_handle_value [OF assms(2) r, of tag] m by (auto simp: r Let_def disj_commute)
qed (rule arg_str_value [OF assms(1)] arg_i64_value [OF assms(1)] arg_bytes_value [OF assms(1)] arg_id_value [OF assms(1)])+

lemma parsed_args:
  assumes "wire_value (JArr vs)"
  shows "\<exists>rq. req_args rq vs \<and> \<not> rq_bad rq"
proof -
  have v: "json_ok (JArr vs)" "json_depth (JArr vs) \<le> AJ_MAX_DEPTH" "length (json_text (JArr vs)) \<le> 2 ^ 63"
    using assms unfolding wire_value_def by simp_all
  obtain d where d: "aj_parse (\<lambda>_. True) (json_text (JArr vs)) = Some d" "repr d 0 (JArr vs)"
    using aj_parse_text [where alloc = "\<lambda>_. True", OF _ v] by blast
  have "req_args \<lparr>rq_doc = d, rq_params = 0, rq_bad = False\<rparr> vs"
    using aj_parse_ok [OF d(1)] d(2) unfolding req_args_def by (auto intro!: exI [of _ "0 :: nat"])
  then show ?thesis by (intro exI [of _ "\<lparr>rq_doc = d, rq_params = 0, rq_bad = False\<rparr>"]) simp
qed

lemma sample_args: "wire_value (JArr [JNum 5, JStr ''log'', JNum 1])"
  by (simp add: wire_value_def LLONG_MAX_def AJ_MAX_DEPTH_def str_text_def esc_char_def int_text_def rev_digits.simps)

theorem argument_values_witness:
  "\<exists>rq. arpc_arg_str rq 1 = (Some ''log'', rq) \<and> arpc_arg_i64 rq 2 = (1, rq) \<and> arpc_arg_str rq 2 = (None, marked True rq) \<and>
     arpc_arg_handle htab_init rq 1 1 = Some (0, rq) \<and> arpc_arg_handle htab_init rq 2 1 = Some (0, marked True rq)"
proof -
  obtain rq where rq: "req_args rq [JNum 5, JStr ''log'', JNum 1]" using parsed_args [OF sample_args] by blast
  have "hview htab_init 1 = None" by (simp add: hview_def htab_init_def)
  with argument_values [OF rq hinv_init, of 1] argument_values [OF rq hinv_init, of 2] show ?thesis
    by (intro exI [of _ rq]) (simp add: arg_at_def arg_pointer_def Let_def)
qed

text \<open>
  C35. The reply refines the abstract result: after any calls that write a return value or an
  out-parameter, the reply is the object of the request's id and exactly the members those
  calls stand for, in order, with a null return value in front if none came first.
\<close>

theorem result_refines_members:
  assumes "\<forall>n. alloc n" and "\<forall>op \<in> set ops. op_ok op" and "i64_range rid"
    and "fits (with_ret (fold (spec_op alloc cyg win32) ops []))"
  shows "result_reply alloc rid (fold (run_op alloc cyg win32) ops arpc_res_zero) =
    Some (json_text (JObj [(''id'', JNum rid), (''result'', JObj (with_ret (fold (spec_op alloc cyg win32) ops [])))]))"
  using ops_reply [OF assms(1-3) assms(4)] by (simp only: reply_text_def reply_json.simps)

theorem result_refines_members_witness:
  "result_reply (\<lambda>_. True) 3
      (fold (run_op (\<lambda>_. True) sample_cyg False) [Out_I64 ''n'' 2, Out_I64 ''m'' 4] arpc_res_zero) =
     Some (json_text (JObj [(''id'', JNum 3), (''result'',
       JObj [(ARPC_RET_KEY, JNull), (''n'', JNum 2), (''m'', JNum 4)])]))"
  using result_refines_members [of "\<lambda>_. True" "[Out_I64 ''n'' 2, Out_I64 ''m'' 4]" 3 sample_cyg False]
  by (simp add: with_ret_def i64_range_def LLONG_MAX_def fits_def member_text_def str_text_def esc_char_def
      ARPC_RET_KEY_def int_text_def rev_digits.simps)

text \<open>
  A client that switches a callback on or off for a live handle changes that callback for
  that handle and no other: from then on the server sends it exactly if it is switched on.
\<close>

theorem callback_switched:
  assumes "hinv (sv_tab sv)" and "regs_ok (sv_regs sv)" and "\<forall>n. alloc n"
    and "req_args rq [JNum hid, JStr (fst (kinds ! k)), JNum flag]" and "\<not> rq_bad rq"
    and "arg_pointer (sv_tab sv) th (word_of_int hid) \<noteq> 0"
    and "distinct (map fst kinds)" and "k < length kinds" and "k < 32"
  shows "\<exists>rs' sv'. arpc_cb_set alloc th kinds rq rs sv = Some (0, rq, rs', sv') \<and> regs_ok (sv_regs sv') \<and>
    sv_tab sv' = sv_tab sv \<and>
    (\<forall>h j. j < 32 \<longrightarrow> arpc_cb_wanted alloc (sv_regs sv') h j =
       (if h = word_of_int hid \<and> j = k then signed_take_bit 31 flag \<noteq> 0 else arpc_cb_wanted alloc (sv_regs sv) h j))"
  using cb_set_exact [OF assms, of rs] by blast

lemma sample_args_wire: "i64_range v \<Longrightarrow> wire_value (JArr [JNum v, JStr ''log'', JNum 1])"
  using rev_digits_short [of v]
  by (simp add: wire_value_def i64_range_def LLONG_MAX_def AJ_MAX_DEPTH_def str_text_def esc_char_def rev_digits.simps
      int_text_def [of 1])

theorem callback_switched_witness:
  "\<exists>hid h rq sv' rs'. arpc_handle_put (\<lambda>_. True) 1 htab_init 0x1000 1 0 = Some (hid, h) \<and>
     arpc_cb_set (\<lambda>_. True) 1 (e_kinds sample_env) rq arpc_res_zero ((server_init ())\<lparr>sv_tab := h\<rparr>) = Some (0, rq, rs', sv') \<and>
     arpc_cb_wanted (\<lambda>_. True) (sv_regs sv') hid 0 \<and> \<not> arpc_cb_wanted (\<lambda>_. True) (sv_regs sv') hid 1"
proof -
  obtain hid h s where h: "arpc_handle_put (\<lambda>_. True) 1 htab_init 0x1000 1 0 = Some (hid, h)" "hinv h"
      "hview h = [hid \<mapsto> s]" "s_tag s = 1" "s_ptr s = 0x1000" using sample_table by blast
  obtain rq where rq: "req_args rq [JNum (sint hid), JStr ''log'', JNum 1]" "\<not> rq_bad rq"
    using parsed_args [OF sample_args_wire [OF sint_range [of hid]]] by blast
  let ?kinds = "e_kinds (sample_env :: (unit, unit) server_env)"
  have k: "fst (?kinds ! 0) = ''log''" "distinct (map fst ?kinds)" "0 < length ?kinds" by (simp_all add: sample_env_def)
  have p: "arg_pointer h 1 (word_of_int (sint hid)) \<noteq> 0" using h(3-5) by (simp add: arg_pointer_def)
  let ?sv = "(server_init ())\<lparr>sv_tab := h\<rparr>"
  have sv: "sv_tab ?sv = h" "regs_ok (sv_regs ?sv)" "sv_regs ?sv = []"
    by (simp_all add: server_init_def regs_ok_def)
  from callback_switched [of ?sv "\<lambda>_. True" rq "sint hid" "e_kinds sample_env" 0 1 1 arpc_res_zero] h(2) sv rq k p
  obtain rs' sv' where r: "arpc_cb_set (\<lambda>_. True) 1 (e_kinds sample_env) rq arpc_res_zero ?sv = Some (0, rq, rs', sv')"
      "\<forall>h j. j < 32 \<longrightarrow> arpc_cb_wanted (\<lambda>_. True) (sv_regs sv') h j =
         (if h = word_of_int (sint hid) \<and> j = 0 then signed_take_bit 31 (1 :: int) \<noteq> 0
          else arpc_cb_wanted (\<lambda>_. True) (sv_regs ?sv) h j)" by auto
  have "signed_take_bit 31 (1 :: int) = 1" by (simp add: signed_take_bit_def)
  with r(2) sv(3) have "arpc_cb_wanted (\<lambda>_. True) (sv_regs sv') hid 0" "\<not> arpc_cb_wanted (\<lambda>_. True) (sv_regs sv') hid 1"
    by (simp_all add: arpc_cb_wanted_def reg_for_def)
  with r(1) h(1) show ?thesis by blast
qed

text \<open>
  C29. A callback is sent as one frame with the next number, its handle and its arguments. Of all
  that may come back only an object with that number counts, and its value is the result; without an
  answer, and for text that is not JSON, a value that is not an object or the number of another
  question, the result is the default.
\<close>

theorem callback_exchange:
  assumes "sv_conn sv" and "args_value args v" and "i64_range (sv_seq sv)" and "\<forall>n. alloc n"
    and "length (json_text (cb_json (fst (kinds ! kind)) (sv_seq sv) handle v)) + 32 \<le> 2 ^ 63"
    and "exch (sv\<lparr>sv_seq := sv_seq sv + 1\<rparr>) (json_text (cb_json (fst (kinds ! kind)) (sv_seq sv) handle v)) =
      Some (reply, sv2)"
  shows "\<exists>a. arpc_cb_send alloc kinds exch kind handle args dflt sv = Some (a, sv2) \<and>
    (case reply of
       None \<Rightarrow> a = dflt
     | Some r \<Rightarrow>
         a = (case aj_parse alloc (cstr r) of
                None \<Rightarrow> dflt
              | Some d \<Rightarrow>
                  if n_type (d_nodes d ! 0) = AJ_OBJ \<and> aj_i64 d (aj_member d 0 ''cbseq'') (-1) = sv_seq sv
                  then aj_i64 d (aj_member d 0 ARPC_RET_KEY) dflt else dflt) \<and>
         (\<forall>kvs. wire_value (JObj kvs) \<and> r = json_text (JObj kvs) \<longrightarrow>
            a = (if num_or (map_of kvs ''cbseq'') (-1) = sv_seq sv
                 then num_or (map_of kvs ARPC_RET_KEY) dflt else dflt)))"
proof (cases reply)
  case None
  with cb_send_exact [where exch = exch, OF assms(1-6)] show ?thesis by simp
next
  case (Some r)
  with cb_send_exact [where exch = exch, OF assms(1-6)] cb_answer_value [OF _ assms(4)]
    cb_answer_cases [of alloc "sv_seq sv" dflt r] show ?thesis
    by (auto simp del: json_text.simps)
qed

theorem callback_exchange_witness:
  "arpc_cb_send (\<lambda>_. True) (e_kinds sample_env)
     (\<lambda>sv sent. Some (Some (json_text (JObj [(''cbseq'', JNum 1), (ARPC_RET_KEY, JNum 4)])), sv))
     1 5 None 9 ((server_init ())\<lparr>sv_conn := True\<rparr>) =
   Some (4, (server_init ())\<lparr>sv_conn := True, sv_seq := 2\<rparr>) \<and>
   arpc_cb_send (\<lambda>_. True) (e_kinds sample_env) (\<lambda>sv sent. Some (Some ''x'', sv))
     1 5 None 9 ((server_init ())\<lparr>sv_conn := True\<rparr>) =
   Some (9, (server_init ())\<lparr>sv_conn := True, sv_seq := 2\<rparr>)"
proof -
  have w: "wire_value (JObj [(''cbseq'', JNum 1), (ARPC_RET_KEY, JNum 4)])"
    by (simp add: wire_value_def LLONG_MAX_def AJ_MAX_DEPTH_def str_text_def esc_char_def int_text_def
        rev_digits.simps ARPC_RET_KEY_def)
  have x: "aj_parse (\<lambda>_. True) (cstr ''x'') = None"
    by (simp add: aj_parse_def parse_value.simps parse_scalar_def p_skip_def is_ws_def is_digit_def cstr_def)
  note C = callback_exchange [where sv = "(server_init ())\<lparr>sv_conn := True\<rparr>" and args = None and v = JNull
      and alloc = "\<lambda>_. True" and kinds = "e_kinds sample_env" and kind = 1 and handle = 5 and dflt = 9]
  note simps = server_init_def args_value_def i64_range_def LLONG_MAX_def cb_json_def sample_env_def num_or_def
    str_text_def esc_char_def int_text_def rev_digits.simps ARPC_RET_KEY_def
  show ?thesis
  proof
    let ?kvs = "[(''cbseq'', JNum 1), (ARPC_RET_KEY, JNum 4)]" and ?sv = "(server_init ())\<lparr>sv_conn := True\<rparr>"
    let ?exch = "\<lambda>sv (sent :: string). Some (Some (json_text (JObj ?kvs)), sv)"
    have "sv_conn ?sv" "args_value None JNull" "i64_range (sv_seq ?sv)" "\<forall>n :: nat. True"
      "length (json_text (cb_json (fst (e_kinds sample_env ! 1)) (sv_seq ?sv) 5 JNull)) + 32 \<le> 2 ^ 63"
      by (simp_all add: simps)
    note C1 = C [where exch = ?exch, OF this refl, unfolded option.case]
    have vals: "num_or (map_of ?kvs ''cbseq'') (-1) = 1" "num_or (map_of ?kvs ARPC_RET_KEY) 9 = 4" "sv_seq ?sv = 1"
      by (simp_all add: num_or_def ARPC_RET_KEY_def server_init_def)
    obtain a where a: "arpc_cb_send (\<lambda>_. True) (e_kinds sample_env) ?exch 1 5 None 9 ?sv = Some (a, ?sv\<lparr>sv_seq := sv_seq ?sv + 1\<rparr>)"
        "\<forall>kvs. wire_value (JObj kvs) \<and> json_text (JObj ?kvs) = json_text (JObj kvs) \<longrightarrow>
           a = (if num_or (map_of kvs ''cbseq'') (-1) = sv_seq ?sv then num_or (map_of kvs ARPC_RET_KEY) 9 else 9)"
      using C1 by (elim exE conjE) (rule that)
    have "a = 4" using mp [OF spec [OF a(2), of ?kvs] conjI [OF w refl]] unfolding vals by simp
    with a(1) show "arpc_cb_send (\<lambda>_. True) (e_kinds sample_env) ?exch 1 5 None 9 ?sv = Some (4, ?sv\<lparr>sv_seq := 2\<rparr>)"
      unfolding vals by simp
    show "arpc_cb_send (\<lambda>_. True) (e_kinds sample_env) (\<lambda>sv sent. Some (Some ''x'', sv))
        1 5 None 9 ((server_init ())\<lparr>sv_conn := True\<rparr>) = Some (9, (server_init ())\<lparr>sv_conn := True, sv_seq := 2\<rparr>)"
      using C [where exch = "\<lambda>sv sent. Some (Some ''x'', sv)"] x by (simp add: simps)
  qed
qed

section \<open>Keyrings and paths\<close>

text \<open>
  C31. What the server believes about gpgme stays true, and a call for a handle with no error
  pending runs with gpgme pointed at that handle's own gpgdir, whichever handle the call before
  it was for.
\<close>

theorem keyring_followed:
  assumes "gpgme_ok env engine" and "gpg_inv engine g w" and "\<forall>n. alloc n"
    and "arpc_gpgdir_follow alloc env g w h = (g', w')"
  shows "gpg_inv engine g' w' \<and>
    (h \<noteq> 0 \<and> errno_ok env w h \<and> (\<forall>w d. \<not> fst (set_engine_info env w d)) \<longrightarrow>
       same (engine w') (fst (get_gpgdir env w h)))"
  using follow_inv [OF assms] follow_engine [OF assms(1-3) _ _ _ assms(4)] by blast

theorem keyring_followed_witness:
  "same (snd (arpc_gpgdir_follow (\<lambda>_. True) sample_gpg gpg_init None 7)) (Some ''/etc/b'')"
proof -
  have ok: "gpgme_ok sample_gpg (\<lambda>w. w)" by (simp add: gpgme_ok_def sample_gpg_def)
  have i: "gpg_inv (\<lambda>w. w) gpg_init None" by (simp add: gpg_inv_def gpg_init_def)
  obtain g' w' where r: "arpc_gpgdir_follow (\<lambda>_. True) sample_gpg gpg_init None 7 = (g', w')" by fastforce
  from keyring_followed [OF ok i _ r] r show ?thesis by (simp add: sample_gpg_def)
qed

text \<open>
  What following does not survive: without memory to record the directory gpgme was just
  pointed at, the server keeps believing in the old one, and a later call for a handle with the
  old directory leaves gpgme at the other handle's keyring.
\<close>

theorem keyring_stale_without_memory:
  assumes "gpgme_ok env engine" and "\<forall>w d. \<not> fst (set_engine_info env w d)" and "\<forall>n. \<not> alloc n"
    and "g_pointed g" and "h \<noteq> 0" and "errno_ok env w h" and "get_gpgdir env w h = (Some d, w1)"
    and "seen_at 0 (g_seen g) h = Some i" and "sn_gpgdir (g_seen g ! i) = Some d" and "\<not> same (Some d) (g_gpgdir g)"
  shows "\<exists>g' w'. arpc_gpgdir_follow alloc env g w h = (g', w') \<and> engine w' = Some d \<and> \<not> gpg_inv engine g' w' \<and>
    (\<forall>h2 alloc2. errno_ok env w' h2 \<and> same (fst (get_gpgdir env w' h2)) (g_gpgdir g) \<longrightarrow>
       engine (snd (arpc_gpgdir_follow alloc2 env g' w' h2)) = Some d)"
proof -
  obtain e w3 where e: "set_engine_info env (check_version env w1) (Some d) = (e, w3)" by fastforce
  have ne: "\<not> e" using assms(2) e by (metis fst_conv)
  have eng: "engine w3 = Some d" using assms(1) e ne unfolding gpgme_ok_def by (metis (mono_tags, lifting) case_prod_conv)
  have "gpgdir_of alloc env g w h = (Some i, g, w1)"
    using assms(6-9) by (simp add: gpgdir_of_def)
  then have f: "arpc_gpgdir_follow alloc env g w h = (g, w3)"
    using assms(3-5,9,10) e ne by (simp add: arpc_gpgdir_follow_def replace_def strdup_def)
  have "engine (snd (arpc_gpgdir_follow alloc2 env g w3 h2)) = Some d"
    if h2: "errno_ok env w3 h2" "same (fst (get_gpgdir env w3 h2)) (g_gpgdir g)" for h2 alloc2
  proof -
    obtain s g1 w4 where d: "gpgdir_of alloc2 env g w3 h2 = (s, g1, w4)" by (metis prod_cases3)
    note k = gpgdir_of_facts [OF d]
    have "same (sn_gpgdir (g_seen g1 ! j)) (g_gpgdir g1)" if "s = Some j" for j
      using same_trans [OF k(5) [OF h2(1) that] h2(2)] k(2) by simp
    then show ?thesis
      using k(1) k(3) [OF assms(1)] assms(4) eng d by (cases s) (auto simp: arpc_gpgdir_follow_def)
  qed
  with f eng assms(4,10) show ?thesis by (auto simp: gpg_inv_def)
qed

theorem keyring_stale_without_memory_witness:
  "\<exists>w'. arpc_gpgdir_follow (\<lambda>_. False) sample_gpg
      \<lparr>g_seen = [\<lparr>sn_handle = 7, sn_gpgdir = Some ''/etc/b''\<rparr>, \<lparr>sn_handle = 1, sn_gpgdir = Some ''/etc/a''\<rparr>],
       g_pointed = True, g_gpgdir = Some ''/etc/a''\<rparr> (Some ''/etc/a'') 7 =
      (\<lparr>g_seen = [\<lparr>sn_handle = 7, sn_gpgdir = Some ''/etc/b''\<rparr>, \<lparr>sn_handle = 1, sn_gpgdir = Some ''/etc/a''\<rparr>],
       g_pointed = True, g_gpgdir = Some ''/etc/a''\<rparr>, w') \<and> w' = Some ''/etc/b''"
  (is "\<exists>w'. arpc_gpgdir_follow _ _ ?g _ _ = _ \<and> _")
proof -
  have ok: "gpgme_ok sample_gpg (\<lambda>w. w)" by (simp add: gpgme_ok_def sample_gpg_def)
  obtain g' w' where "arpc_gpgdir_follow (\<lambda>_. False) sample_gpg ?g (Some ''/etc/a'') 7 = (g', w')" "w' = Some ''/etc/b''"
    using keyring_stale_without_memory [OF ok, of "\<lambda>_. False" ?g 7 "Some ''/etc/a''" "''/etc/b''" "Some ''/etc/a''" 0]
    by (auto simp: sample_gpg_def same_def cstr_def)
  then show ?thesis
    by (auto simp: arpc_gpgdir_follow_def gpgdir_of_def sample_gpg_def same_def cstr_def replace_def strdup_def Let_def)
qed

text \<open>
  C32. Every path of a list reaches the client: converted if the connection asked for Windows paths
  and the conversion succeeded, and as it is otherwise. Where the writer has memory (it allocates 256
  bytes and more at a time) the list arrives whole, no failed conversion and no allocation for one that
  failed can lose a path, turn it into null or disturb the rest. Paths the client sends are converted
  the other way; a connection that did not ask gets and sends paths unchanged.
\<close>

theorem paths_cross:
  assumes "length (json_text (JArr (map (path_value alloc cyg win32) l))) + 32 \<le> 2 ^ 63"
  shows "((\<forall>n \<ge> 256. alloc n) \<longrightarrow> \<not> w_err (arpc_put_path_list alloc cyg win32 ajw_init l)) \<and>
    (\<not> w_err (arpc_put_path_list alloc cyg win32 ajw_init l) \<longrightarrow>
      w_text (arpc_put_path_list alloc cyg win32 ajw_init l) =
        json_text (if l = [] then JNull else JArr (map (path_value alloc cyg win32) l))) \<and>
    (\<forall>s. path_value alloc cyg win32 (Some s) =
       JStr (cstr (if win32 \<and> cstr s \<noteq> [] \<and> 0 < conv_size cyg CCP_POSIX_TO_WIN_A s \<and> alloc (nat (conv_size cyg CCP_POSIX_TO_WIN_A s))
         then (case conv_path cyg CCP_POSIX_TO_WIN_A s (nat (conv_size cyg CCP_POSIX_TO_WIN_A s)) of None \<Rightarrow> s | Some t \<Rightarrow> t)
         else s))) \<and>
    (\<forall>s. path_value alloc cyg False s = str_value s) \<and>
    ((\<forall>n. alloc n) \<longrightarrow>
       arpc_paths_in_list alloc cyg win32 l = map (map_option (path_form alloc cyg win32 CCP_WIN_A_TO_POSIX)) l \<and>
       arpc_paths_in_list alloc cyg False l = map (map_option cstr) l)"
proof -
  have "length (json_text (if l = [] then JNull else JArr (map (path_value alloc cyg win32) l))) + 32 \<le> 2 ^ 63"
    using assms by (cases "l = []") simp_all
  note w = writes_init(2,3) [OF writes_path_list this]
  have "(\<forall>n. alloc n) \<longrightarrow> arpc_paths_in_list alloc cyg win32 l = map (map_option (path_form alloc cyg win32 CCP_WIN_A_TO_POSIX)) l"
  proof
    assume "\<forall>n. alloc n"
    then have c: "arpc_path_in alloc cyg win32 so = map_option (path_form alloc cyg win32 CCP_WIN_A_TO_POSIX) so" for so
      using convert_form [of alloc cyg win32 _ CCP_WIN_A_TO_POSIX]
      by (cases so) (auto simp: arpc_path_in_def convert_def [of _ _ _ None])
    show "arpc_paths_in_list alloc cyg win32 l = map (map_option (path_form alloc cyg win32 CCP_WIN_A_TO_POSIX)) l"
      unfolding arpc_paths_in_list_def c by (auto split: option.split)
  qed
  moreover have "(\<forall>n. alloc n) \<longrightarrow> arpc_paths_in_list alloc cyg False l = map (map_option cstr) l"
    unfolding arpc_paths_in_list_def using posix_paths(2) [of alloc cyg] by (auto split: option.split)
  ultimately show ?thesis using w posix_paths(1) [of alloc cyg]
    by (auto simp: path_value_def path_form_def Let_def split: option.split)
qed

text \<open>The buffer for the first conversion is refused, the one for the second is not.\<close>

theorem paths_cross_witness:
  "let cyg = \<lparr>conv_size = (\<lambda>_ s. if length s < 8 then 8 else 300), conv_path = (\<lambda>_ _ _. Some ''C:/lib'')\<rparr> in
     w_text (arpc_put_path_list (\<lambda>n. 256 \<le> n) cyg True ajw_init [Some ''/etc/x'', Some ''/usr/lib'']) =
       json_text (JArr [JStr ''/etc/x'', JStr ''C:/lib''])"
proof -
  let ?cyg = "\<lparr>conv_size = (\<lambda>_ s. if length s < 8 then 8 else 300), conv_path = (\<lambda>_ _ _. Some ''C:/lib'')\<rparr>"
  let ?l = "[Some ''/etc/x'', Some ''/usr/lib'']"
  have v: "map (path_value (\<lambda>n. 256 \<le> n) ?cyg True) ?l = [JStr ''/etc/x'', JStr ''C:/lib'']"
    by (simp add: path_value_def path_form_def cstr_def)
  have "length (json_text (JArr (map (path_value (\<lambda>n. 256 \<le> n) ?cyg True) ?l))) + 32 \<le> 2 ^ 63"
    unfolding v by (simp add: str_text_def esc_char_def)
  from paths_cross [OF this] have "w_text (arpc_put_path_list (\<lambda>n. 256 \<le> n) ?cyg True ajw_init ?l) =
      json_text (if ?l = [] then JNull else JArr (map (path_value (\<lambda>n. 256 \<le> n) ?cyg True) ?l))" by blast
  then show ?thesis unfolding v Let_def by (simp only: list.distinct if_False)
qed

section \<open>Objects that libalpm frees\<close>

text \<open>
  C22. When a transaction is released, none of the packages that die with it is on file any
  more: not the ones loaded from files, nor the copies the transaction keeps of what it removes;
  nothing is added, and a release that failed leaves the table alone.
\<close>

theorem release_forgets:
  assumes "\<forall>n. alloc n" and "handle_arg th rq sv = Some (h, rq1)" and "h \<noteq> 0"
    and "trans_get_add env (sv_ext sv) h = (added, w1)" and "files_of env added w1 = (fs, w2)"
    and "trans_get_remove env w2 h = (removed, w3)" and "hinv (sv_tab sv2)"
  shows "\<exists>d. arpc_hook_alpm_trans_release_pre alloc th env rq sv = Some (d, rq1, sv\<lparr>sv_ext := w3\<rparr>) \<and>
    (\<exists>sv'. arpc_hook_alpm_trans_release_post alloc tp d rc sv2 = Some sv' \<and>
       (if rc = 0
        then hinv (sv_tab sv') \<and> hview (sv_tab sv') \<subseteq>\<^sub>m hview (sv_tab sv2) \<and>
          (\<forall>p \<in> set fs \<union> set removed. p \<noteq> 0 \<longrightarrow> (\<nexists>s. filed (sv_tab sv') p tp s))
        else sv' = sv2))"
proof -
  obtain d where d: "arpc_hook_alpm_trans_release_pre alloc th env rq sv = Some (d, rq1, sv\<lparr>sv_ext := w3\<rparr>)"
      "noted d (non_null fs @ non_null removed)" using release_pre_notes [OF assms(1-6)] by blast
  with noted_dropped [OF assms(7,1) d(2), of tp] show ?thesis
    by (auto simp: arpc_hook_alpm_trans_release_post_def)
qed

text \<open>A request whose first argument is the handle of \<open>sample_table\<close>.\<close>

lemma sample_request:
  obtains h s rq where "hinv h" "filed h 0x1000 1 s" "handle_arg 1 rq ((server_init w)\<lparr>sv_tab := h\<rparr>) = Some (0x1000, rq)"
proof -
  obtain hid h s where h: "hinv h" "filed h 0x1000 1 s" "s_id s = hid" "hview h = [hid \<mapsto> s]" "s_tag s = 1" "s_ptr s = 0x1000"
    "hid \<noteq> 0" using sample_table by blast
  obtain rq where rq: "req_args rq [JNum (sint hid), JStr ''log'', JNum 1]"
    using parsed_args [OF sample_args_wire [OF sint_range [of hid]]] by blast
  have "arpc_arg_id rq 0 = (hid, rq)" using arg_id_value [OF rq, of 0] by (simp add: arg_at_def)
  from arg_handle_value [OF h(1) this, of 1] h have "arpc_arg_handle h rq 0 1 = Some (0x1000, rq)"
    by (simp add: arg_pointer_def)
  then show ?thesis by (intro that [OF h(1,2)]) (simp add: handle_arg_def)
qed

theorem release_forgets_witness:
  "\<exists>h s rq d sv'. hinv h \<and> filed h 0x1000 1 s \<and>
     arpc_hook_alpm_trans_release_pre (\<lambda>_. True) 1 sample_alpm rq ((server_init ())\<lparr>sv_tab := h\<rparr>) =
       Some (d, rq, (server_init ())\<lparr>sv_tab := h\<rparr>) \<and>
     arpc_hook_alpm_trans_release_post (\<lambda>_. True) 1 d 0 ((server_init ())\<lparr>sv_tab := h\<rparr>) = Some sv' \<and>
     (\<nexists>s. filed (sv_tab sv') 0x1000 1 s)"
proof -
  obtain h s rq where h: "hinv h" "filed h 0x1000 1 s"
      "handle_arg 1 rq ((server_init ())\<lparr>sv_tab := h\<rparr>) = Some (0x1000, rq)" by (rule sample_request)
  let ?sv = "(server_init ())\<lparr>sv_tab := h\<rparr>"
  have e: "trans_get_add sample_alpm (sv_ext ?sv) 0x1000 = ([], ())" "files_of sample_alpm [] () = ([], ())"
      "trans_get_remove sample_alpm () 0x1000 = ([0x1000], ())" "hinv (sv_tab ?sv)" "?sv\<lparr>sv_ext := ()\<rparr> = ?sv"
    using h(1) by (simp_all add: sample_alpm_def server_init_def)
  from release_forgets [where alloc = "\<lambda>_. True" and rc = 0 and tp = 1, OF _ h(3) _ e(1-4)] e(5)
  show ?thesis using h(1,2) by auto
qed

text \<open>
  C23. When a transaction is committed, the installed packages it replaces or removes are
  forgotten unless the commit failed with an error that libalpm raises before it changes
  anything, in which case the table is left alone.
\<close>

theorem commit_forgets:
  assumes "\<forall>n. alloc n" and "handle_arg th rq sv = Some (h, rq1)" and "h \<noteq> 0"
    and "get_localdb env (sv_ext sv) h = (db, w1)" and "db \<noteq> 0" and "db_get_pkgcache env w1 db = (cache, w2)"
    and "trans_get_add env w2 h = (added, w3)" and "installed_of env cache added w3 = (fs, w4)"
    and "trans_get_remove env w4 h = (removed, w5)" and "installed_of env cache removed w5 = (gs, w6)"
    and "hinv (sv_tab sv2)" and "handle_arg th rq1 sv2 = Some (h2, rq2)"
  shows "\<exists>d. arpc_hook_alpm_trans_commit_pre alloc th env rq sv = Some (d, rq1, sv\<lparr>sv_ext := w6\<rparr>) \<and>
    (\<exists>sv'. arpc_hook_alpm_trans_commit_post alloc th tp env rq1 d rc sv2 = Some (rq2, sv') \<and>
       (if rc = 0 \<or> h2 = 0 \<or> \<not> touched_nothing (alpm_errno env (sv_ext sv2) h2)
        then hinv (sv_tab sv') \<and> hview (sv_tab sv') \<subseteq>\<^sub>m hview (sv_tab sv2) \<and>
          (\<forall>p \<in> set fs \<union> set gs. p \<noteq> 0 \<longrightarrow> (\<nexists>s. filed (sv_tab sv') p tp s))
        else sv' = sv2))"
proof -
  obtain d where d: "arpc_hook_alpm_trans_commit_pre alloc th env rq sv = Some (d, rq1, sv\<lparr>sv_ext := w6\<rparr>)"
      "noted d (non_null fs @ non_null gs)" using commit_pre_notes [OF assms(1-10)] by blast
  obtain sv' where sv': "drop_all alloc d tp sv2 = Some sv'" "hinv (sv_tab sv')" "hview (sv_tab sv') \<subseteq>\<^sub>m hview (sv_tab sv2)"
      "\<forall>p \<in> set fs \<union> set gs. p \<noteq> 0 \<longrightarrow> (\<nexists>s. filed (sv_tab sv') p tp s)"
    using noted_dropped [OF assms(11,1) d(2), of tp] by blast
  then show ?thesis unfolding d(1) using assms(12)
    by (cases "rc = 0 \<or> h2 = 0 \<or> \<not> touched_nothing (alpm_errno env (sv_ext sv2) h2)")
      (simp_all add: arpc_hook_alpm_trans_commit_post_def)
qed

theorem commit_forgets_witness:
  "\<exists>h s rq d sv'. filed h 0x1000 1 s \<and>
     arpc_hook_alpm_trans_commit_pre (\<lambda>_. True) 1 sample_alpm rq ((server_init ())\<lparr>sv_tab := h\<rparr>) =
       Some (d, rq, (server_init ())\<lparr>sv_tab := h\<rparr>) \<and>
     arpc_hook_alpm_trans_commit_post (\<lambda>_. True) 1 1 sample_alpm rq d 0 ((server_init ())\<lparr>sv_tab := h\<rparr>) = Some (rq, sv') \<and>
     (\<nexists>s. filed (sv_tab sv') 0x1000 1 s)"
proof -
  obtain h s rq where h: "hinv h" "filed h 0x1000 1 s"
      "handle_arg 1 rq ((server_init ())\<lparr>sv_tab := h\<rparr>) = Some (0x1000, rq)" by (rule sample_request)
  let ?sv = "(server_init ())\<lparr>sv_tab := h\<rparr>"
  have e: "get_localdb sample_alpm (sv_ext ?sv) 0x1000 = (0x2000, ())" "db_get_pkgcache sample_alpm () 0x2000 = ([0x1000], ())"
      "trans_get_add sample_alpm () 0x1000 = ([], ())" "installed_of sample_alpm [0x1000] [] () = ([], ())"
      "trans_get_remove sample_alpm () 0x1000 = ([0x1000], ())" "installed_of sample_alpm [0x1000] [0x1000] () = ([0x1000], ())"
      "hinv (sv_tab ?sv)" "?sv\<lparr>sv_ext := ()\<rparr> = ?sv"
    using h(1) by (simp_all add: sample_alpm_def server_init_def)
  from commit_forgets [where alloc = "\<lambda>_. True" and rc = 0 and tp = 1, OF _ h(3) _ e(1) _ e(2-7) h(3)] e(8)
  show ?thesis using h(2) by auto
qed

text \<open>
  C24. Updating databases that were not already current drops, for each database in the request,
  exactly the ids below it: the ids of the databases themselves stay.
\<close>

theorem db_update_prunes:
  assumes "hinv (sv_tab sv)" and "\<forall>n. alloc n" and "req_args rq [v, JArr (map JNum ids)]"
    and "\<forall>i \<in> set ids. word_of_int i \<noteq> (0 :: 64 word)"
  shows "\<exists>h'. arpc_hook_alpm_db_update_post alloc rq rc sv = Some (rq, sv\<lparr>sv_tab := h'\<rparr>) \<and> hinv h' \<and>
    hview h' = (if rc = 1 then hview (sv_tab sv)
                else fold (\<lambda>i v. prune v (word_of_int i) True) ids (hview (sv_tab sv)))"
proof (cases "rc = 1")
  case True
  then show ?thesis
    using assms(1) by (intro exI [of _ "sv_tab sv"]) (simp add: arpc_hook_alpm_db_update_post_def)
qed (use db_update_view [OF assms] in simp)

theorem db_update_prunes_witness:
  "\<exists>rq h'. req_args rq [JNum 5, JArr (map JNum [9])] \<and>
     arpc_hook_alpm_db_update_post (\<lambda>_. True) rq 0 (server_init ()) = Some (rq, (server_init ())\<lparr>sv_tab := h'\<rparr>) \<and> hinv h'"
proof -
  have "wire_value (JArr [JNum 5, JArr (map JNum [9])])"
    by (simp add: wire_value_def LLONG_MAX_def AJ_MAX_DEPTH_def int_text_def rev_digits.simps)
  from parsed_args [OF this] obtain rq where rq: "req_args rq [JNum 5, JArr (map JNum [9])]" by blast
  have "hinv (sv_tab (server_init ()))" by (simp add: server_init_def hinv_init)
  from db_update_prunes [OF this _ rq, of "\<lambda>_. True" 0] rq show ?thesis by auto
qed

section \<open>Connections\<close>

text \<open>
  C3. On a connection whose methods make no callbacks, the requests are answered one by one and
  in order, however the pipe splits its transfers: what the server sends is exactly one frame per
  request, carrying that request's id, and after the last one it lets the connection go. A new
  connection starts with POSIX paths.
\<close>

theorem requests_in_order:
  assumes "duplex io inp outp" and "server_ok (pipe_alone inp outp) env" and "hinv (sv_tab sv)"
    and "\<forall>r \<in> set rs. frame_ok r" and "inp (sv_ext sv) = frames_text rs"
  shows "\<exists>ocs sv'. serve_connection (\<lambda>_. True) io env sv = Some sv' \<and> hinv (sv_tab sv') \<and> \<not> sv_conn sv' \<and>
    length ocs = length rs \<and>
    outp (sv_ext sv') = outp (sv_ext sv) @ concat (map2 (\<lambda>r oc. sent_text (reply_text (rid_of (cstr r)) oc)) rs ocs)"
  using serve_loop_exact [OF assms(1,2), of "sv\<lparr>sv_conn := True, sv_win32 := False\<rparr>" rs] assms(3-5)
  by (auto simp: serve_connection_def replies_text_def)

lemma sample_duplex: "duplex sample_pipe fst (\<lambda>w. fst (snd w))"
  unfolding duplex_def write_ok_def read_ok_def
  by (auto simp: write_some_def read_some_def sample_pipe_def min_def split: if_splits)

lemma sample_server_ok:
  assumes "reflp R" and "transp R"
  shows "server_ok R (sample_env :: ('w, unit) server_env)"
proof -
  have "R w w" for w using assms(1) by (simp add: reflp_def)
  then show ?thesis
    using assms sample_methods_ok
    by (auto simp: server_ok_def env_keeps_def gpg_keeps_def sample_env_def sample_handler_def)
qed

lemma pipe_alone_order: "reflp (pipe_alone inp outp)" "transp (pipe_alone inp outp)"
  by (auto simp: pipe_alone_def reflp_def transp_def)

theorem requests_in_order_witness:
  "\<exists>oc sv'. serve_connection (\<lambda>_. True) sample_pipe sample_env
       (server_init (frames_text [''nonsense''], [], 0, [])) = Some sv' \<and>
     fst (snd (sv_ext sv')) = sent_text (reply_text (rid_of ''nonsense'') oc)"
proof -
  let ?sv = "server_init (frames_text [''nonsense''], [] :: string, 0 :: nat, [] :: string)"
  have c: "cstr ''nonsense'' = ''nonsense''" by (simp add: cstr_def)
  have "\<exists>ocs sv'. serve_connection (\<lambda>_. True) sample_pipe sample_env ?sv = Some sv' \<and> hinv (sv_tab sv') \<and> \<not> sv_conn sv' \<and>
      length ocs = length [''nonsense''] \<and>
      fst (snd (sv_ext sv')) = fst (snd (sv_ext ?sv)) @
        concat (map2 (\<lambda>r oc. sent_text (reply_text (rid_of (cstr r)) oc)) [''nonsense''] ocs)"
    by (rule requests_in_order [OF sample_duplex sample_server_ok [OF pipe_alone_order]])
      (simp_all add: server_init_def hinv_init frame_ok_def ARPC_MAX_FRAME_def)
  then show ?thesis unfolding c by (auto simp: server_init_def length_Suc_conv c)
qed

text \<open>
  C19. While a callback waits for its answer, the requests that arrive first are served, in order
  and on the same connection, and the first frame that is not a request is the answer; what
  follows it is left in the pipe.
\<close>

theorem nested_requests_served:
  assumes "duplex io inp outp" and "server_ok (pipe_alone inp outp) env" and "hinv (sv_tab sv)" and "sv_conn sv"
    and "\<forall>r \<in> set rs. frame_ok r \<and> is_request r" and "frame_ok ans" and "\<not> is_request ans"
    and "inp (sv_ext sv) = frames_text (rs @ [ans]) @ rest"
  shows "\<exists>ocs sv'. arpc_conn_exchange (\<lambda>_. True) io env sv msg = Some (Some ans, sv') \<and> hinv (sv_tab sv') \<and>
    length ocs = length rs \<and> inp (sv_ext sv') = rest \<and>
    outp (sv_ext sv') = outp (sv_ext sv) @ sent_text msg @
      concat (map2 (\<lambda>r oc. sent_text (reply_text (rid_of (cstr r)) oc)) rs ocs)"
proof -
  obtain w1 where s: "send_framed io sv msg = (True, sv\<lparr>sv_ext := w1\<rparr>)" "outp w1 = outp (sv_ext sv) @ sent_text msg"
      "inp w1 = inp (sv_ext sv)"
    using send_framed_text [OF assms(1), of sv msg] by blast
  obtain ocs sv' where "exchange_loop (\<lambda>_. True) io env (sv\<lparr>sv_ext := w1\<rparr>) = Some (Some ans, sv')" "hinv (sv_tab sv')"
      "length ocs = length rs" "outp (sv_ext sv') = outp w1 @ replies_text rs ocs" "inp (sv_ext sv') = rest"
    using exchange_loop_exact [OF assms(1,2,6,7), of "sv\<lparr>sv_ext := w1\<rparr>" rs rest] assms(3,5,8) s(3) by auto
  with s assms(4) show ?thesis by (auto simp: arpc_conn_exchange_def replies_text_def)
qed

lemma sample_frames: "is_request stop_request" "\<not> is_request ''{}''" "frame_ok ''{}''"
proof -
  show "frame_ok ''{}''" by (simp add: frame_ok_def ARPC_MAX_FRAME_def)
  have "readable stop_json" "readable (JObj [])"
    by (simp_all add: readable_def stop_json_def LLONG_MAX_def AJ_MAX_DEPTH_def str_text_def esc_char_def int_text_def rev_digits.simps)
  then show "is_request stop_request" "\<not> is_request ''{}''"
    using request_object [of "[(''id'', JNum 1), (''method'', JStr ''arpc.shutdown''), (''params'', JArr [])]"] request_object [of "[]"]
    unfolding stop_request_json stop_json_def by simp_all
qed

theorem nested_requests_served_witness:
  "\<exists>sv'. arpc_conn_exchange (\<lambda>_. True) sample_pipe sample_env
       ((server_init (frames_text [stop_request, ''{}''] @ ''rest'', [], 0, []))\<lparr>sv_conn := True\<rparr>) ''{}'' = Some (Some ''{}'', sv') \<and>
     fst (sv_ext sv') = ''rest''"
proof -
  let ?sv = "(server_init (frames_text [stop_request, ''{}''] @ ''rest'', [] :: string, 0 :: nat, [] :: string))\<lparr>sv_conn := True\<rparr>"
  have "\<exists>ocs sv'. arpc_conn_exchange (\<lambda>_. True) sample_pipe sample_env ?sv ''{}'' = Some (Some ''{}'', sv') \<and> hinv (sv_tab sv') \<and>
      length ocs = length [stop_request] \<and> fst (sv_ext sv') = ''rest'' \<and>
      fst (snd (sv_ext sv')) = fst (snd (sv_ext ?sv)) @ sent_text ''{}'' @
        concat (map2 (\<lambda>r oc. sent_text (reply_text (rid_of (cstr r)) oc)) [stop_request] ocs)"
    by (rule nested_requests_served [OF sample_duplex sample_server_ok [OF pipe_alone_order]])
      (simp_all add: server_init_def hinv_init stop_frame_ok sample_frames)
  then show ?thesis by blast
qed

text \<open>
  C20. The loops of a connection end, whatever the client sends, because it sends finitely much:
  a connection is served to its end and an exchange returns with an answer or without, the table
  is intact afterwards, and the connection is forgotten.
\<close>

theorem connection_loops_end:
  assumes "input_bounded io pend" and "server_ok (\<lambda>w w'. pend w' \<le> pend w) env" and "hinv (sv_tab sv)"
  shows "(\<exists>sv'. serve_connection (\<lambda>_. True) io env sv = Some sv' \<and> hinv (sv_tab sv') \<and> \<not> sv_conn sv') \<and>
    (\<exists>ans sv'. arpc_conn_exchange (\<lambda>_. True) io env sv msg = Some (ans, sv') \<and> hinv (sv_tab sv'))"
proof
  show "\<exists>sv'. serve_connection (\<lambda>_. True) io env sv = Some sv' \<and> hinv (sv_tab sv') \<and> \<not> sv_conn sv'"
    using serve_loop_ends [OF assms(1,2), of "sv\<lparr>sv_conn := True, sv_win32 := False\<rparr>"] assms(3)
    by (auto simp: serve_connection_def)
  obtain sent sv1 where s: "send_framed io sv msg = (sent, sv1)" by fastforce
  have "hinv (sv_tab sv1)" by (subst send_bounded(2) [OF assms(1) s]) (simp add: assms(3))
  with exchange_loop_ends [OF assms(1,2) this] s assms(3)
  show "\<exists>ans sv'. arpc_conn_exchange (\<lambda>_. True) io env sv msg = Some (ans, sv') \<and> hinv (sv_tab sv')"
    by (auto simp: arpc_conn_exchange_def)
qed

theorem connection_loops_end_witness:
  "\<exists>sv'. serve_connection (\<lambda>_. True) sample_pipe sample_env (server_init (''garbage'', [], 0, [])) = Some sv' \<and> \<not> sv_conn sv'"
proof -
  have io: "input_bounded sample_pipe (\<lambda>w. length (fst w))"
    by (auto simp: input_bounded_def write_some_def read_some_def sample_pipe_def)
  have "reflp (\<lambda>w w'. length (fst w') \<le> length (fst w))" "transp (\<lambda>w w'. length (fst w') \<le> length (fst w))"
    by (auto simp: reflp_def transp_def)
  note ok = sample_server_ok [OF this]
  have "hinv (sv_tab (server_init (''garbage'', [] :: string, 0 :: nat, [] :: string)))" by (simp add: server_init_def hinv_init)
  from connection_loops_end [OF io ok this] show ?thesis by blast
qed

text \<open>
  C21. \<^verbatim>\<open>--stop\<close> says that it succeeded only after it found nobody at the endpoint. A server at which
  its request arrives, at once or within the idle time, serves that connection as its last: the process
  ends with exit code 0, and it has released everything it kept on file. Nor does a process end with
  that code in any other way: it leaves from the round that said so, and releases what that left.
\<close>

theorem servers_stop:
  assumes "duplex (m_io env pipe) inp outp" and "arpc_peer_is (m_win env) pipe True me"
    and "create_pipe env (sv_ext sv) name sd = (Some pipe, w1)" and "arrives env idle w1 pipe w2"
    and "inp w2 = frames_text [stop_request]"
  shows "(\<exists>sv'. accept_loop (\<lambda>_. True) env senv name sd idle me sv = Some (0, sv') \<and> sv_shutdown sv' \<and>
       hview (sv_tab sv') = Map.empty \<and> pending (sv_tab sv') = {#} \<and>
       mset (h_freed (sv_tab sv')) = mset (h_freed (sv_tab sv)) + pending (sv_tab sv)) \<and>
    (\<forall>sv1 sv'. accept_loop alloc env senv name sd idle me sv1 = Some (0, sv') \<longrightarrow>
       (\<exists>sv2 sv3. accept_once alloc env senv name sd idle me sv2 = Some (Leave sv3) \<and>
          hview (sv_tab sv') = Map.empty \<and> pending (sv_tab sv') = {#} \<and>
          mset (h_freed (sv_tab sv')) = mset (h_freed (sv_tab sv3)) + pending (sv_tab sv3))) \<and>
    (\<forall>w w'. stop_running_servers alloc env name timeout_ms me w = (True, w') \<longrightarrow>
       (\<exists>w0. open_pipe env w0 name = (Not_Found, w')))"
proof (intro conjI allI impI)
  have empty: "hview (arpc_handle_reset h) = Map.empty" for h
    by (auto simp: arpc_handle_reset_def hview_def fun_eq_iff)
  obtain sv1 where sv1: "accept_client (\<lambda>_. True) env senv me pipe (sv\<lparr>sv_ext := w2\<rparr>) = Some (Leave sv1)"
      "sv_shutdown sv1" "sv_tab sv1 = sv_tab sv"
    using stop_leaves [OF assms(1,2), of "sv\<lparr>sv_ext := w2\<rparr>" senv] assms(5) by auto
  have "accept_once (\<lambda>_. True) env senv name sd idle me sv = Some (Leave sv1)"
    using accept_once_arrived [OF assms(3,4)] sv1(1) by metis
  from accept_loop_leaves [OF this] sv1(2,3) empty reset_releases
  show "\<exists>sv'. accept_loop (\<lambda>_. True) env senv name sd idle me sv = Some (0, sv') \<and> sv_shutdown sv' \<and>
      hview (sv_tab sv') = Map.empty \<and> pending (sv_tab sv') = {#} \<and>
      mset (h_freed (sv_tab sv')) = mset (h_freed (sv_tab sv)) + pending (sv_tab sv)" by auto
  show "\<exists>sv2 sv3. accept_once alloc env senv name sd idle me sv2 = Some (Leave sv3) \<and>
      hview (sv_tab sv') = Map.empty \<and> pending (sv_tab sv') = {#} \<and>
      mset (h_freed (sv_tab sv')) = mset (h_freed (sv_tab sv3)) + pending (sv_tab sv3)"
    if "accept_loop alloc env senv name sd idle me sv1 = Some (0, sv')" for sv1 sv'
  proof -
    note left = accept_loop_left [OF that]
    obtain sv2 sv3 where "accept_once alloc env senv name sd idle me sv2 = Some (Leave sv3)"
        "sv' = sv3\<lparr>sv_tab := arpc_handle_reset (sv_tab sv3)\<rparr>"
      using left by auto
    then show ?thesis using empty reset_releases by (intro exI [of _ sv2] exI [of _ sv3]) simp
  qed
  show "\<exists>w0. open_pipe env w0 name = (Not_Found, w')"
    if "stop_running_servers alloc env name timeout_ms me w = (True, w')" for w w'
    using stop_loop_found_none that unfolding stop_running_servers_def by metis
qed

theorem servers_stop_witness:
  "\<exists>hid h sv'. arpc_handle_adopt (\<lambda>_. True) 1 htab_init 0x1000 0 7 = Some (hid, h) \<and>
     accept_loop (\<lambda>_. True) sample_main sample_env ''p'' ''D:'' 1000 \<lparr>sid = ''S-1-5-21-1'', integrity = 0x2000\<rparr>
       ((server_init (frames_text [stop_request], [], 0, []))\<lparr>sv_tab := h\<rparr>) = Some (0, sv') \<and>
     h_freed (sv_tab sv') = [(7, 0x1000)]"
proof -
  let ?me = "\<lparr>sid = ''S-1-5-21-1'', integrity = 0x2000\<rparr>"
  let ?w = "(frames_text [stop_request], [] :: string, 0 :: nat, [] :: string)"
  have seq: "unat (h_next_seq htab_init) < 2 ^ 40" by (simp add: htab_init_def)
  from adopt_account [OF hinv_init this] adopt_cases [OF hinv_init seq, of "\<lambda>_. True" 1 "0x1000" 0 7]
  obtain hid h where h: "arpc_handle_adopt (\<lambda>_. True) 1 htab_init 0x1000 0 7 = Some (hid, h)" "h_freed h = []" "pending h = {#(7, 0x1000)#}"
    by (fastforce simp: htab_init_def pending_def superseded_def hfind_ptr_def)
  have d: "duplex (m_io sample_main ()) fst (\<lambda>w. fst (snd w))" using sample_duplex by (simp add: sample_main_def)
  have p: "arpc_peer_is (m_win sample_main) () True ?me"
    by (simp add: arpc_peer_is_def sample_main_def sample_win_def arpc_process_identity_def sizeof_sid_def)
  have a: "create_pipe sample_main (sv_ext ((server_init ?w)\<lparr>sv_tab := h\<rparr>)) ''p'' ''D:'' = (Some (), ?w)"
    "arrives sample_main 1000 ?w () ?w" "fst ?w = frames_text [stop_request]"
    by (simp_all add: server_init_def sample_main_def arrives_def)
  from servers_stop [OF d p a] h show ?thesis by fastforce
qed

text \<open>
  C18. A client that is not this user's at this elevation is not served: whatever it sends, a round
  of the accept loop that meets it changes nothing but the pipe.
\<close>

theorem foreign_client_refused:
  assumes "\<forall>pipe w. create_pipe env (sv_ext sv) name sd = (Some pipe, w) \<longrightarrow> \<not> arpc_peer_is (m_win env) pipe True me"
    and "accept_once alloc env senv name sd idle me sv = Some st"
  shows "\<exists>w. step_state st = sv\<lparr>sv_ext := w\<rparr>"
  using refused_client_state [OF _ assms(2)] assms(1) by blast

theorem foreign_client_refused_witness:
  "\<exists>st w. accept_once (\<lambda>_. True) sample_main sample_env ''p'' ''D:'' 1000 \<lparr>sid = ''S-1-5-21-2'', integrity = 0x2000\<rparr>
      (server_init (frames_text [stop_request], [], 0, [])) = Some st \<and>
     step_state st = (server_init (frames_text [stop_request], [], 0, []))\<lparr>sv_ext := w\<rparr>"
proof -
  let ?me = "\<lparr>sid = ''S-1-5-21-2'', integrity = 0x2000\<rparr>"
  let ?sv = "server_init (frames_text [stop_request], [] :: string, 0 :: nat, [] :: string)"
  have p: "\<not> arpc_peer_is (m_win sample_main) pipe True ?me" for pipe
    by (simp add: arpc_peer_is_def sample_main_def sample_win_def arpc_process_identity_def sizeof_sid_def)
  have "create_pipe sample_main w n s = (Some (), w)" "connect_pipe sample_main w () = (Connected, w)" for w n s
    by (simp_all add: sample_main_def)
  with p [of "()"] obtain st where st: "accept_once (\<lambda>_. True) sample_main sample_env ''p'' ''D:'' 1000 ?me ?sv = Some st"
    by (simp add: accept_once_def accept_client_def)
  have "\<forall>pipe w. create_pipe sample_main (sv_ext ?sv) ''p'' ''D:'' = (Some pipe, w) \<longrightarrow> \<not> arpc_peer_is (m_win sample_main) pipe True ?me"
    using p by blast
  from foreign_client_refused [OF this st] st show ?thesis by blast
qed

section \<open>Calls from end to end\<close>

lemma sample_client_pipe: "client_pipe sample_client p fst snd"
  unfolding client_pipe_def write_ok_def read_ok_def
  by (auto simp: sample_client_def sample_link_def write_some_def read_some_def min_def split: if_splits)

lemma takeWhile_hit: "k \<in> set ks \<Longrightarrow> length (takeWhile (\<lambda>l. l \<noteq> k) ks) < length ks"
  by (induction ks) auto

lemma sample_hash_ok: "uthash_ok sample_hash"
  using nth_length_takeWhile [OF takeWhile_hit] takeWhile_hit
  by (auto simp: uthash_ok_def sample_hash_def)

text \<open>
  C1. A call crosses whole: what the client writes for a method and its arguments, the server reads
  as that id, that method and those arguments; and when the server's reply to it arrives, however
  the pipe splits it, the client accepts it as the reply to this request, the connection stays up,
  and the caller gets what the server answered, the values of the result or the error's message and
  code.
\<close>

theorem call_round_trip:
  assumes "client_pipe env p inp outp" and "cl_pipe cl = Some p" and "i64_range (cl_next_id cl)" and "\<forall>op \<in> set ops. put_ok op"
    and "readable (request_json (cl_next_id cl) method ops)" and "length (json_text (request_json (cl_next_id cl) method ops)) + 32 \<le> 2 ^ 63"
    and "hinv (sv_tab sv)" and "methods_ok senv sv"
    and "arpc_handle_frame (\<lambda>_. True) senv (json_text (request_json (cl_next_id cl) method ops)) sv = Some (Some reply, sv')"
    and "frame_ok reply" and "inp (cl_ext cl) = sent_text reply @ rest"
  shows "(\<exists>d. aj_parse (\<lambda>_. True) (json_text (request_json (cl_next_id cl) method ops)) = Some d \<and>
      aj_i64 d (aj_member d 0 ''id'') 0 = cl_next_id cl \<and> aj_str d (aj_member d 0 ''method'') None = Some (cstr method) \<and>
      req_args \<lparr>rq_doc = d, rq_params = aj_member d 0 ''params'', rq_bad = False\<rparr> (map put_value ops)) \<and>
    (\<exists>oc c cl1 c' cl'. reply = reply_text (cl_next_id cl) oc \<and> arpc_begin (\<lambda>_. True) env dispatch method cl = Some (True, c, cl1) \<and>
      arpc_invoke (\<lambda>_. True) env dispatch (fold (run_put (\<lambda>_. True)) ops c) cl1 = Some (is_result oc, c', cl') \<and>
      answered oc c' cl' \<and> cl_pipe cl' = Some p \<and> inp (cl_ext cl') = rest \<and>
      outp (cl_ext cl') = outp (cl_ext cl) @ sent_text (json_text (request_json (cl_next_id cl) method ops)))"
proof
  show "\<exists>d. aj_parse (\<lambda>_. True) (json_text (request_json (cl_next_id cl) method ops)) = Some d \<and>
      aj_i64 d (aj_member d 0 ''id'') 0 = cl_next_id cl \<and> aj_str d (aj_member d 0 ''method'') None = Some (cstr method) \<and>
      req_args \<lparr>rq_doc = d, rq_params = aj_member d 0 ''params'', rq_bad = False\<rparr> (map put_value ops)"
    using request_read [OF assms(5), of "\<lambda>_. True"] by blast
  obtain oc where oc: "reply = reply_text (cl_next_id cl) oc" "readable (reply_json (cl_next_id cl) oc)"
    using request_handled [OF assms(7,8,5)] assms(9) by auto
  obtain c cl1 where b: "begin_call (\<lambda>_. True) method cl = (c, cl1)" by fastforce
  have started: "arpc_begin (\<lambda>_. True) env dispatch method cl = Some (True, c, cl1)" using b by (simp add: begin_connected [OF assms(2)])
  from call_exact [OF assms(1-4,6) oc(2) _ _ b, where dispatch = dispatch and rest = rest] assms(10,11) oc(1)
  obtain c' cl' where "arpc_invoke (\<lambda>_. True) env dispatch (fold (run_put (\<lambda>_. True)) ops c) cl1 = Some (is_result oc, c', cl')"
      "answered oc c' cl'" "cl_pipe cl' = Some p" "inp (cl_ext cl') = rest"
      "outp (cl_ext cl') = outp (cl_ext cl) @ sent_text (json_text (request_json (cl_next_id cl) method ops))" by auto
  with oc(1) started show "\<exists>oc c cl1 c' cl'. reply = reply_text (cl_next_id cl) oc \<and> arpc_begin (\<lambda>_. True) env dispatch method cl = Some (True, c, cl1) \<and>
      arpc_invoke (\<lambda>_. True) env dispatch (fold (run_put (\<lambda>_. True)) ops c) cl1 = Some (is_result oc, c', cl') \<and>
      answered oc c' cl' \<and> cl_pipe cl' = Some p \<and> inp (cl_ext cl') = rest \<and>
      outp (cl_ext cl') = outp (cl_ext cl) @ sent_text (json_text (request_json (cl_next_id cl) method ops))" by blast
qed

lemma sample_waiting_simps [simp]:
  "cl_pipe (sample_waiting r) = Some ()" "cl_next_id (sample_waiting r) = 1" "fst (cl_ext (sample_waiting r)) = sent_text r"
  "snd (cl_ext (sample_waiting r)) = []" "cl_cache (sample_waiting r) = cache_init" "cl_buf_next (sample_waiting r) = 1" "i64_range 1"
  by (simp_all add: sample_waiting_def client_init_def i64_range_def LLONG_MAX_def)

lemma sample_style: "readable (style_json 1)" "length (json_text (style_json 1)) + 32 \<le> 2 ^ 63"
  unfolding style_json_def
  by (intro readable_request; simp add: str_value_def cstr_def str_text_def esc_char_def AJ_MAX_DEPTH_def)+

theorem call_round_trip_witness:
  "\<exists>oc c cl1 c' cl'. reply_text 1 (Result [(ARPC_RET_KEY, JNum 0)]) = reply_text 1 oc \<and>
     arpc_begin (\<lambda>_. True) sample_client (arpc_dispatch_callback (\<lambda>_. True) []) ''arpc.set_path_style''
       (sample_waiting (reply_text 1 (Result [(ARPC_RET_KEY, JNum 0)]))) = Some (True, c, cl1) \<and>
     arpc_invoke (\<lambda>_. True) sample_client (arpc_dispatch_callback (\<lambda>_. True) []) (fold (run_put (\<lambda>_. True)) [Put_Str (Some ''win32'')] c) cl1 =
       Some (is_result oc, c', cl') \<and> answered oc c' cl' \<and> cl_pipe cl' = Some () \<and> fst (cl_ext cl') = [] \<and>
     snd (cl_ext cl') = sent_text (json_text (style_json 1))"
proof -
  let ?cl = "sample_waiting (reply_text 1 (Result [(ARPC_RET_KEY, JNum 0)]))" and ?sv = "server_init ()"
  have inv: "hinv (sv_tab ?sv)" by (simp add: server_init_def hinv_init)
  obtain h where h: "arpc_handle_frame (\<lambda>_. True) sample_env (json_text (style_json 1)) ?sv =
      Some (Some (reply_text 1 (Result [(ARPC_RET_KEY, JNum 0)])), (follow_gpg (\<lambda>_. True) sample_env ?sv h)\<lparr>sv_win32 := True\<rparr>)"
    using path_style_agreed [OF sample_client_pipe, of ?cl "()" ?sv "[]"] inv by (auto simp: sample_client_def)
  have "\<exists>oc c cl1 c' cl'. reply_text 1 (Result [(ARPC_RET_KEY, JNum 0)]) = reply_text (cl_next_id ?cl) oc \<and>
      arpc_begin (\<lambda>_. True) sample_client (arpc_dispatch_callback (\<lambda>_. True) []) ''arpc.set_path_style'' ?cl = Some (True, c, cl1) \<and>
      arpc_invoke (\<lambda>_. True) sample_client (arpc_dispatch_callback (\<lambda>_. True) []) (fold (run_put (\<lambda>_. True)) [Put_Str (Some ''win32'')] c) cl1 =
        Some (is_result oc, c', cl') \<and> answered oc c' cl' \<and> cl_pipe cl' = Some () \<and> fst (cl_ext cl') = [] \<and>
      snd (cl_ext cl') = snd (cl_ext ?cl) @ sent_text (json_text (request_json (cl_next_id ?cl) ''arpc.set_path_style'' [Put_Str (Some ''win32'')]))"
    by (rule call_round_trip [OF sample_client_pipe _ _ _ _ _ inv sample_methods_ok, THEN conjunct2])
      (use h sample_style ok_reply(2) [of 1] in \<open>simp_all add: style_json_def\<close>)
  then show ?thesis by (simp add: style_json_def)
qed

section \<open>What the client's caches promise\<close>

text \<open>
  C10. A getter that is asked again answers with the pointer it gave before, whatever else the client
  did in between, as long as nothing purged the owner (and, for lists, nothing detached the entry):
  callers may compare borrowed pointers and hold on to them.
\<close>

theorem same_pointer_again:
  assumes "uthash_ok u" and "\<forall>n. alloc n" and "\<forall>ks k. uh_room u ks k"
    and "\<forall>op \<in> set (before @ after). op_typed strkey op \<and> op_has_value op" and "ca = fold (run_cache_op u alloc) before cache_init"
  shows "(\<forall>p ca1. strkey (cstr key) \<and> intern u alloc owner key (Some v) ca = (p, ca1) \<and>
        (\<forall>op \<in> set after. op_keeps op (string_entry owner key p)) \<longrightarrow>
      p \<noteq> 0 \<and> fst (intern u alloc owner key (Some v) (fold (run_cache_op u alloc) after ca1)) = p) \<and>
    (\<forall>p ca1. \<not> strkey (cstr key) \<and> arpc_cache u alloc owner key value f ca = (p, ca1) \<and>
        (\<forall>op \<in> set after. \<forall>e. o_owner e = owner \<and> o_k e = key_bytes owner key \<longrightarrow> op_leaves op e) \<longrightarrow>
      arpc_cached u alloc owner key (fold (run_cache_op u alloc) after ca1) = (True, p))"
proof (intro conjI allI impI; (elim conjE)?)
  fix p ca1
  have inv: "cache_ok ca" "keys_ok strkey ca"
    using cache_run [OF assms(1-3) cache_ok_init keys_ok_init, of before strkey] assms(4,5) by auto
  assume run: "strkey (cstr key)" "intern u alloc owner key (Some v) ca = (p, ca1)"
    and "\<forall>op \<in> set after. op_keeps op (string_entry owner key p)"
  then have "\<forall>op \<in> set after. op_typed strkey op \<and> op_has_value op \<and> op_keeps op (string_entry owner key p)" using assms(4) by simp
  from intern_later [OF inv assms(1-3) run this]
  show "p \<noteq> 0" "fst (intern u alloc owner key (Some v) (fold (run_cache_op u alloc) after ca1)) = p" by blast+
next
  fix p ca1
  have inv: "cache_ok ca" "keys_ok strkey ca"
    using cache_run [OF assms(1-3) cache_ok_init keys_ok_init, of before strkey] assms(4,5) by auto
  assume run: "\<not> strkey (cstr key)" "arpc_cache u alloc owner key value f ca = (p, ca1)"
    and leaves: "\<forall>op \<in> set after. \<forall>e. o_owner e = owner \<and> o_k e = key_bytes owner key \<longrightarrow> op_leaves op e"
  have "\<forall>op \<in> set after. op_typed strkey op \<and> op_has_value op" using assms(4) by simp
  from cached_later [OF inv assms(1-3) run this] leaves
  show "arpc_cached u alloc owner key (fold (run_cache_op u alloc) after ca1) = (True, p)" by blast
qed

lemma sample_room: "uh_room sample_hash ks k"
  by (simp add: sample_hash_def)

theorem same_pointer_again_witness:
  "fst (intern sample_hash (\<lambda>_. True) 5 ''name'' (Some ''zlib'') (fold (run_cache_op sample_hash (\<lambda>_. True))
      [Intern 5 ''name'' (Some ''gcc''), Purge_Owner 6] (snd (intern sample_hash (\<lambda>_. True) 5 ''name'' (Some ''zlib'') cache_init)))) =
    fst (intern sample_hash (\<lambda>_. True) 5 ''name'' (Some ''zlib'') cache_init) \<and>
   arpc_cached sample_hash (\<lambda>_. True) 5 ''list'' (fold (run_cache_op sample_hash (\<lambda>_. True))
      [Intern 5 ''name'' (Some ''gcc''), Purge_Owner 6] (snd (arpc_cache sample_hash (\<lambda>_. True) 5 ''list'' 77 1 cache_init))) =
    (True, fst (arpc_cache sample_hash (\<lambda>_. True) 5 ''list'' 77 1 cache_init))"
proof -
  let ?after = "[Intern 5 ''name'' (Some ''gcc''), Purge_Owner 6]" and ?str = "\<lambda>k. k = ''name''"
  have typed: "\<forall>op \<in> set ([] @ ?after). op_typed ?str op \<and> op_has_value op" by (simp add: cstr_def)
  have room: "\<forall>n. (\<lambda>_. True) n" "\<forall>ks k. uh_room sample_hash ks k" by (simp_all add: sample_room)
  have init: "cache_init = fold (run_cache_op sample_hash (\<lambda>_. True)) [] cache_init" by simp
  have keeps: "\<forall>op \<in> set ?after. op_keeps op (string_entry 5 ''name'' p)"
      "\<forall>op \<in> set ?after. \<forall>e. o_owner e = 5 \<and> o_k e = key_bytes 5 ''list'' \<longrightarrow> op_leaves op e"
      "?str (cstr ''name'')" "\<not> ?str (cstr ''list'')" for p
    by (simp_all add: string_entry_def cstr_def)
  note S = same_pointer_again [OF sample_hash_ok room typed init, of _ 5]
  note A = S [of "''name''" "''zlib''" 0 0, THEN conjunct1, THEN spec, THEN spec, THEN mp, OF conjI [OF keeps(3) conjI [OF prod.collapse [symmetric] keeps(1)]]]
  note B = S [of "''list''" "[]" 77 1, THEN conjunct2, THEN spec, THEN spec, THEN mp, OF conjI [OF keeps(4) conjI [OF prod.collapse [symmetric] keeps(2)]]]
  show ?thesis by (rule conjI [OF conjunct2 [OF A] B])
qed

text \<open>
  C8. Whatever sequence of operations the caches have been through, with or without memory, the
  strings in memory are exactly those the entries, the detached entries, the static strings and the
  columns hold, each held once: nothing leaks, nothing is freed twice. Every slot refers to its
  package's place in a group that is there. Purging a handle leaves no entry, group or slot of it, and
  when it was the last one the count of what is cached is 0.
\<close>

theorem caches_consistent:
  assumes "uthash_ok u" and "\<forall>op \<in> set ops. op_rooted op" and "ca = fold (run_cache_op u alloc) ops cache_init"
  shows "finite (dom (ca_text ca)) \<and> mset_set (dom (ca_text ca)) = held ca \<and>
    (\<forall>s \<in> set (ca_slots ca). \<exists>g \<in> set (ca_groups ca). pg_addr g = ps_group s \<and> ps_slot s < length (pg_ids g) \<and> pg_ids g ! ps_slot s = ps_id s) \<and>
    (\<forall>e \<in> entries (forget_root root ca). ARPC_ROOT (o_owner e) \<noteq> root) \<and>
    (\<forall>g \<in> set (ca_groups (forget_root root ca)). group_root g \<noteq> root) \<and>
    (\<forall>s \<in> set (ca_slots (forget_root root ca)). ARPC_ROOT (ps_id s) \<noteq> root) \<and>
    ((\<forall>e \<in> entries ca. ARPC_ROOT (o_owner e) = root) \<and> (\<forall>g \<in> set (ca_groups ca). group_root g = root) \<longrightarrow>
       arpc_stats_cached (forget_root root ca) = 0)"
proof -
  have "slots_ok cache_init" by (simp add: slots_ok_def cache_init_def)
  then have inv: "cache_ok ca" "slots_ok ca" using slots_run [OF assms(1) cache_ok_init _ assms(2)] assms(3) by auto
  then show ?thesis using forget_root_empty [OF inv(1)] stats_forgotten [OF inv(1)] by (simp add: cache_ok_def mem_ok_def slots_ok_def)
qed

theorem caches_consistent_witness:
  "mset_set (dom (ca_text (fold (run_cache_op sample_hash (\<lambda>_. True)) [Register [5, 5], Strings 5 ''f'' [Some ''a'', None]] cache_init))) =
     held (fold (run_cache_op sample_hash (\<lambda>_. True)) [Register [5, 5], Strings 5 ''f'' [Some ''a'', None]] cache_init)"
  using caches_consistent [OF sample_hash_ok _ refl, of "[Register [5, 5], Strings 5 ''f'' [Some ''a'', None]]"]
  by (simp add: same_root_def)

text \<open>
  C9. A string a getter handed out for an owner is there and reads the same after any sequence of
  other operations, other answers for the same key and failed allocations included, until the owner
  or its root is purged; then it is freed.
\<close>

theorem borrowed_string_stays:
  assumes "uthash_ok u" and "intern u alloc owner key value (fold (run_cache_op u alloc) before cache_init) = (p, ca)" and "p \<noteq> 0"
    and "\<forall>op \<in> set after. op_keeps op (string_entry owner key p)"
  shows "\<exists>v. value = Some v \<and> ca_text (fold (run_cache_op u alloc) after ca) p = Some (cstr v) \<and>
    ca_text (arpc_purge_owner owner (fold (run_cache_op u alloc) after ca)) p = None \<and>
    ca_text (forget_root (ARPC_ROOT owner) (fold (run_cache_op u alloc) after ca)) p = None"
  using string_until_purged [OF run_ok [OF assms(1) cache_ok_init] assms] by blast

theorem borrowed_string_stays_witness:
  "ca_text (fold (run_cache_op sample_hash (\<lambda>_. True)) [Intern 5 ''name'' (Some ''gcc''), Detach 5 True [''name'']]
     (snd (intern sample_hash (\<lambda>_. True) 5 ''name'' (Some ''zlib'') cache_init))) 1 = Some ''zlib''"
proof -
  have run: "intern sample_hash (\<lambda>_. True) 5 ''name'' (Some ''zlib'') (fold (run_cache_op sample_hash (\<lambda>_. True)) [] cache_init) =
      (1, snd (intern sample_hash (\<lambda>_. True) 5 ''name'' (Some ''zlib'') cache_init))"
    by (simp add: intern_def intern_new_def find_owned_def add_owned_def make_key_def sample_hash_def cache_init_def arpc_dup_def strdup_def)
  from borrowed_string_stays [OF sample_hash_ok run, of "[Intern 5 ''name'' (Some ''gcc''), Detach 5 True [''name'']]"]
  show ?thesis by (auto simp: cstr_def)
qed

section \<open>The client's end\<close>

text \<open>
  C17. The client talks to nobody it has not checked. From its first moment on, however calls,
  reconnections and callbacks follow each other, the pipe it holds leads to a process of the user
  and at the elevation that Windows gives for this very process (\<open>checked\<close>). A pipe of that name held
  by anybody else is closed again and reported, and connecting fails without another attempt.
\<close>

theorem server_checked:
  assumes "\<forall>k \<in> set kinds. \<forall>fn ctx d args cl ret cl'. checked env cl \<and> snd k fn ctx d args cl = Some (ret, cl') \<longrightarrow> checked env cl'"
    and "checked env cl"
  shows "checked env (client_init w) \<and>
    (\<forall>ok cl'. ensure_connected alloc env (arpc_dispatch_callback alloc kinds) cl = Some (ok, cl') \<longrightarrow> checked env cl') \<and>
    (\<forall>c ok c' cl'. arpc_invoke alloc env (arpc_dispatch_callback alloc kinds) c cl = Some (ok, c', cl') \<longrightarrow> checked env cl') \<and>
    (\<forall>h. cl_pipe cl = Some h \<longrightarrow>
       (\<exists>me. arpc_process_identity (k_win env) None = Some me \<and> arpc_peer_is (k_win env) h False me)) \<and>
    (\<forall>me root name h w. cl_pipe cl = None \<and> arpc_process_identity (k_win env) None = Some me \<and> msys_root env MAX_PATH_c = Some root \<and>
       arpc_pipe_name (k_win env) (Some root) (Some 256) = Some name \<and> k_open env (cl_ext cl) name = (Some h, w) \<and>
       \<not> arpc_peer_is (k_win env) h False me \<longrightarrow>
       (\<exists>cl'. ensure_connected alloc env (arpc_dispatch_callback alloc kinds) cl = Some (False, cl') \<and>
          cl_pipe cl' = None \<and> cl_ext cl' = k_close env w h \<and> cl_err cl' \<noteq> []))"
proof -
  have k: "keeps_checked env (arpc_dispatch_callback alloc kinds)" by (rule keeps_checked_dispatch [OF assms(1)])
  have "\<exists>cl'. ensure_connected alloc env (arpc_dispatch_callback alloc kinds) cl = Some (False, cl') \<and>
      cl_pipe cl' = None \<and> cl_ext cl' = k_close env w h \<and> cl_err cl' \<noteq> []"
    if "cl_pipe cl = None" "arpc_process_identity (k_win env) None = Some me" "msys_root env MAX_PATH_c = Some root"
      "arpc_pipe_name (k_win env) (Some root) (Some 256) = Some name" "k_open env (cl_ext cl) name = (Some h, w)"
      "\<not> arpc_peer_is (k_win env) h False me" for me root name h w
  proof -
    have "(case cl_self cl of Some me \<Rightarrow> Some me | None \<Rightarrow> arpc_process_identity (k_win env) None) = Some me"
      using that(2) assms(2) by (auto simp: checked_def split: option.split)
    with that show ?thesis by (simp add: ensure_connected_def try_open_def set_err_def Let_def)
  qed
  then show ?thesis
    using checked_init checked_connect [OF k assms(2)] checked_invoke [OF k assms(2)] assms(2)
    by (auto simp: checked_def [of env cl])
qed

theorem server_checked_witness:
  "\<exists>cl'. ensure_connected (\<lambda>_. True) sample_stolen (arpc_dispatch_callback (\<lambda>_. True) []) (client_init ([], [])) = Some (False, cl') \<and>
     cl_pipe cl' = None \<and> cl_err cl' \<noteq> []"
proof -
  let ?me = "\<lparr>sid = ''S-1-5-21-1'', integrity = 0x2000\<rparr>" and ?cl = "client_init ([] :: string, [] :: string) :: (string \<times> string, unit) client"
  have me: "arpc_process_identity (k_win sample_stolen) None = Some ?me"
    "arpc_process_identity (k_win sample_stolen) (Some False) = Some \<lparr>sid = ''S-1-5-21-9'', integrity = 0x2000\<rparr>"
    by (simp_all add: arpc_process_identity_def sample_stolen_def sample_thief_def sizeof_sid_def)
  have root: "msys_root sample_stolen MAX_PATH_c = Some ''C:/m''"
    by (simp add: msys_root_def sample_stolen_def MAX_PATH_c_def is_sep_def numeral_eq_Suc)
  obtain name where name: "arpc_pipe_name (k_win sample_stolen) (Some ''C:/m'') (Some 256) = Some name"
    using me(1) by (simp add: arpc_pipe_name_def hex16_length pipe_prefix_def)
  have foreign: "\<not> arpc_peer_is (k_win sample_stolen) () False ?me"
    using me(2) by (simp add: arpc_peer_is_def) (simp add: sample_stolen_def sample_thief_def)
  have "cl_pipe ?cl = None" "k_open sample_stolen (cl_ext ?cl) name = (Some (), ([], []))"
    by (simp_all add: client_init_def sample_stolen_def)
  note op = this
  note S = server_checked [where kinds = "[]" and env = sample_stolen and alloc = "\<lambda>_. True" and cl = ?cl, OF _ checked_init,
    THEN conjunct2, THEN conjunct2, THEN conjunct2, THEN conjunct2, THEN spec, THEN spec, THEN spec, THEN spec, THEN spec, THEN mp]
  show ?thesis
    by (rule exE [OF S [OF _ conjI [OF op(1) conjI [OF me(1) conjI [OF root conjI [OF name conjI [OF op(2) foreign]]]]]]]) auto
qed

text \<open>
  A call waits for its reply through any number of callbacks. Each is answered before the next
  frame is read, in the order they came, with its own number and with what the function registered
  for its handle and name returned for the arguments sent (0 if there is none); the server reads
  exactly that value out of the answer; and the reply ends the call.
\<close>

theorem callbacks_answered:
  assumes "client_pipe env p inp outp" and "callbacks_ok inp outp kinds" and "\<forall>n. alloc n"
    and "readable (reply_json rid oc)" and "frame_ok (reply_text rid oc)" and "cl_pipe cl = Some p" and "\<forall>e \<in> set es. event_ok e"
    and "inp (cl_ext cl) = frames_text (map (\<lambda>e. json_text (event_json e)) es @ [reply_text rid oc]) @ rest"
  shows "\<exists>rets cl'. transact alloc env (arpc_dispatch_callback alloc kinds) cl req = Some (Some (reply_text rid oc), cl') \<and>
      list_all2 (callback_ran alloc kinds (cl_regs cl)) es rets \<and>
      list_all2 (\<lambda>e ret. \<forall>dflt. cb_answer alloc (fst (snd e)) dflt (json_text (answer_json (fst (snd e)) ret)) = ret) es rets \<and>
      cl_pipe cl' = Some p \<and> inp (cl_ext cl') = rest \<and>
      outp (cl_ext cl') = outp (cl_ext cl) @ sent_text req @
        concat (map2 (\<lambda>e ret. sent_text (json_text (answer_json (fst (snd e)) ret))) es rets)"
proof -
  obtain rets cl' where t: "transact alloc env (arpc_dispatch_callback alloc kinds) cl req = Some (Some (reply_text rid oc), cl')"
      "list_all2 (callback_ran alloc kinds (cl_regs cl)) es rets" "\<forall>ret \<in> set rets. i64_range ret" "cl_pipe cl' = Some p"
      "inp (cl_ext cl') = rest" "outp (cl_ext cl') = outp (cl_ext cl) @ sent_text req @ answers_text es rets"
    using transact_exact [OF assms] by blast
  have "cb_answer alloc sq dflt (json_text (answer_json sq ret)) = ret" if "i64_range sq" "i64_range ret" for sq ret dflt
    using cb_answer_value [OF answer_wire [OF that, unfolded answer_json_def] assms(3)]
    by (simp add: answer_json_def num_or_def ARPC_RET_KEY_def del: json_text.simps)
  then have "list_all2 (\<lambda>e ret. \<forall>dflt. cb_answer alloc (fst (snd e)) dflt (json_text (answer_json (fst (snd e)) ret)) = ret) es rets"
    using t(2,3) assms(7) by (auto simp: list_all2_conv_all_nth event_ok_def)
  with t show ?thesis unfolding answers_text_def by blast
qed

lemma sample_logger_ok: "callbacks_ok fst snd sample_logger"
  by (simp add: callbacks_ok_def sample_logger_def i64_range_def LLONG_MAX_def)

lemma sample_event_ok: "event_ok (''log'', 1, 5, JNull)"
  by (simp add: event_ok_def readable_def cb_json_def frame_ok_def ARPC_MAX_FRAME_def i64_range_def LLONG_MAX_def AJ_MAX_DEPTH_def
      str_text_def esc_char_def int_text_def rev_digits.simps cstr_def)

theorem callbacks_answered_witness:
  "\<exists>cl'. transact (\<lambda>_. True) sample_client (arpc_dispatch_callback (\<lambda>_. True) sample_logger) sample_call ''{}'' =
       Some (Some (reply_text 1 (Result [(ARPC_RET_KEY, JNum 0)])), cl') \<and>
     snd (cl_ext cl') = sent_text ''{}'' @ sent_text (json_text (answer_json 1 17))"
proof -
  have one: "i64_range 1" by (simp add: i64_range_def LLONG_MAX_def)
  have c: "cl_pipe sample_call = Some ()" "cl_regs sample_call = [\<lparr>c_handle = 5, c_fn = [9], c_ctx = [8]\<rparr>]" "snd (cl_ext sample_call) = []"
      "fst (cl_ext sample_call) = frames_text (map (\<lambda>e. json_text (event_json e)) [(''log'', 1, 5, JNull)] @
        [reply_text 1 (Result [(ARPC_RET_KEY, JNum 0)])]) @ []"
    by (simp_all add: sample_call_def client_init_def)
  have es: "\<forall>e \<in> set [(''log'', 1, 5, JNull)]. event_ok e" using sample_event_ok by simp
  have ran: "ret = 17" if "callback_ran (\<lambda>_. True) sample_logger (cl_regs sample_call) (''log'', 1, 5, JNull) ret" for ret
    using that by (auto simp: callback_ran_def c sample_logger_def cstr_def arpc_cb_fn_def arpc_cb_ctx_def reg_for_c_def slot_ok_def ARPC_CB_SLOTS_def)
  from callbacks_answered [OF sample_client_pipe sample_logger_ok _ ok_reply [OF one] c(1) es c(4), of "\<lambda>_. True" "''{}''"] ran
  show ?thesis by (fastforce simp: list_all2_Cons1 c(3))
qed

text \<open>
  C11. The first read of a field of a package that came in a list asks the server once, for all the
  packages of the list, and gives the value the server sent for this package; after it the same
  field of every package of the list is read without asking the server again, and is what the
  server sent for it. Numbers and strings both.
\<close>

theorem batched_fields:
  assumes "client_pipe env p inp outp" and "\<forall>n. alloc n" and "cl_pipe cl = Some p" and "cache_ok (cl_cache cl)"
    and "hid \<noteq> 0" and "find_slot u hid (ca_slots (cl_cache cl)) = Some s"
    and "group_at (ps_group s) (cl_cache cl) = Some g" and "ps_slot s < length (pg_ids g)" and "length vs = length (pg_ids g)"
    and "find (\<lambda>c. col_field c = field) (pg_cols g) = None"
    and "i64_range (cl_next_id cl)" and "length (json_text (fields_json (cl_next_id cl) (pg_ids g) field)) + 32 \<le> 2 ^ 63"
    and "readable (reply_json (cl_next_id cl) (Result [(ARPC_RET_KEY, JArr vs)]))"
    and "frame_ok (reply_text (cl_next_id cl) (Result [(ARPC_RET_KEY, JArr vs)]))"
    and "inp (cl_ext cl) = sent_text (reply_text (cl_next_id cl) (Result [(ARPC_RET_KEY, JArr vs)])) @ rest"
  shows "(\<exists>cl'. arpc_pkg_field_i64 u alloc env dispatch hid field cl = Some (num_or (Some (vs ! ps_slot s)) 0, cl') \<and>
      inp (cl_ext cl') = rest \<and> outp (cl_ext cl') = outp (cl_ext cl) @ sent_text (json_text (fields_json (cl_next_id cl) (pg_ids g) field)) \<and>
      (\<forall>hid' s'. hid' \<noteq> 0 \<and> find_slot u hid' (ca_slots (cl_cache cl)) = Some s' \<and> ps_group s' = ps_group s \<and> ps_slot s' < length vs \<longrightarrow>
         arpc_pkg_field_i64 u alloc env dispatch hid' field cl' = Some (num_or (Some (vs ! ps_slot s')) 0, cl'))) \<and>
    (\<exists>q cl'. arpc_pkg_field_str u alloc env dispatch hid field cl = Some (q, cl') \<and> text_is (cl_cache cl') q (vs ! ps_slot s) \<and>
      inp (cl_ext cl') = rest \<and> outp (cl_ext cl') = outp (cl_ext cl) @ sent_text (json_text (fields_json (cl_next_id cl) (pg_ids g) field)) \<and>
      (\<forall>hid' s'. hid' \<noteq> 0 \<and> find_slot u hid' (ca_slots (cl_cache cl)) = Some s' \<and> ps_group s' = ps_group s \<and> ps_slot s' < length vs \<longrightarrow>
         (\<exists>q'. arpc_pkg_field_str u alloc env dispatch hid' field cl' = Some (q', cl') \<and> text_is (cl_cache cl') q' (vs ! ps_slot s'))))"
  by (intro conjI field_i64_exact [OF assms(1-3,5-15)] field_str_exact [OF assms])

lemma sample_listed_ok: "cache_ok (cl_cache sample_listed)"
  using run_ok [OF sample_hash_ok cache_ok_init, of "\<lambda>_. True" "[Register [5, 6]]"] by (simp add: sample_listed_def)

lemma sample_fields_reply:
  "readable (reply_json 1 (Result [(ARPC_RET_KEY, JArr [JNum 7, JNum 8])]))"
  "frame_ok (reply_text 1 (Result [(ARPC_RET_KEY, JArr [JNum 7, JNum 8])]))"
  by (simp_all add: readable_def frame_ok_def ARPC_MAX_FRAME_def reply_text_def LLONG_MAX_def AJ_MAX_DEPTH_def
      str_text_def esc_char_def int_text_def rev_digits.simps ARPC_RET_KEY_def)

lemma sample_ids: "id_bytes 5 \<noteq> id_bytes 6" "id_bytes 6 \<noteq> id_bytes 5"
  using id_bytes_inj [of 5 6] by auto

lemma sample_listed_cache:
  "ca_slots (cl_cache sample_listed) = [\<lparr>ps_id = 5, ps_group = 1, ps_slot = 0\<rparr>, \<lparr>ps_id = 6, ps_group = 1, ps_slot = 1\<rparr>]"
  "group_at 1 (cl_cache sample_listed) = Some \<lparr>pg_addr = 1, pg_ids = [5, 6], pg_cols = []\<rparr>"
  by (simp_all add: sample_listed_def arpc_pkg_group_register_def group_new_def cache_init_def find_slot_def sample_hash_def sample_ids group_at_def)

lemma sample_slots:
  "find_slot sample_hash 6 (ca_slots (cl_cache sample_listed)) = Some \<lparr>ps_id = 6, ps_group = 1, ps_slot = 1\<rparr>"
  "find_slot sample_hash 5 (ca_slots (cl_cache sample_listed)) = Some \<lparr>ps_id = 5, ps_group = 1, ps_slot = 0\<rparr>"
  by (simp_all add: sample_listed_cache find_slot_def sample_hash_def sample_ids)

lemma sample_fields_request: "length (json_text (fields_json 1 [5, 6] ''size'')) + 32 \<le> 2 ^ 63"
  by (simp add: fields_json_def request_json_def str_text_def esc_char_def int_text_def rev_digits.simps cstr_def str_value_def)

theorem batched_fields_witness:
  "\<exists>cl'. arpc_pkg_field_i64 sample_hash (\<lambda>_. True) sample_client (arpc_dispatch_callback (\<lambda>_. True) []) 6 ''size'' sample_listed = Some (8, cl') \<and>
     arpc_pkg_field_i64 sample_hash (\<lambda>_. True) sample_client (arpc_dispatch_callback (\<lambda>_. True) []) 5 ''size'' cl' = Some (7, cl')"
proof -
  have c: "cl_pipe sample_listed = Some ()" "cl_next_id sample_listed = 1"
      "fst (cl_ext sample_listed) = sent_text (reply_text 1 (Result [(ARPC_RET_KEY, JArr [JNum 7, JNum 8])])) @ []"
    by (simp_all add: sample_listed_def)
  let ?s = "\<lparr>ps_id = 6, ps_group = 1, ps_slot = 1\<rparr>" and ?g = "\<lparr>pg_addr = 1, pg_ids = [5, 6], pg_cols = []\<rparr>"
  from batched_fields [where cl = sample_listed and s = ?s and g = ?g and vs = "[JNum 7, JNum 8]" and hid = 6 and field = "''size''" and rest = "[]"
      and u = sample_hash and alloc = "\<lambda>_. True" and dispatch = "arpc_dispatch_callback (\<lambda>_. True) []",
      OF sample_client_pipe _ c(1) sample_listed_ok _ sample_slots(1), THEN conjunct1]
  obtain cl' where f: "arpc_pkg_field_i64 sample_hash (\<lambda>_. True) sample_client (arpc_dispatch_callback (\<lambda>_. True) []) 6 ''size'' sample_listed = Some (8, cl')"
      "\<And>hid' s'. \<lbrakk>hid' \<noteq> 0; find_slot sample_hash hid' (ca_slots (cl_cache sample_listed)) = Some s'; ps_group s' = 1; ps_slot s' < 2\<rbrakk> \<Longrightarrow>
        arpc_pkg_field_i64 sample_hash (\<lambda>_. True) sample_client (arpc_dispatch_callback (\<lambda>_. True) []) hid' ''size'' cl' =
          Some (num_or (Some ([JNum 7, JNum 8] ! ps_slot s')) 0, cl')"
    using sample_listed_cache(2) sample_fields_request sample_fields_reply c(2,3) by (auto simp: num_or_def)
  from f(2) [OF _ sample_slots(2)] f(1) show ?thesis by (auto simp: num_or_def)
qed

text \<open>
  C12. A package's file list crosses from the server's libarchive to the client's: whenever the
  package the id names has a listing, the server's reply to the client's request carries it;
  and when that reply arrives the client's archive is opened on exactly the bytes of the listing,
  which stay in the buffer kept with the archive.
\<close>

theorem mtree_delivered:
  assumes "hinv (sv_tab sv)" and "archive_ok (e_archive senv)" and "i64_range (cl_next_id cl)"
    and "client_pipe env p inp outp" and "cl_pipe cl = Some p"
  shows "\<exists>h reply sv'. arpc_handle_frame (\<lambda>_. True) senv (json_text (mtree_json (cl_next_id cl) pkg)) sv = Some (Some reply, sv') \<and>
    (\<forall>s rest. s \<noteq> [] \<and> is_listing senv (follow_gpg (\<lambda>_. True) senv sv h) pkg s \<and> frame_ok reply \<and> inp (cl_ext cl) = sent_text reply @ rest \<longrightarrow>
       (\<exists>a cl' w. alpm_pkg_mtree_open (\<lambda>_. True) env dispatch ar pkg cl = Some (a, cl') \<and> inp w = rest \<and>
          open_archive ar (cl_buf_next cl) s w = (a, cl_ext cl') \<and>
          (a \<noteq> 0 \<longrightarrow> cl_bufs cl' (cl_buf_next cl) = Some s \<and> cl_streams cl' = (a, cl_buf_next cl) # cl_streams cl)))"
proof -
  obtain h oc sv' where m: "arpc_handle_frame (\<lambda>_. True) senv (json_text (mtree_json (cl_next_id cl) pkg)) sv = Some (Some (reply_text (cl_next_id cl) oc), sv')"
      "readable (reply_json (cl_next_id cl) oc)"
      "\<forall>s. s \<noteq> [] \<longrightarrow> (oc = Result [(ARPC_RET_KEY, JStr (b64_encode_loop s))] \<longleftrightarrow> is_listing senv (follow_gpg (\<lambda>_. True) senv sv h) pkg s)"
    using mtree_served [OF assms(1-3)] by blast
  have "\<exists>a cl' w. alpm_pkg_mtree_open (\<lambda>_. True) env dispatch ar pkg cl = Some (a, cl') \<and> inp w = rest \<and>
      open_archive ar (cl_buf_next cl) s w = (a, cl_ext cl') \<and>
      (a \<noteq> 0 \<longrightarrow> cl_bufs cl' (cl_buf_next cl) = Some s \<and> cl_streams cl' = (a, cl_buf_next cl) # cl_streams cl)"
    if s: "s \<noteq> []" "is_listing senv (follow_gpg (\<lambda>_. True) senv sv h) pkg s" "frame_ok (reply_text (cl_next_id cl) oc)"
      "inp (cl_ext cl) = sent_text (reply_text (cl_next_id cl) oc) @ rest" for s rest
  proof -
    have oc: "oc = Result [(ARPC_RET_KEY, JStr (b64_encode_loop s))]" using m(3) s(1,2) by blast
    show ?thesis by (rule mtree_open_exact [OF assms(4,5,3) m(2) [unfolded oc] s(3,4) [unfolded oc]])
  qed
  with m(1) show ?thesis by blast
qed

lemma sample_listing: "archive_ok (e_archive sample_listing_env)" "listing_of (e_archive sample_listing_env) w ptr = Some [1, 2, 3]"
  by (simp_all add: archive_ok_def listing_of_def sample_listing_env_def sample_env_def)

lemma sample_listing_frame: "frame_ok (reply_text 1 (Result [(ARPC_RET_KEY, JStr (b64_encode_loop [1, 2, 3]))]))"
proof -
  have "length (str_text (b64_encode_loop [1, 2, 3])) \<le> 26"
    using str_text_le [of "b64_encode_loop [1, 2, 3]"] by (simp add: encode_loop_length del: b64_encode_loop.simps)
  moreover have "length (str_text ''id'') = 4" "length (str_text ''result'') = 8" "length (str_text ARPC_RET_KEY) = 6" "length (int_text 1) = 1"
    by (simp_all add: str_text_def esc_char_def ARPC_RET_KEY_def int_text_def rev_digits.simps)
  ultimately show ?thesis
    by (simp add: frame_ok_def ARPC_MAX_FRAME_def reply_text_def del: b64_encode_loop.simps)
qed

theorem mtree_delivered_witness:
  "\<exists>sv pkg reply sv' a cl'. arpc_handle_frame (\<lambda>_. True) sample_listing_env (json_text (mtree_json 1 pkg)) sv = Some (Some reply, sv') \<and>
     alpm_pkg_mtree_open (\<lambda>_. True) sample_client (arpc_dispatch_callback (\<lambda>_. True) []) sample_archive pkg (sample_waiting reply) = Some (a, cl') \<and>
     a \<noteq> 0 \<and> cl_bufs cl' 1 = Some [1, 2, 3]"
proof -
  obtain pkg h s where h: "hinv h" "hview h = [pkg \<mapsto> s]" "pkg \<noteq> 0" "s_tag s = 1" "s_ptr s = 0x1000" using sample_table by blast
  let ?sv = "(server_init ())\<lparr>sv_tab := h\<rparr>"
  have inv: "hinv (sv_tab ?sv)" and one: "i64_range 1" using h(1) by (simp_all add: i64_range_def LLONG_MAX_def)
  have l: "is_listing sample_listing_env (follow_gpg (\<lambda>_. True) sample_listing_env ?sv g) pkg [1, 2, 3]" for g
    using get_view [OF h(1), of pkg 1] h(2-5) sample_listing(2)
    by (auto simp: is_listing_def follow_gpg_def sample_listing_env_def split: prod.splits)
  obtain reply sv' where r: "arpc_handle_frame (\<lambda>_. True) sample_listing_env (json_text (mtree_json 1 pkg)) ?sv = Some (Some reply, sv')"
      "reply = reply_text 1 (Result [(ARPC_RET_KEY, JStr (b64_encode_loop [1, 2, 3]))])"
  proof -
    obtain g oc sv' where m: "arpc_handle_frame (\<lambda>_. True) sample_listing_env (json_text (mtree_json 1 pkg)) ?sv = Some (Some (reply_text 1 oc), sv')"
        "\<forall>s. s \<noteq> [] \<longrightarrow> (oc = Result [(ARPC_RET_KEY, JStr (b64_encode_loop s))] \<longleftrightarrow>
           is_listing sample_listing_env (follow_gpg (\<lambda>_. True) sample_listing_env ?sv g) pkg s)"
      using mtree_served [OF inv sample_listing(1) one, of pkg] by blast
    have "oc = Result [(ARPC_RET_KEY, JStr (b64_encode_loop [1, 2, 3]))]" using m(2) l [of g] by blast
    with m(1) show thesis by (intro that) auto
  qed
  have w: "i64_range (cl_next_id (sample_waiting reply))" "cl_pipe (sample_waiting reply) = Some ()" by simp_all
  obtain g reply' sv2 where m: "arpc_handle_frame (\<lambda>_. True) sample_listing_env (json_text (mtree_json 1 pkg)) ?sv = Some (Some reply', sv2)"
      "\<forall>s rest. s \<noteq> [] \<and> is_listing sample_listing_env (follow_gpg (\<lambda>_. True) sample_listing_env ?sv g) pkg s \<and> frame_ok reply' \<and>
         fst (cl_ext (sample_waiting reply)) = sent_text reply' @ rest \<longrightarrow>
         (\<exists>a cl' w. alpm_pkg_mtree_open (\<lambda>_. True) sample_client (arpc_dispatch_callback (\<lambda>_. True) []) sample_archive pkg (sample_waiting reply) = Some (a, cl') \<and>
            fst w = rest \<and> open_archive sample_archive (cl_buf_next (sample_waiting reply)) s w = (a, cl_ext cl') \<and>
            (a \<noteq> 0 \<longrightarrow> cl_bufs cl' (cl_buf_next (sample_waiting reply)) = Some s \<and>
               cl_streams cl' = (a, cl_buf_next (sample_waiting reply)) # cl_streams (sample_waiting reply)))"
    using mtree_delivered [OF inv sample_listing(1) w(1) sample_client_pipe w(2), of pkg "arpc_dispatch_callback (\<lambda>_. True) []" sample_archive]
    unfolding sample_waiting_simps(2) by blast
  have same: "reply' = reply" using m(1) r(1) by simp
  obtain a cl' w where o: "alpm_pkg_mtree_open (\<lambda>_. True) sample_client (arpc_dispatch_callback (\<lambda>_. True) []) sample_archive pkg (sample_waiting reply) = Some (a, cl')"
      "open_archive sample_archive (cl_buf_next (sample_waiting reply)) [1, 2, 3] w = (a, cl_ext cl')"
      "a \<noteq> 0 \<longrightarrow> cl_bufs cl' (cl_buf_next (sample_waiting reply)) = Some [1, 2, 3]"
    using m(2) [THEN spec, of "[1, 2, 3]", THEN spec, of "[]"] l [of g] sample_listing_frame r(2) unfolding same by auto
  have "a \<noteq> 0" using o(2) by (simp add: open_archive_def sample_archive_def)
  with o(1,3) r(1) show ?thesis by (intro exI [of _ ?sv] exI [of _ pkg] exI [of _ reply] exI [of _ sv'] exI [of _ a] exI [of _ cl']) simp
qed
section \<open>A conversation, from both ends\<close>

text \<open>
  C2. The two programs agree on a whole conversation, calls and callbacks nested in each other to any
  depth. When each reads what the other wrote, the caller's program runs as if the methods and the
  callbacks were local: every call returns the outcome its method's program ended with, every callback
  the value the caller's function returned for those arguments, both go through the states their own
  code goes through, and the bytes in each direction are the transcript's frames, each reply under its
  request's id and each answer under its callback's number, with none left over. The frames take
  turns: no two are under way at once, so neither end writes to one that is writing.
\<close>

theorem conversation_agrees:
  assumes "client_line env p inp outp lib" and "cl_pipe cl = Some p" and "makes inp outp lib progs (cview lib cl) prog ss ret a"
    and "server_line io sinp soutp slib" and "gpg_keeps (apart sinp soutp slib) (e_gpg base)" and "table_sorted methods"
    and "hinv (sv_tab sv)" and "serves sinp soutp slib base methods (sview slib (sv\<lparr>sv_win32 := False\<rparr>)) ss b"
    and "session_ok (cl_next_id cl) (sv_seq sv) ss" and "session_depth ss \<le> n"
    and "inp (cl_ext cl) = downs (session_lines (cl_next_id cl) (sv_seq sv) ss)"
    and "sinp (sv_ext sv) = ups (session_lines (cl_next_id cl) (sv_seq sv) ss)"
  shows "(\<exists>cl'. run_caller env (disp_of n env progs) prog cl = Some (ret, cl') \<and> cview lib cl' = a \<and> inp (cl_ext cl') = [] \<and>
      outp (cl_ext cl') = outp (cl_ext cl) @ ups (session_lines (cl_next_id cl) (sv_seq sv) ss)) \<and>
    (\<exists>sv'. serve_connection (\<lambda>_. True) io (env_of n io base methods) sv = Some sv' \<and> sview slib sv' = b \<and>
      sv_seq sv' = sv_seq sv + session_cbs ss \<and>
      soutp (sv_ext sv') = soutp (sv_ext sv) @ downs (session_lines (cl_next_id cl) (sv_seq sv) ss)) \<and>
    map is_up (session_lines (cl_next_id cl) (sv_seq sv) ss) = turns True (session_calls ss + session_cbs ss)"
proof (intro conjI)
  have "at_line inp outp lib p (cl_next_id cl) (cview lib cl) (downs (session_lines (cl_next_id cl) (sv_seq sv) ss) @ []) (outp (cl_ext cl)) cl"
    using assms(2,11) by (simp add: at_line_def)
  from runs_sessionD [OF makes_takes_run(1) [OF assms(1,3)] assms(10,9) this]
  show "\<exists>cl'. run_caller env (disp_of n env progs) prog cl = Some (ret, cl') \<and> cview lib cl' = a \<and> inp (cl_ext cl') = [] \<and>
      outp (cl_ext cl') = outp (cl_ext cl) @ ups (session_lines (cl_next_id cl) (sv_seq sv) ss)"
    by (auto simp: at_line_def)
qed (rule connection_served [OF assms(4,5,6,8,10,9,7,12)], rule lines_take_turns(1))

lemma sample_lines:
  "client_line sample_client p fst snd (\<lambda>_. ())" "server_line sample_pipe fst (\<lambda>w. fst (snd w)) (\<lambda>_. ())"
  "gpg_keeps (apart fst (\<lambda>w. fst (snd w)) (\<lambda>_. ())) (e_gpg sample_env)" "table_sorted sample_methods"
  unfolding client_line_def server_line_def write_ok_def read_ok_def
  by (auto simp: write_some_def read_some_def sample_pipe_def sample_client_def sample_link_def min_def gpg_keeps_def sample_env_def apart_def
      pipe_alone_def reflp_def transp_def table_sorted_def sample_methods_def split: if_splits)

lemma sample_found:
  "kind_at 0 sample_progs (cstr ''log'') = Some (0, \<lambda>fn ctx d args. sample_ask ''alpm_version'' (if fn = 9 \<and> ctx = 8 then 10 else 0))"
  "program sample_env sample_methods (cstr ''alpm_version'') rq = Some (Finish sample_handler)"
  "program sample_env sample_methods (cstr ''work'') rq =
     Some (Send 0 5 None 0 (\<lambda>ret. Finish (\<lambda>rq rs sv. Some (0, rq, arpc_ret_i64 (\<lambda>_. True) rs (ret + 1), sv))))"
  by (simp_all add: sample_progs_def program_def builtins_def sample_methods_def cstr_def)

lemma sample_talk_ok: "session_ok 1 1 sample_talk" "session_depth sample_talk = 1"
  by (simp_all add: sample_talk_def sample_version_def sendable_def readable_def frame_ok_def ARPC_MAX_FRAME_def request_json_def cb_json_def
      i64_range_def LLONG_MAX_def AJ_MAX_DEPTH_def ARPC_RET_KEY_def str_text_def esc_char_def int_text_def rev_digits.simps cstr_def)

lemma sample_talk_made:
  "makes fst snd (\<lambda>_. ()) sample_progs (cview (\<lambda>_. ()) sample_caller_side) (sample_ask ''work'' 0) sample_talk 18 (cview (\<lambda>_. ()) sample_caller_side)"
proof -
  have ask: "makes fst snd (\<lambda>_. ()) sample_progs a (sample_ask m extra) (Request m [] es (Result [(ARPC_RET_KEY, JNum r)]) Over) (r + extra) b"
    if "takes fst snd (\<lambda>_. ()) sample_progs a es b" for a b m es r extra
    unfolding sample_ask_def by (rule makes_Call [OF that]) (auto simp: told_def result_values(1) num_or_def intro: makes_Return)
  have regs: "fst (cview (\<lambda>_. ()) sample_caller_side) = [\<lparr>c_handle = 5, c_fn = [9], c_ctx = [8]\<rparr>]"
    by (simp add: cview_def sample_caller_side_def)
  have cb: "takes fst snd (\<lambda>_. ()) sample_progs (cview (\<lambda>_. ()) sample_caller_side)
      (Event ''log'' 5 JNull (Request ''alpm_version'' [] Replied sample_version Over) 17 Replied) (cview (\<lambda>_. ()) sample_caller_side)"
    by (rule takes_Run [OF sample_found(1) _ _ takes_Replied])
      (use ask [OF takes_Replied, where m = "''alpm_version''" and r = 7 and extra = 10] in
        \<open>auto simp: sample_version_def regs arpc_cb_fn_def arpc_cb_ctx_def reg_for_c_def slot_ok_def ARPC_CB_SLOTS_def\<close>)
  from ask [OF cb, where m = "''work''" and r = 18 and extra = 0] show ?thesis by (simp add: sample_talk_def)
qed

lemma sample_talk_served:
  "serves fst (\<lambda>w. fst (snd w)) (\<lambda>_. ()) sample_env sample_methods (sview (\<lambda>_. ()) sample_server_side) sample_talk (sview (\<lambda>_. ()) sample_server_side)"
proof -
  let ?a = "sview (\<lambda>_. ()) sample_server_side"
  have fin: "plays fst (\<lambda>w. fst (snd w)) (\<lambda>_. ()) sample_env sample_methods rq (Result [(ARPC_RET_KEY, JNum v)]) a
      (Finish (\<lambda>rq rs sv. Some (0, rq, arpc_ret_i64 (\<lambda>_. True) rs v, sv))) Replied a" if "i64_range v" for rq v and a
    by (rule plays_Finish) (auto simp: off_pipe_def pipe_alone_def intro!: ends_withI ready_i64 that)
  have r: "i64_range 7" "i64_range 18" by (simp_all add: i64_range_def LLONG_MAX_def)
  have h: "sample_handler = (\<lambda>rq rs sv. Some (0, rq, arpc_ret_i64 (\<lambda>_. True) rs 7, sv))" by (simp add: fun_eq_iff sample_handler_def)
  have pv: "plays fst (\<lambda>w. fst (snd w)) (\<lambda>_. ()) sample_env sample_methods rq sample_version ?a (Finish sample_handler) Replied ?a" for rq
    unfolding sample_version_def h by (rule fin [OF r(1)])
  have "serves fst (\<lambda>w. fst (snd w)) (\<lambda>_. ()) sample_env sample_methods ?a (Request ''alpm_version'' [] Replied sample_version Over) ?a"
    by (rule serves_Request [OF _ _ serves_Over])
      (use pv sample_found(2) in \<open>auto simp: cstr_def\<close>)
  from plays_Send [where kind = 0 and base = sample_env, OF _ _ this] fin [OF r(2)]
  have w: "plays fst (\<lambda>w. fst (snd w)) (\<lambda>_. ()) sample_env sample_methods rq (Result [(ARPC_RET_KEY, JNum 18)]) ?a
      (Send 0 5 None 0 (\<lambda>ret. Finish (\<lambda>rq rs sv. Some (0, rq, arpc_ret_i64 (\<lambda>_. True) rs (ret + 1), sv))))
      (Event ''log'' 5 JNull (Request ''alpm_version'' [] Replied sample_version Over) 17 Replied) ?a" for rq
    by (auto simp: sample_env_def args_value_def)
  show ?thesis unfolding sample_talk_def
    by (rule serves_Request [OF _ _ serves_Over]) (use w sample_found(3) in \<open>auto simp: cstr_def\<close>)
qed

theorem conversation_agrees_witness:
  "(\<exists>cl'. run_caller sample_client (disp_of 1 sample_client sample_progs) (sample_ask ''work'' 0) sample_caller_side = Some (18, cl') \<and>
      snd (cl_ext cl') = fst (sv_ext sample_server_side)) \<and>
   (\<exists>sv'. serve_connection (\<lambda>_. True) sample_pipe (env_of 1 sample_pipe sample_env sample_methods) sample_server_side = Some sv' \<and>
      sv_seq sv' = 2 \<and> fst (snd (sv_ext sv')) = fst (cl_ext sample_caller_side))"
proof -
  have s: "sample_server_side\<lparr>sv_win32 := False\<rparr> = sample_server_side" by (simp add: sample_server_side_def server_init_def)
  have c: "cl_pipe sample_caller_side = Some ()" "cl_next_id sample_caller_side = 1" "sv_seq sample_server_side = 1" "hinv (sv_tab sample_server_side)"
      "fst (cl_ext sample_caller_side) = downs (session_lines 1 1 sample_talk)" "snd (cl_ext sample_caller_side) = []"
      "fst (sv_ext sample_server_side) = ups (session_lines 1 1 sample_talk)" "fst (snd (sv_ext sample_server_side)) = []"
    by (simp_all add: sample_caller_side_def sample_server_side_def client_init_def server_init_def hinv_init)
  have n: "session_depth sample_talk \<le> 1" "session_cbs sample_talk = 1" using sample_talk_ok(2) by (simp_all add: sample_talk_def)
  from conversation_agrees [OF sample_lines(1) c(1) sample_talk_made sample_lines(2,3,4) c(4), unfolded s c(2,3),
      OF sample_talk_served sample_talk_ok(1) n(1) c(5,7)]
  show ?thesis by (simp add: c n(2)) blast
qed

text \<open>
  C30. Registering a callback, or taking one back, keeps the two registries in step: the server sends
  exactly the callbacks the client has a function for, for every handle and every kind. The request the
  client sends is one the server grants for a live handle, what installing the trampoline returned is
  what the caller gets, and from then on the slot has the caller's function and its context.
\<close>

theorem registration_agrees:
  fixes fn ctx :: "64 word"
  assumes "client_pipe env p inp outp" and "cl_pipe cl = Some p" and "i64_range (cl_next_id cl)" and "cregs_ok (cl_regs cl)"
    and "hinv (sv_tab sv)" and "regs_ok (sv_regs sv)" and "in_step (cl_regs cl) (sv_regs sv)"
    and "distinct (map fst (e_kinds senv))" and "kinds_ok (e_kinds senv)" and "k < length (e_kinds senv)" and "k < ARPC_CB_SLOTS"
    and "fst (e_kinds senv ! k) = wire" and "is_cstr wire" and "length wire \<le> 1000"
    and "arg_pointer (sv_tab sv) (e_handle senv) handle \<noteq> 0"
  shows "\<exists>v sv'. arpc_handle_frame (\<lambda>_. True) senv
        (json_text (request_json (cl_next_id cl) ''arpc.set_callback'' (register_ops handle wire (fn \<noteq> 0)))) sv =
      Some (Some (reply_text (cl_next_id cl) (Result [(ARPC_RET_KEY, JNum v)])), sv') \<and>
    (\<exists>w. v = fst (snd (e_kinds senv ! k) (arg_pointer (sv_tab sv) (e_handle senv) handle) (of_bool (fn \<noteq> 0)) handle w)) \<and>
    hinv (sv_tab sv') \<and> regs_ok (sv_regs sv') \<and>
    (inp (cl_ext cl) = sent_text (reply_text (cl_next_id cl) (Result [(ARPC_RET_KEY, JNum v)])) @ rest \<longrightarrow>
      (\<exists>cl'. arpc_cb_register (\<lambda>_. True) env dispatch handle (int k) wire fn ctx cl = Some (signed_take_bit 31 v, cl') \<and>
        outp (cl_ext cl') = outp (cl_ext cl) @
          sent_text (json_text (request_json (cl_next_id cl) ''arpc.set_callback'' (register_ops handle wire (fn \<noteq> 0)))) \<and>
        inp (cl_ext cl') = rest \<and> cregs_ok (cl_regs cl') \<and> in_step (cl_regs cl') (sv_regs sv') \<and>
        arpc_cb_fn (\<lambda>_. True) (cl_regs cl') handle (int k) = fn \<and> arpc_cb_ctx (\<lambda>_. True) (cl_regs cl') handle (int k) = ctx))"
proof -
  obtain v sv' where s: "arpc_handle_frame (\<lambda>_. True) senv
        (json_text (request_json (cl_next_id cl) ''arpc.set_callback'' (register_ops handle wire (fn \<noteq> 0)))) sv =
      Some (Some (reply_text (cl_next_id cl) (Result [(ARPC_RET_KEY, JNum v)])), sv')" "i64_range v"
      "\<exists>w. v = fst (snd (e_kinds senv ! k) (arg_pointer (sv_tab sv) (e_handle senv) handle) (of_bool (fn \<noteq> 0)) handle w)"
      "hinv (sv_tab sv')" "regs_ok (sv_regs sv')"
      "\<And>h j. j < ARPC_CB_SLOTS \<Longrightarrow> arpc_cb_wanted (\<lambda>_. True) (sv_regs sv') h j =
         (if h = handle \<and> j = k then fn \<noteq> 0 else arpc_cb_wanted (\<lambda>_. True) (sv_regs sv) h j)"
    using registration_served [where on = "fn \<noteq> 0", OF assms(5,6,3,8-15)] by blast
  note c = registration_made [where fn = fn and ctx = ctx and alloc = "\<lambda>_. True" and dispatch = dispatch, OF assms(1-4,11,13,14) s(2)]
  show ?thesis
    by (intro exI [of _ v] exI [of _ sv'] conjI s(1,3,4,5) impI, drule c) (use in_step_registered [OF assms(7) _ s(6)] in auto)
qed

theorem registration_agrees_witness:
  "\<exists>hid sv sv' cl'. arpc_handle_frame (\<lambda>_. True) sample_env
       (json_text (request_json 1 ''arpc.set_callback'' (register_ops hid ''log'' True))) sv =
       Some (Some (reply_text 1 (Result [(ARPC_RET_KEY, JNum 0)])), (sv' :: unit server)) \<and>
     arpc_cb_register (\<lambda>_. True) sample_client (arpc_dispatch_callback (\<lambda>_. True) []) hid 0 ''log'' 9 8
       (sample_waiting (reply_text 1 (Result [(ARPC_RET_KEY, JNum 0)]))) = Some (0, cl') \<and> in_step (cl_regs cl') (sv_regs sv')"
proof -
  let ?cl = "sample_waiting (reply_text 1 (Result [(ARPC_RET_KEY, JNum 0)]))"
  obtain hid h s where h: "hinv h" "hview h = [hid \<mapsto> s]" "s_tag s = 1" "s_ptr s = 0x1000" using sample_table by blast
  let ?sv = "(server_init ())\<lparr>sv_tab := h\<rparr>" and ?env = "sample_env :: (unit, unit) server_env"
  have c: "cl_pipe ?cl = Some ()" "i64_range (cl_next_id ?cl)" "cregs_ok (cl_regs ?cl)" "hinv (sv_tab ?sv)" "regs_ok (sv_regs ?sv)"
      "in_step (cl_regs ?cl) (sv_regs ?sv)"
    using h(1) in_step_init by (simp_all add: sample_waiting_def client_init_def server_init_def cregs_ok_def regs_ok_def i64_range_def LLONG_MAX_def)
  have k: "distinct (map fst (e_kinds ?env))" "kinds_ok (e_kinds ?env)" "0 < length (e_kinds ?env)" "0 < ARPC_CB_SLOTS"
      "fst (e_kinds ?env ! 0) = ''log''" "is_cstr ''log''" "length ''log'' \<le> 1000" "e_handle ?env = 1"
    by (simp_all add: sample_env_def kinds_ok_def ARPC_CB_SLOTS_def i64_range_def LLONG_MAX_def)
  have live: "arg_pointer (sv_tab ?sv) (e_handle ?env) hid \<noteq> 0" using h by (simp add: arg_pointer_def k)
  have inst: "fst (snd (e_kinds ?env ! 0) a b d w) = 0" for a b d w by (simp add: sample_env_def)
  have nine: "((9 :: 64 word) \<noteq> 0) = True" by simp
  from registration_agrees [where fn = 9 and ctx = 8 and rest = "[]" and dispatch = "arpc_dispatch_callback (\<lambda>_. True) []",
      OF sample_client_pipe c k(1-7) live] inst
  show ?thesis unfolding nine by (fastforce simp: sample_waiting_def client_init_def)
qed

end
